(* ===== verification/Prelude.thy ===== *)
theory Prelude
  imports Main "HOL-Library.Word" "HOL-Library.List_Lexorder" "HOL-Library.Char_ord"
begin

text \<open>
  Shared vocabulary of the development: the machine integers of the kernel, the
  saturating and checked arithmetic of the Rust standard library, the ordered map
  (\<^verbatim>\<open>alloc::collections::BTreeMap\<close>) as a sorted association list with
  its interface stated as a locale, and the contract "an invariant that every step
  keeps holds in every reachable state".
\<close>

unbundle bit_operations_syntax

section \<open>Machine integers\<close>

type_synonym u8 = "8 word"
type_synonym u16 = "16 word"
type_synonym u32 = "32 word"
type_synonym u64 = "64 word"
type_synonym usize = "64 word"

text \<open>
  \<^verbatim>\<open>saturating_add\<close>, \<^verbatim>\<open>saturating_sub\<close>, \<^verbatim>\<open>saturating_mul\<close> and \<^verbatim>\<open>checked_add\<close> on an unsigned integer of
  any width. Plain \<open>+\<close> on words wraps, as release builds of the kernel do.
\<close>

definition saturating_add :: "'a::len word \<Rightarrow> 'a word \<Rightarrow> 'a word" where
  "saturating_add a b = (if a + b < a then - 1 else a + b)"

definition saturating_sub :: "'a::len word \<Rightarrow> 'a word \<Rightarrow> 'a word" where
  "saturating_sub a b = (if a < b then 0 else a - b)"

definition saturating_mul :: "'a::len word \<Rightarrow> 'a word \<Rightarrow> 'a word" where
  "saturating_mul a b = (if uint a * uint b < 2 ^ LENGTH('a) then a * b else - 1)"

definition checked_add :: "'a::len word \<Rightarrow> 'a word \<Rightarrow> 'a word option" where
  "checked_add a b = (if a + b < a then None else Some (a + b))"

lemma unat_bound: "unat (w :: 'a::len word) < 2 ^ LENGTH('a)"
  by (rule unsigned_less)

lemma add_overflow_iff: "(a :: 'a::len word) + b < a \<longleftrightarrow> 2 ^ LENGTH('a) \<le> unat a + unat b"
  by unat_arith

lemma unat_minus_1: "unat (- 1 :: 'a::len word) = 2 ^ LENGTH('a) - 1"
proof -
  have "uint (- 1 :: 'a word) = 2 ^ LENGTH('a) - 1"
    by (simp add: unsigned_minus_1_eq_mask mask_eq_exp_minus_1)
  then have "int (unat (- 1 :: 'a word)) = int (2 ^ LENGTH('a) - 1)"
    by (simp add: of_nat_diff)
  then show ?thesis by (simp only: of_nat_eq_iff)
qed

lemma unat_saturating_add:
  "unat (saturating_add a (b :: 'a::len word)) = min (unat a + unat b) (2 ^ LENGTH('a) - 1)"
proof (cases "a + b < a")
  case True
  then have "2 ^ LENGTH('a) \<le> unat a + unat b" by (simp add: add_overflow_iff)
  with True show ?thesis by (simp add: saturating_add_def unat_minus_1)
next
  case False
  then have "unat a + unat b < 2 ^ LENGTH('a)" by (simp add: add_overflow_iff)
  with False show ?thesis by (simp add: saturating_add_def unat_word_ariths)
qed

lemma unat_saturating_sub: "unat (saturating_sub a b) = unat a - unat b"
  by (simp add: saturating_sub_def unat_sub word_less_nat_alt word_le_nat_alt)

lemma checked_add_Some_iff:
  "checked_add a b = Some c \<longleftrightarrow> unat a + unat b < 2 ^ LENGTH('a) \<and> c = a + b"
  for a b c :: "'a::len word"
  by (auto simp: checked_add_def add_overflow_iff)

lemma checked_add_None_iff:
  "checked_add a b = None \<longleftrightarrow> 2 ^ LENGTH('a) \<le> unat a + unat b" for a b :: "'a::len word"
  by (simp add: checked_add_def add_overflow_iff)

lemma unat_plus_no_overflow:
  "unat a + unat b < 2 ^ LENGTH('a) \<Longrightarrow> unat (a + b) = unat a + unat b" for a b :: "'a::len word"
  by (simp add: unat_word_ariths)

lemma less_max_word_suc: "a < - 1 \<Longrightarrow> a < a + 1 \<and> unat (a + 1) = Suc (unat a)"
  for a :: "'a::len word"
  by unat_arith

section \<open>Panics\<close>

text \<open>
  The kernel is built with \<^verbatim>\<open>panic = "abort"\<close>: an index out of range, an \<^verbatim>\<open>unwrap\<close> of
  \<^verbatim>\<open>None\<close> or a failed constructor check ends the run. An operation whose source can
  panic returns a value of this type.
\<close>

datatype 'a rust = Ret 'a | Panic

fun rust_bind :: "'a rust \<Rightarrow> ('a \<Rightarrow> 'b rust) \<Rightarrow> 'b rust" where
  "rust_bind (Ret x) f = f x"
| "rust_bind Panic f = Panic"

text \<open>The question mark on a \<^verbatim>\<open>Result\<close>.\<close>

definition sum_bind :: "'e + 'a \<Rightarrow> ('a \<Rightarrow> 'e + 'b) \<Rightarrow> 'e + 'b" where
  "sum_bind r f = (case r of Inl e \<Rightarrow> Inl e | Inr x \<Rightarrow> f x)"

lemma rust_bind_Ret_iff: "rust_bind r f = Ret y \<longleftrightarrow> (\<exists>x. r = Ret x \<and> f x = Ret y)"
  by (cases r) auto

lemma rust_bind_assoc: "rust_bind (rust_bind r f) g = rust_bind r (\<lambda>x. rust_bind (f x) g)"
  by (cases r) auto

section \<open>Ordered maps\<close>

text \<open>
  \<^verbatim>\<open>BTreeMap<K, V>\<close>: an association list kept sorted by key, so that iteration
  (\<^verbatim>\<open>iter\<close>, \<^verbatim>\<open>keys\<close>, \<^verbatim>\<open>retain\<close>) sees the entries in key order.
\<close>

type_synonym ('k, 'v) btree = "('k \<times> 'v) list"

definition bt_empty :: "('k, 'v) btree" where
  "bt_empty = []"

definition bt_get :: "('k, 'v) btree \<Rightarrow> 'k \<Rightarrow> 'v option" where
  "bt_get m k = map_of m k"

fun bt_insert :: "'k::linorder \<Rightarrow> 'v \<Rightarrow> ('k, 'v) btree \<Rightarrow> ('k, 'v) btree" where
  "bt_insert k v [] = [(k, v)]"
| "bt_insert k v ((k', v') # m) =
     (if k < k' then (k, v) # (k', v') # m
      else if k = k' then (k, v) # m
      else (k', v') # bt_insert k v m)"

definition bt_remove :: "'k \<Rightarrow> ('k, 'v) btree \<Rightarrow> ('k, 'v) btree" where
  "bt_remove k m = filter (\<lambda>e. fst e \<noteq> k) m"

definition bt_retain :: "('k \<Rightarrow> 'v \<Rightarrow> bool) \<Rightarrow> ('k, 'v) btree \<Rightarrow> ('k, 'v) btree" where
  "bt_retain P m = filter (\<lambda>e. P (fst e) (snd e)) m"

definition bt_keys :: "('k, 'v) btree \<Rightarrow> 'k list" where
  "bt_keys m = map fst m"

text \<open>\<^verbatim>\<open>get_mut\<close> followed by an assignment through the reference.\<close>

definition bt_modify :: "'k::linorder \<Rightarrow> ('v \<Rightarrow> 'v) \<Rightarrow> ('k, 'v) btree \<Rightarrow> ('k, 'v) btree" where
  "bt_modify k f m = (case bt_get m k of None \<Rightarrow> m | Some v \<Rightarrow> bt_insert k (f v) m)"

definition bt_ok :: "('k::linorder, 'v) btree \<Rightarrow> bool" where
  "bt_ok m \<longleftrightarrow> sorted_wrt (<) (map fst m)"

lemma bt_get_empty [simp]: "bt_get bt_empty k = None"
  by (simp add: bt_get_def bt_empty_def)

lemma bt_get_Nil [simp]: "bt_get [] k = None"
  by (simp add: bt_get_def)

lemma bt_get_insert [simp]:
  "bt_get (bt_insert k v m) k' = (if k' = k then Some v else bt_get m k')"
  by (induction k v m rule: bt_insert.induct) (auto simp: bt_get_def)

lemma bt_get_remove [simp]:
  "bt_get (bt_remove k m) k' = (if k' = k then None else bt_get m k')"
  by (induction m) (auto simp: bt_get_def bt_remove_def)

lemma bt_get_modify:
  "bt_get (bt_modify k f m) k' = (if k' = k then map_option f (bt_get m k) else bt_get m k')"
  by (auto simp: bt_modify_def split: option.splits)

lemma bt_keys_insert_set: "set (bt_keys (bt_insert k v m)) = insert k (set (bt_keys m))"
  by (induction k v m rule: bt_insert.induct) (auto simp: bt_keys_def)

lemma set_bt_insert: "set (bt_insert k v m) \<subseteq> insert (k, v) (set m)"
  by (induction k v m rule: bt_insert.induct) auto

lemma bt_ok_empty [simp]: "bt_ok bt_empty" "bt_ok []"
  by (simp_all add: bt_ok_def bt_empty_def)

lemma bt_ok_insert [simp]: "bt_ok m \<Longrightarrow> bt_ok (bt_insert k v m)"
proof (induction k v m rule: bt_insert.induct)
  case (2 k v k' v' m)
  then show ?case
    using bt_keys_insert_set [of k v m]
    by (auto simp: bt_ok_def bt_keys_def)
qed (simp add: bt_ok_def)

lemma bt_ok_filter: "bt_ok m \<Longrightarrow> bt_ok (filter P m)"
  by (induction m) (auto simp: bt_ok_def)

lemma bt_ok_remove [simp]: "bt_ok m \<Longrightarrow> bt_ok (bt_remove k m)"
  by (simp add: bt_remove_def bt_ok_filter)

lemma bt_ok_retain [simp]: "bt_ok m \<Longrightarrow> bt_ok (bt_retain P m)"
  by (simp add: bt_retain_def bt_ok_filter)

lemma bt_ok_modify [simp]: "bt_ok m \<Longrightarrow> bt_ok (bt_modify k f m)"
  by (simp add: bt_modify_def split: option.split)

lemma bt_ok_distinct: "bt_ok m \<Longrightarrow> distinct (map fst m)"
  by (auto simp: bt_ok_def strict_sorted_iff)

lemma bt_get_set: "bt_ok m \<Longrightarrow> bt_get m k = Some v \<longleftrightarrow> (k, v) \<in> set m"
  by (simp add: bt_get_def bt_ok_distinct)

lemma bt_get_mem: "bt_get m k = Some v \<Longrightarrow> (k, v) \<in> set m"
  by (simp add: bt_get_def map_of_SomeD)

lemma bt_get_keys: "bt_get m k \<noteq> None \<longleftrightarrow> k \<in> set (bt_keys m)"
  by (auto simp: bt_get_def bt_keys_def dom_map_of_conv_image_fst [symmetric])

lemma bt_get_filter:
  "bt_ok m \<Longrightarrow> bt_get (filter (\<lambda>e. P (fst e) (snd e)) m) k
     = (case bt_get m k of None \<Rightarrow> None | Some v \<Rightarrow> if P k v then Some v else None)"
proof (induction m)
  case (Cons e m)
  obtain k' v' where e: "e = (k', v')" by (cases e)
  from Cons.prems have fresh: "k' \<notin> fst ` set m" and "bt_ok m"
    by (auto simp: bt_ok_def e)
  then have "bt_get m k' = None"
    by (simp add: bt_get_def map_of_eq_None_iff)
  with Cons.IH [OF \<open>bt_ok m\<close>] show ?case
    by (auto simp: e bt_get_def split: option.splits)
qed simp

lemma bt_get_retain:
  "bt_ok m \<Longrightarrow> bt_get (bt_retain P m) k
     = (case bt_get m k of None \<Rightarrow> None | Some v \<Rightarrow> if P k v then Some v else None)"
  by (simp add: bt_retain_def bt_get_filter)

text \<open>Counting over an ordered map: what an insertion and a removal do to a sum of the entries.\<close>

definition bt_sum :: "('k \<Rightarrow> 'v \<Rightarrow> nat) \<Rightarrow> ('k, 'v) btree \<Rightarrow> nat" where
  "bt_sum g m = (\<Sum>e\<leftarrow>m. g (fst e) (snd e))"

lemma bt_sum_insert_new:
  "bt_get m k = None \<Longrightarrow> bt_sum g (bt_insert k v m) = g k v + bt_sum g m"
  by (induction k v m rule: bt_insert.induct)
    (auto simp: bt_sum_def bt_get_def split: if_splits)

lemma bt_sum_insert_old:
  "bt_ok m \<Longrightarrow> bt_get m k = Some v0 \<Longrightarrow>
     bt_sum g (bt_insert k v m) + g k v0 = bt_sum g m + g k v"
proof (induction k v m rule: bt_insert.induct)
  case (2 k v k' v' m)
  show ?case
  proof (cases "k < k'")
    case True
    with "2.prems" have "k \<noteq> k'" and "\<forall>x\<in>fst ` set m. k < x"
      by (auto simp: bt_ok_def)
    then have "bt_get ((k', v') # m) k = None"
      by (auto simp: bt_get_def map_of_eq_None_iff)
    with "2.prems" show ?thesis by simp
  next
    case False
    with 2 show ?thesis by (auto simp: bt_sum_def bt_get_def bt_ok_def split: if_splits)
  qed
qed simp

lemma bt_remove_absent: "bt_get m k = None \<Longrightarrow> bt_remove k m = m"
  by (induction m) (auto simp: bt_get_def bt_remove_def split: if_splits)

lemma bt_sum_remove:
  "bt_ok m \<Longrightarrow> bt_get m k = Some v \<Longrightarrow> bt_sum g (bt_remove k m) + g k v = bt_sum g m"
proof (induction m)
  case (Cons e m)
  obtain k' v' where e: "e = (k', v')" by (cases e)
  from Cons.prems(1) have fresh: "k' \<notin> fst ` set m" and ok: "bt_ok m"
    by (auto simp: bt_ok_def e)
  show ?case
  proof (cases "k = k'")
    case True
    from fresh have "bt_get m k' = None" by (simp add: bt_get_def map_of_eq_None_iff)
    then have "bt_remove k' m = m" by (rule bt_remove_absent)
    with True Cons.prems(2) show ?thesis
      by (simp add: e bt_get_def bt_remove_def bt_sum_def)
  next
    case False
    with Cons.prems(2) have "bt_get m k = Some v" by (simp add: e bt_get_def)
    from Cons.IH [OF ok this] False show ?thesis
      by (simp add: e bt_remove_def bt_sum_def)
  qed
qed simp

lemma length_bt_sum: "length m = bt_sum (\<lambda>_ _. 1) m"
  by (induction m) (auto simp: bt_sum_def)

lemma length_bt_insert_le: "length (bt_insert k v m) \<le> Suc (length m)"
  by (induction k v m rule: bt_insert.induct) auto

lemma length_bt_insert_old:
  assumes "bt_ok m" and "bt_get m k \<noteq> None"
  shows "length (bt_insert k v m) = length m"
proof -
  from assms(2) obtain v0 where "bt_get m k = Some v0" by auto
  from bt_sum_insert_old [OF assms(1) this, of "\<lambda>_ _. 1" v] show ?thesis
    by (simp add: length_bt_sum)
qed

text \<open>A function applied to every value: abstraction functions of tables are of this form.\<close>

definition bt_map :: "('v \<Rightarrow> 'w) \<Rightarrow> ('k, 'v) btree \<Rightarrow> ('k, 'w) btree" where
  "bt_map f m = map (\<lambda>e. (fst e, f (snd e))) m"

lemma bt_get_map: "bt_get (bt_map f m) k = map_option f (bt_get m k)"
  by (induction m) (auto simp: bt_map_def bt_get_def)

lemma bt_map_insert: "bt_map f (bt_insert k v m) = bt_insert k (f v) (bt_map f m)"
  by (induction k v m rule: bt_insert.induct) (auto simp: bt_map_def)

lemma bt_map_remove: "bt_map f (bt_remove k m) = bt_remove k (bt_map f m)"
  by (induction m) (auto simp: bt_map_def bt_remove_def)

lemma bt_map_filter:
  "bt_map f (filter (\<lambda>e. P (fst e) (f (snd e))) m) = filter (\<lambda>e. P (fst e) (snd e)) (bt_map f m)"
  by (induction m) (auto simp: bt_map_def)

subsection \<open>The interface of an ordered map\<close>

text \<open>
  What the kernel's components rely on when they keep state in a \<^verbatim>\<open>BTreeMap\<close>. The
  lemmas of the locale are stated once for any implementation; the interpretation
  discharges the laws for the association lists above.
\<close>

locale ordered_map =
  fixes empty :: 'm
    and get :: "'m \<Rightarrow> 'k::linorder \<Rightarrow> 'v option"
    and insert :: "'k \<Rightarrow> 'v \<Rightarrow> 'm \<Rightarrow> 'm"
    and remove :: "'k \<Rightarrow> 'm \<Rightarrow> 'm"
    and keys :: "'m \<Rightarrow> 'k list"
    and invar :: "'m \<Rightarrow> bool"
  assumes get_empty: "get empty k = None"
    and get_insert: "get (insert k v m) k' = (if k' = k then Some v else get m k')"
    and get_remove: "get (remove k m) k' = (if k' = k then None else get m k')"
    and keys_get: "k \<in> set (keys m) \<longleftrightarrow> get m k \<noteq> None"
    and keys_sorted: "invar m \<Longrightarrow> sorted (keys m) \<and> distinct (keys m)"
    and invar_empty: "invar empty"
    and invar_insert: "invar m \<Longrightarrow> invar (insert k v m)"
    and invar_remove: "invar m \<Longrightarrow> invar (remove k m)"
begin

lemma keys_insert: "invar m \<Longrightarrow> set (keys (insert k v m)) = Set.insert k (set (keys m))"
  by (auto simp: keys_get get_insert split: if_splits)

lemma keys_remove: "set (keys (remove k m)) = set (keys m) - {k}"
  by (auto simp: keys_get get_remove split: if_splits)

lemma insert_remove_get: "get m k = None \<Longrightarrow> get (remove k (insert k v m)) = get m"
  by (auto simp: get_insert get_remove fun_eq_iff)

lemma fold_remove_get:
  "get (fold remove ks m) k = (if k \<in> set ks then None else get m k)"
  by (induction ks arbitrary: m) (auto simp: get_remove)

lemma fold_remove_invar: "invar m \<Longrightarrow> invar (fold remove ks m)"
  by (induction ks arbitrary: m) (auto simp: invar_remove)

lemma keys_eq_iff_dom:
  "invar m \<Longrightarrow> invar m' \<Longrightarrow> (keys m = keys m') \<longleftrightarrow> dom (get m) = dom (get m')"
proof -
  assume inv: "invar m" "invar m'"
  from inv have "(keys m = keys m') \<longleftrightarrow> set (keys m) = set (keys m')"
    by (metis keys_sorted sorted_distinct_set_unique)
  moreover have "set (keys x) = dom (get x)" for x
    by (auto simp: keys_get simp del: not_None_eq)
  ultimately show ?thesis by simp
qed

end

interpretation bt: ordered_map bt_empty bt_get bt_insert bt_remove bt_keys bt_ok
proof (unfold_locales, goal_cases)
  case (4 k m)
  then show ?case by (simp only: bt_get_keys)
next
  case (5 m)
  then show ?case by (simp add: bt_ok_def bt_keys_def strict_sorted_iff)
qed simp_all

section \<open>Invariants of transition systems\<close>

text \<open>
  A component whose operations are steps \<open>step s t\<close> of a relation on its states. An
  interpretation proves the two laws for one component, and gives its invariant in
  every state reachable from an initial one.
\<close>

locale inductive_invariant =
  fixes init :: "'s \<Rightarrow> bool"
    and step :: "'s \<Rightarrow> 's \<Rightarrow> bool"
    and inv :: "'s \<Rightarrow> bool"
  assumes init_inv: "init s \<Longrightarrow> inv s"
    and step_inv: "step s t \<Longrightarrow> inv s \<Longrightarrow> inv t"
begin

lemma steps_inv: "rtranclp step s t \<Longrightarrow> inv s \<Longrightarrow> inv t"
  by (induction rule: rtranclp_induct) (auto intro: step_inv)

lemma reachable_inv: "init s \<Longrightarrow> rtranclp step s t \<Longrightarrow> inv t"
  by (blast intro: steps_inv init_inv)

end

section \<open>Lemma collections\<close>

named_theorems table_defs "definitions of the table operations of a component"
named_theorems step_defs "definitions of the operations that change a component's state"

end
