(* ===== verification/Capability.thy ===== *)
theory Capability
  imports Prelude
begin

text \<open>
  The capability tokens of the kernel (\<^verbatim>\<open>kernel/src/capability.rs\<close>): the rights bitset, the
  seventeen capability flavours, the per-task capability table and the derivation rule
  that decides which capability may be granted from which.
\<close>

section \<open>Rights\<close>

datatype Rights = Rights (rights_bits: u32)

definition Rights_NONE :: Rights where "Rights_NONE = Rights 0"
definition Rights_READ :: Rights where "Rights_READ = Rights (push_bit 0 1)"
definition Rights_WRITE :: Rights where "Rights_WRITE = Rights (push_bit 1 1)"
definition Rights_EXEC :: Rights where "Rights_EXEC = Rights (push_bit 2 1)"
definition Rights_MAP :: Rights where "Rights_MAP = Rights (push_bit 3 1)"
definition Rights_WAIT :: Rights where "Rights_WAIT = Rights (push_bit 4 1)"
definition Rights_GRANT :: Rights where "Rights_GRANT = Rights (push_bit 5 1)"
definition Rights_REVOKE :: Rights where "Rights_REVOKE = Rights (push_bit 6 1)"
definition Rights_ALL :: Rights where "Rights_ALL = Rights 0x7F"

definition from_bits_truncate :: "u32 \<Rightarrow> Rights" where
  "from_bits_truncate b = Rights (b AND rights_bits Rights_ALL)"

definition contains :: "Rights \<Rightarrow> Rights \<Rightarrow> bool" where
  "contains self other \<longleftrightarrow> rights_bits self AND rights_bits other = rights_bits other"

definition is_subset_of :: "Rights \<Rightarrow> Rights \<Rightarrow> bool" where
  "is_subset_of self other \<longleftrightarrow> rights_bits self AND NOT (rights_bits other) = 0"

definition rights_bitor :: "Rights \<Rightarrow> Rights \<Rightarrow> Rights" where
  "rights_bitor self rhs = Rights (rights_bits self OR rights_bits rhs)"

definition rights_bitand :: "Rights \<Rightarrow> Rights \<Rightarrow> Rights" where
  "rights_bitand self rhs = Rights (rights_bits self AND rights_bits rhs)"

lemmas rights_consts = Rights_NONE_def Rights_READ_def Rights_WRITE_def Rights_EXEC_def
  Rights_MAP_def Rights_WAIT_def Rights_GRANT_def Rights_REVOKE_def Rights_ALL_def

section \<open>Capabilities\<close>

datatype Cap =
    Channel u32 Rights           \<comment> \<open>\<open>chan_id\<close>\<close>
  | Mmio u64 usize Rights        \<comment> \<open>\<open>start_phys\<close>, \<open>len\<close>\<close>
  | Irq u8 Rights                \<comment> \<open>\<open>vector\<close>\<close>
  | Port u16 u16 Rights          \<comment> \<open>\<open>base\<close>, \<open>count\<close>\<close>
  | Filesystem u64 Rights        \<comment> \<open>\<open>root_inode\<close>\<close>
  | Network u16 u16 Rights       \<comment> \<open>\<open>port_range_start\<close>, \<open>port_range_end\<close>\<close>
  | Gpu u32 Rights               \<comment> \<open>\<open>device_id\<close>\<close>
  | Audio u32 Rights             \<comment> \<open>\<open>device_id\<close>\<close>
  | Camera u32 Rights            \<comment> \<open>\<open>device_id\<close>\<close>
  | Process u64 Rights           \<comment> \<open>\<open>target_pid\<close>\<close>
  | CryptoKey u64 Rights         \<comment> \<open>\<open>key_id\<close>\<close>
  | Hypervisor u64 Rights        \<comment> \<open>\<open>vm_id\<close>\<close>
  | Attestation u64 Rights       \<comment> \<open>\<open>session_id\<close>\<close>
  | Debug u32 Rights             \<comment> \<open>\<open>scope\<close>\<close>
  | System Rights
  | ScreenCapture Rights
  | Accessibility Rights

fun cap_rights :: "Cap \<Rightarrow> Rights" where
  "cap_rights (Channel _ r) = r"
| "cap_rights (Mmio _ _ r) = r"
| "cap_rights (Irq _ r) = r"
| "cap_rights (Port _ _ r) = r"
| "cap_rights (Filesystem _ r) = r"
| "cap_rights (Network _ _ r) = r"
| "cap_rights (Gpu _ r) = r"
| "cap_rights (Audio _ r) = r"
| "cap_rights (Camera _ r) = r"
| "cap_rights (Process _ r) = r"
| "cap_rights (CryptoKey _ r) = r"
| "cap_rights (Hypervisor _ r) = r"
| "cap_rights (Attestation _ r) = r"
| "cap_rights (Debug _ r) = r"
| "cap_rights (System r) = r"
| "cap_rights (ScreenCapture r) = r"
| "cap_rights (Accessibility r) = r"

fun flavor_id :: "Cap \<Rightarrow> u32" where
  "flavor_id (Channel _ _) = 1"
| "flavor_id (Mmio _ _ _) = 2"
| "flavor_id (Irq _ _) = 3"
| "flavor_id (Port _ _ _) = 4"
| "flavor_id (Filesystem _ _) = 5"
| "flavor_id (Network _ _ _) = 6"
| "flavor_id (Gpu _ _) = 7"
| "flavor_id (Audio _ _) = 8"
| "flavor_id (Camera _ _) = 9"
| "flavor_id (Process _ _) = 10"
| "flavor_id (CryptoKey _ _) = 11"
| "flavor_id (Hypervisor _ _) = 12"
| "flavor_id (Attestation _ _) = 13"
| "flavor_id (Debug _ _) = 14"
| "flavor_id (System _) = 15"
| "flavor_id (ScreenCapture _) = 16"
| "flavor_id (Accessibility _) = 17"

section \<open>Handles and the per-task table\<close>

datatype CapHandle = CapHandle (handle_raw: u64)

text \<open>The order \<^verbatim>\<open>#[derive(Ord)]\<close> gives the handles: that of the number inside.\<close>

instantiation CapHandle :: linorder
begin

definition less_eq_CapHandle :: "CapHandle \<Rightarrow> CapHandle \<Rightarrow> bool" where
  "less_eq_CapHandle a b \<longleftrightarrow> handle_raw a \<le> handle_raw b"

definition less_CapHandle :: "CapHandle \<Rightarrow> CapHandle \<Rightarrow> bool" where
  "less_CapHandle a b \<longleftrightarrow> handle_raw a < handle_raw b"

instance
  by standard (auto simp: less_eq_CapHandle_def less_CapHandle_def CapHandle.expand)

end

datatype TaskId = TaskId (task_raw: u64)

record GrantRecord =
  granter_task :: TaskId
  granter_handle :: CapHandle

record CapTable =
  slots :: "(CapHandle, Cap) btree"
  parents :: "(CapHandle, GrantRecord) btree"
  next_handle :: u64

definition cap_table_new :: CapTable where
  "cap_table_new = \<lparr>slots = bt_empty, parents = bt_empty, next_handle = 1\<rparr>"

definition insert_root :: "Cap \<Rightarrow> CapTable \<Rightarrow> CapHandle \<times> CapTable" where
  "insert_root cap t =
     (let h = CapHandle (next_handle t)
      in (h, t\<lparr>next_handle := next_handle t + 1, slots := bt_insert h cap (slots t)\<rparr>))"

definition insert_derived :: "Cap \<Rightarrow> GrantRecord \<Rightarrow> CapTable \<Rightarrow> CapHandle \<times> CapTable" where
  "insert_derived cap parent t =
     (let (h, t') = insert_root cap t
      in (h, t'\<lparr>parents := bt_insert h parent (parents t')\<rparr>))"

definition cap_get :: "CapTable \<Rightarrow> CapHandle \<Rightarrow> Cap option" where
  "cap_get t h = bt_get (slots t) h"

definition parent_of :: "CapTable \<Rightarrow> CapHandle \<Rightarrow> GrantRecord option" where
  "parent_of t h = bt_get (parents t) h"

definition cap_remove :: "CapHandle \<Rightarrow> CapTable \<Rightarrow> Cap option \<times> CapTable" where
  "cap_remove h t =
     (let t' = t\<lparr>parents := bt_remove h (parents t)\<rparr>
      in (bt_get (slots t') h, t'\<lparr>slots := bt_remove h (slots t')\<rparr>))"

definition cap_iter :: "CapTable \<Rightarrow> (CapHandle \<times> Cap) list" where
  "cap_iter t = slots t"

definition iter_parents :: "CapTable \<Rightarrow> (CapHandle \<times> GrantRecord) list" where
  "iter_parents t = parents t"

definition cap_len :: "CapTable \<Rightarrow> nat" where
  "cap_len t = length (slots t)"

lemmas [table_defs] = insert_root_def insert_derived_def cap_get_def parent_of_def
  cap_remove_def cap_iter_def iter_parents_def cap_table_new_def Let_def

section \<open>Errors\<close>

datatype CapError = NoSuchHandle | InsufficientRights | InvalidDerivation | NoSuchTask | WrongFlavor

definition E_NO_HANDLE :: u64 where "E_NO_HANDLE = - 1 - 1"
definition E_RIGHTS :: u64 where "E_RIGHTS = - 1 - 2"
definition E_INVALID_DERIVE :: u64 where "E_INVALID_DERIVE = - 1 - 3"
definition E_NO_TASK :: u64 where "E_NO_TASK = - 1 - 4"
definition E_WRONG_FLAVOR :: u64 where "E_WRONG_FLAVOR = - 1 - 5"
definition E_INVAL :: u64 where "E_INVAL = - 1 - 6"

fun as_u64 :: "CapError \<Rightarrow> u64" where
  "as_u64 NoSuchHandle = E_NO_HANDLE"
| "as_u64 InsufficientRights = E_RIGHTS"
| "as_u64 InvalidDerivation = E_INVALID_DERIVE"
| "as_u64 NoSuchTask = E_NO_TASK"
| "as_u64 WrongFlavor = E_WRONG_FLAVOR"

lemmas error_codes = E_NO_HANDLE_def E_RIGHTS_def E_INVALID_DERIVE_def E_NO_TASK_def
  E_WRONG_FLAVOR_def E_INVAL_def

section \<open>The derivation rule\<close>

definition is_valid_derivation :: "Cap \<Rightarrow> Cap \<Rightarrow> bool" where
  "is_valid_derivation parent child =
     (case parent of
        Channel a ra \<Rightarrow> (case child of Channel b rb \<Rightarrow> a = b \<and> is_subset_of rb ra | _ \<Rightarrow> False)
      | Mmio pa la ra \<Rightarrow>
          (case child of
             Mmio pb lb rb \<Rightarrow>
               (let pa_end = saturating_add pa la; pb_end = saturating_add pb lb
                in pb \<ge> pa \<and> pb_end \<le> pa_end \<and> is_subset_of rb ra)
           | _ \<Rightarrow> False)
      | Irq va ra \<Rightarrow> (case child of Irq vb rb \<Rightarrow> va = vb \<and> is_subset_of rb ra | _ \<Rightarrow> False)
      | Port ba ca ra \<Rightarrow>
          (case child of
             Port bb cb rb \<Rightarrow>
               (let ea = ucast ba + ucast ca :: u32; eb = ucast bb + ucast cb :: u32
                in bb \<ge> ba \<and> eb \<le> ea \<and> is_subset_of rb ra)
           | _ \<Rightarrow> False)
      | Filesystem a ra \<Rightarrow> (case child of Filesystem b rb \<Rightarrow> a = b \<and> is_subset_of rb ra | _ \<Rightarrow> False)
      | Network sa ea ra \<Rightarrow>
          (case child of Network sb eb rb \<Rightarrow> sb \<ge> sa \<and> eb \<le> ea \<and> is_subset_of rb ra | _ \<Rightarrow> False)
      | Gpu a ra \<Rightarrow> (case child of Gpu b rb \<Rightarrow> a = b \<and> is_subset_of rb ra | _ \<Rightarrow> False)
      | Audio a ra \<Rightarrow> (case child of Audio b rb \<Rightarrow> a = b \<and> is_subset_of rb ra | _ \<Rightarrow> False)
      | Camera a ra \<Rightarrow> (case child of Camera b rb \<Rightarrow> a = b \<and> is_subset_of rb ra | _ \<Rightarrow> False)
      | Process a ra \<Rightarrow> (case child of Process b rb \<Rightarrow> a = b \<and> is_subset_of rb ra | _ \<Rightarrow> False)
      | CryptoKey a ra \<Rightarrow> (case child of CryptoKey b rb \<Rightarrow> a = b \<and> is_subset_of rb ra | _ \<Rightarrow> False)
      | Hypervisor a ra \<Rightarrow> (case child of Hypervisor b rb \<Rightarrow> a = b \<and> is_subset_of rb ra | _ \<Rightarrow> False)
      | Attestation a ra \<Rightarrow> (case child of Attestation b rb \<Rightarrow> a = b \<and> is_subset_of rb ra | _ \<Rightarrow> False)
      | Debug a ra \<Rightarrow> (case child of Debug b rb \<Rightarrow> a = b \<and> is_subset_of rb ra | _ \<Rightarrow> False)
      | System ra \<Rightarrow> (case child of System rb \<Rightarrow> is_subset_of rb ra | _ \<Rightarrow> False)
      | ScreenCapture ra \<Rightarrow> (case child of ScreenCapture rb \<Rightarrow> is_subset_of rb ra | _ \<Rightarrow> False)
      | Accessibility ra \<Rightarrow> (case child of Accessibility rb \<Rightarrow> is_subset_of rb ra | _ \<Rightarrow> False))"

section \<open>Rights as sets of bits\<close>

definition rights_set :: "Rights \<Rightarrow> nat set" where
  "rights_set r = {n. bit (rights_bits r) n}"

lemma bit_u32_less: "bit (w :: u32) n \<Longrightarrow> n < 32"
  using bit_imp_le_length [of w n] by simp

lemma is_subset_of_iff: "is_subset_of a b \<longleftrightarrow> rights_set a \<subseteq> rights_set b"
  by (auto simp: is_subset_of_def rights_set_def bit_eq_iff bit_simps dest: bit_u32_less)

lemma contains_iff: "contains a b \<longleftrightarrow> rights_set b \<subseteq> rights_set a"
  by (auto simp: contains_def rights_set_def bit_eq_iff bit_simps dest: bit_u32_less)

lemma is_subset_of_refl [simp]: "is_subset_of r r"
  by (simp add: is_subset_of_iff)

lemma is_subset_of_trans: "is_subset_of a b \<Longrightarrow> is_subset_of b c \<Longrightarrow> is_subset_of a c"
  by (auto simp: is_subset_of_iff)

lemma contains_mono: "is_subset_of a b \<Longrightarrow> contains a r \<Longrightarrow> contains b r"
  by (auto simp: is_subset_of_iff contains_iff)

lemma from_bits_truncate_subset: "is_subset_of (from_bits_truncate b) Rights_ALL"
  by (auto simp: is_subset_of_iff rights_set_def from_bits_truncate_def Rights_ALL_def bit_simps)

section \<open>Derivation is a preorder that only narrows authority\<close>

lemma derivation_refl: "is_valid_derivation c c"
  by (cases c) (simp_all add: is_valid_derivation_def)

lemma derivation_flavor: "is_valid_derivation p c \<Longrightarrow> flavor_id c = flavor_id p"
  by (cases p) (auto simp: is_valid_derivation_def split: Cap.splits)

lemma derivation_rights: "is_valid_derivation p c \<Longrightarrow> is_subset_of (cap_rights c) (cap_rights p)"
  by (cases p) (auto simp: is_valid_derivation_def Let_def split: Cap.splits)

lemma derivation_trans:
  "is_valid_derivation a b \<Longrightarrow> is_valid_derivation b c \<Longrightarrow> is_valid_derivation a c"
  by (cases a) (auto simp: is_valid_derivation_def Let_def split: Cap.splits
      intro: is_subset_of_trans order_trans)

text \<open>
  The interface between the derivation rule and everything that passes capabilities
  around: a reflexive, transitive order under which a child never has a right its parent
  lacks. Clients reason about chains of grants, of any length, once.
\<close>

locale derivation_order =
  fixes le :: "'c \<Rightarrow> 'c \<Rightarrow> bool"
    and rights :: "'c \<Rightarrow> 'r"
    and rle :: "'r \<Rightarrow> 'r \<Rightarrow> bool"
  assumes le_refl: "le c c"
    and le_trans: "le a b \<Longrightarrow> le b c \<Longrightarrow> le a c"
    and le_rights: "le a b \<Longrightarrow> rle (rights b) (rights a)"
begin

lemma chain_le:
  assumes "rtranclp R x y"
    and "\<And>u v. R u v \<Longrightarrow> le (cap u) (cap v)"
  shows "le (cap x) (cap y)"
  using assms(1) by (induction rule: rtranclp_induct) (auto intro: le_refl le_trans assms(2))

lemma chain_rights:
  assumes "rtranclp R x y"
    and "\<And>u v. R u v \<Longrightarrow> le (cap u) (cap v)"
  shows "rle (rights (cap y)) (rights (cap x))"
  using assms by (blast intro: le_rights chain_le)

end

interpretation cap: derivation_order is_valid_derivation cap_rights is_subset_of
  by unfold_locales (auto intro: derivation_refl derivation_trans derivation_rights)

section \<open>What a capability stands for\<close>

text \<open>
  The resources a capability names: a set of (flavour, identifier) pairs. For the ranges
  (MMIO bytes, I/O ports, network ports) the identifiers are the members of the range.
\<close>

fun resources :: "Cap \<Rightarrow> (u32 \<times> nat) set" where
  "resources (Channel i r) = {(1, unat i)}"
| "resources (Mmio p l r) = {2} \<times> {unat p ..< unat p + unat l}"
| "resources (Irq v r) = {(3, unat v)}"
| "resources (Port b c r) = {4} \<times> {unat b ..< unat b + unat c}"
| "resources (Filesystem i r) = {(5, unat i)}"
| "resources (Network s e r) = {6} \<times> {unat s .. unat e}"
| "resources (Gpu i r) = {(7, unat i)}"
| "resources (Audio i r) = {(8, unat i)}"
| "resources (Camera i r) = {(9, unat i)}"
| "resources (Process i r) = {(10, unat i)}"
| "resources (CryptoKey i r) = {(11, unat i)}"
| "resources (Hypervisor i r) = {(12, unat i)}"
| "resources (Attestation i r) = {(13, unat i)}"
| "resources (Debug i r) = {(14, unat i)}"
| "resources (System r) = {(15, 0)}"
| "resources (ScreenCapture r) = {(16, 0)}"
| "resources (Accessibility r) = {(17, 0)}"

text \<open>An MMIO capability whose end does not pass the top of the address space.\<close>

definition cap_in_range :: "Cap \<Rightarrow> bool" where
  "cap_in_range c = (case c of Mmio p l r \<Rightarrow> unat p + unat l < 2 ^ 64 | _ \<Rightarrow> True)"

lemma mmio_end_le:
  fixes pa la pb lb :: u64
  assumes "saturating_add pb lb \<le> saturating_add pa la"
    and "unat pa + unat la < 2 ^ 64" and "unat pb + unat lb < 2 ^ 64"
  shows "unat pb + unat lb \<le> unat pa + unat la"
  using assms by (simp add: word_le_nat_alt unat_saturating_add)

lemma port_end_le:
  fixes ba ca bb cb :: u16
  assumes "(ucast bb + ucast cb :: u32) \<le> ucast ba + ucast ca"
  shows "unat bb + unat cb \<le> unat ba + unat ca"
proof -
  have u: "unat (ucast x + ucast y :: u32) = unat x + unat y" for x y :: u16
    using unat_bound [of x] unat_bound [of y] by (simp add: unat_word_ariths unsigned_ucast_eq take_bit_eq_mod)
  from assms show ?thesis by (simp add: word_le_nat_alt u)
qed

lemma derivation_resources:
  assumes "is_valid_derivation p c" and "cap_in_range p" and "cap_in_range c"
  shows "resources c \<subseteq> resources p"
  using assms
proof (cases p)
  case (Mmio pa la ra)
  then obtain pb lb rb where c: "c = Mmio pb lb rb" and "pa \<le> pb"
    and e: "saturating_add pb lb \<le> saturating_add pa la"
    using assms(1) by (auto simp: is_valid_derivation_def Let_def split: Cap.splits)
  then have "unat pa \<le> unat pb" and "unat pb + unat lb \<le> unat pa + unat la"
    using Mmio assms(2,3) mmio_end_le [OF e] by (auto simp: cap_in_range_def word_le_nat_alt)
  then show ?thesis by (auto simp: Mmio c)
next
  case (Port ba ca ra)
  then obtain bb cb rb where c: "c = Port bb cb rb" and "ba \<le> bb"
    and e: "(ucast bb + ucast cb :: u32) \<le> ucast ba + ucast ca"
    using assms(1) by (auto simp: is_valid_derivation_def Let_def split: Cap.splits)
  then have "unat ba \<le> unat bb" and "unat bb + unat cb \<le> unat ba + unat ca"
    using port_end_le [OF e] by (auto simp: word_le_nat_alt)
  then show ?thesis by (auto simp: Port c)
qed (auto simp: is_valid_derivation_def word_le_nat_alt split: Cap.splits)

end
