(* ===== verification/Cap_System.thy ===== *)
theory Cap_System
  imports Capability "HOL-Library.While_Combinator"
begin

text \<open>
  Capabilities across tasks: the scheduler's containers of tasks
  (\<^verbatim>\<open>kernel/src/scheduler.rs\<close>), the operations that search them
  (\<^verbatim>\<open>with_task_by_id\<close>, \<^verbatim>\<open>find_cap_children\<close>), \<^verbatim>\<open>grant\<close> and
  \<^verbatim>\<open>revoke\<close> of \<^verbatim>\<open>capability.rs\<close>, and the three capability system calls of
  \<^verbatim>\<open>syscall.rs\<close>. Of a task the model keeps the two fields this code reads, its
  identifier and its capability table; of the scheduler it keeps the four containers the
  searches walk.
\<close>

section \<open>Tasks and the scheduler's containers\<close>

record Task =
  task_id :: TaskId
  cap_table :: CapTable

record Runqueue =
  tasks_deadline :: "Task list"
  tasks_game :: "Task list"
  tasks_normal :: "Task list"

record Scheduler =
  runqueues :: "Runqueue list"
  switch_stash :: "Task option list"
  blocked_tasks :: "Task list"
  current_task :: "Task option list"

text \<open>
  Apply a function to the first task with a given identifier, in a queue, in an array of
  slots and in the array of run queues. \<open>None\<close>: no such task there.
\<close>

fun update_first :: "TaskId \<Rightarrow> (Task \<Rightarrow> 'r \<times> Task) \<Rightarrow> Task list \<Rightarrow> ('r \<times> Task list) option" where
  "update_first i f [] = None"
| "update_first i f (t # ts) =
     (if task_id t = i then Some (fst (f t), snd (f t) # ts)
      else map_option (apsnd (Cons t)) (update_first i f ts))"

fun update_first_slot ::
  "TaskId \<Rightarrow> (Task \<Rightarrow> 'r \<times> Task) \<Rightarrow> Task option list \<Rightarrow> ('r \<times> Task option list) option" where
  "update_first_slot i f [] = None"
| "update_first_slot i f (None # ss) = map_option (apsnd (Cons None)) (update_first_slot i f ss)"
| "update_first_slot i f (Some t # ss) =
     (if task_id t = i then Some (fst (f t), Some (snd (f t)) # ss)
      else map_option (apsnd (Cons (Some t))) (update_first_slot i f ss))"

fun update_first_rq ::
  "TaskId \<Rightarrow> (Task \<Rightarrow> 'r \<times> Task) \<Rightarrow> Runqueue list \<Rightarrow> ('r \<times> Runqueue list) option" where
  "update_first_rq i f [] = None"
| "update_first_rq i f (rq # rqs) =
     (case update_first i f (tasks_deadline rq) of
        Some (r, ts) \<Rightarrow> Some (r, rq\<lparr>tasks_deadline := ts\<rparr> # rqs)
      | None \<Rightarrow>
     (case update_first i f (tasks_game rq) of
        Some (r, ts) \<Rightarrow> Some (r, rq\<lparr>tasks_game := ts\<rparr> # rqs)
      | None \<Rightarrow>
     (case update_first i f (tasks_normal rq) of
        Some (r, ts) \<Rightarrow> Some (r, rq\<lparr>tasks_normal := ts\<rparr> # rqs)
      | None \<Rightarrow> map_option (apsnd (Cons rq)) (update_first_rq i f rqs))))"

definition with_task_by_id ::
  "TaskId \<Rightarrow> (Task \<Rightarrow> 'r \<times> Task) \<Rightarrow> Scheduler \<Rightarrow> 'r option \<times> Scheduler" where
  "with_task_by_id i f s =
     (case update_first_slot i f (current_task s) of
        Some (r, c) \<Rightarrow> (Some r, s\<lparr>current_task := c\<rparr>)
      | None \<Rightarrow>
     (case update_first_slot i f (switch_stash s) of
        Some (r, c) \<Rightarrow> (Some r, s\<lparr>switch_stash := c\<rparr>)
      | None \<Rightarrow>
     (case update_first_rq i f (runqueues s) of
        Some (r, c) \<Rightarrow> (Some r, s\<lparr>runqueues := c\<rparr>)
      | None \<Rightarrow>
     (case update_first i f (blocked_tasks s) of
        Some (r, c) \<Rightarrow> (Some r, s\<lparr>blocked_tasks := c\<rparr>)
      | None \<Rightarrow> (None, s)))))"

text \<open>The iterator \<^verbatim>\<open>flatten()\<close> over an array of optional tasks.\<close>

fun flatten :: "'a option list \<Rightarrow> 'a list" where
  "flatten [] = []"
| "flatten (None # xs) = flatten xs"
| "flatten (Some x # xs) = x # flatten xs"

definition task_cap_children :: "TaskId \<Rightarrow> CapHandle \<Rightarrow> Task \<Rightarrow> (TaskId \<times> CapHandle) list" where
  "task_cap_children owner handle t =
     map (\<lambda>e. (task_id t, fst e))
       (filter (\<lambda>e. granter_task (snd e) = owner \<and> granter_handle (snd e) = handle)
         (iter_parents (cap_table t)))"

definition find_cap_children :: "TaskId \<Rightarrow> CapHandle \<Rightarrow> Scheduler \<Rightarrow> (TaskId \<times> CapHandle) list" where
  "find_cap_children owner handle s =
     concat (map (task_cap_children owner handle) (flatten (current_task s)))
     @ concat (map (\<lambda>rq. concat (map (task_cap_children owner handle) (tasks_deadline rq))
                       @ concat (map (task_cap_children owner handle) (tasks_game rq))
                       @ concat (map (task_cap_children owner handle) (tasks_normal rq)))
                 (runqueues s))
     @ concat (map (task_cap_children owner handle) (blocked_tasks s))"

section \<open>Grant and revoke\<close>

definition grant ::
  "TaskId \<Rightarrow> CapHandle \<Rightarrow> TaskId \<Rightarrow> Cap \<Rightarrow> Scheduler \<Rightarrow> (CapError + CapHandle) \<times> Scheduler" where
  "grant granter_id src_handle target_id derived s =
     (case fst (with_task_by_id granter_id (\<lambda>t. (cap_get (cap_table t) src_handle, t)) s) of
        None \<Rightarrow> (Inl NoSuchTask, s)
      | Some None \<Rightarrow> (Inl NoSuchHandle, s)
      | Some (Some parent) \<Rightarrow>
          if \<not> contains (cap_rights parent) Rights_GRANT then (Inl InsufficientRights, s)
          else if \<not> is_valid_derivation parent derived then (Inl InvalidDerivation, s)
          else
            (case with_task_by_id target_id
                (\<lambda>t. let (h, ct) = insert_derived derived
                             \<lparr>granter_task = granter_id, granter_handle = src_handle\<rparr> (cap_table t)
                     in (h, t\<lparr>cap_table := ct\<rparr>)) s of
               (None, _) \<Rightarrow> (Inl NoSuchTask, s)
             | (Some new_handle, s') \<Rightarrow> (Inr new_handle, s')))"

definition remove_handle :: "CapHandle \<Rightarrow> Task \<Rightarrow> unit \<times> Task" where
  "remove_handle h t = ((), t\<lparr>cap_table := snd (cap_remove h (cap_table t))\<rparr>)"

text \<open>
  One turn of the worklist loop of \<^verbatim>\<open>revoke\<close>: pop the last entry, remove its handle from
  its task, append its children. The loop runs until the worklist is empty; \<open>None\<close>
  would mean that it never does.
\<close>

definition revoke_step ::
  "Scheduler \<times> (TaskId \<times> CapHandle) list \<Rightarrow> Scheduler \<times> (TaskId \<times> CapHandle) list" where
  "revoke_step st =
     (let (s, to_revoke) = st;
          (curr_task, curr_handle) = last to_revoke;
          s' = snd (with_task_by_id curr_task (remove_handle curr_handle) s);
          children = find_cap_children curr_task curr_handle s'
      in (s', butlast to_revoke @ children))"

definition revoke ::
  "TaskId \<Rightarrow> TaskId \<Rightarrow> CapHandle \<Rightarrow> Scheduler \<Rightarrow> ((CapError + unit) \<times> Scheduler) option" where
  "revoke revoker_id target_id target_handle s =
     (case fst (with_task_by_id target_id (\<lambda>t. (parent_of (cap_table t) target_handle, t)) s) of
        None \<Rightarrow> Some (Inl NoSuchTask, s)
      | Some None \<Rightarrow> Some (Inl NoSuchHandle, s)
      | Some (Some parent) \<Rightarrow>
          if granter_task parent \<noteq> revoker_id then Some (Inl InsufficientRights, s)
          else map_option (\<lambda>st. (Inr (), fst st))
                 (while_option (\<lambda>st. snd st \<noteq> []) revoke_step (s, [(target_id, target_handle)])))"

section \<open>The system calls\<close>

record Regs =
  rax :: u64
  rdi :: u64
  rsi :: u64
  rdx :: u64
  r10 :: u64
  r8 :: u64

text \<open>
  The running task of the executing CPU. The CPU number is an argument: the hardware
  gives it, and it indexes an array of one slot per CPU.
\<close>

definition current_task_of :: "nat \<Rightarrow> Scheduler \<Rightarrow> Task option" where
  "current_task_of cpu s = (if cpu < length (current_task s) then current_task s ! cpu else None)"

definition current_task_id :: "nat \<Rightarrow> Scheduler \<Rightarrow> TaskId option" where
  "current_task_id cpu s = map_option task_id (current_task_of cpu s)"

definition with_current_task :: "nat \<Rightarrow> (Task \<Rightarrow> 'r) \<Rightarrow> Scheduler \<Rightarrow> 'r option" where
  "with_current_task cpu f s = map_option f (current_task_of cpu s)"

definition derive_cap :: "Cap \<Rightarrow> Rights \<Rightarrow> u64 \<Rightarrow> u64 \<Rightarrow> Cap" where
  "derive_cap parent new_rights derive0 derive1 =
     (case parent of
        Channel chan_id _ \<Rightarrow> Channel chan_id new_rights
      | Mmio start_phys len _ \<Rightarrow>
          Mmio (saturating_add start_phys derive0) (if derive1 = 0 then len else derive1) new_rights
      | Irq vector _ \<Rightarrow> Irq vector new_rights
      | Port base count _ \<Rightarrow>
          Port (saturating_add base (ucast derive0))
               (if derive1 = 0 then count else ucast derive1) new_rights
      | Filesystem root_inode _ \<Rightarrow> Filesystem root_inode new_rights
      | Network port_range_start port_range_end _ \<Rightarrow>
          Network port_range_start port_range_end new_rights
      | Gpu device_id _ \<Rightarrow> Gpu device_id new_rights
      | Audio device_id _ \<Rightarrow> Audio device_id new_rights
      | Camera device_id _ \<Rightarrow> Camera device_id new_rights
      | Process target_pid _ \<Rightarrow> Process target_pid new_rights
      | CryptoKey key_id _ \<Rightarrow> CryptoKey key_id new_rights
      | Hypervisor vm_id _ \<Rightarrow> Hypervisor vm_id new_rights
      | Attestation session_id _ \<Rightarrow> Attestation session_id new_rights
      | Debug scope _ \<Rightarrow> Debug scope new_rights
      | System _ \<Rightarrow> System new_rights
      | ScreenCapture _ \<Rightarrow> ScreenCapture new_rights
      | Accessibility _ \<Rightarrow> Accessibility new_rights)"

definition sys_cap_grant :: "nat \<Rightarrow> Regs \<Rightarrow> Scheduler \<Rightarrow> Regs \<times> Scheduler" where
  "sys_cap_grant cpu regs s =
     (let target = TaskId (rdi regs);
          src = CapHandle (rsi regs);
          new_rights = from_bits_truncate (ucast (rdx regs));
          derive0 = r10 regs;
          derive1 = r8 regs
      in case current_task_id cpu s of
           None \<Rightarrow> (regs\<lparr>rax := E_NO_TASK\<rparr>, s)
         | Some granter \<Rightarrow>
             (case Option.bind
                 (fst (with_task_by_id granter (\<lambda>t. (cap_get (cap_table t) src, t)) s)) id of
                None \<Rightarrow> (regs\<lparr>rax := E_NO_HANDLE\<rparr>, s)
              | Some parent \<Rightarrow>
                  (case grant granter src target (derive_cap parent new_rights derive0 derive1) s of
                     (Inr new_h, s') \<Rightarrow> (regs\<lparr>rax := handle_raw new_h\<rparr>, s')
                   | (Inl e, s') \<Rightarrow> (regs\<lparr>rax := as_u64 e\<rparr>, s'))))"

definition sys_cap_revoke :: "nat \<Rightarrow> Regs \<Rightarrow> Scheduler \<Rightarrow> (Regs \<times> Scheduler) option" where
  "sys_cap_revoke cpu regs s =
     (let target = TaskId (rdi regs); handle = CapHandle (rsi regs)
      in case current_task_id cpu s of
           None \<Rightarrow> Some (regs\<lparr>rax := E_NO_TASK\<rparr>, s)
         | Some revoker \<Rightarrow>
             map_option
               (\<lambda>r. case r of
                      (Inr _, s') \<Rightarrow> (regs\<lparr>rax := 0\<rparr>, s')
                    | (Inl e, s') \<Rightarrow> (regs\<lparr>rax := as_u64 e\<rparr>, s'))
               (revoke revoker target handle s))"

definition sys_cap_query :: "nat \<Rightarrow> Regs \<Rightarrow> Scheduler \<Rightarrow> Regs" where
  "sys_cap_query cpu regs s =
     (let h = CapHandle (rdi regs)
      in case Option.bind (with_current_task cpu (\<lambda>t. cap_get (cap_table t) h) s) id of
           Some c \<Rightarrow> regs\<lparr>rax := 0, rsi := ucast (flavor_id c), rdx := ucast (rights_bits (cap_rights c))\<rparr>
         | None \<Rightarrow> regs\<lparr>rax := E_NO_HANDLE\<rparr>)"

section \<open>Searching the containers\<close>

text \<open>
  All tasks, in the order \<open>with_task_by_id\<close> meets them, and the tasks
  \<open>find_cap_children\<close> scans, which leave out the switch stash.
\<close>

definition rq_tasks :: "Runqueue \<Rightarrow> Task list" where
  "rq_tasks rq = tasks_deadline rq @ tasks_game rq @ tasks_normal rq"

definition tasks :: "Scheduler \<Rightarrow> Task list" where
  "tasks s = flatten (current_task s) @ flatten (switch_stash s)
     @ concat (map rq_tasks (runqueues s)) @ blocked_tasks s"

definition scanned :: "Scheduler \<Rightarrow> Task list" where
  "scanned s = flatten (current_task s) @ concat (map rq_tasks (runqueues s)) @ blocked_tasks s"

primrec find_id :: "TaskId \<Rightarrow> Task list \<Rightarrow> Task option" where
  "find_id i [] = None"
| "find_id i (t # ts) = (if task_id t = i then Some t else find_id i ts)"

definition unique_ids :: "Scheduler \<Rightarrow> bool" where
  "unique_ids s \<longleftrightarrow> distinct (map task_id (tasks s))"

definition upd :: "TaskId \<Rightarrow> (Task \<Rightarrow> 'r \<times> Task) \<Rightarrow> Task \<Rightarrow> Task" where
  "upd i f t = (if task_id t = i then snd (f t) else t)"

definition map_rq :: "(Task \<Rightarrow> Task) \<Rightarrow> Runqueue \<Rightarrow> Runqueue" where
  "map_rq g rq = rq\<lparr>tasks_deadline := map g (tasks_deadline rq),
     tasks_game := map g (tasks_game rq), tasks_normal := map g (tasks_normal rq)\<rparr>"

definition map_sched :: "(Task \<Rightarrow> Task) \<Rightarrow> Scheduler \<Rightarrow> Scheduler" where
  "map_sched g s = s\<lparr>current_task := map (map_option g) (current_task s),
     switch_stash := map (map_option g) (switch_stash s),
     runqueues := map (map_rq g) (runqueues s),
     blocked_tasks := map g (blocked_tasks s)\<rparr>"

lemma find_id_append:
  "find_id i (xs @ ys) = (case find_id i xs of None \<Rightarrow> find_id i ys | Some t \<Rightarrow> Some t)"
  by (induction xs) auto

lemma find_id_None: "find_id i ts = None \<longleftrightarrow> i \<notin> task_id ` set ts"
  by (induction ts) auto

lemma find_id_SomeD: "find_id i ts = Some t \<Longrightarrow> t \<in> set ts \<and> task_id t = i"
  by (induction ts) (auto split: if_splits)

lemma find_id_distinct:
  "distinct (map task_id ts) \<Longrightarrow> find_id i ts = Some t \<longleftrightarrow> t \<in> set ts \<and> task_id t = i"
  by (induction ts) (auto dest: find_id_SomeD)

lemma find_id_map:
  "(\<And>t. task_id (g t) = task_id t) \<Longrightarrow> find_id i (map g ts) = map_option g (find_id i ts)"
  by (induction ts) auto

lemma flatten_map: "flatten (map (map_option g) xs) = map g (flatten xs)"
  by (induction xs rule: flatten.induct) auto

lemma rq_tasks_map: "rq_tasks (map_rq g rq) = map g (rq_tasks rq)"
  by (simp add: rq_tasks_def map_rq_def)

lemma tasks_map_sched [simp]: "tasks (map_sched g s) = map g (tasks s)"
  by (simp add: tasks_def map_sched_def flatten_map map_concat comp_def rq_tasks_map)

lemma scanned_map_sched [simp]: "scanned (map_sched g s) = map g (scanned s)"
  by (simp add: scanned_def map_sched_def flatten_map map_concat comp_def rq_tasks_map)

lemma scanned_subset: "set (scanned s) \<subseteq> set (tasks s)"
  by (auto simp: scanned_def tasks_def)

lemma map_option_slots_cong:
  "(\<And>t. t \<in> set (flatten xs) \<Longrightarrow> g t = h t) \<Longrightarrow> map (map_option g) xs = map (map_option h) xs"
  by (induction xs rule: flatten.induct) auto

lemma map_rq_cong: "(\<And>t. t \<in> set (rq_tasks rq) \<Longrightarrow> g t = h t) \<Longrightarrow> map_rq g rq = map_rq h rq"
  by (simp add: map_rq_def rq_tasks_def cong: map_cong)

lemma map_sched_cong:
  assumes "\<And>t. t \<in> set (tasks s) \<Longrightarrow> g t = h t"
  shows "map_sched g s = map_sched h s"
proof -
  have "map (map_rq g) (runqueues s) = map (map_rq h) (runqueues s)"
    using assms by (intro map_cong refl map_rq_cong) (auto simp: tasks_def)
  moreover have "map g (blocked_tasks s) = map h (blocked_tasks s)"
    using assms by (auto simp: tasks_def)
  moreover have "map (map_option g) (current_task s) = map (map_option h) (current_task s)"
    "map (map_option g) (switch_stash s) = map (map_option h) (switch_stash s)"
    using assms by (auto simp: tasks_def simp del: map_eq_conv intro!: map_option_slots_cong)
  ultimately show ?thesis by (simp add: map_sched_def)
qed

lemma map_rq_id [simp]: "map_rq (\<lambda>t. t) rq = rq"
  by (simp add: map_rq_def)

lemma map_sched_id: "map_sched (\<lambda>t. t) s = s"
  by (simp add: map_sched_def option.map_ident cong: map_cong)

lemma map_sched_comp: "map_sched g (map_sched h s) = map_sched (\<lambda>t. g (h t)) s"
  by (simp add: map_sched_def map_rq_def option.map_comp comp_def)

text \<open>The three searches, in terms of \<^const>\<open>find_id\<close> and a pointwise update.\<close>

lemma map_upd_other: "i \<notin> task_id ` set ts \<Longrightarrow> map (upd i f) ts = ts"
  by (induction ts) (auto simp: upd_def)

lemma slots_upd_other: "i \<notin> task_id ` set (flatten xs) \<Longrightarrow> map (map_option (upd i f)) xs = xs"
  by (induction xs rule: flatten.induct) (auto simp: upd_def)

lemma rqs_upd_other:
  "i \<notin> task_id ` set (concat (map rq_tasks rqs)) \<Longrightarrow> map (map_rq (upd i f)) rqs = rqs"
  by (induction rqs) (auto simp: rq_tasks_def map_rq_def map_upd_other image_Un)

lemma update_first_eq:
  "distinct (map task_id ts) \<Longrightarrow>
     update_first i f ts = map_option (\<lambda>t. (fst (f t), map (upd i f) ts)) (find_id i ts)"
  by (induction ts) (auto simp: map_upd_other upd_def option.map_comp comp_def
      simp del: map_map split: option.splits)

lemma update_first_slot_eq:
  "distinct (map task_id (flatten xs)) \<Longrightarrow>
     update_first_slot i f xs
       = map_option (\<lambda>t. (fst (f t), map (map_option (upd i f)) xs)) (find_id i (flatten xs))"
  by (induction xs rule: flatten.induct)
    (auto simp: slots_upd_other upd_def option.map_comp comp_def)

lemma distinct_append4:
  "distinct (a @ b @ c @ d) \<longleftrightarrow> distinct a \<and> distinct b \<and> distinct c \<and> distinct d
     \<and> set a \<inter> set b = {} \<and> (set a \<union> set b) \<inter> set c = {}
     \<and> (set a \<union> set b \<union> set c) \<inter> set d = {}"
  by auto

definition disj4 :: "'a \<Rightarrow> 'a set \<Rightarrow> 'a set \<Rightarrow> 'a set \<Rightarrow> 'a set \<Rightarrow> bool" where
  "disj4 x a b c d \<longleftrightarrow> (x \<in> a \<longrightarrow> x \<notin> b \<and> x \<notin> c \<and> x \<notin> d) \<and> (x \<in> b \<longrightarrow> x \<notin> a \<and> x \<notin> c \<and> x \<notin> d)
     \<and> (x \<in> c \<longrightarrow> x \<notin> a \<and> x \<notin> b \<and> x \<notin> d)"

lemma disj4I:
  "a \<inter> b = {} \<Longrightarrow> (a \<union> b) \<inter> c = {} \<Longrightarrow> (a \<union> b \<union> c) \<inter> d = {} \<Longrightarrow> disj4 x a b c d"
  unfolding disj4_def by blast

lemma disj4D1: "disj4 x a b c d \<Longrightarrow> x \<in> a \<Longrightarrow> x \<notin> b \<and> x \<notin> c \<and> x \<notin> d"
  by (simp add: disj4_def)

lemma disj4D2: "disj4 x a b c d \<Longrightarrow> x \<in> b \<Longrightarrow> x \<notin> a \<and> x \<notin> c \<and> x \<notin> d"
  by (simp add: disj4_def)

lemma disj4D3: "disj4 x a b c d \<Longrightarrow> x \<in> c \<Longrightarrow> x \<notin> a \<and> x \<notin> b \<and> x \<notin> d"
  by (simp add: disj4_def)

lemma update_first_rq_eq:
  "distinct (map task_id (concat (map rq_tasks rqs))) \<Longrightarrow>
     update_first_rq i f rqs
       = map_option (\<lambda>t. (fst (f t), map (map_rq (upd i f)) rqs))
           (find_id i (concat (map rq_tasks rqs)))"
proof (induction rqs)
  case (Cons rq rqs)
  let ?d = "tasks_deadline rq" and ?g = "tasks_game rq" and ?n = "tasks_normal rq"
  let ?rest = "concat (map rq_tasks rqs)"
  have all: "concat (map rq_tasks (rq # rqs)) = ?d @ ?g @ ?n @ ?rest"
    by (simp add: rq_tasks_def [of rq])
  from Cons.prems have dist: "distinct (map task_id ?d)" "distinct (map task_id ?g)"
    "distinct (map task_id ?n)" "distinct (map task_id ?rest)"
    and disj: "disj4 i (task_id ` set ?d) (task_id ` set ?g) (task_id ` set ?n) (task_id ` set ?rest)"
    unfolding all map_append distinct_append4 set_map by (simp_all add: disj4I)
  note eqs = update_first_eq [OF dist(1)] update_first_eq [OF dist(2)] update_first_eq [OF dist(3)]
    Cons.IH [OF dist(4)]
  consider (d) "i \<in> task_id ` set ?d" | (g) "i \<in> task_id ` set ?g" | (n) "i \<in> task_id ` set ?n"
    | (r) "i \<notin> task_id ` set ?d" "i \<notin> task_id ` set ?g" "i \<notin> task_id ` set ?n" by blast
  then show ?case
  proof cases
    case d
    have "i \<notin> task_id ` set ?g" "i \<notin> task_id ` set ?n" "i \<notin> task_id ` set ?rest"
      by (simp_all only: disj4D1 [OF disj d] not_False_eq_True)
    moreover from d obtain t where "find_id i ?d = Some t" by (metis find_id_None option.exhaust)
    ultimately show ?thesis
      by (simp add: eqs rq_tasks_def [of rq] find_id_append map_rq_def [of _ rq] map_upd_other rqs_upd_other)
  next
    case g
    have "i \<notin> task_id ` set ?d" "i \<notin> task_id ` set ?n" "i \<notin> task_id ` set ?rest"
      by (simp_all only: disj4D2 [OF disj g] not_False_eq_True)
    moreover from g obtain t where "find_id i ?g = Some t" by (metis find_id_None option.exhaust)
    moreover from calculation have "find_id i ?d = None" by (simp add: find_id_None)
    ultimately show ?thesis
      by (simp add: eqs rq_tasks_def [of rq] find_id_append map_rq_def [of _ rq] map_upd_other rqs_upd_other)
  next
    case n
    have "i \<notin> task_id ` set ?d" "i \<notin> task_id ` set ?g" "i \<notin> task_id ` set ?rest"
      by (simp_all only: disj4D3 [OF disj n] not_False_eq_True)
    moreover from n obtain t where "find_id i ?n = Some t" by (metis find_id_None option.exhaust)
    moreover from calculation have "find_id i ?d = None" "find_id i ?g = None"
      by (simp_all add: find_id_None)
    ultimately show ?thesis
      by (simp add: eqs rq_tasks_def [of rq] find_id_append map_rq_def [of _ rq] map_upd_other rqs_upd_other)
  next
    case r
    then have "find_id i ?d = None" "find_id i ?g = None" "find_id i ?n = None"
      by (simp_all add: find_id_None)
    with r show ?thesis
      by (simp add: eqs rq_tasks_def [of rq] find_id_append map_rq_def [of _ rq] map_upd_other
          option.map_comp comp_def)
  qed
qed simp

lemma with_task_by_id_eq:
  assumes "unique_ids s"
  shows "with_task_by_id i f s
    = (map_option (\<lambda>t. fst (f t)) (find_id i (tasks s)), map_sched (upd i f) s)"
proof -
  let ?c = "flatten (current_task s)" and ?w = "flatten (switch_stash s)"
  let ?r = "concat (map rq_tasks (runqueues s))" and ?b = "blocked_tasks s"
  from assms have dist: "distinct (map task_id ?c)" "distinct (map task_id ?w)"
    "distinct (map task_id ?r)" "distinct (map task_id ?b)"
    and disj: "disj4 i (task_id ` set ?c) (task_id ` set ?w) (task_id ` set ?r) (task_id ` set ?b)"
    unfolding unique_ids_def tasks_def map_append distinct_append4 set_map by (simp_all add: disj4I)
  note eqs = update_first_slot_eq [OF dist(1)] update_first_slot_eq [OF dist(2)]
    update_first_rq_eq [OF dist(3)] update_first_eq [OF dist(4)]
  note others = slots_upd_other rqs_upd_other map_upd_other
  note defs = with_task_by_id_def tasks_def map_sched_def find_id_append eqs
  consider (c) "i \<in> task_id ` set ?c" | (w) "i \<in> task_id ` set ?w" | (r) "i \<in> task_id ` set ?r"
    | (b) "i \<notin> task_id ` set ?c" "i \<notin> task_id ` set ?w" "i \<notin> task_id ` set ?r" by blast
  then show ?thesis
  proof cases
    case c
    then obtain t where t: "find_id i ?c = Some t" by (metis find_id_None option.exhaust)
    have "i \<notin> task_id ` set ?w" "i \<notin> task_id ` set ?r" "i \<notin> task_id ` set ?b"
      by (simp_all only: disj4D1 [OF disj c] not_False_eq_True)
    then show ?thesis by (simp only: defs t others option.map option.case prod.case not_False_eq_True) simp
  next
    case w
    then obtain t where t: "find_id i ?w = Some t" by (metis find_id_None option.exhaust)
    have o: "i \<notin> task_id ` set ?c" "i \<notin> task_id ` set ?r" "i \<notin> task_id ` set ?b"
      by (simp_all only: disj4D2 [OF disj w] not_False_eq_True)
    then have n: "find_id i ?c = None" by (simp only: find_id_None not_False_eq_True)
    from o show ?thesis by (simp only: defs t n others option.map option.case prod.case not_False_eq_True) simp
  next
    case r
    then obtain t where t: "find_id i ?r = Some t" by (metis find_id_None option.exhaust)
    have o: "i \<notin> task_id ` set ?c" "i \<notin> task_id ` set ?w" "i \<notin> task_id ` set ?b"
      by (simp_all only: disj4D3 [OF disj r] not_False_eq_True)
    then have n: "find_id i ?c = None" "find_id i ?w = None"
      by (simp_all only: find_id_None not_False_eq_True)
    from o show ?thesis by (simp only: defs t n others option.map option.case prod.case not_False_eq_True) simp
  next
    case b
    then have n: "find_id i ?c = None" "find_id i ?w = None" "find_id i ?r = None"
      by (simp_all only: find_id_None not_False_eq_True)
    show ?thesis
    proof (cases "find_id i ?b")
      case None
      then have "i \<notin> task_id ` set ?b" by (simp only: find_id_None not_False_eq_True)
      with b None show ?thesis by (simp only: defs n others option.map option.case not_False_eq_True) simp
    next
      case (Some t)
      with b show ?thesis by (simp only: defs n others option.map option.case prod.case not_False_eq_True) simp
    qed
  qed
qed

end
