(* ===== verification/Cap_Revocation.thy ===== *)
theory Cap_Revocation
  imports Cap_System
begin

text \<open>
  Revocation removes exactly the derivation tree: the worklist loop of \<open>revoke\<close>
  returns, and the state it returns is the old one without the revoked handle and
  without everything derived from it in the tables it scans.
\<close>

section \<open>Well-formed tables\<close>

definition table_ok :: "CapTable \<Rightarrow> bool" where
  "table_ok t \<longleftrightarrow> bt_ok (slots t) \<and> bt_ok (parents t)
     \<and> (\<forall>h. parent_of t h \<noteq> None \<longrightarrow> cap_get t h \<noteq> None)
     \<and> (\<forall>h. cap_get t h \<noteq> None \<longrightarrow> handle_raw h < next_handle t)"

definition sched_ok :: "Scheduler \<Rightarrow> bool" where
  "sched_ok s \<longleftrightarrow> unique_ids s \<and> (\<forall>t\<in>set (tasks s). table_ok (cap_table t))"

definition cap_entry :: "Scheduler \<Rightarrow> TaskId \<times> CapHandle \<Rightarrow> Cap option" where
  "cap_entry s x = Option.bind (find_id (fst x) (tasks s)) (\<lambda>t. cap_get (cap_table t) (snd x))"

definition parent_entry :: "Scheduler \<Rightarrow> TaskId \<times> CapHandle \<Rightarrow> GrantRecord option" where
  "parent_entry s x = Option.bind (find_id (fst x) (tasks s)) (\<lambda>t. parent_of (cap_table t) (snd x))"

lemma table_ok_new: "table_ok cap_table_new"
  by (simp add: table_ok_def cap_table_new_def cap_get_def parent_of_def)

section \<open>Removing a set of handles\<close>

definition purge_task :: "(TaskId \<times> CapHandle) set \<Rightarrow> Task \<Rightarrow> Task" where
  "purge_task V t = t\<lparr>cap_table := (cap_table t)\<lparr>
     slots := filter (\<lambda>e. (task_id t, fst e) \<notin> V) (slots (cap_table t)),
     parents := filter (\<lambda>e. (task_id t, fst e) \<notin> V) (parents (cap_table t))\<rparr>\<rparr>"

definition purge :: "(TaskId \<times> CapHandle) set \<Rightarrow> Scheduler \<Rightarrow> Scheduler" where
  "purge V s = map_sched (purge_task V) s"

lemma purge_task_id [simp]: "task_id (purge_task V t) = task_id t"
  by (simp add: purge_task_def)

lemma purge_empty: "purge {} s = s"
proof -
  have "purge_task {} = (\<lambda>t. t)" by (simp add: fun_eq_iff purge_task_def)
  then show ?thesis by (simp add: purge_def map_sched_id)
qed

lemma tasks_purge [simp]: "tasks (purge V s) = map (purge_task V) (tasks s)"
  by (simp add: purge_def)

lemma unique_ids_purge: "unique_ids (purge V s) = unique_ids s"
  by (simp add: unique_ids_def comp_def)

lemma purge_insert: "upd i (remove_handle h) (purge_task V t) = purge_task (insert (i, h) V) t"
  by (cases t; cases "cap_table t")
    (simp add: upd_def remove_handle_def purge_task_def cap_remove_def bt_remove_def Let_def
      conj_commute)

lemma remove_purge:
  assumes "unique_ids s"
  shows "snd (with_task_by_id i (remove_handle h) (purge V s)) = purge (insert (i, h) V) s"
proof -
  have "snd (with_task_by_id i (remove_handle h) (purge V s))
    = map_sched (upd i (remove_handle h)) (purge V s)"
    using assms by (simp add: with_task_by_id_eq unique_ids_purge)
  also have "\<dots> = purge (insert (i, h) V) s"
    by (simp add: purge_def map_sched_comp purge_insert)
  finally show ?thesis .
qed

lemma find_id_purge: "find_id i (tasks (purge V s)) = map_option (purge_task V) (find_id i (tasks s))"
  by (simp add: find_id_map)

lemma cap_entry_purge:
  assumes "sched_ok s"
  shows "cap_entry (purge V s) x = (if x \<in> V then None else cap_entry s x)"
proof (cases "find_id (fst x) (tasks s)")
  case (Some t)
  then have "task_id t = fst x" and "bt_ok (slots (cap_table t))"
    using assms by (auto dest: find_id_SomeD simp: sched_ok_def table_ok_def)
  with Some show ?thesis
    using bt_get_filter [of "slots (cap_table t)" "\<lambda>h _. (task_id t, h) \<notin> V" "snd x"]
    by (auto simp: cap_entry_def find_id_purge purge_task_def cap_get_def simp del: tasks_purge
        split: option.splits)
qed (simp add: cap_entry_def find_id_purge del: tasks_purge)

lemma parent_entry_purge:
  assumes "sched_ok s"
  shows "parent_entry (purge V s) x = (if x \<in> V then None else parent_entry s x)"
proof (cases "find_id (fst x) (tasks s)")
  case (Some t)
  then have "task_id t = fst x" and "bt_ok (parents (cap_table t))"
    using assms by (auto dest: find_id_SomeD simp: sched_ok_def table_ok_def)
  with Some show ?thesis
    using bt_get_filter [of "parents (cap_table t)" "\<lambda>h _. (task_id t, h) \<notin> V" "snd x"]
    by (auto simp: parent_entry_def find_id_purge purge_task_def parent_of_def simp del: tasks_purge
        split: option.splits)
qed (simp add: parent_entry_def find_id_purge del: tasks_purge)

section \<open>Children\<close>

definition children :: "Scheduler \<Rightarrow> TaskId \<times> CapHandle \<Rightarrow> (TaskId \<times> CapHandle) list" where
  "children s x = find_cap_children (fst x) (snd x) s"

lemma concat_map_concat: "concat (map f (concat xss)) = concat (map (\<lambda>xs. concat (map f xs)) xss)"
  by (induction xss) simp_all

lemma children_eq: "children s x = concat (map (task_cap_children (fst x) (snd x)) (scanned s))"
  by (simp add: children_def find_cap_children_def scanned_def rq_tasks_def concat_map_concat
      comp_def)

lemma task_cap_children_purge:
  "task_cap_children i h (purge_task V t) = filter (\<lambda>y. y \<notin> V) (task_cap_children i h t)"
  by (simp add: task_cap_children_def purge_task_def iter_parents_def filter_map comp_def conj_commute)

lemma children_purge: "children (purge V s) x = filter (\<lambda>y. y \<notin> V) (children s x)"
  by (simp add: children_eq purge_def task_cap_children_purge filter_concat comp_def)

lemma grant_record_eta [simp]:
  "\<lparr>granter_task = granter_task b, granter_handle = granter_handle b\<rparr> = b" for b :: GrantRecord
  by simp

lemma task_children_iff:
  "table_ok (cap_table t) \<Longrightarrow> (i, h') \<in> set (task_cap_children o1 h t) \<longleftrightarrow>
     i = task_id t \<and> parent_of (cap_table t) h' = Some \<lparr>granter_task = o1, granter_handle = h\<rparr>"
  by (auto simp: task_cap_children_def iter_parents_def parent_of_def table_ok_def bt_get_set image_iff)

lemma children_iff:
  assumes "sched_ok s"
  shows "y \<in> set (children s x) \<longleftrightarrow>
    fst y \<in> task_id ` set (scanned s) \<and>
    parent_entry s y = Some \<lparr>granter_task = fst x, granter_handle = snd x\<rparr>"
proof -
  have u: "distinct (map task_id (tasks s))" and ok: "\<And>t. t \<in> set (tasks s) \<Longrightarrow> table_ok (cap_table t)"
    using assms by (auto simp: sched_ok_def unique_ids_def)
  have "y \<in> set (children s x) \<longleftrightarrow> (\<exists>t\<in>set (scanned s). task_id t = fst y \<and>
      parent_of (cap_table t) (snd y) = Some \<lparr>granter_task = fst x, granter_handle = snd x\<rparr>)"
  proof -
    have "y \<in> set (children s x) \<longleftrightarrow> (\<exists>t\<in>set (scanned s). y \<in> set (task_cap_children (fst x) (snd x) t))"
      by (simp add: children_eq)
    also have "\<dots> \<longleftrightarrow> (\<exists>t\<in>set (scanned s). task_id t = fst y \<and>
      parent_of (cap_table t) (snd y) = Some \<lparr>granter_task = fst x, granter_handle = snd x\<rparr>)"
      using scanned_subset [of s] ok
      by (intro bex_cong refl) (metis prod.collapse subsetD task_children_iff)
    finally show ?thesis .
  qed
  also have "\<dots> \<longleftrightarrow> fst y \<in> task_id ` set (scanned s) \<and>
    parent_entry s y = Some \<lparr>granter_task = fst x, granter_handle = snd x\<rparr>"
  proof -
    have "parent_entry s y = parent_of (cap_table t) (snd y)"
      if "t \<in> set (scanned s)" "task_id t = fst y" for t
    proof -
      from that have "find_id (fst y) (tasks s) = Some t"
        using scanned_subset [of s] find_id_distinct [OF u, of "fst y" t] by blast
      then show ?thesis by (simp add: parent_entry_def)
    qed
    note this [simp]
    show ?thesis by (auto intro: rev_image_eqI)
  qed
  finally show ?thesis .
qed

lemma distinct_task_children: "table_ok (cap_table t) \<Longrightarrow> distinct (task_cap_children i h t)"
  by (auto simp: task_cap_children_def iter_parents_def distinct_map table_ok_def inj_on_def
      dest!: bt_ok_distinct intro!: distinct_filter)

lemma distinct_children_list:
  "distinct (map task_id ts) \<Longrightarrow> (\<forall>t\<in>set ts. table_ok (cap_table t)) \<Longrightarrow>
     distinct (concat (map (task_cap_children i h) ts))"
proof (induction ts)
  case (Cons t ts)
  have "fst y \<in> task_id ` set ts" if "y \<in> set (concat (map (task_cap_children i h) ts))" for y
    using that by (auto simp: task_cap_children_def)
  moreover have "fst y = task_id t" if "y \<in> set (task_cap_children i h t)" for y
    using that by (auto simp: task_cap_children_def)
  ultimately have "set (task_cap_children i h t) \<inter> set (concat (map (task_cap_children i h) ts)) = {}"
    using Cons.prems(1) by (metis disjoint_iff distinct.simps(2) list.simps(9) set_map)
  with Cons show ?case by (simp add: distinct_task_children)
qed simp

lemma distinct_append_drop_middle: "distinct (a @ b @ c) \<Longrightarrow> distinct (a @ c)"
  by auto

lemma distinct_scanned: "unique_ids s \<Longrightarrow> distinct (map task_id (scanned s))"
  unfolding unique_ids_def tasks_def scanned_def map_append
  by (rule distinct_append_drop_middle)

lemma distinct_children: "sched_ok s \<Longrightarrow> distinct (children s x)"
  using distinct_scanned [of s] scanned_subset [of s]
  by (auto simp: children_eq sched_ok_def intro!: distinct_children_list)

lemma children_unique:
  "sched_ok s \<Longrightarrow> y \<in> set (children s x) \<Longrightarrow> y \<in> set (children s x') \<Longrightarrow> x = x'"
  by (auto simp: children_iff prod_eq_iff)

section \<open>The revocation loop\<close>

definition descendants :: "Scheduler \<Rightarrow> TaskId \<times> CapHandle \<Rightarrow> (TaskId \<times> CapHandle) set" where
  "descendants s x = {y. rtranclp (\<lambda>u v. v \<in> set (children s u)) x y}"

lemma descendants_self [simp]: "x \<in> descendants s x"
  by (simp add: descendants_def)

lemma descendants_child: "y \<in> descendants s x \<Longrightarrow> z \<in> set (children s y) \<Longrightarrow> z \<in> descendants s x"
  by (auto simp: descendants_def intro: rtranclp.rtrancl_into_rtrancl)

lemma descendants_cases:
  "y \<in> descendants s x \<Longrightarrow> y = x \<or> (\<exists>z\<in>descendants s x. y \<in> set (children s z))"
  by (auto simp: descendants_def elim: rtranclp.cases)

lemma descendants_least:
  assumes "x \<in> V" and "\<And>u. u \<in> V \<Longrightarrow> set (children s u) \<subseteq> V"
  shows "descendants s x \<subseteq> V"
proof
  fix y assume "y \<in> descendants s x"
  then have "rtranclp (\<lambda>u v. v \<in> set (children s u)) x y" by (simp add: descendants_def)
  then show "y \<in> V" using assms by (induction rule: rtranclp_induct) auto
qed

lemma finite_descendants: "finite (descendants s x)"
proof -
  have child: "y \<in> (\<Union>t\<in>set (scanned s). {task_id t} \<times> fst ` set (parents (cap_table t)))"
    if "y \<in> set (children s z)" for y z
    using that by (auto simp: children_eq task_cap_children_def iter_parents_def)
  have "y = x \<or> y \<in> (\<Union>t\<in>set (scanned s). {task_id t} \<times> fst ` set (parents (cap_table t)))"
    if "y \<in> descendants s x" for y
    using descendants_cases [OF that] child by blast
  then have "descendants s x \<subseteq>
      insert x (\<Union>t\<in>set (scanned s). {task_id t} \<times> fst ` set (parents (cap_table t)))"
    by blast
  then show ?thesis by (rule finite_subset) auto
qed

lemma revoke_step_purge:
  assumes "unique_ids s"
  shows "revoke_step (purge V s, wl @ [x])
    = (purge (insert x V) s, wl @ filter (\<lambda>y. y \<notin> insert x V) (children s x))"
proof -
  obtain i h where x: "x = (i, h)" by (cases x)
  have "find_cap_children i h (purge (insert x V) s)
      = filter (\<lambda>y. y \<notin> insert x V) (children s x)"
    using children_purge [of "insert x V" s x] by (simp add: children_def x)
  then show ?thesis
    by (simp add: revoke_step_def x remove_purge [OF assms])
qed

text \<open>
  The loop's invariant: what was popped (\<open>V\<close>) is gone and nothing else is; what is on the
  worklist was not popped before, hangs below something popped, and together with
  \<open>V\<close> covers the children of everything popped.
\<close>

definition worklist_inv ::
  "Scheduler \<Rightarrow> TaskId \<times> CapHandle \<Rightarrow> (TaskId \<times> CapHandle) set \<Rightarrow> (TaskId \<times> CapHandle) list \<Rightarrow> bool" where
  "worklist_inv s x V wl \<longleftrightarrow>
     distinct wl \<and> set wl \<inter> V = {} \<and> V \<union> set wl \<subseteq> descendants s x \<and> x \<in> V \<union> set wl
     \<and> (\<forall>u\<in>V. set (children s u) \<subseteq> V \<union> set wl)
     \<and> (if V = {} then wl = [x] else \<forall>y\<in>set wl. \<exists>u\<in>V. y \<in> set (children s u))"

lemma worklist_inv_step:
  assumes ok: "sched_ok s" and inv: "worklist_inv s x V (wl @ [u])"
  shows "worklist_inv s x (insert u V) (wl @ filter (\<lambda>y. y \<notin> insert u V) (children s u))"
proof -
  let ?new = "filter (\<lambda>y. y \<notin> insert u V) (children s u)"
  have u: "u \<in> descendants s x" "u \<notin> V" "u \<notin> set wl"
    and wl: "distinct wl" "set wl \<inter> V = {}" "V \<union> set wl \<subseteq> descendants s x"
    and x: "x \<in> insert u V \<union> set wl"
    and closed: "\<forall>v\<in>V. set (children s v) \<subseteq> insert u V \<union> set wl"
    and below: "\<forall>y\<in>set wl. \<exists>v\<in>V. y \<in> set (children s v)"
    using inv by (auto simp: worklist_inv_def split: if_splits)
  have "y \<notin> set (children s u)" if "y \<in> set wl" for y
    using below that u(2) children_unique [OF ok] by blast
  then have "distinct (wl @ ?new)"
    using wl(1) distinct_children [OF ok] by auto
  moreover have "insert u V \<union> set (wl @ ?new) \<subseteq> descendants s x"
    using u(1) wl(3) descendants_child [OF u(1)] by auto
  moreover have "\<forall>y\<in>set (wl @ ?new). \<exists>v\<in>insert u V. y \<in> set (children s v)"
    using below by auto
  moreover have "\<forall>v\<in>insert u V. set (children s v) \<subseteq> insert u V \<union> set (wl @ ?new)"
    using closed by auto
  ultimately show ?thesis
    using u wl(2) x by (auto simp: worklist_inv_def)
qed

lemma revoke_loop:
  assumes ok: "sched_ok s"
  shows "worklist_inv s x V wl \<Longrightarrow>
    while_option (\<lambda>st. snd st \<noteq> []) revoke_step (purge V s, wl) = Some (purge (descendants s x) s, [])"
proof (induction "card (descendants s x - V)" arbitrary: V wl rule: less_induct)
  case less
  show ?case
  proof (cases wl rule: rev_cases)
    case Nil
    with less.prems have "V = descendants s x"
      using descendants_least [of x V s] by (auto simp: worklist_inv_def split: if_splits)
    with Nil show ?thesis by (simp add: while_option_unfold)
  next
    case (snoc ws u)
    let ?V = "insert u V" and ?ws = "ws @ filter (\<lambda>y. y \<notin> insert u V) (children s u)"
    from less.prems snoc have "u \<in> descendants s x - V" by (auto simp: worklist_inv_def)
    then have "descendants s x - ?V \<subset> descendants s x - V" by auto
    then have "card (descendants s x - ?V) < card (descendants s x - V)"
      by (intro psubset_card_mono finite_Diff finite_descendants)
    moreover have "worklist_inv s x ?V ?ws"
      using worklist_inv_step [OF ok] less.prems snoc by blast
    ultimately have "while_option (\<lambda>st. snd st \<noteq> []) revoke_step (purge ?V s, ?ws)
        = Some (purge (descendants s x) s, [])"
      by (rule less.hyps)
    with snoc show ?thesis
      using ok by (subst while_option_unfold) (simp add: revoke_step_purge sched_ok_def)
  qed
qed

lemma revoke_loop_from_start:
  assumes "sched_ok s"
  shows "while_option (\<lambda>st. snd st \<noteq> []) revoke_step (s, [x]) = Some (purge (descendants s x) s, [])"
  using revoke_loop [OF assms, of x "{}" "[x]"] by (simp add: worklist_inv_def purge_empty)

lemma revoke_eq:
  assumes "sched_ok s"
  shows "revoke revoker target h s =
    (case find_id target (tasks s) of
       None \<Rightarrow> Some (Inl NoSuchTask, s)
     | Some t \<Rightarrow>
         (case parent_of (cap_table t) h of
            None \<Rightarrow> Some (Inl NoSuchHandle, s)
          | Some p \<Rightarrow>
              if granter_task p \<noteq> revoker then Some (Inl InsufficientRights, s)
              else Some (Inr (), purge (descendants s (target, h)) s)))"
  using assms
  by (auto simp: revoke_def with_task_by_id_eq sched_ok_def revoke_loop_from_start split: option.splits)

end
