(* ===== verification/Cap_Authority.thy ===== *)
theory Cap_Authority
  imports Cap_Revocation
begin

text \<open>
  Authority across the whole system: minting, granting and revoking keep the capability
  tables well formed and keep every live grant a narrowing of the capability it came
  from, so no chain of grants ever amplifies authority. The theorems about grant,
  revoke and the capability system calls are stated here.
\<close>

section \<open>What an insertion does\<close>

definition next_of :: "Scheduler \<Rightarrow> TaskId \<Rightarrow> u64 option" where
  "next_of s i = map_option (\<lambda>t. next_handle (cap_table t)) (find_id i (tasks s))"

definition set_table :: "(CapTable \<Rightarrow> CapHandle \<times> CapTable) \<Rightarrow> Task \<Rightarrow> CapHandle \<times> Task" where
  "set_table f t = (let (h, ct) = f (cap_table t) in (h, t\<lparr>cap_table := ct\<rparr>))"

lemma find_id_upd:
  assumes "\<And>t. task_id (snd (f t)) = task_id t"
  shows "find_id j (tasks (map_sched (upd i f) s))
    = (if j = i then map_option (\<lambda>t. snd (f t)) (find_id i (tasks s)) else find_id j (tasks s))"
proof -
  have "find_id j (tasks (map_sched (upd i f) s)) = map_option (upd i f) (find_id j (tasks s))"
    using assms by (simp add: find_id_map upd_def)
  moreover have "task_id t = j" if "find_id j (tasks s) = Some t" for t
    using that by (auto dest: find_id_SomeD)
  ultimately show ?thesis by (cases "find_id j (tasks s)") (auto simp: upd_def)
qed

lemma set_table_id [simp]: "task_id (snd (set_table f t)) = task_id t"
  by (simp add: set_table_def split: prod.split)

lemma set_table_table [simp]: "cap_table (snd (set_table f t)) = snd (f (cap_table t))"
  by (simp add: set_table_def split: prod.split)

lemma set_table_fst [simp]: "fst (set_table f t) = fst (f (cap_table t))"
  by (simp add: set_table_def split: prod.split)

lemma insert_root_eq:
  "insert_root c t = (CapHandle (next_handle t),
     t\<lparr>next_handle := next_handle t + 1, slots := bt_insert (CapHandle (next_handle t)) c (slots t)\<rparr>)"
  by (simp add: insert_root_def Let_def)

lemma insert_derived_eq:
  "insert_derived c p t = (CapHandle (next_handle t),
     t\<lparr>next_handle := next_handle t + 1,
       slots := bt_insert (CapHandle (next_handle t)) c (slots t),
       parents := bt_insert (CapHandle (next_handle t)) p (parents t)\<rparr>)"
  by (simp add: insert_derived_def insert_root_eq)

lemma fresh_handle:
  assumes "table_ok t"
  shows "cap_get t (CapHandle (next_handle t)) = None"
    and "parent_of t (CapHandle (next_handle t)) = None"
proof -
  have "\<not> handle_raw (CapHandle (next_handle t)) < next_handle t" by simp
  then show "cap_get t (CapHandle (next_handle t)) = None"
    using assms unfolding table_ok_def by blast
  then show "parent_of t (CapHandle (next_handle t)) = None"
    using assms unfolding table_ok_def by blast
qed

lemma table_ok_insert_root:
  assumes "table_ok t" and "next_handle t < - 1"
  shows "table_ok (snd (insert_root c t))"
  using assms less_max_word_suc [OF assms(2)]
  by (auto simp: table_ok_def insert_root_eq cap_get_def parent_of_def intro: less_trans)

lemma table_ok_insert_derived:
  assumes "table_ok t" and "next_handle t < - 1"
  shows "table_ok (snd (insert_derived c p t))"
  using assms less_max_word_suc [OF assms(2)]
  by (auto simp: table_ok_def insert_derived_eq cap_get_def parent_of_def intro: less_trans)

lemma table_ok_purge: "table_ok (cap_table t) \<Longrightarrow> table_ok (cap_table (purge_task V t))"
  using bt_get_filter [of "slots (cap_table t)" "\<lambda>h _. (task_id t, h) \<notin> V"]
    bt_get_filter [of "parents (cap_table t)" "\<lambda>h _. (task_id t, h) \<notin> V"]
  by (auto simp: table_ok_def purge_task_def cap_get_def parent_of_def bt_ok_filter
      split: option.splits if_splits)

section \<open>The authority invariant\<close>

definition auth_ok :: "Scheduler \<Rightarrow> bool" where
  "auth_ok s \<longleftrightarrow> sched_ok s \<and>
     (\<forall>x p. parent_entry s x = Some p \<longrightarrow>
        (\<forall>n. next_of s (granter_task p) = Some n \<longrightarrow> handle_raw (granter_handle p) < n) \<and>
        (\<forall>c pc. cap_entry s x = Some c \<longrightarrow>
           cap_entry s (granter_task p, granter_handle p) = Some pc \<longrightarrow>
           is_valid_derivation pc c \<and> contains (cap_rights pc) Rights_GRANT))"

lemma auth_okD:
  "auth_ok s \<Longrightarrow> parent_entry s x = Some p \<Longrightarrow> cap_entry s x = Some c \<Longrightarrow>
     cap_entry s (granter_task p, granter_handle p) = Some pc \<Longrightarrow>
     is_valid_derivation pc c \<and> contains (cap_rights pc) Rights_GRANT"
  unfolding auth_ok_def by blast

lemma cap_entry_below_next:
  assumes "cap_entry s (j, h) = Some pc" and "next_of s j = Some n" and "sched_ok s"
  shows "handle_raw h < n"
proof -
  from assms(1) obtain u where u: "find_id j (tasks s) = Some u" and g: "cap_get (cap_table u) h = Some pc"
    by (auto simp: cap_entry_def bind_eq_Some_conv)
  then have "table_ok (cap_table u)" using assms(3) by (auto simp: sched_ok_def dest: find_id_SomeD)
  with g have "handle_raw h < next_handle (cap_table u)" by (auto simp: table_ok_def)
  with u assms(2) show ?thesis by (simp add: next_of_def)
qed

lemma sched_ok_upd:
  assumes "sched_ok s" and "find_id i (tasks s) = Some t"
    and "\<And>u. task_id (snd (f u)) = task_id u"
    and "table_ok (cap_table (snd (f t)))"
  shows "sched_ok (map_sched (upd i f) s)"
proof -
  have u: "distinct (map task_id (tasks s))" using assms(1) by (simp add: sched_ok_def unique_ids_def)
  have "task_id \<circ> upd i f = task_id" using assms(3) by (auto simp: upd_def)
  then have "unique_ids (map_sched (upd i f) s)" using u by (simp add: unique_ids_def)
  moreover have "table_ok (cap_table (upd i f v))" if "v \<in> set (tasks s)" for v
  proof (cases "task_id v = i")
    case True
    with that find_id_distinct [OF u, of i v] assms(2) have "v = t" by simp
    with True assms(4) show ?thesis by (simp add: upd_def)
  next
    case False
    with that assms(1) show ?thesis by (simp add: upd_def sched_ok_def)
  qed
  ultimately show ?thesis by (simp add: sched_ok_def)
qed

text \<open>
  A fresh capability \<open>c\<close>, with or without a grant record, in the table of task \<open>i\<close>:
  the other entries keep their capability, record and counter.
\<close>

lemma auth_ok_insert:
  assumes inv: "auth_ok s" and t: "find_id i (tasks s) = Some t"
    and room: "next_handle (cap_table t) < - 1"
    and ct: "cap_table (snd (f t)) = snd (insert_root c (cap_table t)) \<and> po = None \<or>
      (\<exists>p. po = Some p \<and> cap_table (snd (f t)) = snd (insert_derived c p (cap_table t)) \<and>
        (\<exists>pc. cap_entry s (granter_task p, granter_handle p) = Some pc \<and>
           is_valid_derivation pc c \<and> contains (cap_rights pc) Rights_GRANT))"
    and id: "\<And>u. task_id (snd (f u)) = task_id u"
  shows "auth_ok (map_sched (upd i f) s)"
proof -
  let ?s = "map_sched (upd i f) s" and ?x = "(i, CapHandle (next_handle (cap_table t)))"
  have ok: "sched_ok s" using inv by (simp add: auth_ok_def)
  have tok: "table_ok (cap_table t)"
    using ok t by (auto simp: sched_ok_def dest: find_id_SomeD)
  have "table_ok (cap_table (snd (f t)))"
    using ct tok room by (auto simp: table_ok_insert_root table_ok_insert_derived)
  with ok t id have ok': "sched_ok ?s" by (rule sched_ok_upd)
  have c: "cap_entry ?s y = (if y = ?x then Some c else cap_entry s y)" for y
    using ct t by (cases y) (auto simp: cap_entry_def find_id_upd id cap_get_def insert_root_eq
        insert_derived_eq simp del: tasks_map_sched)
  have p: "parent_entry ?s y = (if y = ?x then po else parent_entry s y)" for y
    using ct t fresh_handle(2) [OF tok]
    by (cases y) (auto simp: parent_entry_def find_id_upd id parent_of_def insert_root_eq
        insert_derived_eq simp del: tasks_map_sched)
  have n: "next_of ?s j = (if j = i then Some (next_handle (cap_table t) + 1) else next_of s j)" for j
    using ct t by (auto simp: next_of_def find_id_upd id insert_root_eq insert_derived_eq
        simp del: tasks_map_sched)
  have old: "next_of s i = Some (next_handle (cap_table t))" using t by (simp add: next_of_def)
  have fresh: "cap_entry s ?x = None" using t fresh_handle(1) [OF tok] by (simp add: cap_entry_def)
  have new: "\<exists>pc. cap_entry s (granter_task q, granter_handle q) = Some pc \<and>
      is_valid_derivation pc c \<and> contains (cap_rights pc) Rights_GRANT" if "po = Some q" for q
    using ct that by auto
  have below: "handle_raw (granter_handle q) < n0"
    if "parent_entry ?s y = Some q" "next_of s (granter_task q) = Some n0" for y q n0
  proof (cases "y = ?x")
    case True
    with that(1) p new obtain pc where "cap_entry s (granter_task q, granter_handle q) = Some pc" by auto
    then show ?thesis using that(2) ok by (rule cap_entry_below_next)
  next
    case False
    with that(1) p have "parent_entry s y = Some q" by simp
    with that(2) inv show ?thesis unfolding auth_ok_def by blast
  qed
  show ?thesis
    unfolding auth_ok_def
  proof (intro conjI allI impI ok')
    fix y q m assume y: "parent_entry ?s y = Some q" and m: "next_of ?s (granter_task q) = Some m"
    show "handle_raw (granter_handle q) < m"
      using below [OF y] m old less_max_word_suc [OF room] by (auto simp: n split: if_splits dest: less_trans)
  next
    fix y q c' pc assume y: "parent_entry ?s y = Some q" "cap_entry ?s y = Some c'"
      and g: "cap_entry ?s (granter_task q, granter_handle q) = Some pc"
    have "(granter_task q, granter_handle q) \<noteq> ?x"
      using below [OF y(1)] old by auto
    with g have g': "cap_entry s (granter_task q, granter_handle q) = Some pc" by (simp only: c if_False)
    have "is_valid_derivation pc c' \<and> contains (cap_rights pc) Rights_GRANT"
    proof (cases "y = ?x")
      case True
      with y g' new show ?thesis by (fastforce simp: c p)
    next
      case False
      with y have y': "parent_entry s y = Some q" "cap_entry s y = Some c'"
        by (simp_all only: c p if_False)
      show ?thesis by (rule auth_okD [OF inv y' g'])
    qed
    then show "is_valid_derivation pc c'" "contains (cap_rights pc) Rights_GRANT" by simp_all
  qed
qed

section \<open>The system's steps\<close>

text \<open>
  Everything that touches capability tables: the kernel mints a root capability, a task
  grants, a task revokes. The scheduler moves tasks between its containers, a task
  exits and its table goes with it, and a task with a fresh identifier and an empty
  table appears. The handle counter is 64 bits wide; a step that would wrap it is left
  out.
\<close>

inductive cap_step :: "Scheduler \<Rightarrow> Scheduler \<Rightarrow> bool" where
  mint: "find_id i (tasks s) = Some t \<Longrightarrow> next_handle (cap_table t) < - 1 \<Longrightarrow>
     cap_step s (snd (with_task_by_id i (set_table (insert_root c)) s))"
| grants: "grant g h target d s = (Inr h', s') \<Longrightarrow> handle_raw h' < - 1 \<Longrightarrow> cap_step s s'"
| revokes: "revoke r target h s = Some (Inr (), s') \<Longrightarrow> cap_step s s'"
| moves: "distinct (map task_id (tasks s')) \<Longrightarrow> set (tasks s') \<subseteq> set (tasks s) \<Longrightarrow> cap_step s s'"
| spawns: "distinct (map task_id (tasks s')) \<Longrightarrow>
     set (tasks s') = insert \<lparr>task_id = i, cap_table = cap_table_new\<rparr> (set (tasks s)) \<Longrightarrow>
     i \<notin> task_id ` set (tasks s) \<Longrightarrow>
     (\<And>x p. parent_entry s x = Some p \<Longrightarrow> granter_task p \<noteq> i) \<Longrightarrow> cap_step s s'"

inductive_cases cap_stepE: "cap_step s s'"

lemma grant_eq:
  assumes "unique_ids s"
  shows "grant g h target d s =
    (case find_id g (tasks s) of
       None \<Rightarrow> (Inl NoSuchTask, s)
     | Some tg \<Rightarrow>
         (case cap_get (cap_table tg) h of
            None \<Rightarrow> (Inl NoSuchHandle, s)
          | Some parent \<Rightarrow>
              if \<not> contains (cap_rights parent) Rights_GRANT then (Inl InsufficientRights, s)
              else if \<not> is_valid_derivation parent d then (Inl InvalidDerivation, s)
              else (case find_id target (tasks s) of
                      None \<Rightarrow> (Inl NoSuchTask, s)
                    | Some t \<Rightarrow>
                        (Inr (CapHandle (next_handle (cap_table t))),
                         map_sched (upd target (set_table
                           (insert_derived d \<lparr>granter_task = g, granter_handle = h\<rparr>))) s))))"
proof -
  have "(\<lambda>t. let (h', ct) = insert_derived d \<lparr>granter_task = g, granter_handle = h\<rparr> (cap_table t)
           in (h', t\<lparr>cap_table := ct\<rparr>))
      = set_table (insert_derived d \<lparr>granter_task = g, granter_handle = h\<rparr>)"
    by (simp add: fun_eq_iff set_table_def)
  then show ?thesis
    unfolding grant_def
    by (simp only: with_task_by_id_eq [OF assms])
      (simp add: insert_derived_eq split: option.splits)
qed

lemma grant_okD:
  assumes "sched_ok s" and "grant g h target d s = (Inr h', s')"
  obtains parent t where "cap_entry s (g, h) = Some parent"
    and "contains (cap_rights parent) Rights_GRANT" and "is_valid_derivation parent d"
    and "find_id target (tasks s) = Some t" and "h' = CapHandle (next_handle (cap_table t))"
    and "s' = map_sched (upd target (set_table
           (insert_derived d \<lparr>granter_task = g, granter_handle = h\<rparr>))) s"
  using assms
  by (auto simp: grant_eq sched_ok_def cap_entry_def split: option.splits if_splits)

lemma auth_ok_grant:
  assumes "auth_ok s" and "grant g h target d s = (Inr h', s')" and "handle_raw h' < - 1"
  shows "auth_ok s'"
proof -
  have ok: "sched_ok s" using assms(1) by (simp add: auth_ok_def)
  from grant_okD [OF ok assms(2)] obtain parent t where
    p: "cap_entry s (g, h) = Some parent" "contains (cap_rights parent) Rights_GRANT"
      "is_valid_derivation parent d"
    and t: "find_id target (tasks s) = Some t" "h' = CapHandle (next_handle (cap_table t))"
    and s': "s' = map_sched (upd target (set_table
           (insert_derived d \<lparr>granter_task = g, granter_handle = h\<rparr>))) s" by blast
  show ?thesis
    unfolding s'
    by (rule auth_ok_insert [OF assms(1) t(1), where c = d
          and po = "Some \<lparr>granter_task = g, granter_handle = h\<rparr>"])
      (use assms(3) t p in auto)
qed

lemma auth_ok_mint:
  assumes "auth_ok s" and "find_id i (tasks s) = Some t" and "next_handle (cap_table t) < - 1"
  shows "auth_ok (snd (with_task_by_id i (set_table (insert_root c)) s))"
proof -
  have "unique_ids s" using assms(1) by (simp add: auth_ok_def sched_ok_def)
  then show ?thesis
    using auth_ok_insert [OF assms(1,2,3), where c = c and po = None and f = "set_table (insert_root c)"]
    by (simp add: with_task_by_id_eq)
qed

lemma next_of_purge: "next_of (purge V s) i = next_of s i"
  by (auto simp: next_of_def find_id_purge option.map_comp comp_def purge_task_def simp del: tasks_purge)

lemma sched_ok_purge: "sched_ok s \<Longrightarrow> sched_ok (purge V s)"
  by (auto simp: sched_ok_def unique_ids_purge table_ok_purge)

lemma auth_ok_purge: "auth_ok s \<Longrightarrow> auth_ok (purge V s)"
  by (auto simp: auth_ok_def sched_ok_purge next_of_purge cap_entry_purge parent_entry_purge
      split: if_splits)

lemma auth_ok_revoke:
  assumes "auth_ok s" and "revoke r target h s = Some (Inr (), s')"
  shows "auth_ok s'"
proof -
  have "sched_ok s" using assms(1) by (simp add: auth_ok_def)
  then have "s' = purge (descendants s (target, h)) s"
    using assms(2) by (auto simp: revoke_eq split: option.splits if_splits)
  with assms(1) show ?thesis by (simp add: auth_ok_purge)
qed

lemma entries_subset:
  assumes "distinct (map task_id (tasks s))" and "distinct (map task_id (tasks s'))"
    and "set (tasks s') \<subseteq> set (tasks s)"
  shows "find_id i (tasks s') = Some t \<Longrightarrow> find_id i (tasks s) = Some t"
  using assms by (auto simp: find_id_distinct)

lemma auth_ok_moves:
  assumes inv: "auth_ok s" and d: "distinct (map task_id (tasks s'))"
    and sub: "set (tasks s') \<subseteq> set (tasks s)"
  shows "auth_ok s'"
proof -
  have u: "distinct (map task_id (tasks s))" using inv by (simp add: auth_ok_def sched_ok_def unique_ids_def)
  note keep = entries_subset [OF u d sub]
  have "sched_ok s'" using inv d sub by (auto simp: auth_ok_def sched_ok_def unique_ids_def)
  moreover have "cap_entry s' x = Some c \<Longrightarrow> cap_entry s x = Some c"
    "parent_entry s' x = Some p \<Longrightarrow> parent_entry s x = Some p"
    "next_of s' i = Some n \<Longrightarrow> next_of s i = Some n" for x c p i n
    by (auto simp: cap_entry_def parent_entry_def next_of_def bind_eq_Some_conv dest: keep)
  ultimately show ?thesis using inv unfolding auth_ok_def by blast
qed

lemma auth_ok_spawns:
  assumes inv: "auth_ok s" and d: "distinct (map task_id (tasks s'))"
    and ts: "set (tasks s') = insert \<lparr>task_id = i, cap_table = cap_table_new\<rparr> (set (tasks s))"
    and fresh: "i \<notin> task_id ` set (tasks s)"
    and unused: "\<And>x p. parent_entry s x = Some p \<Longrightarrow> granter_task p \<noteq> i"
  shows "auth_ok s'"
proof -
  have u: "distinct (map task_id (tasks s))" using inv by (simp add: auth_ok_def sched_ok_def unique_ids_def)
  have f: "find_id j (tasks s') = (if j = i then Some \<lparr>task_id = i, cap_table = cap_table_new\<rparr>
      else find_id j (tasks s))" for j
  proof (cases "j = i")
    case True
    then show ?thesis using find_id_distinct [OF d] ts by simp
  next
    case False
    have "find_id j (tasks s') = Some t \<longleftrightarrow> find_id j (tasks s) = Some t" for t
      using False ts by (auto simp: find_id_distinct [OF d] find_id_distinct [OF u])
    then show ?thesis using False by (metis option.exhaust)
  qed
  have "sched_ok s'"
    using inv d ts by (auto simp: auth_ok_def sched_ok_def unique_ids_def table_ok_new)
  moreover have "cap_entry s' x = (if fst x = i then None else cap_entry s x)"
    "parent_entry s' x = (if fst x = i then None else parent_entry s x)"
    "next_of s' j = (if j = i then Some 1 else next_of s j)" for x j
    by (simp_all add: cap_entry_def parent_entry_def next_of_def f cap_table_new_def cap_get_def
        parent_of_def)
  ultimately show ?thesis using inv unused unfolding auth_ok_def by auto
qed

text \<open>The empty machine: no task holds anything yet.\<close>

definition boot_state :: "Scheduler \<Rightarrow> bool" where
  "boot_state s \<longleftrightarrow> unique_ids s \<and> (\<forall>t\<in>set (tasks s). cap_table t = cap_table_new)"

lemma auth_ok_boot: "boot_state s \<Longrightarrow> auth_ok s"
proof -
  assume boot: "boot_state s"
  then have "sched_ok s" by (auto simp: boot_state_def sched_ok_def table_ok_new)
  moreover have "parent_entry s x = None" for x
  proof (cases "find_id (fst x) (tasks s)")
    case (Some t)
    then have "cap_table t = cap_table_new" using boot by (auto simp: boot_state_def dest: find_id_SomeD)
    with Some show ?thesis by (simp add: parent_entry_def parent_of_def cap_table_new_def)
  qed (simp add: parent_entry_def)
  ultimately show ?thesis by (simp add: auth_ok_def)
qed

interpretation authority: inductive_invariant boot_state cap_step auth_ok
proof (unfold_locales, goal_cases)
  case (1 s)
  then show ?case by (rule auth_ok_boot)
next
  case (2 s t)
  then show ?case
    by (cases rule: cap_step.cases)
      (blast intro: auth_ok_mint auth_ok_grant auth_ok_revoke auth_ok_moves auth_ok_spawns)+
qed

section \<open>Theorems\<close>

lemma flatten_mem: "x \<in> set (flatten xs) \<longleftrightarrow> Some x \<in> set xs"
  by (induction xs rule: flatten.induct) auto

lemma stash_not_scanned:
  assumes "unique_ids s" and "t \<in> set (flatten (switch_stash s))"
  shows "task_id t \<notin> task_id ` set (scanned s)"
proof -
  have "(set (map task_id (flatten (current_task s))) \<union> set (map task_id
      (concat (map rq_tasks (runqueues s)) @ blocked_tasks s)))
      \<inter> set (map task_id (flatten (switch_stash s))) = {}"
    using assms(1) unfolding unique_ids_def tasks_def map_append [of task_id "flatten (current_task s)"]
      map_append [of task_id "flatten (switch_stash s)"] distinct_append set_append by blast
  then show ?thesis using assms(2)
    unfolding scanned_def set_map set_append image_Un by blast
qed

definition live_grant :: "Scheduler \<Rightarrow> TaskId \<times> CapHandle \<Rightarrow> TaskId \<times> CapHandle \<Rightarrow> bool" where
  "live_grant s x y \<longleftrightarrow> cap_entry s x \<noteq> None \<and> cap_entry s y \<noteq> None \<and>
     parent_entry s y = Some \<lparr>granter_task = fst x, granter_handle = snd x\<rparr>"

lemma live_grant_derivation:
  "auth_ok s \<Longrightarrow> live_grant s x y \<Longrightarrow> is_valid_derivation (the (cap_entry s x)) (the (cap_entry s y))"
  using auth_okD [of s y "\<lparr>granter_task = fst x, granter_handle = snd x\<rparr>"]
  by (auto simp: live_grant_def)

text \<open>
  C1. No amplification of authority. In every state the system reaches from boot by
  minting, granting, revoking, scheduling, spawning and exiting, a capability at the end
  of a chain of live grants is a valid derivation of the one at its start, and its rights
  are a subset of that one's rights.
\<close>

theorem no_amplification:
  assumes "boot_state s0" and "rtranclp cap_step s0 s"
    and "rtranclp (live_grant s) x y"
    and "cap_entry s x = Some cx" and "cap_entry s y = Some cy"
  shows "is_valid_derivation cx cy \<and> is_subset_of (cap_rights cy) (cap_rights cx)"
proof -
  have inv: "auth_ok s" using assms(1,2) by (rule authority.reachable_inv)
  note step = live_grant_derivation [OF inv]
  have "is_valid_derivation (the (cap_entry s x)) (the (cap_entry s y))"
    using assms(3) step by (rule cap.chain_le)
  moreover have "is_subset_of (cap_rights (the (cap_entry s y))) (cap_rights (the (cap_entry s x)))"
    using assms(3) step by (rule cap.chain_rights)
  ultimately show ?thesis using assms(4,5) by simp
qed

lemma grant_shape:
  assumes "sched_ok s" and "grant g h target d s = (Inr h', s')"
  shows "\<exists>parent. cap_entry s (g, h) = Some parent
      \<and> contains (cap_rights parent) Rights_GRANT \<and> is_valid_derivation parent d
      \<and> cap_entry s (target, h') = None
      \<and> cap_entry s' = (cap_entry s)((target, h') \<mapsto> d)
      \<and> parent_entry s' = (parent_entry s)((target, h') \<mapsto> \<lparr>granter_task = g, granter_handle = h\<rparr>)"
proof -
  from grant_okD [OF assms] obtain parent t where
    p: "cap_entry s (g, h) = Some parent" "contains (cap_rights parent) Rights_GRANT"
      "is_valid_derivation parent d"
    and t: "find_id target (tasks s) = Some t" "h' = CapHandle (next_handle (cap_table t))"
    and s': "s' = map_sched (upd target (set_table
           (insert_derived d \<lparr>granter_task = g, granter_handle = h\<rparr>))) s" by blast
  have tok: "table_ok (cap_table t)"
    using assms(1) t(1) by (auto simp: sched_ok_def dest: find_id_SomeD)
  have "cap_entry s (target, h') = None" using t fresh_handle(1) [OF tok] by (simp add: cap_entry_def)
  moreover have "cap_entry s' = (cap_entry s)((target, h') \<mapsto> d)"
    using t by (auto simp: fun_eq_iff s' cap_entry_def find_id_upd cap_get_def insert_derived_eq
        simp del: tasks_map_sched)
  moreover have "parent_entry s'
      = (parent_entry s)((target, h') \<mapsto> \<lparr>granter_task = g, granter_handle = h\<rparr>)"
    using t by (auto simp: fun_eq_iff s' parent_entry_def find_id_upd parent_of_def insert_derived_eq
        simp del: tasks_map_sched)
  ultimately show ?thesis using p by blast
qed

text \<open>
  C15. Granting. A successful \<open>grant\<close> proves that the granter held the source handle with
  the \<open>GRANT\<close> right and that the new capability narrows it; the target gains exactly
  that capability, under a handle it did not use before and with the grant recorded, and
  no other capability of any task changes.
\<close>

theorem grant_effect:
  assumes "sched_ok s" and "grant g h target d s = (Inr h', s')"
  shows "\<exists>parent. cap_entry s (g, h) = Some parent
      \<and> contains (cap_rights parent) Rights_GRANT \<and> is_valid_derivation parent d
      \<and> cap_entry s (target, h') = None
      \<and> cap_entry s' = (cap_entry s)((target, h') \<mapsto> d)
      \<and> parent_entry s' = (parent_entry s)((target, h') \<mapsto> \<lparr>granter_task = g, granter_handle = h\<rparr>)"
  by (rule grant_shape [OF assms])

text \<open>
  C2. Revocation is complete and precise. When the revoker is the recorded granter,
  \<open>revoke\<close> returns (its worklist loop ends), the revoked handle and every capability
  derived from it in the tasks the children search scans are gone, and every other
  capability and grant record of every task is as before.
\<close>

theorem revoke_exact:
  assumes "sched_ok s" and "parent_entry s (target, h) = Some p" and "granter_task p = revoker"
  shows "\<exists>s'. revoke revoker target h s = Some (Inr (), s')
      \<and> (\<forall>x. cap_entry s' x = (if x \<in> descendants s (target, h) then None else cap_entry s x))
      \<and> (\<forall>x. parent_entry s' x = (if x \<in> descendants s (target, h) then None else parent_entry s x))"
proof -
  from assms(2) obtain t where "find_id target (tasks s) = Some t" "parent_of (cap_table t) h = Some p"
    by (auto simp: parent_entry_def bind_eq_Some_conv)
  then have "revoke revoker target h s = Some (Inr (), purge (descendants s (target, h)) s)"
    using assms(3) by (simp add: revoke_eq [OF assms(1)])
  then show ?thesis
    using cap_entry_purge [OF assms(1)] parent_entry_purge [OF assms(1)] by blast
qed

text \<open>
  C34. Revocation always returns and fails closed: each error has exactly its cause, and
  a failing call changes nothing.
\<close>

theorem revoke_errors:
  assumes "sched_ok s"
  shows "\<exists>r s'. revoke revoker target h s = Some (r, s')
      \<and> (r = Inl NoSuchTask \<longleftrightarrow> find_id target (tasks s) = None)
      \<and> (r = Inl NoSuchHandle \<longleftrightarrow> find_id target (tasks s) \<noteq> None \<and> parent_entry s (target, h) = None)
      \<and> (r = Inl InsufficientRights \<longleftrightarrow>
            (\<exists>p. parent_entry s (target, h) = Some p \<and> granter_task p \<noteq> revoker))
      \<and> r \<notin> {Inl InvalidDerivation, Inl WrongFlavor}
      \<and> (r \<noteq> Inr () \<longrightarrow> s' = s)"
  by (auto simp: revoke_eq [OF assms] parent_entry_def split: option.splits)

text \<open>
  C35. A gap in recursive revocation. A task that sits in a CPU's switch stash while
  \<open>revoke\<close> runs keeps its whole capability table, also the capabilities it was granted
  from the revoked handle: the children search walks the current tasks, the run queues
  and the blocked tasks, but not the stash.
\<close>

theorem revoke_skips_switch_stash:
  assumes "sched_ok s" and "Some t \<in> set (switch_stash s)" and "task_id t \<noteq> target"
    and "revoke revoker target h s = Some (Inr (), s')"
  shows "Some t \<in> set (switch_stash s') \<and> (\<forall>k. cap_entry s' (task_id t, k) = cap_entry s (task_id t, k))"
proof -
  have s': "s' = purge (descendants s (target, h)) s"
    using assms(4) by (auto simp: revoke_eq [OF assms(1)] split: option.splits if_splits)
  have "t \<in> set (flatten (switch_stash s))"
    using assms(2) by (simp add: flatten_mem)
  then have "task_id t \<notin> task_id ` set (scanned s)"
    using assms(1) stash_not_scanned by (auto simp: sched_ok_def)
  then have out: "(task_id t, k) \<notin> descendants s (target, h)" for k
    using descendants_cases [of "(task_id t, k)" s "(target, h)"] assms(1,3)
    by (auto simp: children_iff)
  then have "purge_task (descendants s (target, h)) t = t" by (simp add: purge_task_def)
  then have "Some t \<in> set (switch_stash s')"
    using assms(2) by (force simp: s' purge_def map_sched_def)
  then show ?thesis using out by (simp add: s' cap_entry_purge [OF assms(1)])
qed


lemma sys_cap_grant_cases:
  assumes "sched_ok s" and "current_task_id cpu s = Some g"
    and "sys_cap_grant cpu regs s = (regs', s')"
  shows "s' = s \<or> (\<exists>parent h'. cap_entry s (g, CapHandle (rsi regs)) = Some parent \<and>
     grant g (CapHandle (rsi regs)) (TaskId (rdi regs))
       (derive_cap parent (from_bits_truncate (ucast (rdx regs))) (r10 regs) (r8 regs)) s = (Inr h', s')
     \<and> rax regs' = handle_raw h')"
proof -
  have u: "unique_ids s" using assms(1) by (simp add: sched_ok_def)
  have err: "snd (grant a b c d s) = s" if "fst (grant a b c d s) = Inl e" for a b c d e
    using that by (auto simp: grant_eq [OF u] split: option.splits if_splits)
  show ?thesis
  proof (cases "cap_entry s (g, CapHandle (rsi regs))")
    case None
    then show ?thesis
      using assms(2,3) by (auto simp: sys_cap_grant_def Let_def with_task_by_id_eq [OF u] cap_entry_def
          split: option.splits bind_splits)
  next
    case (Some parent)
    then have b: "Option.bind (fst (with_task_by_id g
        (\<lambda>t. (cap_get (cap_table t) (CapHandle (rsi regs)), t)) s)) id = Some parent"
      by (auto simp: with_task_by_id_eq [OF u] cap_entry_def bind_eq_Some_conv)
    let ?d = "derive_cap parent (from_bits_truncate (ucast (rdx regs))) (r10 regs) (r8 regs)"
    obtain r t where r: "grant g (CapHandle (rsi regs)) (TaskId (rdi regs)) ?d s = (r, t)" by fastforce
    show ?thesis
    proof (cases r)
      case (Inl e)
      with r err [of g "CapHandle (rsi regs)" "TaskId (rdi regs)" ?d e] have "t = s" by simp
      then show ?thesis using assms(2,3) b r Inl by (simp add: sys_cap_grant_def Let_def)
    next
      case (Inr h')
      then show ?thesis using assms(2,3) b r Some by (auto simp: sys_cap_grant_def Let_def)
    qed
  qed
qed

lemma cap_rights_derive: "cap_rights (derive_cap p r d0 d1) = r"
  by (cases p) (simp_all add: derive_cap_def)

text \<open>
  C16. The \<open>SYS_CAP_GRANT\<close> system call. Whatever registers userspace passes, the call either
  leaves every table as it was, or deposits in the task named by \<open>rdi\<close> one capability
  that is a valid derivation of a capability the calling task holds with the \<open>GRANT\<close>
  right under the handle in \<open>rsi\<close>, with only defined rights bits, and returns its handle
  in \<open>rax\<close>.
\<close>

theorem sys_cap_grant_sound:
  assumes "sched_ok s" and "current_task_id cpu s = Some g"
    and "sys_cap_grant cpu regs s = (regs', s')"
  shows "s' = s \<or> (\<exists>parent d. cap_entry s (g, CapHandle (rsi regs)) = Some parent
     \<and> contains (cap_rights parent) Rights_GRANT \<and> is_valid_derivation parent d
     \<and> is_subset_of (cap_rights d) Rights_ALL
     \<and> cap_entry s' = (cap_entry s)((TaskId (rdi regs), CapHandle (rax regs')) \<mapsto> d))"
  using sys_cap_grant_cases [OF assms]
proof
  assume "\<exists>parent h'. cap_entry s (g, CapHandle (rsi regs)) = Some parent \<and>
     grant g (CapHandle (rsi regs)) (TaskId (rdi regs))
       (derive_cap parent (from_bits_truncate (ucast (rdx regs))) (r10 regs) (r8 regs)) s = (Inr h', s')
     \<and> rax regs' = handle_raw h'"
  then obtain parent h' where p: "cap_entry s (g, CapHandle (rsi regs)) = Some parent"
    and gr: "grant g (CapHandle (rsi regs)) (TaskId (rdi regs))
       (derive_cap parent (from_bits_truncate (ucast (rdx regs))) (r10 regs) (r8 regs)) s = (Inr h', s')"
    and h': "rax regs' = handle_raw h'" by blast
  let ?d = "derive_cap parent (from_bits_truncate (ucast (rdx regs))) (r10 regs) (r8 regs)"
  have "is_subset_of (cap_rights ?d) Rights_ALL"
    by (simp add: cap_rights_derive from_bits_truncate_subset)
  then show ?thesis
    using grant_shape [OF assms(1) gr] p h' by auto
qed simp

section \<open>Witnesses\<close>

text \<open>
  Three tasks: task 1 runs, task 2 is blocked, task 3 is in the switch stash. The kernel
  mints an interrupt capability for task 1, which grants it to task 2, which grants it on
  to task 3; then task 1 revokes its grant to task 2.
\<close>

definition wit_boot :: Scheduler where
  "wit_boot = \<lparr>runqueues = [], switch_stash = [Some \<lparr>task_id = TaskId 3, cap_table = cap_table_new\<rparr>],
     blocked_tasks = [\<lparr>task_id = TaskId 2, cap_table = cap_table_new\<rparr>],
     current_task = [Some \<lparr>task_id = TaskId 1, cap_table = cap_table_new\<rparr>]\<rparr>"

definition wit_minted :: Scheduler where
  "wit_minted = snd (with_task_by_id (TaskId 1) (set_table (insert_root (Irq 5 Rights_ALL))) wit_boot)"

definition wit_granted :: Scheduler where
  "wit_granted = snd (grant (TaskId 1) (CapHandle 1) (TaskId 2) (Irq 5 Rights_ALL) wit_minted)"

definition wit_chain :: Scheduler where
  "wit_chain = snd (grant (TaskId 2) (CapHandle 1) (TaskId 3) (Irq 5 Rights_WAIT) wit_granted)"

definition wit_revoked :: Scheduler where
  "wit_revoked = snd (the (revoke (TaskId 1) (TaskId 2) (CapHandle 1) wit_chain))"

lemma wit_boot_boot: "boot_state wit_boot"
  by (simp add: boot_state_def wit_boot_def unique_ids_def tasks_def)

lemma wit_grant1: "grant (TaskId 1) (CapHandle 1) (TaskId 2) (Irq 5 Rights_ALL) wit_minted
    = (Inr (CapHandle 1), wit_granted)"
  by code_simp

lemma wit_grant2: "grant (TaskId 2) (CapHandle 1) (TaskId 3) (Irq 5 Rights_WAIT) wit_granted
    = (Inr (CapHandle 1), wit_chain)"
  by code_simp

lemma wit_revoke: "revoke (TaskId 1) (TaskId 2) (CapHandle 1) wit_chain = Some (Inr (), wit_revoked)"
  by code_simp

lemma wit_steps: "rtranclp cap_step wit_boot wit_chain"
proof -
  have 1: "cap_step wit_boot wit_minted"
    unfolding wit_minted_def
    by (rule cap_step.mint [of _ _ "\<lparr>task_id = TaskId 1, cap_table = cap_table_new\<rparr>"]) code_simp+
  have 2: "cap_step wit_minted wit_granted"
    using wit_grant1 by (rule cap_step.grants) code_simp
  have 3: "cap_step wit_granted wit_chain"
    using wit_grant2 by (rule cap_step.grants) code_simp
  from 1 have "rtranclp cap_step wit_boot wit_minted" by (rule r_into_rtranclp)
  then have "rtranclp cap_step wit_boot wit_granted"
    using 2 by (rule rtranclp.rtrancl_into_rtrancl)
  then show ?thesis using 3 by (rule rtranclp.rtrancl_into_rtrancl)
qed

lemma wit_chain_ok: "sched_ok wit_chain"
  using authority.reachable_inv [OF wit_boot_boot wit_steps] by (simp add: auth_ok_def)

lemma wit_minted_ok: "sched_ok wit_minted"
proof -
  have "cap_step wit_boot wit_minted"
    unfolding wit_minted_def
    by (rule cap_step.mint [of _ _ "\<lparr>task_id = TaskId 1, cap_table = cap_table_new\<rparr>"]) code_simp+
  then have "auth_ok wit_minted"
    using authority.step_inv authority.init_inv [OF wit_boot_boot] by blast
  then show ?thesis by (simp add: auth_ok_def)
qed

lemma wit_entries:
  "cap_entry wit_chain (TaskId 1, CapHandle 1) = Some (Irq 5 Rights_ALL)"
  "cap_entry wit_chain (TaskId 2, CapHandle 1) = Some (Irq 5 Rights_ALL)"
  "cap_entry wit_chain (TaskId 3, CapHandle 1) = Some (Irq 5 Rights_WAIT)"
  "parent_entry wit_chain (TaskId 2, CapHandle 1)
     = Some \<lparr>granter_task = TaskId 1, granter_handle = CapHandle 1\<rparr>"
  "parent_entry wit_chain (TaskId 3, CapHandle 1)
     = Some \<lparr>granter_task = TaskId 2, granter_handle = CapHandle 1\<rparr>"
  by code_simp+

theorem no_amplification_witness:
  "is_valid_derivation (Irq 5 Rights_ALL) (Irq 5 Rights_WAIT)
     \<and> is_subset_of (cap_rights (Irq 5 Rights_WAIT)) (cap_rights (Irq 5 Rights_ALL))"
proof -
  have "live_grant wit_chain (TaskId 1, CapHandle 1) (TaskId 2, CapHandle 1)"
    and g: "live_grant wit_chain (TaskId 2, CapHandle 1) (TaskId 3, CapHandle 1)"
    by (simp_all add: live_grant_def wit_entries)
  then have "rtranclp (live_grant wit_chain) (TaskId 1, CapHandle 1) (TaskId 2, CapHandle 1)"
    by (intro r_into_rtranclp)
  then have "rtranclp (live_grant wit_chain) (TaskId 1, CapHandle 1) (TaskId 3, CapHandle 1)"
    using g by (rule rtranclp.rtrancl_into_rtrancl)
  from no_amplification [OF wit_boot_boot wit_steps this wit_entries(1,3)] show ?thesis .
qed

theorem grant_effect_witness:
  "\<exists>parent. cap_entry wit_minted (TaskId 1, CapHandle 1) = Some parent
      \<and> contains (cap_rights parent) Rights_GRANT \<and> is_valid_derivation parent (Irq 5 Rights_ALL)
      \<and> cap_entry wit_minted (TaskId 2, CapHandle 1) = None
      \<and> cap_entry wit_granted = (cap_entry wit_minted)((TaskId 2, CapHandle 1) \<mapsto> Irq 5 Rights_ALL)
      \<and> parent_entry wit_granted = (parent_entry wit_minted)((TaskId 2, CapHandle 1) \<mapsto>
           \<lparr>granter_task = TaskId 1, granter_handle = CapHandle 1\<rparr>)"
  by (rule grant_effect [OF wit_minted_ok wit_grant1])

theorem revoke_exact_witness:
  "\<exists>s'. revoke (TaskId 1) (TaskId 2) (CapHandle 1) wit_chain = Some (Inr (), s')
      \<and> (\<forall>x. cap_entry s' x = (if x \<in> descendants wit_chain (TaskId 2, CapHandle 1) then None
               else cap_entry wit_chain x))
      \<and> (\<forall>x. parent_entry s' x = (if x \<in> descendants wit_chain (TaskId 2, CapHandle 1) then None
               else parent_entry wit_chain x))"
  by (rule revoke_exact [OF wit_chain_ok wit_entries(4)]) simp

theorem revoke_errors_witness:
  "\<exists>r s'. revoke (TaskId 3) (TaskId 2) (CapHandle 1) wit_chain = Some (r, s') \<and>
     r = Inl InsufficientRights \<and> s' = wit_chain"
  using revoke_errors [OF wit_chain_ok, of "TaskId 3" "TaskId 2" "CapHandle 1"]
  by (auto simp: wit_entries)

theorem revoke_skips_switch_stash_witness:
  "revoke (TaskId 1) (TaskId 2) (CapHandle 1) wit_chain = Some (Inr (), wit_revoked)
     \<and> parent_entry wit_chain (TaskId 3, CapHandle 1)
        = Some \<lparr>granter_task = TaskId 2, granter_handle = CapHandle 1\<rparr>
     \<and> cap_entry wit_revoked (TaskId 2, CapHandle 1) = None
     \<and> cap_entry wit_revoked (TaskId 3, CapHandle 1) = Some (Irq 5 Rights_WAIT)"
proof -
  let ?t = "the (find_id (TaskId 3) (tasks wit_chain))"
  have t: "Some ?t \<in> set (switch_stash wit_chain)" "task_id ?t = TaskId 3" "task_id ?t \<noteq> TaskId 2"
    by code_simp+
  have "cap_entry wit_revoked (task_id ?t, CapHandle 1) = cap_entry wit_chain (task_id ?t, CapHandle 1)"
    using revoke_skips_switch_stash [OF wit_chain_ok t(1,3) wit_revoke] by blast
  then have "cap_entry wit_revoked (TaskId 3, CapHandle 1) = Some (Irq 5 Rights_WAIT)"
    by (simp only: t(2) wit_entries)
  moreover have "cap_entry wit_revoked (TaskId 2, CapHandle 1) = None" by code_simp
  ultimately show ?thesis using wit_revoke wit_entries(5) by blast
qed


theorem sys_cap_grant_sound_witness:
  "\<exists>parent d. cap_entry wit_minted (TaskId 1, CapHandle 1) = Some parent
     \<and> contains (cap_rights parent) Rights_GRANT \<and> is_valid_derivation parent d
     \<and> is_subset_of (cap_rights d) Rights_ALL
     \<and> cap_entry (snd (sys_cap_grant 0 \<lparr>rax = 4, rdi = 2, rsi = 1, rdx = 0xFF, r10 = 0, r8 = 0\<rparr> wit_minted))
       = (cap_entry wit_minted)((TaskId 2, CapHandle 1) \<mapsto> d)"
proof -
  let ?regs = "\<lparr>rax = 4, rdi = 2, rsi = 1, rdx = 0xFF, r10 = 0, r8 = 0\<rparr> :: Regs"
  have cur: "current_task_id 0 wit_minted = Some (TaskId 1)" by code_simp
  let ?r = "sys_cap_grant 0 ?regs wit_minted"
  have rax: "fst ?r = \<lparr>rax = 1, rdi = 2, rsi = 1, rdx = 0xFF, r10 = 0, r8 = 0\<rparr>" by code_simp
  have changed: "snd ?r \<noteq> wit_minted" by code_simp
  have "?r = (fst ?r, snd ?r)" by simp
  from sys_cap_grant_sound [OF wit_minted_ok cur this] changed show ?thesis
    by (simp only: rax Regs.simps simp_thms)
qed

end
