(* ===== verification/Uaccess.thy ===== *)
theory Uaccess
  imports Prelude
begin

text \<open>
  Kernel access to user memory (\<^verbatim>\<open>kernel/src/uaccess.rs\<close>): the bounds check, the copies in
  both directions, and the NUL-terminated string reader. An address space gives the byte
  at an address, or none where a read faults, and tells where writes are allowed; the
  byte-by-byte copy \<open>movsb\<close> stops at the first fault, as the \<^verbatim>\<open>rep movsb\<close> stub of
  \<^verbatim>\<open>kernel/src/extable.rs\<close> does.
\<close>

section \<open>Address spaces and the copy stub\<close>

record Space =
  rd :: "u64 \<Rightarrow> u8 option"
  wr :: "u64 \<Rightarrow> bool"

fun movsb_read :: "Space \<Rightarrow> u64 \<Rightarrow> nat \<Rightarrow> u8 list option" where
  "movsb_read sp a 0 = Some []"
| "movsb_read sp a (Suc n) =
     (case rd sp a of None \<Rightarrow> None | Some b \<Rightarrow> map_option ((#) b) (movsb_read sp (a + 1) n))"

text \<open>A write that faults leaves the bytes before the fault in place.\<close>

fun movsb_write :: "Space \<Rightarrow> u64 \<Rightarrow> u8 list \<Rightarrow> bool \<times> Space" where
  "movsb_write sp a [] = (True, sp)"
| "movsb_write sp a (b # bs) =
     (if wr sp a then movsb_write (sp\<lparr>rd := (rd sp)(a \<mapsto> b)\<rparr>) (a + 1) bs else (False, sp))"

section \<open>Operations\<close>

definition USER_ADDR_MAX :: u64 where
  "USER_ADDR_MAX = 0x0000800000000000"

definition user_range_ok :: "u64 \<Rightarrow> u64 \<Rightarrow> bool" where
  "user_range_ok ptr len =
     (if len = 0 then True
      else if ptr = 0 then False
      else case checked_add ptr len of Some e \<Rightarrow> e \<le> USER_ADDR_MAX | None \<Rightarrow> False)"

definition copy_from_user :: "Space \<Rightarrow> u64 \<Rightarrow> usize \<Rightarrow> unit + u8 list" where
  "copy_from_user sp ptr len =
     (if len = 0 then Inr []
      else if \<not> user_range_ok ptr len then Inl ()
      else case movsb_read sp ptr (unat len) of None \<Rightarrow> Inl () | Some out \<Rightarrow> Inr out)"

definition copy_to_user :: "Space \<Rightarrow> u64 \<Rightarrow> u8 list \<Rightarrow> (unit + unit) \<times> Space" where
  "copy_to_user sp ptr bytes =
     (if bytes = [] then (Inr (), sp)
      else if \<not> user_range_ok ptr (word_of_nat (length bytes)) then (Inl (), sp)
      else let (ok, sp') = movsb_write sp ptr bytes in (if ok then Inr () else Inl (), sp'))"

text \<open>The buffer is passed by its length; on success the copy fills all of it.\<close>

definition copy_from_user_into :: "Space \<Rightarrow> u64 \<Rightarrow> nat \<Rightarrow> unit + u8 list" where
  "copy_from_user_into sp ptr n =
     (if n = 0 then Inr []
      else if \<not> user_range_ok ptr (word_of_nat n) then Inl ()
      else case movsb_read sp ptr n of None \<Rightarrow> Inl () | Some out \<Rightarrow> Inr out)"

definition chunk_len :: "u64 \<Rightarrow> usize \<Rightarrow> usize" where
  "chunk_len addr remaining = min (min remaining 256) (0x1000 - (addr AND 0xFFF))"

lemma chunk_len_bounds:
  "unat (chunk_len addr remaining) \<le> unat remaining" "unat (chunk_len addr remaining) \<le> 256"
  "unat (chunk_len addr remaining) + unat (addr AND 0xFFF) \<le> 0x1000"
  "remaining \<noteq> 0 \<Longrightarrow> chunk_len addr remaining \<noteq> 0"
proof -
  have "addr AND 0xFFF \<le> 0xFFF" by (rule word_and_le1)
  then have lt: "unat (addr AND 0xFFF) \<le> 0xFFF" by (simp add: word_le_nat_alt)
  then have page: "unat (0x1000 - (addr AND 0xFFF)) = 0x1000 - unat (addr AND 0xFFF)"
    by (simp add: unat_sub word_le_nat_alt)
  have chunk: "unat (chunk_len addr remaining) = min (min (unat remaining) 256) (0x1000 - unat (addr AND 0xFFF))"
    unfolding chunk_len_def page [symmetric] by (simp add: min_def word_le_nat_alt)
  show "unat (chunk_len addr remaining) \<le> unat remaining" "unat (chunk_len addr remaining) \<le> 256"
    by (simp_all add: chunk)
  show "unat (chunk_len addr remaining) + unat (addr AND 0xFFF) \<le> 0x1000"
    using lt by (simp add: chunk)
  show "chunk_len addr remaining \<noteq> 0" if "remaining \<noteq> 0"
  proof -
    from that have "unat remaining \<noteq> 0" by (simp add: unat_eq_zero)
    with lt have "unat (chunk_len addr remaining) \<noteq> 0" by (simp add: chunk)
    then show ?thesis by (auto simp: unat_eq_zero)
  qed
qed

text \<open>
  The loop of \<^verbatim>\<open>read_user_cstr_bytes\<close>: one chunk of at most 256 bytes within one page per
  round.
\<close>

function cstr_loop :: "Space \<Rightarrow> u64 \<Rightarrow> usize \<Rightarrow> u8 list \<Rightarrow> unit + u8 list" where
  "cstr_loop sp addr remaining out =
     (if remaining = 0 then Inr out
      else let n = chunk_len addr remaining in
        case copy_from_user_into sp addr (unat n) of
          Inl e \<Rightarrow> Inl e
        | Inr chunk \<Rightarrow>
            if 0 \<in> set chunk then Inr (out @ takeWhile (\<lambda>b. b \<noteq> 0) chunk)
            else case checked_add addr n of
                None \<Rightarrow> Inl ()
              | Some addr' \<Rightarrow> cstr_loop sp addr' (remaining - n) (out @ chunk))"
  by pat_completeness auto
termination
proof (relation "measure (\<lambda>(_, _, remaining, _). unat remaining)", goal_cases)
  case (2 sp addr remaining out n chunk addr')
  then have "unat n \<le> unat remaining" and "unat n \<noteq> 0"
    using chunk_len_bounds(1) [of addr remaining] chunk_len_bounds(4) [of remaining addr]
    by (simp_all add: unat_eq_zero)
  then show ?case by (simp add: unat_sub word_le_nat_alt)
qed simp

declare cstr_loop.simps [simp del]

definition read_user_cstr_bytes :: "Space \<Rightarrow> u64 \<Rightarrow> usize \<Rightarrow> unit + u8 list" where
  "read_user_cstr_bytes sp ptr max_len = (if max_len = 0 then Inr [] else cstr_loop sp ptr max_len [])"

definition read_user_bytes :: "Space \<Rightarrow> u64 \<Rightarrow> u64 \<Rightarrow> u8 list" where
  "read_user_bytes sp ptr len = (case copy_from_user sp ptr len of Inl _ \<Rightarrow> [] | Inr bs \<Rightarrow> bs)"

section \<open>The bounds check\<close>

lemma unat_USER_ADDR_MAX: "unat USER_ADDR_MAX = 0x800000000000"
  by (simp add: USER_ADDR_MAX_def)

lemma user_range_ok_iff:
  "user_range_ok ptr len \<longleftrightarrow> len = 0 \<or> ptr \<noteq> 0 \<and> unat ptr + unat len \<le> unat USER_ADDR_MAX"
proof -
  have "unat ptr + unat len < 2 ^ 64 \<Longrightarrow> (ptr + len \<le> USER_ADDR_MAX) = (unat ptr + unat len \<le> unat USER_ADDR_MAX)"
    by (simp add: word_le_nat_alt unat_plus_no_overflow)
  moreover have "unat USER_ADDR_MAX < 2 ^ 64" by (simp add: unat_USER_ADDR_MAX)
  ultimately show ?thesis
    by (auto simp: user_range_ok_def checked_add_Some_iff checked_add_None_iff split: option.split)
qed

lemma unat_add_nat:
  "unat (a :: u64) + k < 2 ^ 64 \<Longrightarrow> unat (a + word_of_nat k) = unat a + k"
  by (simp add: unat_word_ariths unat_of_nat)

section \<open>The copies stay in user memory\<close>

definition user_addr :: "u64 \<Rightarrow> bool" where
  "user_addr a \<longleftrightarrow> a < USER_ADDR_MAX"

lemma movsb_read_cong:
  "unat a + n \<le> unat USER_ADDR_MAX \<Longrightarrow> (\<And>x. user_addr x \<Longrightarrow> rd sp x = rd sp' x) \<Longrightarrow>
     movsb_read sp a n = movsb_read sp' a n"
proof (induction n arbitrary: a)
  case (Suc n)
  then have a: "user_addr a" by (simp add: user_addr_def word_less_nat_alt)
  have "unat (a + 1) = Suc (unat a)"
    using Suc.prems(1) unat_add_nat [of a 1] by (simp add: unat_USER_ADDR_MAX)
  with Suc.IH [of "a + 1"] Suc.prems have "movsb_read sp (a + 1) n = movsb_read sp' (a + 1) n" by simp
  with Suc.prems(2) [OF a] show ?case by (simp split: option.split)
qed simp

lemma all_offsets_Suc:
  "(\<forall>k < Suc n. P (a + word_of_nat k) k) \<longleftrightarrow> P a 0 \<and> (\<forall>k < n. P (a + 1 + word_of_nat k) (Suc k))"
  for a :: u64
  by (simp add: All_less_Suc2 ac_simps)

lemma movsb_read_nth:
  "movsb_read sp a n = Some bs \<longleftrightarrow> length bs = n \<and> (\<forall>k < n. rd sp (a + word_of_nat k) = Some (bs ! k))"
proof (induction n arbitrary: a bs)
  case (Suc n)
  show ?case
  proof (cases bs)
    case (Cons b bs')
    have "(\<forall>k < Suc n. rd sp (a + word_of_nat k) = Some (bs ! k))
      \<longleftrightarrow> rd sp a = Some b \<and> (\<forall>k < n. rd sp (a + 1 + word_of_nat k) = Some (bs' ! k))"
      using all_offsets_Suc [of n "\<lambda>x k. rd sp x = Some (bs ! k)" a] by (simp add: Cons)
    then show ?thesis by (auto simp: Cons Suc.IH split: option.splits)
  qed (auto split: option.splits)
qed auto

lemma movsb_read_total:
  "(\<forall>k < n. rd sp (a + word_of_nat k) \<noteq> None) \<Longrightarrow> movsb_read sp a n \<noteq> None"
proof (induction n arbitrary: a)
  case (Suc n)
  then have "rd sp a \<noteq> None \<and> (\<forall>k < n. rd sp (a + 1 + word_of_nat k) \<noteq> None)"
    using all_offsets_Suc [of n "\<lambda>x _. rd sp x \<noteq> None" a] by simp
  with Suc.IH [of "a + 1"] show ?case by auto
qed simp

lemma movsb_write_outside:
  "unat a + length bs \<le> unat USER_ADDR_MAX \<Longrightarrow> \<not> user_addr x \<Longrightarrow>
     rd (snd (movsb_write sp a bs)) x = rd sp x"
proof (induction bs arbitrary: sp a)
  case (Cons b bs)
  then have a: "user_addr a" by (simp add: user_addr_def word_less_nat_alt)
  have "unat (a + 1) = Suc (unat a)"
    using Cons.prems(1) unat_add_nat [of a 1] by (simp add: unat_USER_ADDR_MAX)
  with Cons.IH [of "a + 1"] Cons.prems a show ?case by auto
qed simp

lemma movsb_write_wr: "wr (snd (movsb_write sp a bs)) = wr sp"
  by (induction sp a bs rule: movsb_write.induct) auto

text \<open>Where no byte of the range faults, the written bytes are the ones read back.\<close>

lemma movsb_write_read:
  "unat a + length bs < 2 ^ 64 \<Longrightarrow> fst (movsb_write sp a bs) \<Longrightarrow>
     (\<forall>k < length bs. rd (snd (movsb_write sp a bs)) (a + word_of_nat k) = Some (bs ! k))
     \<and> (\<forall>x. x < a \<longrightarrow> rd (snd (movsb_write sp a bs)) x = rd sp x)"
proof (induction bs arbitrary: sp a)
  case (Cons b bs)
  have wr: "wr sp a" using Cons.prems(2) by (auto split: if_splits)
  have a1: "unat (a + 1) = Suc (unat a)" using Cons.prems(1) unat_add_nat [of a 1] by simp
  let ?sp = "sp\<lparr>rd := (rd sp)(a \<mapsto> b)\<rparr>"
  have step: "movsb_write sp a (b # bs) = movsb_write ?sp (a + 1) bs" using wr by simp
  have IH: "(\<forall>k < length bs. rd (snd (movsb_write ?sp (a + 1) bs)) (a + 1 + word_of_nat k) = Some (bs ! k))
     \<and> (\<forall>x. x < a + 1 \<longrightarrow> rd (snd (movsb_write ?sp (a + 1) bs)) x = rd ?sp x)"
    using Cons.prems a1 step by (intro Cons.IH) simp_all
  let ?r = "rd (snd (movsb_write ?sp (a + 1) bs))"
  have "a < a + 1" and below: "x < a \<Longrightarrow> x < a + 1" for x
    using a1 by (simp_all add: word_less_nat_alt)
  with IH have "?r a = Some b" and "\<And>x. x < a \<Longrightarrow> ?r x = rd sp x" by auto
  moreover have "\<forall>k < length (b # bs). ?r (a + word_of_nat k) = Some ((b # bs) ! k)"
    using IH \<open>?r a = Some b\<close> all_offsets_Suc [of "length bs" "\<lambda>x k. ?r x = Some ((b # bs) ! k)" a] by simp
  ultimately show ?case unfolding step by simp
qed simp

section \<open>Reading strings\<close>

text \<open>The scanner the chunked reader replaces: one byte at a time.\<close>

fun cstr_spec :: "Space \<Rightarrow> u64 \<Rightarrow> nat \<Rightarrow> unit + u8 list" where
  "cstr_spec sp a 0 = Inr []"
| "cstr_spec sp a (Suc n) =
     (if a = 0 \<or> \<not> user_addr a then Inl ()
      else case rd sp a of
          None \<Rightarrow> Inl ()
        | Some b \<Rightarrow> if b = 0 then Inr []
            else case cstr_spec sp (a + 1) n of Inl e \<Rightarrow> Inl e | Inr bs \<Rightarrow> Inr (b # bs))"

definition prepend :: "'b list \<Rightarrow> 'a + 'b list \<Rightarrow> 'a + 'b list" where
  "prepend xs r = (case r of Inl e \<Rightarrow> Inl e | Inr ys \<Rightarrow> Inr (xs @ ys))"

lemma prepend_simps [simp]: "prepend xs (Inl e) = Inl e" "prepend xs (Inr ys) = Inr (xs @ ys)" "prepend [] r = r"
  by (simp_all add: prepend_def split: sum.split)

lemma prepend_append: "prepend (xs @ ys) r = prepend xs (prepend ys r)"
  by (simp add: prepend_def split: sum.split)

lemma cstr_spec_cons: "a \<noteq> 0 \<Longrightarrow> user_addr a \<Longrightarrow> rd sp a = Some b \<Longrightarrow>
    cstr_spec sp a (Suc n) = (if b = 0 then Inr [] else prepend [b] (cstr_spec sp (a + 1) n))"
  by (simp add: prepend_def split: sum.split)

text \<open>What one chunk that was copied contributes, and what one that faulted does.\<close>

lemma cstr_spec_chunk:
  "movsb_read sp a (length bs) = Some bs \<Longrightarrow> a \<noteq> 0 \<Longrightarrow> unat a + length bs \<le> unat USER_ADDR_MAX \<Longrightarrow>
     cstr_spec sp a (length bs + n)
       = (if 0 \<in> set bs then Inr (takeWhile (\<lambda>b. b \<noteq> 0) bs)
          else prepend bs (cstr_spec sp (a + word_of_nat (length bs)) n))"
proof (induction bs arbitrary: a)
  case (Cons b bs)
  have a: "user_addr a" using Cons.prems(3) by (simp add: user_addr_def word_less_nat_alt)
  have a1: "unat (a + 1) = Suc (unat a)"
    using Cons.prems(3) unat_add_nat [of a 1] by (simp add: unat_USER_ADDR_MAX)
  then have nz: "a + 1 \<noteq> 0" by (auto simp: unat_eq_zero [symmetric])
  from Cons.prems(1) have b: "rd sp a = Some b" and bs: "movsb_read sp (a + 1) (length bs) = Some bs"
    by (auto split: option.splits)
  have IH: "cstr_spec sp (a + 1) (length bs + n)
       = (if 0 \<in> set bs then Inr (takeWhile (\<lambda>b. b \<noteq> 0) bs)
          else prepend bs (cstr_spec sp (a + 1 + word_of_nat (length bs)) n))"
    using Cons.prems(3) a1 by (intro Cons.IH bs nz) simp
  have "cstr_spec sp a (length (b # bs) + n)
      = (if b = 0 then Inr [] else prepend [b] (cstr_spec sp (a + 1) (length bs + n)))"
    using cstr_spec_cons [OF Cons.prems(2) a b, of "length bs + n"] by simp
  also have "\<dots> = (if 0 \<in> set (b # bs) then Inr (takeWhile (\<lambda>b. b \<noteq> 0) (b # bs))
          else prepend (b # bs) (cstr_spec sp (a + 1 + word_of_nat (length bs)) n))"
    unfolding IH
    using prepend_append [of "[b]" bs "cstr_spec sp (a + 1 + word_of_nat (length bs)) n"] by simp
  finally show ?case by (simp only: length_Cons of_nat_Suc add.assoc)
qed simp

definition page_mapped :: "Space \<Rightarrow> bool" where
  "page_mapped sp \<longleftrightarrow> (\<forall>a b. drop_bit 12 a = drop_bit 12 b \<longrightarrow> (rd sp a = None) = (rd sp b = None))"

lemma unat_page_number: "unat (drop_bit 12 (a :: u64)) = unat a div 4096"
  by (simp add: drop_bit_eq_div unat_div)

lemma unat_page: "unat (a :: u64) = 4096 * unat (drop_bit 12 a) + unat (a AND 0xFFF)"
proof -
  have "a AND 0xFFF = take_bit 12 a" using take_bit_eq_mask [of 12 a] by (simp add: mask_eq_exp_minus_1)
  moreover have "unat (take_bit 12 a) = unat a mod 4096" by (simp add: take_bit_eq_mod unat_mod)
  ultimately show ?thesis by (simp add: unat_page_number)
qed

lemma same_page:
  fixes a :: u64
  assumes "k + unat (a AND 0xFFF) < 0x1000"
  shows "drop_bit 12 (a + word_of_nat k) = drop_bit 12 a"
proof -
  have "unat (drop_bit 12 a) < 2 ^ 52"
    using unat_bound [of a] by (simp add: unat_page_number less_mult_imp_div_less)
  then have "unat a + k < 2 ^ 64" using assms unat_page [of a] by simp
  then have "unat (a + word_of_nat k) = 4096 * unat (drop_bit 12 a) + (unat (a AND 0xFFF) + k)"
    using unat_add_nat [of a k] unat_page [of a] by simp
  then have "unat (a + word_of_nat k) div 4096 = unat (drop_bit 12 a)"
    using assms by (simp add: div_add1_eq [of "4096 * _"])
  then have "unat (drop_bit 12 (a + word_of_nat k)) = unat (drop_bit 12 a)"
    by (simp only: unat_page_number)
  then show ?thesis by (simp only: word_unat_eq_iff)
qed

lemma page_below_max:
  assumes "unat addr + k > unat USER_ADDR_MAX" and "k + unat (addr AND 0xFFF) \<le> 0x1000"
  shows "\<not> user_addr addr"
proof
  assume "user_addr addr"
  then have "4096 * unat (drop_bit 12 addr) < 4096 * 0x800000000"
    using unat_page [of addr] by (simp add: user_addr_def word_less_nat_alt unat_USER_ADDR_MAX)
  then have "unat (drop_bit 12 addr) + 1 \<le> 0x800000000" by simp
  then show False using assms unat_page [of addr] by (simp add: unat_USER_ADDR_MAX)
qed

lemma copy_into_fails:
  assumes "page_mapped sp" and "0 < k" and "k + unat (addr AND 0xFFF) \<le> 0x1000"
    and "copy_from_user_into sp addr k = Inl e"
  shows "cstr_spec sp addr (Suc n) = Inl ()"
proof (cases "user_range_ok addr (word_of_nat k)")
  case True
  with assms(2,4) have "movsb_read sp addr k = None"
    by (auto simp: copy_from_user_into_def split: option.splits)
  then obtain j where j: "j < k" "rd sp (addr + word_of_nat j) = None"
    using movsb_read_total by blast
  with assms(3) have "drop_bit 12 (addr + word_of_nat j) = drop_bit 12 addr" by (intro same_page) simp
  with assms(1) j(2) have "rd sp addr = None" by (metis page_mapped_def)
  then show ?thesis by simp
next
  case False
  moreover have "unat (word_of_nat k :: u64) = k" using assms(3) by (simp add: unat_of_nat)
  ultimately have "addr = 0 \<or> unat addr + k > unat USER_ADDR_MAX"
    by (auto simp: user_range_ok_iff)
  with page_below_max [OF _ assms(3)] show ?thesis by auto
qed

lemma copy_into_succeeds:
  assumes "0 < k" and "k \<le> 0x1000" and "copy_from_user_into sp addr k = Inr bs"
  shows "movsb_read sp addr k = Some bs" "addr \<noteq> 0" "unat addr + k \<le> unat USER_ADDR_MAX" "length bs = k"
proof -
  from assms have r: "user_range_ok addr (word_of_nat k)" and m: "movsb_read sp addr k = Some bs"
    by (auto simp: copy_from_user_into_def split: option.splits if_splits)
  show "movsb_read sp addr k = Some bs" "length bs = k" using m movsb_read_nth by auto
  have u: "unat (word_of_nat k :: u64) = k" using assms(2) by (simp add: unat_of_nat)
  with assms(1) have "word_of_nat k \<noteq> (0 :: u64)" by (metis less_irrefl unat_0)
  with r show "addr \<noteq> 0" "unat addr + k \<le> unat USER_ADDR_MAX" by (simp_all add: user_range_ok_iff u)
qed

lemma cstr_loop_eq:
  assumes "page_mapped sp"
  shows "cstr_loop sp addr remaining out = prepend out (cstr_spec sp addr (unat remaining))"
  using assms
proof (induction sp addr remaining out rule: cstr_loop.induct)
  case (1 sp addr remaining out)
  let ?n = "chunk_len addr remaining"
  show ?case
  proof (cases "remaining = 0")
    case True
    then show ?thesis by (simp add: cstr_loop.simps [of sp addr 0])
  next
    case False
    have pos: "0 < unat ?n" using chunk_len_bounds(4) [OF False] by (simp add: unat_gt_0)
    note b = chunk_len_bounds(1-3) [of addr remaining]
    obtain m where m: "unat remaining = Suc m" using False by (cases "unat remaining") (auto simp: unat_eq_zero)
    show ?thesis
    proof (cases "copy_from_user_into sp addr (unat ?n)")
      case (Inl e)
      with copy_into_fails [OF "1.prems" pos b(3) Inl] False show ?thesis
        by (simp add: cstr_loop.simps [of sp addr remaining] m del: cstr_spec.simps)
    next
      case (Inr bs)
      have le: "unat ?n \<le> 0x1000" using b(2) by simp
      note ok = copy_into_succeeds [OF pos le Inr]
      have r: "unat remaining = length bs + unat (remaining - ?n)"
        using b(1) ok(4) by (simp add: unat_sub word_le_nat_alt)
      have spec: "cstr_spec sp addr (unat remaining)
         = (if 0 \<in> set bs then Inr (takeWhile (\<lambda>b. b \<noteq> 0) bs)
            else prepend bs (cstr_spec sp (addr + ?n) (unat (remaining - ?n))))"
        unfolding r using cstr_spec_chunk [of sp addr bs] ok by simp
      have nxt: "checked_add addr ?n = Some (addr + ?n)"
        using ok(3) by (simp add: checked_add_Some_iff unat_USER_ADDR_MAX)
      show ?thesis
      proof (cases "0 \<in> set bs")
        case True
        with False Inr spec show ?thesis by (simp add: cstr_loop.simps [of sp addr remaining])
      next
        case nul: False
        have "cstr_loop sp (addr + ?n) (remaining - ?n) (out @ bs)
           = prepend (out @ bs) (cstr_spec sp (addr + ?n) (unat (remaining - ?n)))"
          by (rule "1.IH" [OF False refl Inr nul nxt "1.prems"])
        with False Inr nul nxt spec show ?thesis
          by (simp add: cstr_loop.simps [of sp addr remaining] prepend_append Let_def)
      qed
    qed
  qed
qed

section \<open>Properties\<close>


text \<open>
  Bytes written to user memory are read back: after a copy to the user that succeeds,
  a copy from the same place returns the same bytes.
\<close>
theorem uaccess_roundtrip:
  assumes "copy_to_user sp ptr bytes = (Inr (), sp')" and "length bytes < 2 ^ 64"
  shows "copy_from_user sp' ptr (word_of_nat (length bytes)) = Inr bytes"
proof (cases "bytes = []")
  case False
  have u: "unat (word_of_nat (length bytes) :: u64) = length bytes" using assms(2) by (simp add: unat_of_nat)
  with False have nz: "word_of_nat (length bytes) \<noteq> (0 :: u64)" by (metis length_0_conv unat_0)
  from assms(1) False have ok: "user_range_ok ptr (word_of_nat (length bytes))"
    and w: "movsb_write sp ptr bytes = (True, sp')"
    by (auto simp: copy_to_user_def split: if_splits prod.splits)
  have "unat ptr + length bytes < 2 ^ 64" using ok u nz by (simp add: user_range_ok_iff unat_USER_ADDR_MAX)
  with movsb_write_read [of ptr bytes sp] w
  have "movsb_read sp' ptr (length bytes) = Some bytes" by (simp add: movsb_read_nth)
  with ok u nz show ?thesis by (simp add: copy_from_user_def)
qed (simp add: copy_from_user_def)

text \<open>
  The chunked string reader computes what a byte-by-byte scan computes. On every address
  space whose mappings are whole pages, and for every pointer and length, reading in
  chunks gives the bytes before the first NUL, the first \<open>max_len\<close> bytes when there is none,
  and an error exactly when the scan would have met an address that is null, in the kernel
  half or not mapped.
\<close>
theorem cstr_equiv:
  assumes "page_mapped sp"
  shows "read_user_cstr_bytes sp ptr max_len = cstr_spec sp ptr (unat max_len)"
  using cstr_loop_eq [OF assms, of ptr max_len "[]"] by (simp add: read_user_cstr_bytes_def)

section \<open>Witnesses\<close>

text \<open>An address space with one mapped user page, holding \<^verbatim>\<open>"hi"\<close> at 0x5010, and a kernel page.\<close>

definition wit_space :: "u8 \<Rightarrow> Space" where
  "wit_space k = \<lparr>rd = (\<lambda>a. if drop_bit 12 a = 5 then Some (if a = 0x5010 then 104 else if a = 0x5011 then 105 else 0)
       else if drop_bit 12 a = 0x800000000 then Some k else None),
     wr = (\<lambda>a. drop_bit 12 a = 5 \<or> drop_bit 12 a = 0x800000000)\<rparr>"

lemma wit_space_mapped: "page_mapped (wit_space k)"
  by (simp add: page_mapped_def wit_space_def)

lemma wit_space_user:
  assumes "user_addr x"
  shows "rd (wit_space 1) x = rd (wit_space 2) x"
proof -
  have "unat x < 0x800000000000" using assms by (simp add: user_addr_def word_less_nat_alt unat_USER_ADDR_MAX)
  then have "unat (drop_bit 12 x) < 0x800000000" by (simp add: unat_page_number less_mult_imp_div_less)
  then have "drop_bit 12 x \<noteq> 0x800000000" by auto
  then show ?thesis by (simp add: wit_space_def)
qed


theorem uaccess_roundtrip_witness:
  "copy_from_user (snd (copy_to_user (wit_space 1) 0x5010 [7, 8])) 0x5010 2 = Inr [7, 8]"
proof -
  have "fst (copy_to_user (wit_space 1) 0x5010 [7, 8]) = Inr ()" by code_simp
  then have "copy_to_user (wit_space 1) 0x5010 [7, 8]
      = (Inr (), snd (copy_to_user (wit_space 1) 0x5010 [7, 8]))"
    by (metis prod.collapse)
  from uaccess_roundtrip [OF this] show ?thesis by simp
qed

theorem cstr_equiv_witness:
  "read_user_cstr_bytes (wit_space 1) 0x5010 5 = Inr [104, 105]"
proof -
  have "cstr_spec (wit_space 1) 0x5010 5 = Inr [104, 105]"
    by code_simp
  then show ?thesis using cstr_equiv [OF wit_space_mapped, of 1 "0x5010" 5] by simp
qed

end
