(* ===== verification/Rust_Str.thy ===== *)
theory Rust_Str
  imports Prelude
begin

text \<open>
  Rust strings. A \<^verbatim>\<open>str\<close> is the list of its Unicode scalar values; the functions of the
  standard library that the kernel's text formats are read with are modelled here:
  \<^verbatim>\<open>from_utf8\<close>, \<^verbatim>\<open>as_bytes\<close>, \<^verbatim>\<open>lines\<close>, \<^verbatim>\<open>trim\<close>, \<^verbatim>\<open>split_once\<close>, \<^verbatim>\<open>rsplit\<close>, \<^verbatim>\<open>strip_prefix\<close>,
  \<^verbatim>\<open>strip_suffix\<close> and \<^verbatim>\<open>usize::from_str_radix\<close> with radix 8.
\<close>

section \<open>Strings\<close>

type_synonym str = "nat list"

definition lit :: "string \<Rightarrow> str" where
  "lit s = map of_char s"

definition is_whitespace :: "nat \<Rightarrow> bool" where
  "is_whitespace c \<longleftrightarrow> 9 \<le> c \<and> c \<le> 13 \<or> c = 32 \<or> c = 0x85 \<or> c = 0xA0 \<or> c = 0x1680
     \<or> 0x2000 \<le> c \<and> c \<le> 0x200A \<or> c = 0x2028 \<or> c = 0x2029 \<or> c = 0x202F \<or> c = 0x205F \<or> c = 0x3000"

definition trim :: "str \<Rightarrow> str" where
  "trim s = rev (dropWhile is_whitespace (rev (dropWhile is_whitespace s)))"

definition strip_cr :: "str \<Rightarrow> str" where
  "strip_cr s = (if s \<noteq> [] \<and> last s = 13 then butlast s else s)"

fun lines_from :: "str \<Rightarrow> str \<Rightarrow> str list" where
  "lines_from cur [] = (if cur = [] then [] else [cur])"
| "lines_from cur (c # cs) =
     (if c = 10 then strip_cr cur # lines_from [] cs else lines_from (cur @ [c]) cs)"

definition str_lines :: "str \<Rightarrow> str list" where
  "str_lines s = lines_from [] s"

definition split_once :: "nat \<Rightarrow> str \<Rightarrow> (str \<times> str) option" where
  "split_once c s = (if c \<in> set s then Some (takeWhile (\<lambda>x. x \<noteq> c) s, tl (dropWhile (\<lambda>x. x \<noteq> c) s)) else None)"

text \<open>
  \<^verbatim>\<open>core::str::from_utf8\<close>: the well-formed byte sequences of the Unicode standard, without
  overlong forms and surrogates.
\<close>

definition cont :: "u8 \<Rightarrow> bool" where
  "cont b \<longleftrightarrow> 0x80 \<le> b \<and> b \<le> 0xBF"

definition cont_val :: "u8 \<Rightarrow> nat" where
  "cont_val b = unat b mod 64"

definition second_ok :: "u8 \<Rightarrow> u8 \<Rightarrow> bool" where
  "second_ok b c =
     (if b = 0xE0 then 0xA0 \<le> c \<and> c \<le> 0xBF
      else if b = 0xED then 0x80 \<le> c \<and> c \<le> 0x9F
      else if b = 0xF0 then 0x90 \<le> c \<and> c \<le> 0xBF
      else if b = 0xF4 then 0x80 \<le> c \<and> c \<le> 0x8F
      else cont c)"

fun from_utf8 :: "u8 list \<Rightarrow> str option" where
  "from_utf8 [] = Some []"
| "from_utf8 (b # bs) =
     (if b < 0x80 then map_option ((#) (unat b)) (from_utf8 bs)
      else if 0xC2 \<le> b \<and> b \<le> 0xDF then
        (case bs of
           c # rest \<Rightarrow> if cont c
             then map_option ((#) ((unat b - 0xC0) * 64 + cont_val c)) (from_utf8 rest) else None
         | _ \<Rightarrow> None)
      else if 0xE0 \<le> b \<and> b \<le> 0xEF then
        (case bs of
           c # d # rest \<Rightarrow> if second_ok b c \<and> cont d
             then map_option ((#) (((unat b - 0xE0) * 64 + cont_val c) * 64 + cont_val d)) (from_utf8 rest)
             else None
         | _ \<Rightarrow> None)
      else if 0xF0 \<le> b \<and> b \<le> 0xF4 then
        (case bs of
           c # d # e # rest \<Rightarrow> if second_ok b c \<and> cont d \<and> cont e
             then map_option ((#) ((((unat b - 0xF0) * 64 + cont_val c) * 64 + cont_val d) * 64 + cont_val e))
                    (from_utf8 rest)
             else None
         | _ \<Rightarrow> None)
      else None)"

text \<open>\<^verbatim>\<open>as_bytes\<close>.\<close>

definition char_utf8 :: "nat \<Rightarrow> u8 list" where
  "char_utf8 c =
     map word_of_nat
       (if c < 0x80 then [c]
        else if c < 0x800 then [0xC0 + c div 64, 0x80 + c mod 64]
        else if c < 0x10000 then [0xE0 + c div 4096, 0x80 + c div 64 mod 64, 0x80 + c mod 64]
        else [0xF0 + c div 262144, 0x80 + c div 4096 mod 64, 0x80 + c div 64 mod 64, 0x80 + c mod 64])"

definition as_bytes :: "str \<Rightarrow> u8 list" where
  "as_bytes s = concat (map char_utf8 s)"

definition str_strip_prefix :: "str \<Rightarrow> str \<Rightarrow> str option" where
  "str_strip_prefix p s = (if take (length p) s = p then Some (drop (length p) s) else None)"

definition str_strip_suffix :: "str \<Rightarrow> str \<Rightarrow> str option" where
  "str_strip_suffix p s = map_option rev (str_strip_prefix (rev p) (rev s))"

text \<open>\<^verbatim>\<open>rsplit(c).next()\<close>: what follows the last \<open>c\<close>, or the whole string.\<close>

definition after_last :: "nat \<Rightarrow> str \<Rightarrow> str" where
  "after_last c s = rev (takeWhile (\<lambda>x. x \<noteq> c) (rev s))"

text \<open>
  \<^verbatim>\<open>usize::from_str_radix(s, 8)\<close>: an optional plus sign, then at least one octal digit, with
  an error on overflow.
\<close>

fun octal_digits :: "nat \<Rightarrow> str \<Rightarrow> nat option" where
  "octal_digits acc [] = Some acc"
| "octal_digits acc (c # cs) =
     (if 48 \<le> c \<and> c \<le> 55 \<and> acc * 8 + (c - 48) < 2 ^ 64 then octal_digits (acc * 8 + (c - 48)) cs else None)"

definition from_octal :: "str \<Rightarrow> usize option" where
  "from_octal s =
     (let ds = (case s of c # cs \<Rightarrow> if c = 43 then cs else s | [] \<Rightarrow> [])
      in if ds = [] then None else map_option word_of_nat (octal_digits 0 ds))"

section \<open>Lemmas\<close>

lemma dropWhile_hd: "xs = [] \<or> \<not> P (hd xs) \<Longrightarrow> dropWhile P xs = xs"
  by (cases xs) auto

lemma trim_id: "s = [] \<or> \<not> is_whitespace (hd s) \<and> \<not> is_whitespace (last s) \<Longrightarrow> trim s = s"
  by (auto simp: trim_def dropWhile_hd hd_rev)

lemma lines_from_line:
  "10 \<notin> set l \<Longrightarrow> lines_from cur (l @ 10 # rest) = strip_cr (cur @ l) # lines_from [] rest"
  by (induction l arbitrary: cur) auto

lemma str_lines_line: "10 \<notin> set l \<Longrightarrow> str_lines (l @ 10 # rest) = strip_cr l # str_lines rest"
  by (simp add: str_lines_def lines_from_line)

lemma str_lines_Nil: "str_lines [] = []"
  by (simp add: str_lines_def)

lemma strip_cr_id: "s = [] \<or> \<not> is_whitespace (last s) \<Longrightarrow> strip_cr s = s"
  by (auto simp: strip_cr_def is_whitespace_def)

lemma split_once_key: "c \<notin> set k \<Longrightarrow> split_once c (k @ c # v) = Some (k, v)"
  by (induction k) (auto simp: split_once_def split: if_splits)

lemma not_whitespace_digit: "48 \<le> c \<and> c \<le> 57 \<Longrightarrow> \<not> is_whitespace c \<and> c \<noteq> 10"
  by (auto simp: is_whitespace_def)

lemma lit_eq_iff [simp]: "lit s = lit t \<longleftrightarrow> s = t"
  by (simp add: lit_def inj_map_eq_map inj_of_char)

lemma from_utf8_ascii: "list_all (\<lambda>b. b < 0x80) bs \<Longrightarrow> from_utf8 bs = Some (map unat bs)"
  by (induction bs rule: from_utf8.induct) (auto simp: list_all_iff)

lemma octal_digits_bound: "octal_digits acc s = Some n \<Longrightarrow> n + 1 \<le> (acc + 1) * 8 ^ length s"
proof (induction acc s rule: octal_digits.induct)
  case (2 acc c cs)
  then have step: "c \<le> 55" "48 \<le> c" "n + 1 \<le> (acc * 8 + (c - 48) + 1) * 8 ^ length cs"
    by (auto split: if_splits)
  have "acc * 8 + (c - 48) + 1 \<le> (acc + 1) * 8" using step by simp
  then have "(acc * 8 + (c - 48) + 1) * 8 ^ length cs \<le> (acc + 1) * 8 * 8 ^ length cs"
    by (rule mult_le_mono1)
  with step(3) show ?case by (simp add: algebra_simps)
qed simp

text \<open>Eleven characters name a number below two to the power 33.\<close>

lemma from_octal_bound:
  assumes "from_octal s = Some w" and "length s \<le> n"
  shows "unat w < 8 ^ n"
proof -
  define ds where "ds = (case s of c # cs \<Rightarrow> if c = 43 then cs else s | [] \<Rightarrow> [])"
  have "length ds \<le> n" using assms(2) by (auto simp: ds_def split: list.split)
  moreover from assms(1) obtain k where "octal_digits 0 ds = Some k" "w = word_of_nat k"
    by (auto simp: from_octal_def Let_def simp flip: ds_def split: if_splits)
  ultimately have ds: "length ds \<le> n" "octal_digits 0 ds = Some k" "w = word_of_nat k"
    by simp_all
  from octal_digits_bound [OF ds(2)] have "k < 8 ^ length ds" by simp
  also have "\<dots> \<le> 8 ^ n" using ds(1) by (simp add: power_increasing)
  finally show ?thesis
    using ds(3) unat_of_nat [of k, where 'a = 64] by (simp add: take_bit_eq_mod le_less_trans [OF mod_less_eq_dividend])
qed

end
