(* ===== verification/Update_Slots.thy ===== *)
theory Update_Slots
  imports Rust_Str
begin

text \<open>
  The A/B kernel update slots (\<^verbatim>\<open>kernel/src/update_slots.rs\<close>): the slot state machine (stage,
  switch, count a boot attempt and fall back, mark successful), the line-oriented
  \<^verbatim>\<open>RAESLOT.CFG\<close> format with its parser, signature-gated staging and initialisation at
  boot. The theory shows the round trip of the format, that staging never touches the
  active slot, that a kernel that does not boot is left after at most four attempts, and
  under which discipline an update cannot leave the machine without a good slot.
\<close>

section \<open>Decimal numbers\<close>

text \<open>
  The part of the standard library only this format uses: \<^verbatim>\<open>parse::<u8>\<close> and the decimal
  formatting of a \<^verbatim>\<open>u8\<close>.
\<close>

fun parse_digits :: "nat \<Rightarrow> str \<Rightarrow> nat option" where
  "parse_digits acc [] = Some acc"
| "parse_digits acc (c # cs) =
     (if 48 \<le> c \<and> c \<le> 57 \<and> acc * 10 + (c - 48) \<le> 255 then parse_digits (acc * 10 + (c - 48)) cs else None)"

definition parse_u8 :: "str \<Rightarrow> u8 option" where
  "parse_u8 s =
     (let ds = (case s of c # cs \<Rightarrow> if c = 43 then cs else s | [] \<Rightarrow> [])
      in if ds = [] then None else map_option word_of_nat (parse_digits 0 ds))"

fun decimal :: "nat \<Rightarrow> str" where
  "decimal n = (if n < 10 then [48 + n] else decimal (n div 10) @ [48 + n mod 10])"

declare decimal.simps [simp del]

section \<open>Data\<close>

definition MAX_BOOT_RETRIES :: u8 where
  "MAX_BOOT_RETRIES = 3"

datatype Slot = A | B

fun other :: "Slot \<Rightarrow> Slot" where
  "other A = B"
| "other B = A"

fun letter :: "Slot \<Rightarrow> nat" where
  "letter A = 65"
| "letter B = 66"

record SlotState =
  version :: str
  successful :: bool
  boot_count :: u8

definition fresh :: "str \<Rightarrow> SlotState" where
  "fresh v = \<lparr>version = v, successful = False, boot_count = 0\<rparr>"

record SlotConfig =
  active :: Slot
  pending :: bool
  slot_a :: SlotState
  slot_b :: SlotState

definition default_config :: SlotConfig where
  "default_config = \<lparr>active = A, pending = False,
     slot_a = \<lparr>version = lit ''0.1.0'', successful = True, boot_count = 0\<rparr>,
     slot_b = \<lparr>version = lit ''-'', successful = False, boot_count = 0\<rparr>\<rparr>"

definition active_state :: "SlotConfig \<Rightarrow> SlotState" where
  "active_state cfg = (case active cfg of A \<Rightarrow> slot_a cfg | B \<Rightarrow> slot_b cfg)"

definition standby_state :: "SlotConfig \<Rightarrow> SlotState" where
  "standby_state cfg = (case active cfg of A \<Rightarrow> slot_b cfg | B \<Rightarrow> slot_a cfg)"

text \<open>Assignment through \<^verbatim>\<open>active_state_mut\<close> and \<^verbatim>\<open>standby_state_mut\<close>.\<close>

definition active_state_mut :: "(SlotState \<Rightarrow> SlotState) \<Rightarrow> SlotConfig \<Rightarrow> SlotConfig" where
  "active_state_mut f cfg = (case active cfg of
      A \<Rightarrow> cfg\<lparr>slot_a := f (slot_a cfg)\<rparr> | B \<Rightarrow> cfg\<lparr>slot_b := f (slot_b cfg)\<rparr>)"

definition standby_state_mut :: "(SlotState \<Rightarrow> SlotState) \<Rightarrow> SlotConfig \<Rightarrow> SlotConfig" where
  "standby_state_mut f cfg = (case active cfg of
      A \<Rightarrow> cfg\<lparr>slot_b := f (slot_b cfg)\<rparr> | B \<Rightarrow> cfg\<lparr>slot_a := f (slot_a cfg)\<rparr>)"

section \<open>The configuration file\<close>

definition bool_digit :: "bool \<Rightarrow> nat" where
  "bool_digit b = (if b then 49 else 48)"

definition serialize_state :: "str \<Rightarrow> SlotState \<Rightarrow> str" where
  "serialize_state t st =
     t @ lit ''.version='' @ version st @ [10] @
     t @ lit ''.successful='' @ [bool_digit (successful st)] @ [10] @
     t @ lit ''.boot_count='' @ decimal (unat (boot_count st)) @ [10]"

definition serialize :: "SlotConfig \<Rightarrow> str" where
  "serialize cfg =
     lit ''RAESLOT v1'' @ [10] @
     lit ''active='' @ [letter (active cfg)] @ [10] @
     lit ''pending='' @ [bool_digit (pending cfg)] @ [10] @
     serialize_state (lit ''a'') (slot_a cfg) @ serialize_state (lit ''b'') (slot_b cfg)"

definition parse_key :: "str \<Rightarrow> str \<Rightarrow> SlotConfig \<times> u32 \<Rightarrow> (SlotConfig \<times> u32) option" where
  "parse_key key val = (\<lambda>(cfg, seen).
     if key = lit ''active'' then
       (if val = lit ''A'' then Some (cfg\<lparr>active := A\<rparr>, seen OR 1)
        else if val = lit ''B'' then Some (cfg\<lparr>active := B\<rparr>, seen OR 1)
        else None)
     else if key = lit ''pending'' then Some (cfg\<lparr>pending := (val = lit ''1'')\<rparr>, seen OR 2)
     else if key = lit ''a.version'' then Some (cfg\<lparr>slot_a := (slot_a cfg)\<lparr>version := val\<rparr>\<rparr>, seen OR 4)
     else if key = lit ''a.successful'' then
       Some (cfg\<lparr>slot_a := (slot_a cfg)\<lparr>successful := (val = lit ''1'')\<rparr>\<rparr>, seen OR 8)
     else if key = lit ''a.boot_count'' then
       (case parse_u8 val of None \<Rightarrow> None
        | Some n \<Rightarrow> Some (cfg\<lparr>slot_a := (slot_a cfg)\<lparr>boot_count := n\<rparr>\<rparr>, seen OR 16))
     else if key = lit ''b.version'' then Some (cfg\<lparr>slot_b := (slot_b cfg)\<lparr>version := val\<rparr>\<rparr>, seen OR 32)
     else if key = lit ''b.successful'' then
       Some (cfg\<lparr>slot_b := (slot_b cfg)\<lparr>successful := (val = lit ''1'')\<rparr>\<rparr>, seen OR 64)
     else if key = lit ''b.boot_count'' then
       (case parse_u8 val of None \<Rightarrow> None
        | Some n \<Rightarrow> Some (cfg\<lparr>slot_b := (slot_b cfg)\<lparr>boot_count := n\<rparr>\<rparr>, seen OR 128))
     else Some (cfg, seen))"

fun parse_lines :: "str list \<Rightarrow> SlotConfig \<times> u32 \<Rightarrow> (SlotConfig \<times> u32) option" where
  "parse_lines [] st = Some st"
| "parse_lines (l # ls) st =
     (let l = trim l in
      if l = [] then parse_lines ls st
      else case split_once 61 l of
          None \<Rightarrow> None
        | Some (key, val) \<Rightarrow>
            (case parse_key key val st of None \<Rightarrow> None | Some st' \<Rightarrow> parse_lines ls st'))"

definition parse :: "str \<Rightarrow> SlotConfig option" where
  "parse text =
     (case str_lines text of
        [] \<Rightarrow> None
      | first # ls \<Rightarrow>
          if trim first \<noteq> lit ''RAESLOT v1'' then None
          else case parse_lines ls (default_config, 0) of
              None \<Rightarrow> None
            | Some (cfg, seen) \<Rightarrow> if seen = 255 then Some cfg else None)"

section \<open>The slot state machine\<close>

definition stage :: "str \<Rightarrow> SlotConfig \<Rightarrow> SlotConfig" where
  "stage v cfg = (standby_state_mut (\<lambda>_. fresh v) cfg)\<lparr>pending := True\<rparr>"

definition switch_active :: "SlotConfig \<Rightarrow> bool \<times> SlotConfig" where
  "switch_active cfg = (if \<not> pending cfg then (False, cfg) else (True, cfg\<lparr>active := other (active cfg)\<rparr>))"

definition record_boot_attempt :: "SlotConfig \<Rightarrow> bool \<times> SlotConfig" where
  "record_boot_attempt cfg =
     (let cfg' = active_state_mut (\<lambda>st. st\<lparr>boot_count := saturating_add (boot_count st) 1\<rparr>) cfg;
          st = active_state cfg'
      in if \<not> successful st \<and> boot_count st > MAX_BOOT_RETRIES
         then (True, cfg'\<lparr>active := other (active cfg'), pending := False\<rparr>)
         else (False, cfg'))"

definition mark_successful :: "SlotConfig \<Rightarrow> SlotConfig" where
  "mark_successful cfg =
     (active_state_mut (\<lambda>st. st\<lparr>successful := True, boot_count := 0\<rparr>) cfg)\<lparr>pending := False\<rparr>"

text \<open>The module's static state, staging behind the signature check, and \<^verbatim>\<open>init\<close>.\<close>

record UpdateState =
  SLOT_CONFIG :: "SlotConfig option"
  CONFIG_ON_DISK :: bool
  FALLBACKS :: u32
  STAGE_REFUSED_BADSIG :: u32

definition stage_kernel_update ::
    "(u8 list \<Rightarrow> u8 list \<Rightarrow> bool) \<Rightarrow> u8 list \<Rightarrow> u8 list \<Rightarrow> str \<Rightarrow> UpdateState \<Rightarrow> bool \<times> UpdateState" where
  "stage_kernel_update verify_against_anchor img sig v s =
     (if \<not> verify_against_anchor img sig
      then (False, s\<lparr>STAGE_REFUSED_BADSIG := STAGE_REFUSED_BADSIG s + 1\<rparr>)
      else case SLOT_CONFIG s of
          Some cfg \<Rightarrow> (True, s\<lparr>SLOT_CONFIG := Some (stage v cfg)\<rparr>)
        | None \<Rightarrow> (False, s))"

definition mark_boot_successful :: "UpdateState \<Rightarrow> UpdateState" where
  "mark_boot_successful s = s\<lparr>SLOT_CONFIG := map_option mark_successful (SLOT_CONFIG s)\<rparr>"

text \<open>
  \<open>esp_file\<close> is what \<^verbatim>\<open>read_esp_file\<close> and \<^verbatim>\<open>from_utf8\<close> give: no file, a file that is not
  UTF-8, or a text.
\<close>

definition slots_init :: "str option option \<Rightarrow> UpdateState \<Rightarrow> UpdateState" where
  "slots_init esp_file s =
     (let (cfg, on_disk) = (case esp_file of
            Some bytes \<Rightarrow> (case Option.bind bytes parse of
                Some c \<Rightarrow> (c, True)
              | None \<Rightarrow> (default_config, CONFIG_ON_DISK s))
          | None \<Rightarrow> (default_config, CONFIG_ON_DISK s));
          (fell_back, cfg') = record_boot_attempt cfg
      in s\<lparr>SLOT_CONFIG := Some cfg', CONFIG_ON_DISK := on_disk,
           FALLBACKS := (if fell_back then FALLBACKS s + 1 else FALLBACKS s)\<rparr>)"

section \<open>The state machine falls back and keeps a good slot\<close>

lemma other_other [simp]: "other (other x) = x"
  by (cases x) simp_all

lemmas slot_accessors = active_state_def standby_state_def active_state_mut_def standby_state_mut_def

lemma active_state_mut_simps [simp]:
  "active (active_state_mut f cfg) = active cfg"
  "active_state (active_state_mut f cfg) = f (active_state cfg)"
  "standby_state (active_state_mut f cfg) = standby_state cfg"
  "pending (active_state_mut f cfg) = pending cfg"
  by (auto simp: slot_accessors split: Slot.split)

lemma standby_state_mut_simps [simp]:
  "active (standby_state_mut f cfg) = active cfg"
  "active_state (standby_state_mut f cfg) = active_state cfg"
  "standby_state (standby_state_mut f cfg) = f (standby_state cfg)"
  by (auto simp: slot_accessors split: Slot.split)

lemma pending_update_simps [simp]:
  "active_state (cfg\<lparr>pending := p\<rparr>) = active_state cfg"
  "standby_state (cfg\<lparr>pending := p\<rparr>) = standby_state cfg"
  by (simp_all add: slot_accessors split: Slot.split)

lemma flip_simps [simp]:
  "active_state (cfg\<lparr>active := other (active cfg)\<rparr>) = standby_state cfg"
  "standby_state (cfg\<lparr>active := other (active cfg)\<rparr>) = active_state cfg"
  by (cases "active cfg"; simp add: slot_accessors)+

lemma flip_pending_simps [simp]:
  "active_state (cfg\<lparr>active := other (active cfg), pending := p\<rparr>) = standby_state cfg"
  "standby_state (cfg\<lparr>active := other (active cfg), pending := p\<rparr>) = active_state cfg"
  by (cases "active cfg"; simp add: slot_accessors)+

text \<open>A boot attempt, by what it does to the two slots.\<close>

definition bump :: "SlotState \<Rightarrow> SlotState" where
  "bump st = st\<lparr>boot_count := saturating_add (boot_count st) 1\<rparr>"

lemma bump_simps [simp]:
  "successful (bump st) = successful st" "version (bump st) = version st"
  "unat (boot_count (bump st)) = min (Suc (unat (boot_count st))) 255"
  by (simp_all add: bump_def unat_saturating_add)

lemma record_stays:
  assumes "successful (active_state cfg) \<or> unat (boot_count (active_state cfg)) < 3"
  shows "record_boot_attempt cfg = (False, active_state_mut bump cfg)"
proof -
  have "successful (active_state cfg) \<or> \<not> boot_count (bump (active_state cfg)) > MAX_BOOT_RETRIES"
    using assms by (auto simp: word_less_nat_alt MAX_BOOT_RETRIES_def)
  then show ?thesis by (auto simp: record_boot_attempt_def bump_def [abs_def])
qed

lemma record_falls_back:
  assumes "\<not> successful (active_state cfg)" and "3 \<le> unat (boot_count (active_state cfg))"
  shows "record_boot_attempt cfg
     = (True, (active_state_mut bump cfg)\<lparr>active := other (active cfg), pending := False\<rparr>)"
proof -
  have "boot_count (bump (active_state cfg)) > MAX_BOOT_RETRIES"
    using assms(2) by (simp add: word_less_nat_alt MAX_BOOT_RETRIES_def)
  then show ?thesis using assms(1) by (simp add: record_boot_attempt_def bump_def [abs_def])
qed

text \<open>\<open>boots n cfg\<close>: \<open>n\<close> boots in a row in which userspace is not reached.\<close>

definition boots :: "nat \<Rightarrow> SlotConfig \<Rightarrow> SlotConfig" where
  "boots n = (\<lambda>cfg. snd (record_boot_attempt cfg)) ^^ n"

lemma boots_0 [simp]: "boots 0 cfg = cfg"
  by (simp add: boots_def)

lemma boots_Suc: "boots (Suc n) cfg = boots n (snd (record_boot_attempt cfg))"
  by (simp only: boots_def funpow_Suc_right o_apply)

lemma boots_stay:
  "\<not> successful (active_state cfg) \<Longrightarrow> unat (boot_count (active_state cfg)) + n \<le> 3 \<Longrightarrow>
     active (boots n cfg) = active cfg \<and> \<not> successful (active_state (boots n cfg))
     \<and> unat (boot_count (active_state (boots n cfg))) = unat (boot_count (active_state cfg)) + n
     \<and> standby_state (boots n cfg) = standby_state cfg"
proof (induction n arbitrary: cfg)
  case (Suc n)
  then have "record_boot_attempt cfg = (False, active_state_mut bump cfg)" by (intro record_stays) simp
  with Suc.IH [of "active_state_mut bump cfg"] Suc.prems show ?case by (simp add: boots_Suc)
qed simp

lemma boots_add: "boots (m + n) cfg = boots n (boots m cfg)"
  by (induction m arbitrary: cfg) (simp_all add: boots_Suc)

lemma boots_fallback:
  assumes "\<not> successful (active_state cfg)"
  shows "\<exists>n \<le> 4. active (boots n cfg) = other (active cfg) \<and> active_state (boots n cfg) = standby_state cfg
     \<and> \<not> pending (boots n cfg) \<and> 0 < n"
proof -
  let ?c = "unat (boot_count (active_state cfg))"
  let ?mid = "boots (3 - ?c) cfg"
  have mid: "active ?mid = active cfg" "\<not> successful (active_state ?mid)"
    "3 \<le> unat (boot_count (active_state ?mid))" "standby_state ?mid = standby_state cfg"
    using boots_stay [OF assms, of "3 - ?c"] assms by (cases "?c \<le> 3"; simp)+
  have "boots (Suc (3 - ?c)) cfg = boots 1 ?mid" using boots_add [of "3 - ?c" 1 cfg] by simp
  also have "\<dots> = (active_state_mut bump ?mid)\<lparr>active := other (active ?mid), pending := False\<rparr>"
    using record_falls_back [OF mid(2,3)] by (simp add: boots_Suc)
  finally have last: "boots (Suc (3 - ?c)) cfg
      = (active_state_mut bump ?mid)\<lparr>active := other (active ?mid), pending := False\<rparr>" .
  have "active_state ((active_state_mut bump ?mid)\<lparr>active := other (active ?mid), pending := False\<rparr>)
      = standby_state cfg"
    using flip_pending_simps(1) [of False "active_state_mut bump ?mid"] mid(4) by simp
  with last mid(1) show ?thesis by (intro exI [of _ "Suc (3 - ?c)"]) auto
qed

text \<open>
  The operations as steps. \<open>disciplined\<close> staging is done from a slot that has been marked
  successful; the code itself does not ask for that.
\<close>

inductive slot_step :: "SlotConfig \<Rightarrow> SlotConfig \<Rightarrow> bool" where
  staged: "successful (active_state cfg) \<Longrightarrow> slot_step cfg (stage v cfg)"
| switched: "slot_step cfg (snd (switch_active cfg))"
| booted: "slot_step cfg (snd (record_boot_attempt cfg))"
| marked: "slot_step cfg (mark_successful cfg)"

definition good_slot :: "SlotConfig \<Rightarrow> bool" where
  "good_slot cfg \<longleftrightarrow> successful (active_state cfg) \<or> successful (standby_state cfg)"

lemma good_slot_boot: "good_slot cfg \<Longrightarrow> good_slot (snd (record_boot_attempt cfg))"
  by (cases "successful (active_state cfg) \<or> unat (boot_count (active_state cfg)) < 3")
    (auto simp: record_stays record_falls_back good_slot_def
      flip_pending_simps [of _ "active_state_mut bump cfg", simplified])

interpretation slots: inductive_invariant "(=) default_config" slot_step good_slot
proof
  show "good_slot s" if "default_config = s" for s
    using that by (auto simp: good_slot_def default_config_def active_state_def)
  show "good_slot t" if "slot_step s t" "good_slot s" for s t
    using that
  proof (induction rule: slot_step.induct)
    case (booted cfg)
    then show ?case by (rule good_slot_boot)
  qed (auto simp: good_slot_def stage_def switch_active_def mark_successful_def)
qed

section \<open>Reading back what was written\<close>

lemma decimal_digits: "c \<in> set (decimal n) \<Longrightarrow> 48 \<le> c \<and> c \<le> 57"
proof (induction n rule: decimal.induct)
  case (1 n)
  from "1.prems" show ?case
    by (subst (asm) decimal.simps) (use "1.IH" in \<open>auto split: if_splits\<close>)
qed

lemma decimal_nonempty: "decimal n \<noteq> []"
  by (subst decimal.simps) simp

lemma parse_digits_decimal: "n \<le> 255 \<Longrightarrow> parse_digits 0 (decimal n @ rest) = parse_digits n rest"
proof (induction n arbitrary: rest rule: decimal.induct)
  case (1 n)
  show ?case
  proof (cases "n < 10")
    case True
    then show ?thesis by (simp add: decimal.simps [of n])
  next
    case False
    have "n div 10 * 10 + n mod 10 = n" "n mod 10 \<le> 9" by simp_all
    with False "1.IH" [OF False] "1.prems" show ?thesis
      by (simp add: decimal.simps [of n])
  qed
qed

lemma parse_u8_decimal: "parse_u8 (decimal (unat w)) = Some w"
proof -
  have le: "unat w \<le> 255" using unat_bound [of w] by simp
  obtain c cs where c: "decimal (unat w) = c # cs" by (cases "decimal (unat w)") (auto simp: decimal_nonempty)
  then have "c \<noteq> 43" using decimal_digits [of c "unat w"] by auto
  then show ?thesis
    using parse_digits_decimal [OF le, of "[]"] c by (simp add: parse_u8_def)
qed

text \<open>A value that survives: no line break in it and no white space at its end.\<close>

definition clean :: "str \<Rightarrow> bool" where
  "clean v \<longleftrightarrow> 10 \<notin> set v \<and> (v = [] \<or> \<not> is_whitespace (last v))"

lemma clean_decimal [simp]: "clean (decimal n)"
  using not_whitespace_digit decimal_digits last_in_set [OF decimal_nonempty, of n]
  by (fastforce simp: clean_def)

lemma clean_digit [simp]: "clean [bool_digit b]" "clean [letter s]"
  by (auto simp: clean_def bool_digit_def is_whitespace_def split: Slot.split) (cases s; simp)+

definition key_ok :: "str \<Rightarrow> bool" where
  "key_ok k \<longleftrightarrow> k \<noteq> [] \<and> \<not> is_whitespace (hd k) \<and> 61 \<notin> set k \<and> 10 \<notin> set k"

lemma parse_line_step:
  assumes "key_ok k" and "clean v"
  shows "parse_lines (str_lines (k @ 61 # v @ 10 # rest)) st =
     (case parse_key k v st of None \<Rightarrow> None | Some st' \<Rightarrow> parse_lines (str_lines rest) st')"
proof -
  let ?l = "k @ 61 # v"
  have last: "\<not> is_whitespace (last ?l)" using assms by (auto simp: clean_def is_whitespace_def)
  have "10 \<notin> set ?l" using assms by (simp add: key_ok_def clean_def)
  from str_lines_line [OF this, of rest]
  have lines: "str_lines (k @ 61 # v @ 10 # rest) = ?l # str_lines rest"
    using last strip_cr_id by simp
  have "trim ?l = ?l" using assms last by (intro trim_id) (simp add: key_ok_def)
  then show ?thesis
    using assms split_once_key [of 61 k v] by (simp add: lines key_ok_def)
qed

lemmas parse_line_step_1 = parse_line_step [where v = "[c]" for c, simplified]

lemma key_ok_lits:
  "key_ok (lit ''active'')" "key_ok (lit ''pending'')"
  "key_ok (lit ''a.version'')" "key_ok (lit ''a.successful'')" "key_ok (lit ''a.boot_count'')"
  "key_ok (lit ''b.version'')" "key_ok (lit ''b.successful'')" "key_ok (lit ''b.boot_count'')"
  by (simp_all add: key_ok_def lit_def is_whitespace_def)

text \<open>Each key's effect on the configuration being built.\<close>

lemma parse_key_simps [simp]:
  "parse_key (lit ''active'') [letter x] (cfg, n) = Some (cfg\<lparr>active := x\<rparr>, n OR 1)"
  "parse_key (lit ''pending'') [bool_digit b] (cfg, n) = Some (cfg\<lparr>pending := b\<rparr>, n OR 2)"
  "parse_key (lit ''a.version'') v (cfg, n) = Some (cfg\<lparr>slot_a := (slot_a cfg)\<lparr>version := v\<rparr>\<rparr>, n OR 4)"
  "parse_key (lit ''a.successful'') [bool_digit b] (cfg, n)
     = Some (cfg\<lparr>slot_a := (slot_a cfg)\<lparr>successful := b\<rparr>\<rparr>, n OR 8)"
  "parse_key (lit ''a.boot_count'') (decimal (unat w)) (cfg, n)
     = Some (cfg\<lparr>slot_a := (slot_a cfg)\<lparr>boot_count := w\<rparr>\<rparr>, n OR 16)"
  "parse_key (lit ''b.version'') v (cfg, n) = Some (cfg\<lparr>slot_b := (slot_b cfg)\<lparr>version := v\<rparr>\<rparr>, n OR 32)"
  "parse_key (lit ''b.successful'') [bool_digit b] (cfg, n)
     = Some (cfg\<lparr>slot_b := (slot_b cfg)\<lparr>successful := b\<rparr>\<rparr>, n OR 64)"
  "parse_key (lit ''b.boot_count'') (decimal (unat w)) (cfg, n)
     = Some (cfg\<lparr>slot_b := (slot_b cfg)\<lparr>boot_count := w\<rparr>\<rparr>, n OR 128)"
proof -
  show "parse_key (lit ''active'') [letter x] (cfg, n) = Some (cfg\<lparr>active := x\<rparr>, n OR 1)"
    by (cases x) (simp_all add: parse_key_def lit_def)
qed (simp_all add: parse_key_def parse_u8_decimal, simp_all add: bool_digit_def lit_def)

text \<open>The wire format as key, \<open>=\<close>, value lines, in the shape \<open>parse_line_step\<close> consumes.\<close>

lemma serialize_lines:
  "serialize cfg = lit ''RAESLOT v1'' @ 10 #
     (lit ''active'' @ 61 # [letter (active cfg)] @ 10 # (lit ''pending'' @ 61 # [bool_digit (pending cfg)] @ 10 #
     (lit ''a.version'' @ 61 # version (slot_a cfg) @ 10 # (lit ''a.successful'' @ 61 # [bool_digit (successful (slot_a cfg))] @ 10 #
     (lit ''a.boot_count'' @ 61 # decimal (unat (boot_count (slot_a cfg))) @ 10 #
     (lit ''b.version'' @ 61 # version (slot_b cfg) @ 10 # (lit ''b.successful'' @ 61 # [bool_digit (successful (slot_b cfg))] @ 10 #
     (lit ''b.boot_count'' @ 61 # decimal (unat (boot_count (slot_b cfg))) @ 10 # []))))))))"
  by (simp add: serialize_def serialize_state_def lit_def)

text \<open>The keys a file must have, with the bit each sets in \<open>seen\<close>.\<close>

definition slot_keys :: "str list" where
  "slot_keys = map lit [''active'', ''pending'', ''a.version'', ''a.successful'', ''a.boot_count'',
     ''b.version'', ''b.successful'', ''b.boot_count'']"

definition line_key :: "str \<Rightarrow> str option" where
  "line_key l = map_option fst (split_once 61 (trim l))"

lemma parse_key_seen:
  assumes "parse_key key val (cfg, seen) = Some (cfg', seen')" and "bit seen' i" and "i < 8"
  shows "bit seen i \<or> key = slot_keys ! i"
proof -
  have "i = 0 \<or> i = 1 \<or> i = 2 \<or> i = 3 \<or> i = 4 \<or> i = 5 \<or> i = 6 \<or> i = 7" using assms(3) by auto
  then show ?thesis
    using assms(1,2) unfolding parse_key_def
    by (auto simp: bit_or_iff slot_keys_def split: if_splits option.splits)
qed

lemma parse_lines_seen:
  "parse_lines ls (cfg, seen) = Some (cfg', seen') \<Longrightarrow> bit seen' i \<Longrightarrow> i < 8 \<Longrightarrow>
     bit seen i \<or> (\<exists>l \<in> set ls. line_key l = Some (slot_keys ! i))"
proof (induction ls arbitrary: cfg seen)
  case (Cons l ls)
  show ?case
  proof (cases "trim l = []")
    case True
    with Cons.prems have "parse_lines ls (cfg, seen) = Some (cfg', seen')" by simp
    from Cons.IH [OF this Cons.prems(2,3)] show ?thesis by auto
  next
    case False
    with Cons.prems(1) obtain key val cfg1 seen1 where k: "split_once 61 (trim l) = Some (key, val)"
      "parse_key key val (cfg, seen) = Some (cfg1, seen1)" "parse_lines ls (cfg1, seen1) = Some (cfg', seen')"
      by (auto simp: Let_def split: option.splits)
    from Cons.IH [OF k(3) Cons.prems(2,3)] parse_key_seen [OF k(2) _ Cons.prems(3)] show ?thesis
      by (auto simp: line_key_def k(1))
  qed
qed simp

section \<open>Properties\<close>

text \<open>
  C38. The configuration file is read back as written: for every configuration whose version
  strings have no line break and do not end in white space, parsing the serialised form
  gives the configuration itself, including every boot counter.
\<close>
theorem config_roundtrip:
  assumes "clean (version (slot_a cfg))" and "clean (version (slot_b cfg))"
  shows "parse (serialize cfg) = Some cfg"
proof -
  let ?h = "lit ''RAESLOT v1''"
  have h: "10 \<notin> set ?h" "strip_cr ?h = ?h" "trim ?h = ?h"
    by (simp_all add: lit_def strip_cr_def trim_def is_whitespace_def)
  show ?thesis
    unfolding parse_def serialize_lines str_lines_line [OF h(1)] h(2)
    using assms by (simp add: h(3) parse_line_step parse_line_step_1 key_ok_lits str_lines_Nil)
qed

text \<open>
  Parsing fails closed: a text is accepted only when it has the header line and, after
  it, at least one line for each of the eight keys.
\<close>
theorem parse_fail_closed:
  assumes "parse text = Some cfg"
  shows "\<exists>first ls. str_lines text = first # ls \<and> trim first = lit ''RAESLOT v1''
     \<and> (\<forall>k \<in> set slot_keys. \<exists>l \<in> set ls. line_key l = Some k)"
proof -
  from assms obtain first ls where l: "str_lines text = first # ls" "trim first = lit ''RAESLOT v1''"
    "parse_lines ls (default_config, 0) = Some (cfg, 255)"
    by (auto simp: parse_def split: list.splits if_splits option.splits)
  have "bit (255 :: u32) i" if "i < 8" for i
  proof -
    have "i \<in> {0, 1, 2, 3, 4, 5, 6, 7}" using that by auto
    then show ?thesis by (auto simp: bit_numeral_rec)
  qed
  then have key: "\<exists>l \<in> set ls. line_key l = Some (slot_keys ! i)" if "i < 8" for i
    using parse_lines_seen [OF l(3), of i] that by simp
  have "\<exists>l \<in> set ls. line_key l = Some k" if "k \<in> set slot_keys" for k
  proof -
    from that obtain i where "i < length slot_keys" "slot_keys ! i = k" by (auto simp: in_set_conv_nth)
    then show ?thesis using key [of i] by (simp add: slot_keys_def)
  qed
  with l show ?thesis by blast
qed


text \<open>
  C26. Updates cannot brick a machine that stages from a proven slot. In every configuration
  reached from the default one by switches, boots, success marks, and staging done while
  the active slot is marked successful, at most four boots lead to an active slot that
  has been marked successful.
\<close>
theorem update_keeps_bootable:
  assumes "slot_step\<^sup>*\<^sup>* default_config cfg"
  shows "\<exists>n \<le> 4. successful (active_state (boots n cfg))"
proof (cases "successful (active_state cfg)")
  case True
  then show ?thesis by (intro exI [of _ 0]) simp
next
  case False
  have "good_slot cfg" using slots.reachable_inv [OF refl assms] .
  with False have "successful (standby_state cfg)" by (simp add: good_slot_def)
  with boots_fallback [OF False] show ?thesis by metis
qed

text \<open>
  Staging twice can lose the last good kernel. \<open>stage\<close> does not ask whether the active
  slot has been proven: staging an update, switching to it and staging another one before
  the first has reached userspace overwrites the only good slot, and then no number of
  boots reaches a slot that was marked successful.
\<close>
theorem staging_twice_loses_good_slot:
  "\<not> successful (active_state (boots n (stage v2 (snd (switch_active (stage v1 default_config))))))"
proof -
  let ?cfg = "stage v2 (snd (switch_active (stage v1 default_config)))"
  have keep: "\<not> good_slot (snd (record_boot_attempt cfg))" if "\<not> good_slot cfg" for cfg
    using that
    by (cases "unat (boot_count (active_state cfg)) < 3")
      (auto simp: record_stays record_falls_back good_slot_def
        flip_pending_simps [of _ "active_state_mut bump cfg", simplified])
  have "\<not> good_slot cfg \<Longrightarrow> \<not> good_slot (boots n cfg)" for cfg
    by (induction n arbitrary: cfg) (simp_all add: boots_Suc keep)
  moreover have "\<not> good_slot ?cfg"
    by (simp add: good_slot_def stage_def switch_active_def fresh_def default_config_def slot_accessors)
  ultimately show ?thesis by (auto simp: good_slot_def)
qed

text \<open>
  Only signed kernels are staged, and never over the running one. A stage request
  succeeds exactly when the signature verifies and the configuration is loaded; it then
  leaves the active slot and its state alone and marks the standby slot unproven. A refused
  request changes no slot.
\<close>
theorem stage_signed:
  "case stage_kernel_update verify img sig v s of (ok, s') \<Rightarrow>
     ok = (verify img sig \<and> SLOT_CONFIG s \<noteq> None)
     \<and> (if ok then \<exists>cfg cfg'. SLOT_CONFIG s = Some cfg \<and> SLOT_CONFIG s' = Some cfg'
            \<and> active cfg' = active cfg \<and> active_state cfg' = active_state cfg
            \<and> standby_state cfg' = fresh v \<and> pending cfg'
        else SLOT_CONFIG s' = SLOT_CONFIG s)"
  by (auto simp: stage_kernel_update_def stage_def split: option.split)

section \<open>Witnesses\<close>

theorem config_roundtrip_witness:
  "parse (serialize (default_config\<lparr>pending := True, active := B\<rparr>)) = Some (default_config\<lparr>pending := True, active := B\<rparr>)"
  by (rule config_roundtrip) (simp_all add: default_config_def clean_def lit_def is_whitespace_def)

theorem parse_fail_closed_witness:
  "\<exists>first ls. str_lines (serialize default_config) = first # ls
     \<and> (\<exists>l \<in> set ls. line_key l = Some (lit ''b.boot_count''))"
proof -
  have "parse (serialize default_config) = Some default_config"
    by (rule config_roundtrip) (simp_all add: default_config_def clean_def lit_def is_whitespace_def)
  from parse_fail_closed [OF this] show ?thesis by (auto simp: slot_keys_def)
qed


theorem update_keeps_bootable_witness:
  "\<exists>n \<le> 4. successful (active_state (boots n (snd (switch_active (stage (lit ''2'') default_config)))))"
proof (rule update_keeps_bootable)
  have "slot_step default_config (stage (lit ''2'') default_config)"
    by (rule slot_step.staged) (simp add: default_config_def active_state_def)
  then show "slot_step\<^sup>*\<^sup>* default_config (snd (switch_active (stage (lit ''2'') default_config)))"
    by (rule rtranclp.rtrancl_into_rtrancl [OF r_into_rtranclp]) (rule slot_step.switched)
qed

end
