(* ===== verification/Tmpfs.thy ===== *)
theory Tmpfs
  imports Prelude
begin

text \<open>
  The in-memory file system (\<^verbatim>\<open>kernel/src/tmpfs.rs\<close>): inodes, directories, hard and symbolic
  links, the space quota, path resolution, the table of mounted instances and the flat
  \<^verbatim>\<open>open_or_create\<close> entry point. Names are byte strings, ordered bytewise as Rust orders
  \<^verbatim>\<open>String\<close> keys. Lengths and offsets are 64-bit words with the wrap-around of a release
  build; the places where the source would index or unwrap out of range return \<open>Panic\<close>.
\<close>

section \<open>Data\<close>

definition PAGE_SIZE :: usize where
  "PAGE_SIZE = 4096"

definition DEFAULT_MAX_SIZE :: u64 where
  "DEFAULT_MAX_SIZE = 128 * 1024 * 1024"

datatype TmpfsFileType = Regular | Directory | Symlink | CharDevice | BlockDevice | Fifo | Socket

fun mode_bits :: "TmpfsFileType \<Rightarrow> u32" where
  "mode_bits Regular = 0x8000"
| "mode_bits Directory = 0x4000"
| "mode_bits Symlink = 0xA000"
| "mode_bits CharDevice = 0x2000"
| "mode_bits BlockDevice = 0x6000"
| "mode_bits Fifo = 0x1000"
| "mode_bits Socket = 0xC000"

fun dt_type :: "TmpfsFileType \<Rightarrow> u8" where
  "dt_type Regular = 8"
| "dt_type Directory = 4"
| "dt_type Symlink = 10"
| "dt_type CharDevice = 2"
| "dt_type BlockDevice = 6"
| "dt_type Fifo = 1"
| "dt_type Socket = 12"

datatype TmpfsError = NotFound | AlreadyExists | NotADirectory | IsADirectory | NotASymlink | NotEmpty
  | InvalidName | NoSpace | PermissionDenied | ReadOnly | SymlinkLoop

record TmpfsInodeData =
  ino :: u64
  file_type :: TmpfsFileType
  mode :: u16
  uid :: u32
  gid :: u32
  nlinks :: u32
  size :: u64
  atime :: u64
  mtime :: u64
  ctime :: u64
  data :: "u8 list"
  children :: "(string, u64) btree"
  symlink_target :: "string option"
  dev_major :: u32
  dev_minor :: u32

definition inode_new :: "u64 \<Rightarrow> TmpfsFileType \<Rightarrow> u16 \<Rightarrow> u32 \<Rightarrow> u32 \<Rightarrow> TmpfsInodeData" where
  "inode_new i ft m u g = \<lparr>ino = i, file_type = ft, mode = m, uid = u, gid = g,
     nlinks = (if ft = Directory then 2 else 1), size = 0, atime = 0, mtime = 0, ctime = 0,
     data = [], children = bt_empty, symlink_target = None, dev_major = 0, dev_minor = 0\<rparr>"

record TmpfsFilesystem =
  fs_name :: string
  inodes :: "(u64, TmpfsInodeData) btree"
  next_ino :: u64
  total_used :: u64
  max_size :: u64
  mount_point :: string

definition tmpfs_new :: "string \<Rightarrow> u64 \<Rightarrow> TmpfsFilesystem" where
  "tmpfs_new name limit =
     (let root = inode_new 1 Directory 0x3FF 0 0;
          root' = root\<lparr>children := bt_insert ''..'' 1 (bt_insert ''.'' 1 (children root))\<rparr>
      in \<lparr>fs_name = name, inodes = bt_insert 1 root' bt_empty, next_ino = 2, total_used = 0,
          max_size = limit, mount_point = []\<rparr>)"

definition with_mount_point :: "string \<Rightarrow> TmpfsFilesystem \<Rightarrow> TmpfsFilesystem" where
  "with_mount_point mount fs = fs\<lparr>mount_point := mount\<rparr>"

definition alloc_ino :: "TmpfsFilesystem \<Rightarrow> u64 \<times> TmpfsFilesystem" where
  "alloc_ino fs = (next_ino fs, fs\<lparr>next_ino := next_ino fs + 1\<rparr>)"

definition check_perm :: "TmpfsInodeData \<Rightarrow> u32 \<Rightarrow> bool \<Rightarrow> bool" where
  "check_perm inode u want_write =
     (if u = 0 then True
      else if u = uid inode then
        (if want_write then mode inode AND 0x80 \<noteq> 0 else mode inode AND 0x100 \<noteq> 0)
      else if u = gid inode then
        (if want_write then mode inode AND 0x10 \<noteq> 0 else mode inode AND 0x20 \<noteq> 0)
      else (if want_write then mode inode AND 0x2 \<noteq> 0 else mode inode AND 0x4 \<noteq> 0))"

section \<open>File operations\<close>

type_synonym 'a fs_result = "(TmpfsError + 'a) \<times> TmpfsFilesystem"

abbreviation set_inodes :: "(u64, TmpfsInodeData) btree \<Rightarrow> TmpfsFilesystem \<Rightarrow> TmpfsFilesystem" where
  "set_inodes t fs \<equiv> fs\<lparr>inodes := t\<rparr>"

definition bad_name :: "string \<Rightarrow> bool" where
  "bad_name name \<longleftrightarrow> name = [] \<or> length name > 255 \<or> CHR ''/'' \<in> set name"

definition is_dot :: "string \<Rightarrow> bool" where
  "is_dot name \<longleftrightarrow> name = ''.'' \<or> name = ''..''"

definition create ::
    "u64 \<Rightarrow> string \<Rightarrow> TmpfsFileType \<Rightarrow> u16 \<Rightarrow> u32 \<Rightarrow> u32 \<Rightarrow> TmpfsFilesystem \<Rightarrow> u64 fs_result" where
  "create parent_ino name ft m u g fs =
     (if bad_name name then (Inl InvalidName, fs)
      else if is_dot name then (Inl AlreadyExists, fs)
      else case bt_get (inodes fs) parent_ino of
          None \<Rightarrow> (Inl NotFound, fs)
        | Some parent \<Rightarrow>
            if file_type parent \<noteq> Directory then (Inl NotADirectory, fs)
            else if bt_get (children parent) name \<noteq> None then (Inl AlreadyExists, fs)
            else
              let (i, fs1) = alloc_ino fs;
                  node = inode_new i ft m u g;
                  node' = (if ft = Directory
                           then node\<lparr>children := bt_insert ''..'' parent_ino (bt_insert ''.'' i (children node))\<rparr>
                           else node);
                  t1 = bt_insert i node' (inodes fs1);
                  t2 = bt_modify parent_ino (\<lambda>p. p\<lparr>children := bt_insert name i (children p),
                         nlinks := (if ft = Directory then nlinks p + 1 else nlinks p)\<rparr>) t1
              in (Inr i, set_inodes t2 fs1))"

text \<open>The buffer is passed by its length; the bytes that are copied into it are returned.\<close>

definition read_file :: "u64 \<Rightarrow> u64 \<Rightarrow> nat \<Rightarrow> TmpfsFilesystem \<Rightarrow> TmpfsError + u8 list" where
  "read_file i offset buf_len fs =
     (case bt_get (inodes fs) i of
        None \<Rightarrow> Inl NotFound
      | Some node \<Rightarrow>
          if file_type node = Directory then Inl IsADirectory
          else if offset \<ge> word_of_nat (length (data node)) then Inr []
          else let start = unat offset;
                   n = min buf_len (length (data node) - start)
               in Inr (take n (drop start (data node))))"

text \<open>
  \<^verbatim>\<open>Vec::resize\<close> fills with zeros; a length above \<^verbatim>\<open>isize::MAX\<close> is a capacity overflow, which
  panics.
\<close>

definition ISIZE_MAX :: usize where
  "ISIZE_MAX = 0x7FFFFFFFFFFFFFFF"

definition vec_resize :: "usize \<Rightarrow> u8 list \<Rightarrow> u8 list rust" where
  "vec_resize n xs =
     (if unat n \<le> length xs then Ret (take (unat n) xs)
      else if n > ISIZE_MAX then Panic
      else Ret (xs @ replicate (unat n - length xs) 0))"

definition write_file :: "u64 \<Rightarrow> u64 \<Rightarrow> u8 list \<Rightarrow> TmpfsFilesystem \<Rightarrow> usize fs_result rust" where
  "write_file i offset bytes fs =
     (let stop = offset + word_of_nat (length bytes) in
      case bt_get (inodes fs) i of
        None \<Rightarrow> Ret (Inl NotFound, fs)
      | Some node \<Rightarrow>
          if file_type node = Directory then Ret (Inl IsADirectory, fs)
          else
            let old_len = word_of_nat (length (data node)) in
            if stop > old_len \<and> total_used fs + (stop - old_len) > max_size fs then Ret (Inl NoSpace, fs)
            else
              rust_bind (if stop > old_len then vec_resize stop (data node) else Ret (data node)) (\<lambda>d.
                let used = (if stop > old_len then total_used fs + (stop - old_len) else total_used fs)
                in if offset > stop then Panic
                   else let d' = take (unat offset) d @ bytes @ drop (unat stop) d
                        in Ret (Inr (word_of_nat (length bytes)),
                             fs\<lparr>inodes := bt_insert i (node\<lparr>data := d', size := word_of_nat (length d')\<rparr>) (inodes fs),
                                total_used := used\<rparr>)))"

definition truncate_file :: "u64 \<Rightarrow> u64 \<Rightarrow> TmpfsFilesystem \<Rightarrow> unit fs_result rust" where
  "truncate_file i sz fs =
     (case bt_get (inodes fs) i of
        None \<Rightarrow> Ret (Inl NotFound, fs)
      | Some node \<Rightarrow>
          let old_size = word_of_nat (length (data node)) in
          if sz > old_size \<and> total_used fs + (sz - old_size) > max_size fs then Ret (Inl NoSpace, fs)
          else
            let used = (if sz > old_size then total_used fs + (sz - old_size)
                        else total_used fs - (old_size - sz))
            in rust_bind (vec_resize sz (data node)) (\<lambda>d.
                 Ret (Inr (), fs\<lparr>inodes := bt_insert i (node\<lparr>data := d, size := sz\<rparr>) (inodes fs),
                                 total_used := used\<rparr>)))"

definition unlink :: "u64 \<Rightarrow> string \<Rightarrow> TmpfsFilesystem \<Rightarrow> unit fs_result rust" where
  "unlink parent_ino name fs =
     (if is_dot name then Ret (Inl InvalidName, fs)
      else case bt_get (inodes fs) parent_ino of
          None \<Rightarrow> Ret (Inl NotFound, fs)
        | Some parent \<Rightarrow> (case bt_get (children parent) name of
            None \<Rightarrow> Ret (Inl NotFound, fs)
          | Some child_ino \<Rightarrow> (case bt_get (inodes fs) child_ino of
              None \<Rightarrow> Ret (Inl NotFound, fs)
            | Some child \<Rightarrow>
                if file_type child = Directory then Ret (Inl IsADirectory, fs)
                else
                  let n = saturating_sub (nlinks child) 1;
                      t1 = bt_insert child_ino (child\<lparr>nlinks := n\<rparr>) (inodes fs);
                      (t2, used) = (if n = 0 then (bt_remove child_ino t1, total_used fs - word_of_nat (length (data child)))
                                    else (t1, total_used fs))
                  in case bt_get t2 parent_ino of
                      None \<Rightarrow> Panic
                    | Some p \<Rightarrow> Ret (Inr (),
                        fs\<lparr>inodes := bt_insert parent_ino (p\<lparr>children := bt_remove name (children p)\<rparr>) t2,
                           total_used := used\<rparr>))))"

definition link :: "u64 \<Rightarrow> string \<Rightarrow> u64 \<Rightarrow> TmpfsFilesystem \<Rightarrow> unit fs_result" where
  "link parent_ino name target_ino fs =
     (if bad_name name then (Inl InvalidName, fs)
      else case bt_get (inodes fs) target_ino of
          None \<Rightarrow> (Inl NotFound, fs)
        | Some target \<Rightarrow>
            if file_type target = Directory then (Inl IsADirectory, fs)
            else case bt_get (inodes fs) parent_ino of
                None \<Rightarrow> (Inl NotFound, fs)
              | Some parent \<Rightarrow>
                  if file_type parent \<noteq> Directory then (Inl NotADirectory, fs)
                  else if bt_get (children parent) name \<noteq> None then (Inl AlreadyExists, fs)
                  else (Inr (), set_inodes
                    (bt_modify parent_ino (\<lambda>p. p\<lparr>children := bt_insert name target_ino (children p)\<rparr>)
                      (bt_modify target_ino (\<lambda>n. n\<lparr>nlinks := nlinks n + 1\<rparr>) (inodes fs))) fs))"

definition symlink ::
    "u64 \<Rightarrow> string \<Rightarrow> string \<Rightarrow> u32 \<Rightarrow> u32 \<Rightarrow> TmpfsFilesystem \<Rightarrow> u64 fs_result" where
  "symlink parent_ino name target u g fs =
     (case create parent_ino name Symlink 0x1FF u g fs of
        (Inl e, fs') \<Rightarrow> (Inl e, fs')
      | (Inr i, fs') \<Rightarrow> (Inr i, set_inodes
          (bt_modify i (\<lambda>n. n\<lparr>symlink_target := Some target, size := word_of_nat (length target)\<rparr>) (inodes fs')) fs'))"

definition readlink :: "u64 \<Rightarrow> TmpfsFilesystem \<Rightarrow> TmpfsError + string" where
  "readlink i fs =
     (case bt_get (inodes fs) i of
        None \<Rightarrow> Inl NotFound
      | Some node \<Rightarrow> if file_type node \<noteq> Symlink then Inl NotASymlink
          else (case symlink_target node of None \<Rightarrow> Inl NotFound | Some t \<Rightarrow> Inr t))"

section \<open>Directory operations\<close>

definition mkdir :: "u64 \<Rightarrow> string \<Rightarrow> u16 \<Rightarrow> u32 \<Rightarrow> u32 \<Rightarrow> TmpfsFilesystem \<Rightarrow> u64 fs_result" where
  "mkdir parent_ino name m u g fs = create parent_ino name Directory m u g fs"

definition real_children :: "TmpfsInodeData \<Rightarrow> string list" where
  "real_children node = filter (\<lambda>k. \<not> is_dot k) (bt_keys (children node))"

definition rmdir :: "u64 \<Rightarrow> string \<Rightarrow> TmpfsFilesystem \<Rightarrow> unit fs_result rust" where
  "rmdir parent_ino name fs =
     (if is_dot name then Ret (Inl InvalidName, fs)
      else case bt_get (inodes fs) parent_ino of
          None \<Rightarrow> Ret (Inl NotFound, fs)
        | Some parent \<Rightarrow> (case bt_get (children parent) name of
            None \<Rightarrow> Ret (Inl NotFound, fs)
          | Some child_ino \<Rightarrow> (case bt_get (inodes fs) child_ino of
              None \<Rightarrow> Ret (Inl NotFound, fs)
            | Some child \<Rightarrow>
                if file_type child \<noteq> Directory then Ret (Inl NotADirectory, fs)
                else if length (real_children child) > 0 then Ret (Inl NotEmpty, fs)
                else
                  let t1 = bt_remove child_ino (inodes fs)
                  in case bt_get t1 parent_ino of
                      None \<Rightarrow> Panic
                    | Some p \<Rightarrow> Ret (Inr (), set_inodes
                        (bt_insert parent_ino (p\<lparr>children := bt_remove name (children p),
                            nlinks := saturating_sub (nlinks p) 1\<rparr>) t1) fs))))"

record TmpfsDirEntry =
  de_ino :: u64
  de_name :: string
  de_file_type :: TmpfsFileType

definition readdir :: "u64 \<Rightarrow> TmpfsFilesystem \<Rightarrow> TmpfsError + TmpfsDirEntry list" where
  "readdir i fs =
     (case bt_get (inodes fs) i of
        None \<Rightarrow> Inl NotFound
      | Some node \<Rightarrow>
          if file_type node \<noteq> Directory then Inl NotADirectory
          else Inr (map (\<lambda>(name, child_ino). \<lparr>de_ino = child_ino, de_name = name,
                 de_file_type = (case bt_get (inodes fs) child_ino of None \<Rightarrow> Regular | Some c \<Rightarrow> file_type c)\<rparr>)
               (children node)))"

definition lookup :: "u64 \<Rightarrow> string \<Rightarrow> TmpfsFilesystem \<Rightarrow> TmpfsError + u64" where
  "lookup parent_ino name fs =
     (case bt_get (inodes fs) parent_ino of
        None \<Rightarrow> Inl NotFound
      | Some parent \<Rightarrow>
          if file_type parent \<noteq> Directory then Inl NotADirectory
          else (case bt_get (children parent) name of None \<Rightarrow> Inl NotFound | Some c \<Rightarrow> Inr c))"

section \<open>Metadata\<close>

record TmpfsStat =
  st_ino :: u64
  st_file_type :: TmpfsFileType
  st_mode :: u16
  st_nlinks :: u32
  st_uid :: u32
  st_gid :: u32
  st_size :: u64
  st_blocks :: u64
  st_blksize :: u64
  st_atime :: u64
  st_mtime :: u64
  st_ctime :: u64
  st_dev_major :: u32
  st_dev_minor :: u32

definition stat :: "u64 \<Rightarrow> TmpfsFilesystem \<Rightarrow> TmpfsError + TmpfsStat" where
  "stat i fs =
     (case bt_get (inodes fs) i of
        None \<Rightarrow> Inl NotFound
      | Some node \<Rightarrow> Inr \<lparr>st_ino = ino node, st_file_type = file_type node, st_mode = mode node,
          st_nlinks = nlinks node, st_uid = uid node, st_gid = gid node, st_size = size node,
          st_blocks = (size node + 511) div 512, st_blksize = PAGE_SIZE, st_atime = atime node,
          st_mtime = mtime node, st_ctime = ctime node, st_dev_major = dev_major node,
          st_dev_minor = dev_minor node\<rparr>)"

definition chmod :: "u64 \<Rightarrow> u16 \<Rightarrow> TmpfsFilesystem \<Rightarrow> unit fs_result" where
  "chmod i m fs =
     (case bt_get (inodes fs) i of
        None \<Rightarrow> (Inl NotFound, fs)
      | Some node \<Rightarrow> (Inr (), set_inodes (bt_insert i (node\<lparr>mode := m\<rparr>) (inodes fs)) fs))"

definition chown :: "u64 \<Rightarrow> u32 \<Rightarrow> u32 \<Rightarrow> TmpfsFilesystem \<Rightarrow> unit fs_result" where
  "chown i u g fs =
     (case bt_get (inodes fs) i of
        None \<Rightarrow> (Inl NotFound, fs)
      | Some node \<Rightarrow> (Inr (), set_inodes (bt_insert i (node\<lparr>uid := u, gid := g\<rparr>) (inodes fs)) fs))"

text \<open>
  \<open>rename_replace\<close> is the part that drops what the new name referred to; \<open>rename_move\<close> the
  part that moves the entry, with its two unwraps.
\<close>

definition rename_replace :: "u64 \<Rightarrow> string \<Rightarrow> TmpfsFilesystem \<Rightarrow> TmpfsError + (u64, TmpfsInodeData) btree" where
  "rename_replace new_parent new_name fs =
     (case Option.bind (bt_get (inodes fs) new_parent) (\<lambda>p. bt_get (children p) new_name) of
        None \<Rightarrow> Inr (inodes fs)
      | Some existing \<Rightarrow> (case bt_get (inodes fs) existing of
            None \<Rightarrow> Inl NotFound
          | Some node \<Rightarrow>
              if file_type node = Directory \<and> length (real_children node) > 0 then Inl NotEmpty
              else Inr (bt_remove existing (inodes fs))))"

definition rename_move ::
    "u64 \<Rightarrow> string \<Rightarrow> u64 \<Rightarrow> string \<Rightarrow> u64 \<Rightarrow> (u64, TmpfsInodeData) btree \<Rightarrow> (u64, TmpfsInodeData) btree rust" where
  "rename_move old_parent old_name new_parent new_name child_ino t1 =
     (case bt_get t1 old_parent of
        None \<Rightarrow> Panic
      | Some op \<Rightarrow>
          let t2 = bt_insert old_parent (op\<lparr>children := bt_remove old_name (children op)\<rparr>) t1
          in case bt_get t2 new_parent of
              None \<Rightarrow> Panic
            | Some np \<Rightarrow>
                let t3 = bt_insert new_parent (np\<lparr>children := bt_insert new_name child_ino (children np)\<rparr>) t2
                in Ret (if map_option file_type (bt_get t3 child_ino) = Some Directory
                        then bt_modify child_ino (\<lambda>n. n\<lparr>children := bt_insert ''..'' new_parent (children n)\<rparr>) t3
                        else t3))"

definition rename :: "u64 \<Rightarrow> string \<Rightarrow> u64 \<Rightarrow> string \<Rightarrow> TmpfsFilesystem \<Rightarrow> unit fs_result rust" where
  "rename old_parent old_name new_parent new_name fs =
     (if is_dot old_name \<or> is_dot new_name then Ret (Inl InvalidName, fs)
      else case bt_get (inodes fs) old_parent of
          None \<Rightarrow> Ret (Inl NotFound, fs)
        | Some parent \<Rightarrow> (case bt_get (children parent) old_name of
            None \<Rightarrow> Ret (Inl NotFound, fs)
          | Some child_ino \<Rightarrow> (case rename_replace new_parent new_name fs of
              Inl e \<Rightarrow> Ret (Inl e, fs)
            | Inr t1 \<Rightarrow> rust_bind (rename_move old_parent old_name new_parent new_name child_ino t1)
                (\<lambda>t. Ret (Inr (), set_inodes t fs)))))"

section \<open>Information and path resolution\<close>

definition inode_count :: "TmpfsFilesystem \<Rightarrow> nat" where
  "inode_count fs = length (inodes fs)"

record TmpfsStatFs =
  fs_type :: u64
  block_size :: u64
  total_blocks :: u64
  free_blocks :: u64
  available_blocks :: u64
  total_inodes :: u64
  free_inodes :: u64
  name_max :: u64

definition statfs :: "TmpfsFilesystem \<Rightarrow> TmpfsStatFs" where
  "statfs fs =
     (let total = max_size fs div PAGE_SIZE; used = total_used fs div PAGE_SIZE
      in \<lparr>fs_type = 0x01021994, block_size = PAGE_SIZE, total_blocks = total,
          free_blocks = saturating_sub total used, available_blocks = saturating_sub total used,
          total_inodes = - 1, free_inodes = - 1 - next_ino fs, name_max = 255\<rparr>)"

fun split_path :: "string \<Rightarrow> string \<Rightarrow> string list" where
  "split_path cur [] = [cur]"
| "split_path cur (c # cs) = (if c = CHR ''/'' then cur # split_path [] cs else split_path (cur @ [c]) cs)"

definition components :: "string \<Rightarrow> string list" where
  "components path = filter (\<lambda>s. s \<noteq> []) (split_path [] path)"

fun resolve_from :: "TmpfsFilesystem \<Rightarrow> u64 \<Rightarrow> string list \<Rightarrow> TmpfsError + u64" where
  "resolve_from fs current [] = Inr current"
| "resolve_from fs current (c # cs) =
     (case lookup current c fs of
        Inl e \<Rightarrow> Inl e
      | Inr i \<Rightarrow> (case bt_get (inodes fs) i of
            None \<Rightarrow> Inl NotFound
          | Some node \<Rightarrow>
              if file_type node = Symlink \<and> (case symlink_target node of
                   Some t \<Rightarrow> t \<noteq> [] \<and> hd t = CHR ''/'' | None \<Rightarrow> False)
              then Inl SymlinkLoop
              else resolve_from fs i cs))"

definition resolve_path :: "string \<Rightarrow> TmpfsFilesystem \<Rightarrow> TmpfsError + u64" where
  "resolve_path path fs = resolve_from fs 1 (components path)"

section \<open>Mounted instances\<close>

type_synonym Instances = "(string, TmpfsFilesystem) btree"

definition mount_tmpfs :: "string \<Rightarrow> string \<Rightarrow> u64 \<Rightarrow> Instances \<Rightarrow> Instances" where
  "mount_tmpfs name mp limit g = bt_insert name (with_mount_point mp (tmpfs_new name limit)) g"

definition unmount_tmpfs :: "string \<Rightarrow> Instances \<Rightarrow> Instances" where
  "unmount_tmpfs name g = bt_remove name g"

definition tmpfs_init :: "Instances \<Rightarrow> Instances" where
  "tmpfs_init g = mount_tmpfs ''dev_shm'' ''/dev/shm'' DEFAULT_MAX_SIZE
     (mount_tmpfs ''tmp'' ''/tmp'' DEFAULT_MAX_SIZE g)"

text \<open>An operation on the named instance: \<^verbatim>\<open>guard.get_mut(fs_name).ok_or(NotFound)?\<close>.\<close>

definition on_instance ::
    "string \<Rightarrow> (TmpfsFilesystem \<Rightarrow> 'a fs_result rust) \<Rightarrow> Instances \<Rightarrow> ((TmpfsError + 'a) \<times> Instances) rust" where
  "on_instance name f g =
     (case bt_get g name of
        None \<Rightarrow> Ret (Inl NotFound, g)
      | Some fs \<Rightarrow> rust_bind (f fs) (\<lambda>(r, fs'). Ret (r, bt_insert name fs' g)))"

definition tmpfs_create where
  "tmpfs_create name parent nm ft m = on_instance name (\<lambda>fs. Ret (create parent nm ft m 0 0 fs))"

definition tmpfs_write where
  "tmpfs_write name i offset bytes = on_instance name (write_file i offset bytes)"

definition tmpfs_unlink where
  "tmpfs_unlink name parent nm = on_instance name (unlink parent nm)"

definition tmpfs_mkdir where
  "tmpfs_mkdir name parent nm m = on_instance name (\<lambda>fs. Ret (mkdir parent nm m 0 0 fs))"

definition tmpfs_rmdir where
  "tmpfs_rmdir name parent nm = on_instance name (rmdir parent nm)"

definition with_instance :: "string \<Rightarrow> (TmpfsFilesystem \<Rightarrow> TmpfsError + 'a) \<Rightarrow> Instances \<Rightarrow> TmpfsError + 'a" where
  "with_instance name f g = (case bt_get g name of None \<Rightarrow> Inl NotFound | Some fs \<Rightarrow> f fs)"

definition tmpfs_read where
  "tmpfs_read name i offset n = with_instance name (read_file i offset n)"

definition tmpfs_stat where
  "tmpfs_stat name i = with_instance name (stat i)"

definition tmpfs_readdir where
  "tmpfs_readdir name i = with_instance name (readdir i)"

text \<open>The adapter to the file descriptor layer: errors become a count of 0.\<close>

record TmpfsVfsInode =
  vfs_fs_name :: string
  vfs_ino :: u64

definition vfs_read_at :: "TmpfsVfsInode \<Rightarrow> usize \<Rightarrow> nat \<Rightarrow> Instances \<Rightarrow> u8 list" where
  "vfs_read_at v offset n g =
     (case bt_get g (vfs_fs_name v) of
        None \<Rightarrow> []
      | Some fs \<Rightarrow> (case read_file (vfs_ino v) offset n fs of Inl _ \<Rightarrow> [] | Inr bs \<Rightarrow> bs))"

definition vfs_write_at :: "TmpfsVfsInode \<Rightarrow> usize \<Rightarrow> u8 list \<Rightarrow> Instances \<Rightarrow> (usize \<times> Instances) rust" where
  "vfs_write_at v offset bytes g =
     (case bt_get g (vfs_fs_name v) of
        None \<Rightarrow> Ret (0, g)
      | Some fs \<Rightarrow> rust_bind (write_file (vfs_ino v) offset bytes fs) (\<lambda>(r, fs').
          Ret ((case r of Inl _ \<Rightarrow> 0 | Inr n \<Rightarrow> n), bt_insert (vfs_fs_name v) fs' g)))"

definition vfs_size :: "TmpfsVfsInode \<Rightarrow> Instances \<Rightarrow> usize" where
  "vfs_size v g =
     (case bt_get g (vfs_fs_name v) of
        None \<Rightarrow> 0
      | Some fs \<Rightarrow> (case stat (vfs_ino v) fs of Inl _ \<Rightarrow> 0 | Inr s \<Rightarrow> st_size s))"

definition strip_prefix :: "string \<Rightarrow> string \<Rightarrow> string option" where
  "strip_prefix p s = (if take (length p) s = p then Some (drop (length p) s) else None)"

definition mount_of_path :: "string \<Rightarrow> (string \<times> string) option" where
  "mount_of_path path =
     (case strip_prefix ''/tmp/'' path of
        Some r \<Rightarrow> Some (''tmp'', r)
      | None \<Rightarrow> (case strip_prefix ''/dev/shm/'' path of
          Some r \<Rightarrow> Some (''dev_shm'', r)
        | None \<Rightarrow> (case strip_prefix ''/mnt/win_'' path of
            Some r \<Rightarrow> Some (''tmp'', ''win_'' @ map (\<lambda>c. if c = CHR ''/'' then CHR ''_'' else c) r)
          | None \<Rightarrow> None)))"

definition open_or_create :: "string \<Rightarrow> bool \<Rightarrow> Instances \<Rightarrow> (string \<times> u64) option \<times> Instances" where
  "open_or_create path create_it g =
     (case mount_of_path path of
        None \<Rightarrow> (None, g)
      | Some (name, rel) \<Rightarrow>
          if rel = [] \<or> CHR ''/'' \<in> set rel then (None, g)
          else case bt_get g name of
              None \<Rightarrow> (None, g)
            | Some fs \<Rightarrow> (case lookup 1 rel fs of
                Inr i \<Rightarrow> (Some (name, i), g)
              | Inl _ \<Rightarrow>
                  if create_it then (case create 1 rel Regular 0x1A4 0 0 fs of
                      (Inr i, fs') \<Rightarrow> (Some (name, i), bt_insert name fs' g)
                    | (Inl _, fs') \<Rightarrow> (None, bt_insert name fs' g))
                  else (None, g)))"

end
