(* ===== verification/Tmpfs_Tree.thy ===== *)
theory Tmpfs_Tree
  imports Tmpfs
begin

text \<open>
  The structure of the file system: which entries refer to an inode, the invariant that ties
  link counts, directory entries and the inode table together, and that every operation
  keeps it. Link counts are compared with the number of named entries (those other than
  \<^verbatim>\<open>.\<close> and \<^verbatim>\<open>..\<close>).
\<close>

section \<open>Counting references\<close>

definition crefs :: "u64 \<Rightarrow> (string, u64) btree \<Rightarrow> nat" where
  "crefs i ch = bt_sum (\<lambda>nm j. if \<not> is_dot nm \<and> j = i then 1 else 0) ch"

definition refs :: "(u64, TmpfsInodeData) btree \<Rightarrow> u64 \<Rightarrow> nat" where
  "refs t i = bt_sum (\<lambda>_ n. crefs i (children n)) t"

lemma crefs_Nil [simp]: "crefs i [] = 0" "crefs i bt_empty = 0"
  by (simp_all add: crefs_def bt_sum_def bt_empty_def)

lemma crefs_insert:
  "bt_get ch nm = None \<Longrightarrow> crefs i (bt_insert nm j ch) = (if \<not> is_dot nm \<and> j = i then 1 else 0) + crefs i ch"
  by (simp add: crefs_def bt_sum_insert_new)

lemma crefs_insert_dot:
  assumes "bt_ok ch" and "is_dot nm"
  shows "crefs i (bt_insert nm j ch) = crefs i ch"
proof (cases "bt_get ch nm")
  case None
  then show ?thesis using assms by (simp add: crefs_insert)
next
  case (Some k)
  from bt_sum_insert_old [OF assms(1) this, of "\<lambda>nm j. if \<not> is_dot nm \<and> j = i then 1 else 0" j] assms(2)
  show ?thesis by (simp add: crefs_def)
qed

lemma crefs_remove:
  "bt_ok ch \<Longrightarrow> bt_get ch nm = Some j \<Longrightarrow>
     crefs i (bt_remove nm ch) + (if \<not> is_dot nm \<and> j = i then 1 else 0) = crefs i ch"
  using bt_sum_remove [of ch nm j "\<lambda>nm j. if \<not> is_dot nm \<and> j = i then 1 else 0"]
  by (simp add: crefs_def)

lemma refs_insert_new:
  "bt_get t p = None \<Longrightarrow> refs (bt_insert p n t) i = crefs i (children n) + refs t i"
  by (simp add: refs_def bt_sum_insert_new)

lemma refs_insert_old:
  "bt_ok t \<Longrightarrow> bt_get t p = Some n0 \<Longrightarrow>
     refs (bt_insert p n t) i + crefs i (children n0) = refs t i + crefs i (children n)"
  unfolding refs_def by (rule bt_sum_insert_old)

lemma refs_insert_same:
  "bt_ok t \<Longrightarrow> bt_get t p = Some n0 \<Longrightarrow> children n = children n0 \<Longrightarrow> refs (bt_insert p n t) = refs t"
  using refs_insert_old by (metis add_right_cancel ext)

lemma refs_remove:
  "bt_ok t \<Longrightarrow> bt_get t p = Some n0 \<Longrightarrow> refs (bt_remove p t) i + crefs i (children n0) = refs t i"
  unfolding refs_def by (rule bt_sum_remove)

lemma crefs_pos: "bt_get ch nm = Some i \<Longrightarrow> \<not> is_dot nm \<Longrightarrow> 0 < crefs i ch"
  by (auto simp: crefs_def bt_sum_def sum_list_map_remove1 dest!: bt_get_mem split: if_splits)

lemma crefs_le_refs: "bt_ok t \<Longrightarrow> bt_get t p = Some n \<Longrightarrow> crefs i (children n) \<le> refs t i"
  using refs_remove by (metis le_add2)

lemma refs_pos:
  "bt_ok t \<Longrightarrow> bt_get t p = Some n \<Longrightarrow> bt_get (children n) nm = Some i \<Longrightarrow> \<not> is_dot nm \<Longrightarrow> 0 < refs t i"
  using crefs_le_refs crefs_pos by (metis le_less_trans not_gr_zero zero_le less_le_trans)

lemma bt_sum_pos_ex: "0 < bt_sum g m \<Longrightarrow> \<exists>e \<in> set m. 0 < g (fst e) (snd e)"
  by (induction m) (auto simp: bt_sum_def)

lemma crefs_pos_ex:
  "bt_ok ch \<Longrightarrow> 0 < crefs i ch \<Longrightarrow> \<exists>nm. \<not> is_dot nm \<and> bt_get ch nm = Some i"
  unfolding crefs_def by (drule bt_sum_pos_ex) (auto simp: bt_get_set split: if_splits)

lemma refs_pos_ex:
  assumes "bt_ok t" and "\<And>p n. bt_get t p = Some n \<Longrightarrow> bt_ok (children n)" and "0 < refs t i"
  shows "\<exists>p n nm. bt_get t p = Some n \<and> \<not> is_dot nm \<and> bt_get (children n) nm = Some i"
proof -
  from assms(3) obtain e where e: "e \<in> set t" "0 < crefs i (children (snd e))"
    unfolding refs_def by (auto dest: bt_sum_pos_ex)
  then have "bt_get t (fst e) = Some (snd e)" by (simp add: bt_get_set [OF assms(1)])
  with crefs_pos_ex [OF assms(2) e(2)] show ?thesis by blast
qed

lemma is_dot_simps [simp]: "is_dot ''.''" "is_dot ''..''"
  by (simp_all add: is_dot_def)

lemma not_dotD: "\<not> is_dot nm \<Longrightarrow> ''.'' \<noteq> nm \<and> ''..'' \<noteq> nm"
  by (auto simp: is_dot_def)

section \<open>The invariant\<close>

text \<open>
  \<open>dir_ok t i n\<close>: the directory \<open>n\<close> with number \<open>i\<close> has \<^verbatim>\<open>.\<close> pointing to itself, \<^verbatim>\<open>..\<close> to a
  directory that has a named entry for it, and no other named entry refers to it; the root
  is its own parent.
\<close>

definition named_in :: "TmpfsInodeData \<Rightarrow> u64 \<Rightarrow> bool" where
  "named_in m i \<longleftrightarrow> (\<exists>nm. \<not> is_dot nm \<and> bt_get (children m) nm = Some i)"

definition dir_ok :: "(u64, TmpfsInodeData) btree \<Rightarrow> u64 \<Rightarrow> TmpfsInodeData \<Rightarrow> bool" where
  "dir_ok t i n \<longleftrightarrow> refs t i = (if i = 1 then 0 else 1) \<and> bt_get (children n) ''.'' = Some i
     \<and> (\<exists>q m. bt_get (children n) ''..'' = Some q \<and> bt_get t q = Some m \<and> file_type m = Directory
          \<and> (if i = 1 then q = 1 else named_in m i))"

definition file_ok :: "(u64, TmpfsInodeData) btree \<Rightarrow> u64 \<Rightarrow> TmpfsInodeData \<Rightarrow> bool" where
  "file_ok t i n \<longleftrightarrow> unat (nlinks n) = refs t i \<and> children n = []"

definition no_dangling :: "(u64, TmpfsInodeData) btree \<Rightarrow> bool" where
  "no_dangling t \<longleftrightarrow> (\<forall>p n nm i. bt_get t p = Some n \<longrightarrow> bt_get (children n) nm = Some i \<longrightarrow> bt_get t i \<noteq> None)"

definition tree_ok :: "(u64, TmpfsInodeData) btree \<Rightarrow> bool" where
  "tree_ok t \<longleftrightarrow> bt_ok t \<and> no_dangling t
     \<and> (\<forall>i n. bt_get t i = Some n \<longrightarrow> bt_ok (children n)
          \<and> (if file_type n = Directory then dir_ok t i n else file_ok t i n))
     \<and> (\<exists>n. bt_get t 1 = Some n \<and> file_type n = Directory)"

lemma tree_okD:
  assumes "tree_ok t"
  shows "bt_ok t" and "no_dangling t"
    and "bt_get t i = Some n \<Longrightarrow> bt_ok (children n)"
    and "bt_get t i = Some n \<Longrightarrow> file_type n = Directory \<Longrightarrow> dir_ok t i n"
    and "bt_get t i = Some n \<Longrightarrow> file_type n \<noteq> Directory \<Longrightarrow> file_ok t i n"
    and "\<exists>n. bt_get t 1 = Some n \<and> file_type n = Directory"
  using assms by (auto simp: tree_ok_def)

lemma tree_okI:
  assumes "bt_ok t" and "no_dangling t"
    and "\<And>i n. bt_get t i = Some n \<Longrightarrow> bt_ok (children n)"
    and "\<And>i n. bt_get t i = Some n \<Longrightarrow> file_type n = Directory \<Longrightarrow> dir_ok t i n"
    and "\<And>i n. bt_get t i = Some n \<Longrightarrow> file_type n \<noteq> Directory \<Longrightarrow> file_ok t i n"
    and "bt_get t 1 = Some r" and "file_type r = Directory"
  shows "tree_ok t"
  using assms by (simp add: tree_ok_def)

lemma dir_okE:
  assumes "dir_ok t i n"
  obtains q m where "refs t i = (if i = 1 then 0 else 1)" and "bt_get (children n) ''.'' = Some i"
    and "bt_get (children n) ''..'' = Some q" and "bt_get t q = Some m" and "file_type m = Directory"
    and "if i = 1 then q = 1 else named_in m i"
  using assms by (auto simp: dir_ok_def)

lemma dir_okI:
  assumes "refs t i = (if i = 1 then 0 else 1)" and "bt_get (children n) ''.'' = Some i"
    and "bt_get (children n) ''..'' = Some q" and "bt_get t q = Some m" and "file_type m = Directory"
    and "if i = 1 then q = 1 else named_in m i"
  shows "dir_ok t i n"
  using assms by (auto simp: dir_ok_def)

lemma no_danglingD:
  "no_dangling t \<Longrightarrow> bt_get t p = Some n \<Longrightarrow> bt_get (children n) nm = Some i \<Longrightarrow> \<exists>m. bt_get t i = Some m"
  by (fastforce simp: no_dangling_def)

lemma has_entry_dir:
  assumes "tree_ok t" and "bt_get t p = Some n" and "bt_get (children n) nm = Some i"
  shows "file_type n = Directory"
proof (rule ccontr)
  assume "file_type n \<noteq> Directory"
  from tree_okD(5) [OF assms(1,2) this] assms(3) show False by (simp add: file_ok_def)
qed

text \<open>An entry that refers to something that is no directory is a named one.\<close>

lemma entry_to_file_named:
  assumes ok: "tree_ok t" and p: "bt_get t p = Some n" and e: "bt_get (children n) nm = Some i"
    and c: "bt_get t i = Some c" "file_type c \<noteq> Directory"
  shows "\<not> is_dot nm"
proof
  assume "is_dot nm"
  moreover have "dir_ok t p n" using tree_okD(4) [OF ok p] has_entry_dir [OF ok p e] by blast
  ultimately show False using e c p has_entry_dir [OF ok p e] by (auto simp: is_dot_def dir_ok_def)
qed

text \<open>An entry that refers to a directory without named entries is its own \<^verbatim>\<open>.\<close> or its one name.\<close>

lemma entry_to_empty_dir:
  assumes ok: "tree_ok t" and p: "bt_get t p = Some n" and e: "bt_get (children n) nm = Some i"
    and c: "bt_get t i = Some c" "file_type c = Directory" and i: "i \<noteq> 1"
    and empty: "\<And>nm j. bt_get (children c) nm = Some j \<Longrightarrow> is_dot nm"
  shows "p = i \<or> \<not> is_dot nm"
proof (rule ccontr)
  assume "\<not> (p = i \<or> \<not> is_dot nm)"
  then have pi: "p \<noteq> i" and dot: "is_dot nm" by auto
  have d: "dir_ok t p n" using tree_okD(4) [OF ok p] has_entry_dir [OF ok p e] by blast
  have "nm = ''..''" using dot e d pi by (auto simp: is_dot_def dir_ok_def)
  with e d c i have "named_in c p" by (auto simp: dir_ok_def split: if_splits)
  with empty show False by (auto simp: named_in_def)
qed

section \<open>Changes that keep the structure\<close>

lemma named_in_cong: "children m' = children m \<Longrightarrow> named_in m' i = named_in m i"
  by (simp add: named_in_def)

text \<open>Replacing an inode by one with the same type, link count and entries.\<close>

lemma tree_ok_update:
  assumes ok: "tree_ok t" and i: "bt_get t i = Some n"
    and same: "children n' = children n" "file_type n' = file_type n" "nlinks n' = nlinks n"
  shows "tree_ok (bt_insert i n' t)"
proof -
  let ?t = "bt_insert i n' t"
  have bt: "bt_ok t" using tree_okD(1) [OF ok] .
  have refs: "refs ?t = refs t" using refs_insert_same [OF bt i same(1)] .
  have get: "bt_get ?t j = Some m' \<Longrightarrow> \<exists>m. bt_get t j = Some m \<and> children m' = children m
      \<and> file_type m' = file_type m \<and> nlinks m' = nlinks m" for j m'
    using i same by (auto split: if_splits)
  have up: "bt_get t j = Some m \<Longrightarrow> \<exists>m'. bt_get ?t j = Some m' \<and> children m' = children m
      \<and> file_type m' = file_type m" for j m
    using i same by auto
  from tree_okD(6) [OF ok] obtain r where r: "bt_get t 1 = Some r" "file_type r = Directory" by blast
  show ?thesis
  proof (rule tree_okI)
    show "bt_ok ?t" using bt by simp
    show "no_dangling ?t"
      unfolding no_dangling_def using get no_danglingD [OF tree_okD(2) [OF ok]] up by (metis option.distinct(1))
    fix j m' assume m': "bt_get ?t j = Some m'"
    from get [OF m'] obtain m where m: "bt_get t j = Some m" "children m' = children m"
      "file_type m' = file_type m" "nlinks m' = nlinks m" by blast
    show "bt_ok (children m')" using tree_okD(3) [OF ok m(1)] m(2) by simp
    show "dir_ok ?t j m'" if "file_type m' = Directory"
    proof -
      have "dir_ok t j m" using tree_okD(4) [OF ok m(1)] that m(3) by simp
      then show ?thesis
      proof (rule dir_okE)
        fix q p assume d: "refs t j = (if j = 1 then 0 else 1)" "bt_get (children m) ''.'' = Some j"
          "bt_get (children m) ''..'' = Some q" "bt_get t q = Some p" "file_type p = Directory"
          "if j = 1 then q = 1 else named_in p j"
        from up [OF d(4)] obtain p' where p': "bt_get ?t q = Some p'" "children p' = children p"
          "file_type p' = file_type p" by blast
        show ?thesis
          by (rule dir_okI [OF _ _ _ p'(1)]) (use d p' m(2) named_in_cong [OF p'(2)] refs in simp_all)
      qed
    qed
    show "file_ok ?t j m'" if "file_type m' \<noteq> Directory"
      using tree_okD(5) [OF ok m(1)] that m by (simp add: file_ok_def refs)
  next
    from r show "bt_get ?t 1 = Some (if i = 1 then n' else r)"
      "file_type (if i = 1 then n' else r) = Directory" using i same by auto
  qed
qed

lemma tree_refs_ex:
  assumes "tree_ok t" and "refs t i \<noteq> 0"
  obtains p n nm where "bt_get t p = Some n" and "\<not> is_dot nm" and "bt_get (children n) nm = Some i"
proof -
  have "\<exists>p n nm. bt_get t p = Some n \<and> \<not> is_dot nm \<and> bt_get (children n) nm = Some i"
    using assms(2) by (intro refs_pos_ex) (auto simp: tree_okD [OF assms(1)] intro: tree_okD(3) [OF assms(1)])
  then show ?thesis using that by blast
qed

lemma refs_fresh:
  assumes "tree_ok t" and "bt_get t i = None"
  shows "refs t i = 0"
proof (rule ccontr)
  assume "refs t i \<noteq> 0"
  then obtain p n nm where "bt_get t p = Some n" "bt_get (children n) nm = Some i"
    by (rule tree_refs_ex [OF assms(1)])
  with no_danglingD [OF tree_okD(2) [OF assms(1)]] assms(2) show False by fastforce
qed

text \<open>
  Directories that an operation does not touch: their own entries and reference count are
  unchanged, and so is the directory their \<^verbatim>\<open>..\<close> names, or at least its entry for them.
\<close>

lemma dir_ok_transfer:
  assumes "dir_ok t i n" and "refs t' i = refs t i"
    and "bt_get (children n') ''.'' = bt_get (children n) ''.''"
    and "bt_get (children n') ''..'' = bt_get (children n) ''..''"
    and "\<And>q m. bt_get (children n) ''..'' = Some q \<Longrightarrow> bt_get t q = Some m \<Longrightarrow> file_type m = Directory \<Longrightarrow>
      (if i = 1 then q = 1 else named_in m i) \<Longrightarrow>
      \<exists>m'. bt_get t' q = Some m' \<and> file_type m' = Directory \<and> (i \<noteq> 1 \<longrightarrow> named_in m' i)"
  shows "dir_ok t' i n'"
  using assms(1)
proof (rule dir_okE)
  fix q m
  assume d: "refs t i = (if i = 1 then 0 else 1)" "bt_get (children n) ''.'' = Some i"
    "bt_get (children n) ''..'' = Some q" "bt_get t q = Some m" "file_type m = Directory"
    "if i = 1 then q = 1 else named_in m i"
  from assms(5) [OF d(3-6)] obtain m' where m': "bt_get t' q = Some m'" "file_type m' = Directory"
    "i \<noteq> 1 \<longrightarrow> named_in m' i" by blast
  have r: "refs t' i = (if i = 1 then 0 else 1)" using assms(2) d(1) by (rule trans)
  have s: "bt_get (children n') ''.'' = Some i" using assms(3) d(2) by (rule trans)
  have u: "bt_get (children n') ''..'' = Some q" using assms(4) d(3) by (rule trans)
  have "if i = 1 then q = 1 else named_in m' i" using d(6) m'(3) by simp
  then show ?thesis by (rule dir_okI [OF r s u m'(1,2)])
qed

lemma named_in_insert:
  assumes "children m' = bt_insert nm i (children m)" and "bt_get (children m) nm = None" and "named_in m j"
  shows "named_in m' j"
proof -
  from assms(3) obtain nm' where nm': "\<not> is_dot nm'" "bt_get (children m) nm' = Some j"
    by (auto simp: named_in_def)
  with assms(2) have "nm' \<noteq> nm" by auto
  with nm' assms(1) show ?thesis by (auto simp: named_in_def intro!: exI [of _ nm'])
qed

section \<open>Creating\<close>

definition new_node :: "u64 \<Rightarrow> u64 \<Rightarrow> TmpfsInodeData \<Rightarrow> bool" where
  "new_node parent i n \<longleftrightarrow> bt_ok (children n)
     \<and> (if file_type n = Directory
        then children n = bt_insert ''..'' parent (bt_insert ''.'' i bt_empty)
        else nlinks n = 1 \<and> children n = [])"

lemma new_node_entry:
  assumes "new_node parent i n" and "bt_get (children n) nm = Some j"
  shows "file_type n = Directory \<and> (nm = ''.'' \<and> j = i \<or> nm = ''..'' \<and> j = parent)"
  using assms by (auto simp: new_node_def split: if_splits)

lemma new_node_crefs: "new_node parent i n \<Longrightarrow> crefs j (children n) = 0"
  by (auto simp: new_node_def crefs_def bt_sum_def bt_empty_def split: if_splits)

lemma tree_ok_create:
  fixes k :: u32
  assumes ok: "tree_ok t" and p: "bt_get t p = Some par" "file_type par = Directory"
    and fresh: "bt_get t i = None" and node: "new_node p i node"
    and name: "\<not> is_dot name" "bt_get (children par) name = None"
  defines "par' \<equiv> par\<lparr>children := bt_insert name i (children par), nlinks := k\<rparr>"
  shows "tree_ok (bt_insert p par' (bt_insert i node t))"
proof -
  have par': "children par' = bt_insert name i (children par)" "file_type par' = file_type par"
    by (simp_all add: par'_def)
  let ?t1 = "bt_insert i node t"
  let ?t = "bt_insert p par' ?t1"
  have bt: "bt_ok t" and pi: "p \<noteq> i" using tree_okD(1) [OF ok] p fresh by auto
  have get: "bt_get ?t j = (if j = p then Some par' else if j = i then Some node else bt_get t j)" for j
    by simp
  have refs: "refs ?t j = refs t j + (if j = i then 1 else 0)" for j
  proof -
    have "refs ?t j + crefs j (children par) = refs ?t1 j + crefs j (children par')"
      using bt p pi by (intro refs_insert_old) simp_all
    moreover have "crefs j (children par') = (if j = i then 1 else 0) + crefs j (children par)"
      using name by (simp add: par' crefs_insert)
    moreover have "refs ?t1 j = refs t j"
      using fresh by (simp add: refs_insert_new new_node_crefs [OF node])
    ultimately show ?thesis by simp
  qed
  from tree_okD(6) [OF ok] obtain r where r: "bt_get t 1 = Some r" "file_type r = Directory" by blast
  with fresh have i1: "i \<noteq> 1" by auto
  have keep: "dir_ok ?t j n'" if d: "dir_ok t j n" and ji: "j \<noteq> i"
    and same: "bt_get (children n') ''.'' = bt_get (children n) ''.''"
      "bt_get (children n') ''..'' = bt_get (children n) ''..''" for j n n'
  proof (rule dir_ok_transfer [OF d])
    fix q m assume q: "bt_get t q = Some m" "file_type m = Directory" "if j = 1 then q = 1 else named_in m j"
    then show "\<exists>m'. bt_get ?t q = Some m' \<and> file_type m' = Directory \<and> (j \<noteq> 1 \<longrightarrow> named_in m' j)"
      using p name fresh named_in_insert [OF par'(1) name(2)] using par' by (auto simp: get)
  qed (use refs ji same in simp_all)
  show ?thesis
  proof (rule tree_okI)
    show "bt_ok ?t" using bt by simp
    show "no_dangling ?t"
      unfolding no_dangling_def get
      using no_danglingD [OF tree_okD(2) [OF ok]] p
      using par' by (auto dest!: new_node_entry [OF node] split: if_splits)
    fix j n assume n: "bt_get ?t j = Some n"
    show "bt_ok (children n)"
      using n tree_okD(3) [OF ok] p node using par' by (auto simp: get new_node_def split: if_splits)
    show "dir_ok ?t j n" if dir: "file_type n = Directory"
    proof (cases "j = i")
      case True
      then have nn: "n = node" using n pi by (simp add: get split: if_splits)
      have "named_in par' i" using name using par' by (auto simp: named_in_def)
      moreover have "refs ?t i = 1" using refs_fresh [OF ok fresh] refs by simp
      ultimately show ?thesis
        using node dir i1 p True nn
        by (intro dir_okI [where q = p and m = par']) (simp_all add: new_node_def, simp add: par')
    next
      case False
      show ?thesis
      proof (cases "j = p")
        case True
        then have "n = par'" using n by (simp add: get)
        then show ?thesis
          using keep [OF tree_okD(4) [OF ok p], of n] not_dotD [OF name(1)] pi True by (simp add: par')
      next
        case jp: False
        then have "bt_get t j = Some n" using n False by (simp add: get)
        then show ?thesis using keep [OF tree_okD(4) [OF ok _ dir] False] by blast
      qed
    qed
    show "file_ok ?t j n" if "file_type n \<noteq> Directory"
      using n that tree_okD(5) [OF ok] p node refs_fresh [OF ok fresh]
      using par' by (auto simp: get refs file_ok_def new_node_def split: if_splits)
  next
    from r show "bt_get ?t 1 = Some (if p = 1 then par' else r)"
      "file_type (if p = 1 then par' else r) = Directory"
      using p i1 using par' by (auto simp: get)
  qed
qed

section \<open>Linking\<close>

lemma tree_ok_link:
  assumes ok: "tree_ok t" and p: "bt_get t p = Some par" "file_type par = Directory"
    and x: "bt_get t x = Some tg" "file_type tg \<noteq> Directory" "nlinks tg < - 1"
    and name: "\<not> is_dot name" "bt_get (children par) name = None"
  defines "par' \<equiv> par\<lparr>children := bt_insert name x (children par)\<rparr>"
    and "tg' \<equiv> tg\<lparr>nlinks := nlinks tg + 1\<rparr>"
  shows "tree_ok (bt_insert p par' (bt_insert x tg' t))"
proof -
  have par': "children par' = bt_insert name x (children par)" "file_type par' = file_type par"
    and tg': "children tg' = children tg" "file_type tg' = file_type tg" "nlinks tg' = nlinks tg + 1"
    by (simp_all add: par'_def tg'_def)
  let ?t1 = "bt_insert x tg' t"
  let ?t = "bt_insert p par' ?t1"
  have bt: "bt_ok t" and px: "p \<noteq> x" using tree_okD(1) [OF ok] p x by auto
  have get: "bt_get ?t j = (if j = p then Some par' else if j = x then Some tg' else bt_get t j)" for j
    by simp
  have refs: "refs ?t j = refs t j + (if j = x then 1 else 0)" for j
  proof -
    have "refs ?t j + crefs j (children par) = refs ?t1 j + crefs j (children par')"
      using bt p px by (intro refs_insert_old) simp_all
    moreover have "crefs j (children par') = (if j = x then 1 else 0) + crefs j (children par)"
      using name by (simp add: par' crefs_insert)
    moreover have "refs ?t1 j = refs t j" using refs_insert_same [OF bt x(1)] by (simp add: tg')
    ultimately show ?thesis by simp
  qed
  from tree_okD(6) [OF ok] obtain r where r: "bt_get t 1 = Some r" "file_type r = Directory" by blast
  have keep: "dir_ok ?t j n'" if d: "dir_ok t j n" and jx: "j \<noteq> x"
    and same: "bt_get (children n') ''.'' = bt_get (children n) ''.''"
      "bt_get (children n') ''..'' = bt_get (children n) ''..''" for j n n'
  proof (rule dir_ok_transfer [OF d])
    fix q m assume q: "bt_get t q = Some m" "file_type m = Directory" "if j = 1 then q = 1 else named_in m j"
    then show "\<exists>m'. bt_get ?t q = Some m' \<and> file_type m' = Directory \<and> (j \<noteq> 1 \<longrightarrow> named_in m' j)"
      using p name x named_in_insert [OF par'(1) name(2)] using par' by (auto simp: get)
  qed (use refs jx same in simp_all)
  show ?thesis
  proof (rule tree_okI)
    show "bt_ok ?t" using bt by simp
    show "no_dangling ?t"
      unfolding no_dangling_def get using no_danglingD [OF tree_okD(2) [OF ok]] p x
      using par' tg' by (auto split: if_splits)
    fix j n assume n: "bt_get ?t j = Some n"
    show "bt_ok (children n)"
      using n tree_okD(3) [OF ok] p x using par' tg' by (auto simp: get split: if_splits)
    show "dir_ok ?t j n" if dir: "file_type n = Directory"
    proof -
      have jx: "j \<noteq> x" using n dir x px using tg' by (auto simp: get split: if_splits)
      show ?thesis
      proof (cases "j = p")
        case True
        then have "n = par'" using n by (simp add: get)
        then show ?thesis
          using keep [OF tree_okD(4) [OF ok p], of n] not_dotD [OF name(1)] px True by (simp add: par')
      next
        case False
        then have "bt_get t j = Some n" using n jx by (simp add: get)
        then show ?thesis using keep [OF tree_okD(4) [OF ok _ dir] jx] by blast
      qed
    qed
    show "file_ok ?t j n" if "file_type n \<noteq> Directory"
      using n that tree_okD(5) [OF ok] p x less_max_word_suc [OF x(3)]
      using par' tg' by (auto simp: get refs file_ok_def split: if_splits)
  next
    from r show "bt_get ?t 1 = Some (if p = 1 then par' else r)"
      "file_type (if p = 1 then par' else r) = Directory"
      using p x using par' by (auto simp: get)
  qed
qed

section \<open>Removing an entry\<close>

lemma named_in_remove:
  assumes "children m' = bt_remove nm (children m)" and "bt_get (children m) nm = Some x"
    and "named_in m j" and "j \<noteq> x"
  shows "named_in m' j"
proof -
  from assms(3) obtain nm' where nm': "\<not> is_dot nm'" "bt_get (children m) nm' = Some j"
    by (auto simp: named_in_def)
  with assms(2,4) have "nm' \<noteq> nm" by auto
  with nm' assms(1) show ?thesis by (auto simp: named_in_def intro!: exI [of _ nm'])
qed

lemma real_children_iff:
  "length (real_children n) > 0 \<longleftrightarrow> (\<exists>nm j. \<not> is_dot nm \<and> bt_get (children n) nm = Some j)"
  using bt_get_keys [of "children n"] by (auto simp: real_children_def filter_empty_conv)

text \<open>
  The entry \<open>name\<close> of \<open>p\<close> for \<open>x\<close> goes away, and \<open>x\<close> with it when that was the last one and
  \<open>x\<close> is a file or an empty directory; otherwise its link count drops by one.
\<close>

lemma tree_ok_drop:
  fixes k :: u32
  assumes ok: "tree_ok t" and p: "bt_get t p = Some par"
    and e: "bt_get (children par) name = Some x" and name: "\<not> is_dot name"
    and x: "bt_get t x = Some c" and px: "p \<noteq> x"
  defines "par' \<equiv> par\<lparr>children := bt_remove name (children par), nlinks := k\<rparr>"
  assumes bt': "bt_ok t'"
    and get: "\<And>j. bt_get t' j = (if j = p then Some par' else if j = x then co else bt_get t j)"
    and refs: "\<And>j. refs t' j + (if j = x then 1 else 0) = refs t j"
    and co: "co = None \<and> refs t x = 1 \<and> (file_type c = Directory \<longrightarrow> real_children c = [])
      \<or> (\<exists>c'. co = Some c' \<and> file_type c \<noteq> Directory \<and> file_type c' = file_type c \<and> children c' = children c
           \<and> Suc (unat (nlinks c')) = unat (nlinks c))"
  shows "tree_ok t'"
proof -
  have par': "children par' = bt_remove name (children par)" "file_type par' = file_type par"
    by (simp_all add: par'_def)
  have bt: "bt_ok t" using tree_okD(1) [OF ok] .
  have pdir: "file_type par = Directory" using has_entry_dir [OF ok p e] .
  from tree_okD(6) [OF ok] obtain r where r: "bt_get t 1 = Some r" "file_type r = Directory" by blast
  have x1: "x \<noteq> 1"
  proof
    assume "x = 1"
    then have "dir_ok t 1 c" using tree_okD(4) [OF ok] x r by simp
    then have "refs t 1 = 0" by (simp add: dir_ok_def)
    with refs_pos [OF bt p e name] \<open>x = 1\<close> show False by simp
  qed
  have old: "\<exists>m0. bt_get t q = Some m0 \<and> bt_get (children m0) nm = Some i"
    if "bt_get t' q = Some m" "bt_get (children m) nm = Some i" for q m nm i
    using that p x co using par' by (auto simp: get split: if_splits)
  have gone: "bt_get (children m) nm \<noteq> Some x" if m: "bt_get t' q = Some m" and "co = None" for q m nm
  proof
    assume e': "bt_get (children m) nm = Some x"
    from old [OF m e'] obtain m0 where m0: "bt_get t q = Some m0" "bt_get (children m0) nm = Some x" by blast
    have qx: "q \<noteq> x" using m \<open>co = None\<close> px by (auto simp: get split: if_splits)
    have "\<not> is_dot nm"
    proof (cases "file_type c = Directory")
      case True
      with co \<open>co = None\<close> have "real_children c = []" by auto
      then have "is_dot nm'" if "bt_get (children c) nm' = Some j" for nm' j
        using that real_children_iff [of c] by auto
      with entry_to_empty_dir [OF ok m0 x True x1] qx show ?thesis by blast
    next
      case False
      with entry_to_file_named [OF ok m0 x] show ?thesis by blast
    qed
    with refs_pos [OF bt' m e'] have "0 < refs t' x" by blast
    with refs [of x] co \<open>co = None\<close> show False by auto
  qed
  have keep: "dir_ok t' j n'" if d: "dir_ok t j n" and jx: "j \<noteq> x"
    and same: "bt_get (children n') ''.'' = bt_get (children n) ''.''"
      "bt_get (children n') ''..'' = bt_get (children n) ''..''" for j n n'
  proof (rule dir_ok_transfer [OF d])
    fix q m assume q: "bt_get t q = Some m" "file_type m = Directory" "if j = 1 then q = 1 else named_in m j"
    have qx: "q \<noteq> x"
    proof
      assume "q = x"
      with q x have m: "m = c" "file_type c = Directory" by auto
      with co have "real_children c = []" by auto
      with real_children_iff [of c] have "\<not> named_in c j" by (auto simp: named_in_def)
      with q m x1 \<open>q = x\<close> show False by (auto split: if_splits)
    qed
    show "\<exists>m'. bt_get t' q = Some m' \<and> file_type m' = Directory \<and> (j \<noteq> 1 \<longrightarrow> named_in m' j)"
      using q qx p named_in_remove [OF par'(1) e _ jx] using par' by (auto simp: get split: if_splits)
  qed (use refs [of j] jx same in simp_all)
  show ?thesis
  proof (rule tree_okI)
    show "bt_ok t'" by (rule bt')
    show "no_dangling t'"
      unfolding no_dangling_def
    proof (intro allI impI)
      fix q m nm i assume m: "bt_get t' q = Some m" "bt_get (children m) nm = Some i"
      from old [OF m] obtain m0 where "bt_get t q = Some m0" "bt_get (children m0) nm = Some i" by blast
      from no_danglingD [OF tree_okD(2) [OF ok] this] obtain n where "bt_get t i = Some n" by blast
      moreover have "i = x \<Longrightarrow> co \<noteq> None" using gone [OF m(1)] m(2) by blast
      ultimately show "bt_get t' i \<noteq> None" by (auto simp: get)
    qed
    fix j n assume n: "bt_get t' j = Some n"
    show "bt_ok (children n)"
      using n tree_okD(3) [OF ok] p x co using par' by (auto simp: get split: if_splits)
    show "dir_ok t' j n" if dir: "file_type n = Directory"
    proof -
      have jx: "j \<noteq> x" using n dir x px co by (auto simp: get split: if_splits)
      show ?thesis
      proof (cases "j = p")
        case True
        then have "n = par'" using n by (simp add: get)
        then show ?thesis
          using keep [OF tree_okD(4) [OF ok p pdir], of n] not_dotD [OF name] px True by (simp add: par')
      next
        case False
        then have "bt_get t j = Some n" using n jx by (simp add: get)
        then show ?thesis using keep [OF tree_okD(4) [OF ok _ dir] jx] by blast
      qed
    qed
    show "file_ok t' j n" if fl: "file_type n \<noteq> Directory"
    proof -
      have jp: "j \<noteq> p" using n fl pdir using par' by (auto simp: get split: if_splits)
      show ?thesis
      proof (cases "j = x")
        case True
        with n jp co have c: "file_type c \<noteq> Directory" "children n = children c"
          "Suc (unat (nlinks n)) = unat (nlinks c)" by (auto simp: get split: if_splits)
        from tree_okD(5) [OF ok x c(1)] c refs [of x] True show ?thesis by (simp add: file_ok_def)
      next
        case False
        with n jp have "bt_get t j = Some n" by (simp add: get)
        from tree_okD(5) [OF ok this fl] refs [of j] False show ?thesis by (simp add: file_ok_def)
      qed
    qed
  next
    from r show "bt_get t' 1 = Some (if p = 1 then par' else r)"
      "file_type (if p = 1 then par' else r) = Directory"
      using p pdir x1 using par' by (auto simp: get)
  qed
qed

section \<open>Moving an entry\<close>

text \<open>
  The entry \<open>on\<close> of \<open>op\<close> for \<open>x\<close> becomes the entry \<open>nn\<close> of \<open>np\<close>; when \<open>x\<close> is a directory
  its \<^verbatim>\<open>..\<close> follows. The three inodes involved are given by their entries, so that the two
  cases of one and of two parents are treated alike.
\<close>

lemma tree_ok_move:
  assumes ok: "tree_ok t" and o: "bt_get t op = Some ov" "bt_get (children ov) on = Some x" "\<not> is_dot on"
    and n: "bt_get t np = Some nv" "file_type nv = Directory" "bt_get (children nv) nn = None" "\<not> is_dot nn"
    and x: "bt_get t x = Some c" "x \<noteq> op" "x \<noteq> np"
    and bt': "bt_ok t'"
    and get: "\<And>j. bt_get t' j = (if j = x then Some c' else if j = np then Some nv' else if j = op then Some ov' else bt_get t j)"
    and types: "file_type c' = file_type c" "file_type nv' = file_type nv" "file_type ov' = file_type ov"
    and bts: "bt_ok (children c')" "bt_ok (children nv')" "bt_ok (children ov')"
    and c': "nlinks c' = nlinks c"
      "\<And>nm. bt_get (children c') nm = (if file_type c = Directory \<and> nm = ''..'' then Some np else bt_get (children c) nm)"
      "file_type c \<noteq> Directory \<Longrightarrow> children c' = children c"
    and nv': "\<And>nm. bt_get (children nv') nm = (if nm = nn then Some x else if np = op \<and> nm = on then None else bt_get (children nv) nm)"
    and ov': "\<And>nm. bt_get (children ov') nm = (if nm = on then None else bt_get (children ov) nm)"
    and refs: "\<And>j. refs t' j = refs t j"
  shows "tree_ok t'"
proof -
  have odir: "file_type ov = Directory" using has_entry_dir [OF ok o(1,2)] .
  from tree_okD(6) [OF ok] obtain r where r: "bt_get t 1 = Some r" "file_type r = Directory" by blast
  have x1: "x \<noteq> 1"
  proof
    assume "x = 1"
    then have "dir_ok t 1 c" using tree_okD(4) [OF ok] x r by simp
    then have "refs t 1 = 0" by (simp add: dir_ok_def)
    with refs_pos [OF tree_okD(1) [OF ok] o(1,2,3)] \<open>x = 1\<close> show False by simp
  qed
  have same_np: "nv = ov" if "np = op" using that o(1) n(1) by simp
  have up: "\<exists>m'. bt_get t' q = Some m' \<and> file_type m' = Directory \<and> (named_in m j \<longrightarrow> named_in m' j)"
    if q: "bt_get t q = Some m" "file_type m = Directory" and jx: "j \<noteq> x" for q m j
  proof -
    obtain m' where m': "bt_get t' q = Some m'" "file_type m' = file_type m"
      "\<And>nm. bt_get (children m) nm = Some j \<Longrightarrow> \<not> is_dot nm \<Longrightarrow> bt_get (children m') nm = Some j"
    proof (cases "q = x")
      case True
      with q(1) x(1) have "m = c" by simp
      then show ?thesis using True types(1) by (intro that [of c']) (auto simp: get c'(2))
    next
      case qx: False
      show ?thesis
      proof (cases "q = np")
        case True
        then have "m = nv" using q(1) n(1) by simp
        then show ?thesis
          using True qx types(2) n(3) jx o(2) same_np by (intro that [of nv']) (auto simp: get nv')
      next
        case qn: False
        show ?thesis
        proof (cases "q = op")
          case True
          then have "m = ov" using q(1) o(1) by simp
          then show ?thesis
            using True qx qn types(3) jx o(2) by (intro that [of ov']) (auto simp: get ov')
        next
          case False
          then show ?thesis using q(1) qx qn by (intro that [of m]) (auto simp: get)
        qed
      qed
    qed
    then show ?thesis using q(2) by (auto simp: named_in_def)
  qed
  have keep: "dir_ok t' j v'" if d: "dir_ok t j v" and jx: "j \<noteq> x"
    and same: "bt_get (children v') ''.'' = bt_get (children v) ''.''"
      "bt_get (children v') ''..'' = bt_get (children v) ''..''" for j v v'
  proof (rule dir_ok_transfer [OF d])
    fix q m assume q: "bt_get t q = Some m" "file_type m = Directory" "if j = 1 then q = 1 else named_in m j"
    from up [OF q(1,2) jx] q(3) show "\<exists>m'. bt_get t' q = Some m' \<and> file_type m' = Directory \<and> (j \<noteq> 1 \<longrightarrow> named_in m' j)"
      by auto
  qed (use refs same in simp_all)
  show ?thesis
  proof (rule tree_okI)
    show "bt_ok t'" by (rule bt')
    have dom: "bt_get t j \<noteq> None \<Longrightarrow> bt_get t' j \<noteq> None" for j by (simp add: get)
    have ent: "i = x \<or> i = np \<or> (\<exists>q0 m0. bt_get t q0 = Some m0 \<and> bt_get (children m0) nm = Some i)"
      if "bt_get t' q = Some m" "bt_get (children m) nm = Some i" for q m nm i
      using that o n x same_np c'(2) [of nm] nv' [of nm] ov' [of nm] by (auto simp: get split: if_splits)
    show "no_dangling t'"
      unfolding no_dangling_def
    proof (intro allI impI)
      fix q m nm i assume "bt_get t' q = Some m" "bt_get (children m) nm = Some i"
      from ent [OF this] have "bt_get t i \<noteq> None"
        using no_danglingD [OF tree_okD(2) [OF ok]] n(1) x(1) by (metis option.distinct(1))
      then show "bt_get t' i \<noteq> None" by (rule dom)
    qed
    fix j v assume v: "bt_get t' j = Some v"
    show "bt_ok (children v)" using v bts tree_okD(3) [OF ok] by (auto simp: get split: if_splits)
    show "dir_ok t' j v" if dir: "file_type v = Directory"
    proof (cases "j = x")
      case True
      with v have vc: "v = c'" by (simp add: get)
      with dir types(1) have cdir: "file_type c = Directory" by simp
      have d: "dir_ok t x c" using tree_okD(4) [OF ok x(1) cdir] .
      have "named_in nv' x" using n(4) by (auto simp: named_in_def nv')
      moreover have "bt_get t' np = Some nv'" using x(3) by (simp add: get)
      ultimately show ?thesis
        unfolding True vc using d x1 n(2) types(2) cdir refs [of x]
        by (intro dir_okI [where q = np and m = nv']) (simp_all add: c'(2) dir_ok_def)
    next
      case False
      show ?thesis
      proof (cases "j = np \<or> j = op")
        case True
        then obtain v0 where v0: "bt_get t j = Some v0" "file_type v0 = Directory"
          "bt_get (children v) ''.'' = bt_get (children v0) ''.''"
          "bt_get (children v) ''..'' = bt_get (children v0) ''..''"
          using v False o n odir not_dotD [OF o(3)] not_dotD [OF n(4)]
            nv' [of "''.''"] nv' [of "''..''"] ov' [of "''.''"] ov' [of "''..''"]
          by (auto simp: get split: if_splits)
        then show ?thesis using keep [OF tree_okD(4) [OF ok v0(1,2)] False] by blast
      next
        case other: False
        then have "bt_get t j = Some v" using v False by (simp add: get)
        then show ?thesis using keep [OF tree_okD(4) [OF ok _ dir] False] by blast
      qed
    qed
    show "file_ok t' j v" if nd: "file_type v \<noteq> Directory"
    proof (cases "j = x")
      case True
      with v have "v = c'" by (simp add: get)
      with tree_okD(5) [OF ok x(1)] nd types(1) c'(1,3) refs True show ?thesis by (simp add: file_ok_def)
    next
      case False
      with v nd n(2) odir types have "bt_get t j = Some v" by (auto simp: get split: if_splits)
      from tree_okD(5) [OF ok this nd] refs show ?thesis by (simp add: file_ok_def)
    qed
  next
    from r show "bt_get t' 1 = Some (if np = 1 then nv' else if op = 1 then ov' else r)"
      "file_type (if np = 1 then nv' else if op = 1 then ov' else r) = Directory"
      using x1 n(2) odir types by (auto simp: get)
  qed
qed

end
