(* ===== verification/Tmpfs_Props.thy ===== *)
theory Tmpfs_Props
  imports Tmpfs_Tree
begin

text \<open>
  Properties of the file system over runs of its operations: the structure and the space
  accounting are invariants of every admissible sequence, failed operations change nothing,
  data written is read back, and the cases where \<^verbatim>\<open>rename\<close> and the quota check go wrong.
\<close>

section \<open>Operations as data\<close>

datatype TmpfsOp =
    OpCreate u64 string TmpfsFileType u16 u32 u32
  | OpWrite u64 u64 "u8 list"
  | OpTruncate u64 u64
  | OpUnlink u64 string
  | OpLink u64 string u64
  | OpSymlink u64 string string u32 u32
  | OpRmdir u64 string
  | OpChmod u64 u16
  | OpChown u64 u32 u32
  | OpRename u64 string u64 string

definition drop_value :: "(TmpfsError + 'a) \<times> TmpfsFilesystem \<Rightarrow> TmpfsError option \<times> TmpfsFilesystem" where
  "drop_value = (\<lambda>(r, fs). (case r of Inl e \<Rightarrow> Some e | Inr _ \<Rightarrow> None, fs))"

definition fs_exec :: "TmpfsOp \<Rightarrow> TmpfsFilesystem \<Rightarrow> (TmpfsError option \<times> TmpfsFilesystem) rust" where
  "fs_exec op fs = (case op of
      OpCreate p nm ft m u g \<Rightarrow> Ret (drop_value (create p nm ft m u g fs))
    | OpWrite i off bs \<Rightarrow> rust_bind (write_file i off bs fs) (\<lambda>r. Ret (drop_value r))
    | OpTruncate i sz \<Rightarrow> rust_bind (truncate_file i sz fs) (\<lambda>r. Ret (drop_value r))
    | OpUnlink p nm \<Rightarrow> rust_bind (unlink p nm fs) (\<lambda>r. Ret (drop_value r))
    | OpLink p nm i \<Rightarrow> Ret (drop_value (link p nm i fs))
    | OpSymlink p nm t u g \<Rightarrow> Ret (drop_value (symlink p nm t u g fs))
    | OpRmdir p nm \<Rightarrow> rust_bind (rmdir p nm fs) (\<lambda>r. Ret (drop_value r))
    | OpChmod i m \<Rightarrow> Ret (drop_value (chmod i m fs))
    | OpChown i u g \<Rightarrow> Ret (drop_value (chown i u g fs))
    | OpRename op on np nn \<Rightarrow> rust_bind (rename op on np nn fs) (\<lambda>r. Ret (drop_value r)))"

section \<open>Space accounting\<close>

definition used_bytes :: "(u64, TmpfsInodeData) btree \<Rightarrow> nat" where
  "used_bytes t = bt_sum (\<lambda>_ n. length (data n)) t"

definition node_ok :: "TmpfsInodeData \<Rightarrow> bool" where
  "node_ok n \<longleftrightarrow> (file_type n = Directory \<longrightarrow> data n = [])
     \<and> (file_type n \<noteq> Symlink \<longrightarrow> size n = word_of_nat (length (data n)))"

definition space_ok :: "TmpfsFilesystem \<Rightarrow> bool" where
  "space_ok fs \<longleftrightarrow> used_bytes (inodes fs) = unat (total_used fs)
     \<and> total_used fs \<le> max_size fs \<and> max_size fs \<le> ISIZE_MAX
     \<and> (\<forall>i n. bt_get (inodes fs) i = Some n \<longrightarrow> node_ok n)"

definition numbers_ok :: "TmpfsFilesystem \<Rightarrow> bool" where
  "numbers_ok fs \<longleftrightarrow> (\<forall>i. bt_get (inodes fs) i \<noteq> None \<longrightarrow> i < next_ino fs)"

definition fs_inv :: "TmpfsFilesystem \<Rightarrow> bool" where
  "fs_inv fs \<longleftrightarrow> tree_ok (inodes fs) \<and> numbers_ok fs \<and> space_ok fs"

lemma fs_invD:
  assumes "fs_inv fs"
  shows "tree_ok (inodes fs)" and "bt_ok (inodes fs)" and "used_bytes (inodes fs) = unat (total_used fs)"
    and "bt_get (inodes fs) i = Some n \<Longrightarrow> node_ok n"
    and "bt_get (inodes fs) i \<noteq> None \<Longrightarrow> i < next_ino fs"
  using assms tree_okD(1) by (auto simp: fs_inv_def space_ok_def numbers_ok_def)

lemma space_bounds:
  assumes "fs_inv fs"
  shows "unat (total_used fs) \<le> unat (max_size fs)" and "unat (max_size fs) < 2 ^ 63"
proof -
  have "unat (max_size fs) \<le> unat ISIZE_MAX" using assms by (simp add: fs_inv_def space_ok_def word_le_nat_alt)
  then show "unat (max_size fs) < 2 ^ 63" by (simp add: ISIZE_MAX_def)
  show "unat (total_used fs) \<le> unat (max_size fs)"
    using assms by (simp add: fs_inv_def space_ok_def word_le_nat_alt)
qed

lemma used_bytes_replace:
  "bt_ok t \<Longrightarrow> bt_get t i = Some n \<Longrightarrow>
     used_bytes (bt_insert i n' t) + length (data n) = used_bytes t + length (data n')"
  unfolding used_bytes_def by (rule bt_sum_insert_old)

lemma used_bytes_new: "bt_get t i = None \<Longrightarrow> used_bytes (bt_insert i n t) = length (data n) + used_bytes t"
  by (simp add: used_bytes_def bt_sum_insert_new)

lemma used_bytes_remove:
  "bt_ok t \<Longrightarrow> bt_get t i = Some n \<Longrightarrow> used_bytes (bt_remove i t) + length (data n) = used_bytes t"
  unfolding used_bytes_def by (rule bt_sum_remove)

lemma data_le_used: "bt_ok t \<Longrightarrow> bt_get t i = Some n \<Longrightarrow> length (data n) \<le> used_bytes t"
  using used_bytes_remove by (metis le_add2)

lemma data_bound:
  assumes "fs_inv fs" and "bt_get (inodes fs) i = Some n"
  shows "length (data n) \<le> unat (total_used fs)" and "length (data n) < 2 ^ 63"
    and "unat (word_of_nat (length (data n)) :: u64) = length (data n)"
proof -
  show 1: "length (data n) \<le> unat (total_used fs)"
    using data_le_used [OF fs_invD(2) [OF assms(1)] assms(2)] fs_invD(3) [OF assms(1)] by simp
  with space_bounds [OF assms(1)] show "length (data n) < 2 ^ 63" by linarith
  then show "unat (word_of_nat (length (data n)) :: u64) = length (data n)" by (simp add: unat_of_nat)
qed

section \<open>What writing and truncating do\<close>

definition pad :: "nat \<Rightarrow> u8 list \<Rightarrow> u8 list" where
  "pad n xs = xs @ replicate (n - length xs) 0"

lemma length_pad [simp]: "length (pad n xs) = max n (length xs)"
  by (simp add: pad_def)

lemma vec_resize_Ret:
  "vec_resize n xs = Ret d \<Longrightarrow> d = take (unat n) (pad (unat n) xs) \<and> (length xs < unat n \<longrightarrow> unat n < 2 ^ 63)"
proof -
  have "n \<le> ISIZE_MAX \<Longrightarrow> unat n < 2 ^ 63" by (simp add: word_le_nat_alt ISIZE_MAX_def)
  then show "vec_resize n xs = Ret d \<Longrightarrow> ?thesis"
    by (auto simp: vec_resize_def pad_def split: if_splits)
qed

lemma grow_check:
  assumes "fs_inv fs" and "bt_get (inodes fs) i = Some n"
    and "unat sz < 2 ^ 63" and "length (data n) < unat sz"
    and "\<not> total_used fs + (sz - word_of_nat (length (data n))) > max_size fs"
  shows "unat (total_used fs + (sz - word_of_nat (length (data n)))) = unat (total_used fs) + (unat sz - length (data n))"
    and "unat (total_used fs) + (unat sz - length (data n)) \<le> unat (max_size fs)"
proof -
  let ?old = "word_of_nat (length (data n)) :: u64"
  have old: "unat ?old = length (data n)" using data_bound(3) [OF assms(1,2)] .
  have g: "unat (sz - ?old) = unat sz - length (data n)"
    using assms(4) old by (simp add: unat_sub word_le_nat_alt)
  have "unat (total_used fs) + unat (sz - ?old) < 2 ^ 64"
    using space_bounds [OF assms(1)] assms(3) g by simp
  then show 1: "unat (total_used fs + (sz - ?old)) = unat (total_used fs) + (unat sz - length (data n))"
    using g by (simp add: unat_plus_no_overflow)
  show "unat (total_used fs) + (unat sz - length (data n)) \<le> unat (max_size fs)"
    using assms(5) 1 by (simp add: word_less_nat_alt)
qed

text \<open>
  A successful write: the file is padded with zeros up to the end of the write, the bytes are
  put in place, and the growth is charged to the quota without wrap-around.
\<close>

lemma write_file_Inr:
  assumes inv: "fs_inv fs" and len: "length bytes < 2 ^ 63"
    and w: "write_file i offset bytes fs = Ret (Inr k, fs')"
  obtains node where "bt_get (inodes fs) i = Some node" and "file_type node \<noteq> Directory"
    and "k = word_of_nat (length bytes)"
    and "fs' = fs\<lparr>inodes := bt_insert i (node\<lparr>
           data := take (unat offset) (pad (unat offset + length bytes) (data node)) @ bytes
                     @ drop (unat offset + length bytes) (data node),
           size := word_of_nat (max (unat offset + length bytes) (length (data node)))\<rparr>) (inodes fs),
         total_used := total_used fs'\<rparr>"
    and "unat (total_used fs') = unat (total_used fs) + (unat offset + length bytes - length (data node))"
    and "unat (total_used fs') \<le> unat (max_size fs)"
proof -
  let ?stop = "offset + word_of_nat (length bytes)"
  from w obtain node where node: "bt_get (inodes fs) i = Some node" "file_type node \<noteq> Directory"
    by (auto simp: write_file_def Let_def split: option.splits if_splits)
  let ?old = "word_of_nat (length (data node)) :: u64"
  note old = data_bound(3) [OF inv node(1)]
  have gt: "?stop > ?old \<longleftrightarrow> length (data node) < unat ?stop" by (simp add: word_less_nat_alt old)
  from w node have nospace: "\<not> (?stop > ?old \<and> total_used fs + (?stop - ?old) > max_size fs)"
    and le: "\<not> offset > ?stop"
    and "\<exists>d. (if ?stop > ?old then vec_resize ?stop (data node) else Ret (data node)) = Ret d \<and>
      k = word_of_nat (length bytes) \<and>
      fs' = fs\<lparr>inodes := bt_insert i (node\<lparr>data := take (unat offset) d @ bytes @ drop (unat ?stop) d,
            size := word_of_nat (length (take (unat offset) d @ bytes @ drop (unat ?stop) d))\<rparr>) (inodes fs),
         total_used := (if ?stop > ?old then total_used fs + (?stop - ?old) else total_used fs)\<rparr>"
    by (auto simp: write_file_def Let_def rust_bind_Ret_iff split: if_splits)
  then obtain d where d: "(if ?stop > ?old then vec_resize ?stop (data node) else Ret (data node)) = Ret d"
    and k: "k = word_of_nat (length bytes)"
    and fs': "fs' = fs\<lparr>inodes := bt_insert i (node\<lparr>data := take (unat offset) d @ bytes @ drop (unat ?stop) d,
            size := word_of_nat (length (take (unat offset) d @ bytes @ drop (unat ?stop) d))\<rparr>) (inodes fs),
         total_used := (if ?stop > ?old then total_used fs + (?stop - ?old) else total_used fs)\<rparr>" by blast
  have lenw: "unat (word_of_nat (length bytes) :: u64) = length bytes" using len by (simp add: unat_of_nat)
  have stop: "unat ?stop = unat offset + length bytes"
  proof -
    have "\<not> 2 ^ 64 \<le> unat offset + unat (word_of_nat (length bytes) :: u64)"
      using le add_overflow_iff [of offset "word_of_nat (length bytes)"] by simp
    then show ?thesis using lenw by (simp add: unat_plus_no_overflow)
  qed
  have pad: "d = pad (unat ?stop) (data node)"
    using d vec_resize_Ret [of ?stop "data node" d] gt by (auto simp: pad_def split: if_splits)
  have size: "length (take (unat offset) d @ bytes @ drop (unat ?stop) d) = max (unat ?stop) (length (data node))"
    by (simp add: pad stop)
  have tail: "drop (unat ?stop) d = drop (unat ?stop) (data node)" by (simp add: pad pad_def)
  have used: "unat (total_used fs') = unat (total_used fs) + (unat ?stop - length (data node))
      \<and> unat (total_used fs') \<le> unat (max_size fs)"
  proof (cases "?stop > ?old")
    case True
    then have "unat ?stop < 2 ^ 63" using d vec_resize_Ret [of ?stop "data node" d] gt by simp
    from grow_check [OF inv node(1) this] True gt nospace show ?thesis by (simp add: fs')
  next
    case False
    then show ?thesis using gt space_bounds [OF inv] by (simp add: fs')
  qed
  note shape = fs' [unfolded size, unfolded tail, unfolded pad stop]
  show ?thesis
  proof (rule that [OF node k])
    show "fs' = fs\<lparr>inodes := bt_insert i (node\<lparr>
           data := take (unat offset) (pad (unat offset + length bytes) (data node)) @ bytes
                     @ drop (unat offset + length bytes) (data node),
           size := word_of_nat (max (unat offset + length bytes) (length (data node)))\<rparr>) (inodes fs),
         total_used := total_used fs'\<rparr>"
      by (simp add: shape)
  qed (use used stop in simp_all)
qed

section \<open>The invariant is kept\<close>

text \<open>
  \<open>admissible\<close>: inode numbers and link counts are not exhausted, a buffer is one a Rust slice
  can have, truncation is of a file, and a rename moves to a name that is free, in an
  existing directory other than the thing moved. The operations themselves check none of
  this; what happens outside is the subject of the last section.
\<close>

definition admissible :: "TmpfsOp \<Rightarrow> TmpfsFilesystem \<Rightarrow> bool" where
  "admissible op fs = (case op of
      OpCreate _ _ _ _ _ _ \<Rightarrow> next_ino fs < - 1
    | OpSymlink _ _ _ _ _ \<Rightarrow> next_ino fs < - 1
    | OpWrite _ _ bs \<Rightarrow> length bs < 2 ^ 63
    | OpTruncate i _ \<Rightarrow> (case bt_get (inodes fs) i of None \<Rightarrow> True | Some n \<Rightarrow> file_type n \<noteq> Directory)
    | OpLink _ _ i \<Rightarrow> (case bt_get (inodes fs) i of None \<Rightarrow> True | Some n \<Rightarrow> nlinks n < - 1)
    | OpRename op on np nn \<Rightarrow>
        (case bt_get (inodes fs) np of None \<Rightarrow> False
         | Some nv \<Rightarrow> file_type nv = Directory \<and> bt_get (children nv) nn = None)
        \<and> (case Option.bind (bt_get (inodes fs) op) (\<lambda>ov. bt_get (children ov) on) of
             None \<Rightarrow> True | Some x \<Rightarrow> x \<noteq> op \<and> x \<noteq> np)
    | _ \<Rightarrow> True)"

lemma fs_inv_update:
  assumes inv: "fs_inv fs" and i: "bt_get (inodes fs) i = Some n"
    and same: "children n' = children n" "file_type n' = file_type n" "nlinks n' = nlinks n"
    and node: "node_ok n'" and used: "unat u + length (data n) = unat (total_used fs) + length (data n')"
      "unat u \<le> unat (max_size fs)"
  shows "fs_inv (fs\<lparr>inodes := bt_insert i n' (inodes fs), total_used := u\<rparr>)"
proof -
  have "tree_ok (bt_insert i n' (inodes fs))"
    using fs_invD(1) [OF inv] i same by (rule tree_ok_update)
  moreover have "used_bytes (bt_insert i n' (inodes fs)) = unat u"
    using used_bytes_replace [OF fs_invD(2) [OF inv] i, of n'] fs_invD(3) [OF inv] used(1) by simp
  moreover have "u \<le> max_size fs" using used(2) by (simp add: word_le_nat_alt)
  moreover have "max_size fs \<le> ISIZE_MAX" using inv by (simp add: fs_inv_def space_ok_def)
  ultimately show ?thesis
    using fs_invD(4,5) [OF inv] i node unfolding fs_inv_def space_ok_def numbers_ok_def by auto
qed

lemma fs_inv_meta:
  assumes "fs_inv fs" and "bt_get (inodes fs) i = Some n"
    and "children n' = children n" "file_type n' = file_type n" "nlinks n' = nlinks n" "data n' = data n"
    and "node_ok n'"
  shows "fs_inv (set_inodes (bt_insert i n' (inodes fs)) fs)"
  using fs_inv_update [OF assms(1-5,7), of "total_used fs"] assms(6) space_bounds [OF assms(1)] by simp

lemma write_inv:
  assumes inv: "fs_inv fs" and len: "length bytes < 2 ^ 63"
    and w: "write_file i offset bytes fs = Ret (Inr k, fs')"
  shows "fs_inv fs'"
proof -
  obtain node where n: "bt_get (inodes fs) i = Some node" "file_type node \<noteq> Directory"
    and fs': "fs' = fs\<lparr>inodes := bt_insert i (node\<lparr>
           data := take (unat offset) (pad (unat offset + length bytes) (data node)) @ bytes
                     @ drop (unat offset + length bytes) (data node),
           size := word_of_nat (max (unat offset + length bytes) (length (data node)))\<rparr>) (inodes fs),
         total_used := total_used fs'\<rparr>"
    and used: "unat (total_used fs') = unat (total_used fs) + (unat offset + length bytes - length (data node))"
      "unat (total_used fs') \<le> unat (max_size fs)"
    by (rule write_file_Inr [OF inv len w]) blast
  have "length (take (unat offset) (pad (unat offset + length bytes) (data node)) @ bytes
      @ drop (unat offset + length bytes) (data node)) = max (unat offset + length bytes) (length (data node))"
    by simp
  then show ?thesis
    by (subst fs', intro fs_inv_update [OF inv n(1)]) (use n used in \<open>simp_all add: node_ok_def\<close>)
qed

lemma truncate_inv:
  assumes inv: "fs_inv fs" and n: "bt_get (inodes fs) i = Some node" "file_type node \<noteq> Directory"
    and tr: "truncate_file i sz fs = Ret (Inr u, fs')"
  shows "fs_inv fs'"
proof -
  let ?old = "word_of_nat (length (data node)) :: u64"
  note old = data_bound [OF inv n(1)]
  have gt: "sz > ?old \<longleftrightarrow> length (data node) < unat sz" by (simp add: word_less_nat_alt old)
  from tr n obtain d where d: "vec_resize sz (data node) = Ret d"
    and nospace: "\<not> (sz > ?old \<and> total_used fs + (sz - ?old) > max_size fs)"
    and fs': "fs' = fs\<lparr>inodes := bt_insert i (node\<lparr>data := d, size := sz\<rparr>) (inodes fs),
      total_used := (if sz > ?old then total_used fs + (sz - ?old) else total_used fs - (?old - sz))\<rparr>"
    by (auto simp: truncate_file_def Let_def rust_bind_Ret_iff split: if_splits)
  from vec_resize_Ret [OF d] have len: "length d = unat sz" by simp
  show ?thesis
  proof (cases "sz > ?old")
    case True
    then have "unat sz < 2 ^ 63" using vec_resize_Ret [OF d] gt by simp
    from grow_check [OF inv n(1) this] True gt nospace
    have "unat (total_used fs + (sz - ?old)) = unat (total_used fs) + (unat sz - length (data node))"
      "unat (total_used fs) + (unat sz - length (data node)) \<le> unat (max_size fs)" by simp_all
    with True gt len n show ?thesis
      unfolding fs' by (intro fs_inv_update [OF inv n(1)]) (simp_all add: node_ok_def)
  next
    case False
    have "unat (?old - sz) = length (data node) - unat sz"
      using False gt old(3) by (simp add: unat_sub word_le_nat_alt)
    then have "unat (total_used fs - (?old - sz)) = unat (total_used fs) - (length (data node) - unat sz)"
      using old(1) by (simp add: unat_sub word_le_nat_alt)
    with False gt len n old(1) space_bounds [OF inv] show ?thesis
      unfolding fs' by (intro fs_inv_update [OF inv n(1)]) (simp_all add: node_ok_def)
  qed
qed

lemma dots_ok: "bt_ok (bt_insert ''..'' p (bt_insert ''.'' i []))" for p i :: u64
  by (rule bt_ok_insert, rule bt_ok_insert, rule bt_ok_empty(2))

lemma create_Inr:
  assumes inv: "fs_inv fs" and c: "create p nm ft m u g fs = (Inr i, fs')"
  obtains par node k where "i = next_ino fs" and "bt_get (inodes fs) i = None"
    and "bt_get (inodes fs) p = Some par" and "file_type par = Directory"
    and "bt_get (children par) nm = None" and "\<not> is_dot nm"
    and "new_node p i node" and "file_type node = ft" and "data node = []" and "size node = 0"
    and "fs' = fs\<lparr>inodes := bt_insert p (par\<lparr>children := bt_insert nm i (children par), nlinks := k\<rparr>)
                  (bt_insert i node (inodes fs)), next_ino := next_ino fs + 1\<rparr>"
proof -
  from c obtain par where par: "bt_get (inodes fs) p = Some par" "file_type par = Directory"
    "bt_get (children par) nm = None" "\<not> is_dot nm"
    by (auto simp: create_def split: if_splits option.splits)
  let ?i = "next_ino fs"
  have fresh: "bt_get (inodes fs) ?i = None" using fs_invD(5) [OF inv, of ?i] by (cases "bt_get (inodes fs) ?i") auto
  then have pi: "p \<noteq> ?i" using par(1) by auto
  let ?node = "if ft = Directory
     then (inode_new ?i ft m u g)\<lparr>children := bt_insert ''..'' p (bt_insert ''.'' ?i (children (inode_new ?i ft m u g)))\<rparr>
     else inode_new ?i ft m u g"
  have nn: "new_node p ?i ?node" "file_type ?node = ft" "data ?node = []" "size ?node = 0"
    using dots_ok [of p ?i] by (auto simp: new_node_def inode_new_def bt_empty_def)
  have "i = ?i" and "fs' = fs\<lparr>inodes := bt_insert p (par\<lparr>children := bt_insert nm ?i (children par),
         nlinks := (if ft = Directory then nlinks par + 1 else nlinks par)\<rparr>) (bt_insert ?i ?node (inodes fs)),
         next_ino := next_ino fs + 1\<rparr>"
    using c par pi by (auto simp: create_def alloc_ino_def Let_def bt_modify_def split: if_splits)
  then show ?thesis using that fresh par nn by blast
qed

lemma create_inv:
  assumes inv: "fs_inv fs" and n: "next_ino fs < - 1" and c: "create p nm ft m u g fs = (Inr i, fs')"
  shows "fs_inv fs'" and "bt_get (inodes fs') i \<noteq> None"
    and "bt_get (inodes fs') i = Some v \<Longrightarrow> file_type v = ft \<and> data v = []"
proof -
  obtain par node k where i: "i = next_ino fs" "bt_get (inodes fs) i = None"
    and par: "bt_get (inodes fs) p = Some par" "file_type par = Directory" "bt_get (children par) nm = None" "\<not> is_dot nm"
    and node: "new_node p i node" "file_type node = ft" "data node = []" "size node = 0"
    and fs': "fs' = fs\<lparr>inodes := bt_insert p (par\<lparr>children := bt_insert nm i (children par), nlinks := k\<rparr>)
                  (bt_insert i node (inodes fs)), next_ino := next_ino fs + 1\<rparr>"
    using create_Inr [OF inv c] by blast
  let ?par = "par\<lparr>children := bt_insert nm i (children par), nlinks := k\<rparr>"
  have pi: "p \<noteq> i" using par(1) i(2) by auto
  have "tree_ok (inodes fs')"
    unfolding fs' using tree_ok_create [OF fs_invD(1) [OF inv] par(1,2) i(2) node(1) par(4,3)] by simp
  moreover have "used_bytes (inodes fs') = used_bytes (inodes fs)"
    using used_bytes_replace [of "bt_insert i node (inodes fs)" p par ?par] fs_invD(2) [OF inv] par(1) pi
    by (simp add: fs' used_bytes_new [OF i(2)] node(3))
  moreover have "node_ok node" "node_ok ?par"
    using node fs_invD(4) [OF inv par(1)] by (auto simp: node_ok_def)
  moreover have "next_ino fs < next_ino fs + 1" using less_max_word_suc [OF n] by simp
  ultimately show "fs_inv fs'"
    using inv i(1) par(1) unfolding fs_inv_def space_ok_def numbers_ok_def
    by (auto simp: fs' intro: less_trans split: if_splits)
  show "bt_get (inodes fs') i \<noteq> None" "bt_get (inodes fs') i = Some v \<Longrightarrow> file_type v = ft \<and> data v = []"
    using pi node by (auto simp: fs')
qed

lemma link_inv:
  assumes inv: "fs_inv fs" and nl: "admissible (OpLink p nm x) fs" and l: "link p nm x fs = (Inr u, fs')"
  shows "fs_inv fs'"
proof -
  from l obtain par tg where par: "bt_get (inodes fs) p = Some par" "file_type par = Directory"
      "bt_get (children par) nm = None"
    and tg: "bt_get (inodes fs) x = Some tg" "file_type tg \<noteq> Directory"
    by (auto simp: link_def split: if_splits option.splits)
  have px: "p \<noteq> x" using par tg by auto
  have "\<not> is_dot nm"
    using par(3) tree_okD(4) [OF fs_invD(1) [OF inv] par(1,2)] by (auto simp: is_dot_def dir_ok_def)
  moreover have mx: "nlinks tg < - 1" using nl tg by (simp add: admissible_def)
  let ?par = "par\<lparr>children := bt_insert nm x (children par)\<rparr>" and ?tg = "tg\<lparr>nlinks := nlinks tg + 1\<rparr>"
  have fs': "fs' = set_inodes (bt_insert p ?par (bt_insert x ?tg (inodes fs))) fs"
    using l par tg px by (auto simp: link_def bt_modify_def split: if_splits)
  ultimately have "tree_ok (inodes fs')"
    using tree_ok_link [OF fs_invD(1) [OF inv] par(1,2) tg mx _ par(3)] by simp
  moreover have "used_bytes (inodes fs') = used_bytes (inodes fs)"
    using used_bytes_replace [of "bt_insert x ?tg (inodes fs)" p par ?par]
      used_bytes_replace [of "inodes fs" x tg ?tg] fs_invD(2) [OF inv] par(1) tg(1) px
    by (simp add: fs')
  moreover have "node_ok ?tg" "node_ok ?par"
    using fs_invD(4) [OF inv] par(1) tg(1) by (auto simp: node_ok_def)
  ultimately show ?thesis
    using inv par(1) tg(1) unfolding fs_inv_def space_ok_def numbers_ok_def by (auto simp: fs')
qed

text \<open>What \<^verbatim>\<open>unlink\<close> and \<^verbatim>\<open>rmdir\<close> do to the reference counts of the table they produce.\<close>

lemma refs_drop_entry:
  assumes "bt_ok t" and "bt_get t p = Some par" and "bt_ok (children par)"
    and "bt_get (children par) nm = Some x" and "\<not> is_dot nm"
  shows "refs (bt_insert p (par\<lparr>children := bt_remove nm (children par), nlinks := k\<rparr>) t) j
     + (if j = x then 1 else 0) = refs t j"
proof -
  let ?par = "par\<lparr>children := bt_remove nm (children par), nlinks := k\<rparr>"
  have "refs (bt_insert p ?par t) j + crefs j (children par) = refs t j + crefs j (children ?par)"
    using assms(1,2) by (rule refs_insert_old)
  moreover have "crefs j (children ?par) + (if j = x then 1 else 0) = crefs j (children par)"
    using crefs_remove [OF assms(3,4), of j] assms(5) by (cases "j = x") auto
  ultimately show ?thesis by simp
qed

lemma unlink_inv:
  assumes inv: "fs_inv fs" and un: "unlink p nm fs = Ret (Inr u, fs')"
  shows "fs_inv fs'"
proof -
  from un obtain par x c where par: "bt_get (inodes fs) p = Some par" "bt_get (children par) nm = Some x"
    and c: "bt_get (inodes fs) x = Some c" "file_type c \<noteq> Directory" and nd: "\<not> is_dot nm"
    by (auto simp: unlink_def Let_def split: if_splits option.splits)
  note ok = fs_invD(1) [OF inv] and bt = fs_invD(2) [OF inv]
  have px: "p \<noteq> x" using has_entry_dir [OF ok par] par(1) c by auto
  have fok: "file_ok (inodes fs) x c" using tree_okD(5) [OF ok c] .
  have pos: "0 < unat (nlinks c)" using refs_pos [OF bt par nd] fok by (simp add: file_ok_def)
  let ?n = "saturating_sub (nlinks c) 1"
  let ?c = "c\<lparr>nlinks := ?n\<rparr>"
  let ?par = "par\<lparr>children := bt_remove nm (children par), nlinks := nlinks par\<rparr>"
  let ?t1 = "bt_insert x ?c (inodes fs)"
  let ?t2 = "if ?n = 0 then bt_remove x ?t1 else ?t1"
  have n: "Suc (unat ?n) = unat (nlinks c)" using pos by (simp add: unat_saturating_sub)
  have fs': "fs' = fs\<lparr>inodes := bt_insert p ?par ?t2,
      total_used := (if ?n = 0 then total_used fs - word_of_nat (length (data c)) else total_used fs)\<rparr>"
    using un par c nd px by (auto simp: unlink_def Let_def split: if_splits)
  have p2: "bt_get ?t2 p = Some par" using par(1) px by simp
  have bt2: "bt_ok ?t2" using bt by simp
  have refs1: "refs ?t1 = refs (inodes fs)" using refs_insert_same [OF bt c(1)] by simp
  have "children c = []" using fok by (simp add: file_ok_def)
  then have "refs (bt_remove x ?t1) j = refs (inodes fs) j" for j
    using refs_remove [of ?t1 x ?c j] bt refs1 by simp
  then have "refs ?t2 j = refs (inodes fs) j" for j
    by (simp only: if_distrib [of "\<lambda>t. refs t j"] refs1 if_cancel)
  then have refs: "refs (bt_insert p ?par ?t2) j + (if j = x then 1 else 0) = refs (inodes fs) j" for j
    using refs_drop_entry [OF bt2 p2 tree_okD(3) [OF ok par(1)] par(2) nd] by metis
  have "tree_ok (bt_insert p ?par ?t2)"
  proof (rule tree_ok_drop [OF ok par nd c(1) px, where co = "if ?n = 0 then None else Some ?c" and k = "nlinks par"])
    show "bt_ok (bt_insert p ?par ?t2)" using bt2 by simp
    show "bt_get (bt_insert p ?par ?t2) j
      = (if j = p then Some ?par else if j = x then if ?n = 0 then None else Some ?c else bt_get (inodes fs) j)" for j
      by simp
    show "refs (bt_insert p ?par ?t2) j + (if j = x then 1 else 0) = refs (inodes fs) j" for j by (rule refs)
    have "refs (inodes fs) x = 1" if "?n = 0" using n fok that by (simp add: file_ok_def)
    then show "(if ?n = 0 then None else Some ?c) = None \<and> refs (inodes fs) x = 1
          \<and> (file_type c = Directory \<longrightarrow> real_children c = [])
        \<or> (\<exists>c'. (if ?n = 0 then None else Some ?c) = Some c' \<and> file_type c \<noteq> Directory
             \<and> file_type c' = file_type c \<and> children c' = children c \<and> Suc (unat (nlinks c')) = unat (nlinks c))"
      using c(2) n by simp
  qed
  moreover have "used_bytes (bt_insert p ?par ?t2) = unat (total_used fs')"
  proof -
    have a: "used_bytes (bt_insert p ?par ?t2) = used_bytes ?t2"
      using used_bytes_replace [OF bt2 p2, of ?par] by simp
    have b: "used_bytes ?t1 = used_bytes (inodes fs)" using used_bytes_replace [OF bt c(1), of ?c] by simp
    have "used_bytes (bt_remove x ?t1) = used_bytes (inodes fs) - length (data c)"
      using used_bytes_remove [of ?t1 x ?c] bt b by simp
    then have "used_bytes (bt_insert p ?par ?t2)
        = (if ?n = 0 then unat (total_used fs) - length (data c) else unat (total_used fs))"
      by (simp only: a if_distrib [of used_bytes] b fs_invD(3) [OF inv])
    then show ?thesis
      using data_bound [OF inv c(1)] by (simp add: fs' unat_sub word_le_nat_alt)
  qed
  moreover have "unat (total_used fs') \<le> unat (max_size fs)"
    using space_bounds [OF inv] data_bound [OF inv c(1)] by (auto simp: fs' unat_sub word_le_nat_alt)
  moreover have "node_ok ?c" "node_ok ?par" using fs_invD(4) [OF inv] par(1) c(1) by (auto simp: node_ok_def)
  ultimately show ?thesis
    using inv par(1) c(1) unfolding fs_inv_def space_ok_def numbers_ok_def
    by (auto simp: fs' word_le_nat_alt split: if_splits)
qed

lemma rmdir_inv:
  assumes inv: "fs_inv fs" and rm: "rmdir p nm fs = Ret (Inr u, fs')"
  shows "fs_inv fs'"
proof -
  from rm obtain par x c where par: "bt_get (inodes fs) p = Some par" "bt_get (children par) nm = Some x"
    and c: "bt_get (inodes fs) x = Some c" "file_type c = Directory" and nd: "\<not> is_dot nm"
    and empty: "real_children c = []"
    by (auto simp: rmdir_def Let_def split: if_splits option.splits)
  note ok = fs_invD(1) [OF inv] and bt = fs_invD(2) [OF inv]
  have none: "bt_get (children c) nm' = Some j \<Longrightarrow> is_dot nm'" for nm' j
    using real_children_iff [of c] empty by auto
  have px: "p \<noteq> x" using none [of nm x] par c(1) nd by auto
  let ?k = "saturating_sub (nlinks par) 1"
  let ?par = "par\<lparr>children := bt_remove nm (children par), nlinks := ?k\<rparr>"
  let ?t1 = "bt_remove x (inodes fs)"
  have fs': "fs' = set_inodes (bt_insert p ?par ?t1) fs"
    using rm par c nd px empty by (auto simp: rmdir_def Let_def split: if_splits)
  have p1: "bt_get ?t1 p = Some par" using par(1) px by simp
  have bt1: "bt_ok ?t1" using bt by simp
  have "crefs j (children c) = 0" for j
    using crefs_pos_ex [OF tree_okD(3) [OF ok c(1)], of j] none by (metis gr0I)
  then have "refs ?t1 j = refs (inodes fs) j" for j using refs_remove [OF bt c(1), of j] by simp
  then have refs: "refs (bt_insert p ?par ?t1) j + (if j = x then 1 else 0) = refs (inodes fs) j" for j
    using refs_drop_entry [OF bt1 p1 tree_okD(3) [OF ok par(1)] par(2) nd] by metis
  have "refs (inodes fs) x = 1"
    using tree_okD(4) [OF ok c] refs_pos [OF bt par nd] by (auto simp: dir_ok_def split: if_splits)
  then have "tree_ok (bt_insert p ?par ?t1)"
    using bt1 refs empty by (intro tree_ok_drop [OF ok par nd c(1) px, where co = None and k = ?k]) auto
  moreover have "used_bytes (bt_insert p ?par ?t1) = used_bytes (inodes fs)"
  proof -
    have "used_bytes (bt_insert p ?par ?t1) = used_bytes ?t1"
      using used_bytes_replace [OF bt1 p1, of ?par] by simp
    moreover have "data c = []" using fs_invD(4) [OF inv c(1)] c(2) by (simp add: node_ok_def)
    ultimately show ?thesis using used_bytes_remove [OF bt c(1)] by simp
  qed
  moreover have "node_ok ?par" using fs_invD(4) [OF inv par(1)] by (simp add: node_ok_def)
  ultimately show ?thesis
    using inv par(1) unfolding fs_inv_def space_ok_def numbers_ok_def by (auto simp: fs' split: if_splits)
qed

lemma rename_Inr:
  assumes inv: "fs_inv fs" and adm: "admissible (OpRename op on np nn) fs"
    and rn: "rename op on np nn fs = Ret (Inr u, fs')"
  obtains ov nv x c where "bt_get (inodes fs) op = Some ov" and "bt_get (children ov) on = Some x"
    and "\<not> is_dot on" and "\<not> is_dot nn" and "bt_get (inodes fs) np = Some nv" and "file_type nv = Directory"
    and "bt_get (children nv) nn = None" and "bt_get (inodes fs) x = Some c" and "x \<noteq> op" and "x \<noteq> np"
    and "\<exists>t. rename_move op on np nn x (inodes fs) = Ret t \<and> fs' = set_inodes t fs"
proof -
  from rn obtain ov x where o: "bt_get (inodes fs) op = Some ov" "bt_get (children ov) on = Some x"
    "\<not> is_dot on" "\<not> is_dot nn"
    by (auto simp: rename_def split: if_splits option.splits)
  from adm o obtain nv where n: "bt_get (inodes fs) np = Some nv" "file_type nv = Directory"
    "bt_get (children nv) nn = None" "x \<noteq> op" "x \<noteq> np"
    by (auto simp: admissible_def split: option.splits)
  from no_danglingD [OF tree_okD(2) [OF fs_invD(1) [OF inv]] o(1,2)] obtain c where c: "bt_get (inodes fs) x = Some c" by blast
  have "rename_replace np nn fs = Inr (inodes fs)" using n by (simp add: rename_replace_def)
  with rn o have "\<exists>t. rename_move op on np nn x (inodes fs) = Ret t \<and> fs' = set_inodes t fs"
    by (auto simp: rename_def rust_bind_Ret_iff)
  with o n c show ?thesis using that by blast
qed

lemma rename_inv:
  assumes inv: "fs_inv fs" and adm: "admissible (OpRename op on np nn) fs"
    and rn: "rename op on np nn fs = Ret (Inr u, fs')"
  shows "fs_inv fs'"
proof -
  note ok = fs_invD(1) [OF inv] and bt = fs_invD(2) [OF inv]
  obtain ov nv x c t where o: "bt_get (inodes fs) op = Some ov" "bt_get (children ov) on = Some x" "\<not> is_dot on"
    and n: "bt_get (inodes fs) np = Some nv" "file_type nv = Directory" "bt_get (children nv) nn = None" "\<not> is_dot nn"
    and c: "bt_get (inodes fs) x = Some c" "x \<noteq> op" "x \<noteq> np"
    and t: "rename_move op on np nn x (inodes fs) = Ret t" "fs' = set_inodes t fs"
    using rename_Inr [OF inv adm rn] by metis
  note bto = tree_okD(3) [OF ok o(1)] and btn = tree_okD(3) [OF ok n(1)] and btc = tree_okD(3) [OF ok c(1)]
  define ov' where "ov' = ov\<lparr>children := bt_remove on (children ov)\<rparr>"
  define mv where "mv = (if np = op then ov' else nv)"
  define nv' where "nv' = mv\<lparr>children := bt_insert nn x (children mv)\<rparr>"
  define c' where "c' = (if file_type c = Directory then c\<lparr>children := bt_insert ''..'' np (children c)\<rparr> else c)"
  let ?t2 = "bt_insert op ov' (inodes fs)"
  let ?t3 = "bt_insert np nv' ?t2"
  have g2: "bt_get ?t2 np = Some mv" using n(1) by (simp add: mv_def)
  have g3: "bt_get ?t3 x = Some c" using c by simp
  have t_eq: "t = (if file_type c = Directory then bt_insert x c' ?t3 else ?t3)"
    using t(1) o(1) g2 g3
    by (auto simp: rename_move_def Let_def ov'_def [symmetric] nv'_def [symmetric] c'_def bt_modify_def split: if_splits)
  have same_c: "bt_get t j = bt_get (bt_insert x c' ?t3) j" for j using c by (simp add: t_eq c'_def)
  have mvn: "bt_get (children mv) nn = None" using n(1,3) o(1) by (auto simp: mv_def ov'_def)
  have refs2: "refs ?t2 j + (if j = x then 1 else 0) = refs (inodes fs) j" for j
    using refs_drop_entry [OF bt o(1) bto o(2,3), of "nlinks ov" j] by (simp add: ov'_def)
  have refs3: "refs ?t3 j = refs ?t2 j + (if j = x then 1 else 0)" for j
    using refs_insert_old [of ?t2 np mv nv' j] bt g2 crefs_insert [OF mvn, of j x] n(4) by (auto simp: nv'_def)
  have refs: "refs t j = refs (inodes fs) j" for j
  proof (cases "file_type c = Directory")
    case True
    have "crefs j (children c') = crefs j (children c)"
      using True btc by (simp add: c'_def crefs_insert_dot)
    then show ?thesis
      using True refs_insert_old [OF _ g3, of c' j] bt refs2 [of j] refs3 [of j] by (simp add: t_eq)
  next
    case False
    then show ?thesis using refs2 [of j] refs3 [of j] by (simp add: t_eq)
  qed
  have btt: "bt_ok t" using bt by (simp add: t_eq)
  have same_np: "nv = ov" if "np = op" using that o(1) n(1) by simp
  have "tree_ok t"
  proof (rule tree_ok_move [OF ok o n c btt, where c' = c' and nv' = nv' and ov' = ov'])
    show "bt_get t j = (if j = x then Some c' else if j = np then Some nv' else if j = op then Some ov' else bt_get (inodes fs) j)" for j
      using same_c by simp
    show "file_type c' = file_type c" "nlinks c' = nlinks c" by (simp_all add: c'_def)
    show "file_type nv' = file_type nv" using same_np by (auto simp: nv'_def mv_def ov'_def)
    show "file_type ov' = file_type ov" by (simp add: ov'_def)
    show "bt_ok (children c')" "bt_ok (children nv')" "bt_ok (children ov')"
      using bto btn btc by (auto simp: c'_def nv'_def mv_def ov'_def)
    show "bt_get (children c') nm = (if file_type c = Directory \<and> nm = ''..'' then Some np else bt_get (children c) nm)" for nm
      by (simp add: c'_def)
    show "file_type c \<noteq> Directory \<Longrightarrow> children c' = children c" by (simp add: c'_def)
    show "bt_get (children nv') nm = (if nm = nn then Some x else if np = op \<and> nm = on then None else bt_get (children nv) nm)" for nm
      using same_np by (auto simp: nv'_def mv_def ov'_def)
    show "bt_get (children ov') nm = (if nm = on then None else bt_get (children ov) nm)" for nm
      by (simp add: ov'_def)
    show "refs t j = refs (inodes fs) j" for j by (rule refs)
  qed
  moreover have "used_bytes t = used_bytes (inodes fs)"
  proof -
    have "used_bytes ?t2 = used_bytes (inodes fs)" using used_bytes_replace [OF bt o(1), of ov'] by (simp add: ov'_def)
    moreover have "used_bytes ?t3 = used_bytes ?t2"
      using used_bytes_replace [OF _ g2, of nv'] bt by (simp add: nv'_def)
    moreover have "data c' = data c" by (simp add: c'_def)
    then have "used_bytes (bt_insert x c' ?t3) = used_bytes ?t3"
      using used_bytes_replace [OF _ g3, of c'] bt by simp
    ultimately show ?thesis by (simp add: t_eq)
  qed
  moreover have nodes: "node_ok c'" "node_ok nv'" "node_ok ov'"
    using fs_invD(4) [OF inv] o(1) n(1) c(1) by (auto simp: node_ok_def c'_def nv'_def mv_def ov'_def)
  moreover have "node_ok v" if "bt_get t j = Some v" for j v
    using that nodes fs_invD(4) [OF inv] by (auto simp: same_c split: if_splits)
  moreover have "bt_get (inodes fs) j \<noteq> None" if "bt_get t j \<noteq> None" for j
    using that o(1) n(1) c(1) by (auto simp: same_c split: if_splits)
  ultimately show ?thesis
    using inv unfolding fs_inv_def space_ok_def numbers_ok_def by (simp add: t(2))
qed

text \<open>Admissible operations that return, as steps of a transition system.\<close>

inductive fs_step :: "TmpfsFilesystem \<Rightarrow> TmpfsFilesystem \<Rightarrow> bool" where
  run: "admissible op fs \<Longrightarrow> fs_exec op fs = Ret (r, fs') \<Longrightarrow> fs_step fs fs'"

inductive_cases fs_stepE: "fs_step fs fs'"

definition mounted :: "TmpfsFilesystem \<Rightarrow> bool" where
  "mounted fs \<longleftrightarrow> (\<exists>name limit. limit \<le> ISIZE_MAX \<and> fs = tmpfs_new name limit)"

lemma drop_value_None: "drop_value x = (None, fs') \<longleftrightarrow> (\<exists>v. x = (Inr v, fs'))"
  by (cases x) (auto simp: drop_value_def split: sum.splits)

lemma drop_value_Some: "drop_value x = (Some e, fs') \<longleftrightarrow> x = (Inl e, fs')"
  by (cases x) (auto simp: drop_value_def split: sum.splits)

lemma failed_unchanged:
  assumes "fs_exec op fs = Ret (Some e, fs')"
  shows "fs' = fs"
proof (cases op)
  case (OpCreate p nm ft m u g)
  with assms show ?thesis
    by (auto simp: fs_exec_def drop_value_Some create_def alloc_ino_def Let_def split: if_splits option.splits)
next
  case (OpWrite i off bs)
  with assms show ?thesis
    by (auto simp: fs_exec_def drop_value_Some write_file_def Let_def rust_bind_Ret_iff
        split: if_splits option.splits)
next
  case (OpTruncate i sz)
  with assms show ?thesis
    by (auto simp: fs_exec_def drop_value_Some truncate_file_def Let_def rust_bind_Ret_iff
        split: if_splits option.splits)
next
  case (OpUnlink p nm)
  with assms show ?thesis
    by (auto simp: fs_exec_def drop_value_Some unlink_def Let_def rust_bind_Ret_iff
        split: if_splits option.splits)
next
  case (OpLink p nm i)
  with assms show ?thesis
    by (auto simp: fs_exec_def drop_value_Some link_def split: if_splits option.splits)
next
  case (OpSymlink p nm t u g)
  with assms show ?thesis
    by (auto simp: fs_exec_def drop_value_Some symlink_def create_def alloc_ino_def Let_def
        split: if_splits option.splits sum.splits)
next
  case (OpRmdir p nm)
  with assms show ?thesis
    by (auto simp: fs_exec_def drop_value_Some rmdir_def Let_def rust_bind_Ret_iff
        split: if_splits option.splits)
next
  case (OpChmod i m)
  with assms show ?thesis by (auto simp: fs_exec_def drop_value_Some chmod_def split: option.splits)
next
  case (OpChown i u g)
  with assms show ?thesis by (auto simp: fs_exec_def drop_value_Some chown_def split: option.splits)
next
  case (OpRename op on np nn)
  with assms show ?thesis
    by (auto simp: fs_exec_def drop_value_Some rename_def rust_bind_Ret_iff
        split: if_splits option.splits sum.splits)
qed

lemma symlink_inv:
  assumes inv: "fs_inv fs" and n: "next_ino fs < - 1" and s: "symlink p nm t u g fs = (Inr i, fs')"
  shows "fs_inv fs'"
proof -
  from s obtain fs1 where c: "create p nm Symlink 0x1FF u g fs = (Inr i, fs1)"
    and fs': "fs' = set_inodes (bt_modify i (\<lambda>n. n\<lparr>symlink_target := Some t, size := word_of_nat (length t)\<rparr>) (inodes fs1)) fs1"
    by (auto simp: symlink_def split: prod.splits sum.splits)
  note cr = create_inv [OF inv n c]
  from cr(2) obtain v where v: "bt_get (inodes fs1) i = Some v" by auto
  then have "fs' = set_inodes (bt_insert i (v\<lparr>symlink_target := Some t, size := word_of_nat (length t)\<rparr>) (inodes fs1)) fs1"
    by (simp add: fs' bt_modify_def)
  then show ?thesis
    using fs_inv_meta [OF cr(1) v, of "v\<lparr>symlink_target := Some t, size := word_of_nat (length t)\<rparr>"] cr(3) [OF v]
    by (simp add: node_ok_def)
qed

lemma meta_inv:
  assumes "fs_inv fs"
  shows "chmod i m fs = (Inr u, fs') \<Longrightarrow> fs_inv fs'" and "chown i v g fs = (Inr u, fs') \<Longrightarrow> fs_inv fs'"
  using assms fs_invD(4) [OF assms]
  by (auto simp: chmod_def chown_def node_ok_def split: option.splits intro!: fs_inv_meta)

lemma fs_step_inv:
  assumes "fs_step fs fs'" and inv: "fs_inv fs"
  shows "fs_inv fs'"
  using assms(1)
proof (rule fs_stepE)
  fix op r
  assume adm: "admissible op fs" and ex: "fs_exec op fs = Ret (r, fs')"
  show ?thesis
  proof (cases r)
    case (Some e)
    with failed_unchanged [of op fs e fs'] ex inv show ?thesis by simp
  next
    case None
    note ex = ex [unfolded None]
    show ?thesis
    proof (cases op)
      case (OpCreate p nm ft m u g)
      with ex adm show ?thesis by (auto simp: fs_exec_def drop_value_None admissible_def intro: create_inv [OF inv])
    next
      case (OpWrite i off bs)
      with ex adm show ?thesis
        by (auto simp: fs_exec_def rust_bind_Ret_iff drop_value_None admissible_def intro: write_inv [OF inv])
    next
      case (OpTruncate i sz)
      with ex obtain u where tr: "truncate_file i sz fs = Ret (Inr u, fs')"
        by (auto simp: fs_exec_def rust_bind_Ret_iff drop_value_None)
      then obtain n where n: "bt_get (inodes fs) i = Some n"
        by (auto simp: truncate_file_def split: option.splits)
      with adm OpTruncate have "file_type n \<noteq> Directory" by (simp add: admissible_def)
      from truncate_inv [OF inv n this tr] show ?thesis .
    next
      case (OpLink p nm i)
      with ex adm show ?thesis by (auto simp: fs_exec_def drop_value_None intro: link_inv [OF inv])
    next
      case (OpRename op on np nn)
      with ex adm show ?thesis
        by (auto simp: fs_exec_def rust_bind_Ret_iff drop_value_None intro: rename_inv [OF inv])
    qed (use ex adm in \<open>auto simp: fs_exec_def rust_bind_Ret_iff drop_value_None admissible_def
        intro: unlink_inv [OF inv] rmdir_inv [OF inv] symlink_inv [OF inv] meta_inv [OF inv]\<close>)
  qed
qed

lemma mounted_inv:
  assumes "limit \<le> ISIZE_MAX"
  shows "fs_inv (tmpfs_new name limit)"
proof -
  let ?root = "(inode_new 1 Directory 0x3FF 0 0)\<lparr>children := bt_insert ''..'' 1 (bt_insert ''.'' 1 [])\<rparr>"
  let ?t = "[(1 :: u64, ?root)]"
  have t: "inodes (tmpfs_new name limit) = ?t"
    by (simp add: tmpfs_new_def Let_def inode_new_def bt_empty_def)
  have get: "bt_get ?t i = (if i = 1 then Some ?root else None)" for i by (simp add: bt_get_def)
  have ch: "bt_get (children ?root) nm = (if nm = ''.'' \<or> nm = ''..'' then Some 1 else None)" for nm
    by (simp add: bt_get_def)
  have refs: "refs ?t i = 0" for i
    by (simp add: refs_def crefs_def bt_sum_def)
  have "tree_ok ?t"
  proof (rule tree_okI)
    show "bt_ok ?t" by (simp add: bt_ok_def)
    show "no_dangling ?t"
      unfolding no_dangling_def get by (auto simp: bt_get_def split: if_splits)
    show "bt_get ?t 1 = Some ?root" "file_type ?root = Directory" by (simp_all add: bt_get_def inode_new_def)
    fix i n assume n: "bt_get ?t i = Some n"
    then have i: "i = 1" and r: "n = ?root" by (auto simp: bt_get_def split: if_splits)
    show "bt_ok (children n)" unfolding r using dots_ok [of 1 1] by simp
    show "dir_ok ?t i n"
      unfolding i r
      by (rule dir_okI [where q = 1 and m = ?root]) (simp_all add: refs_def crefs_def bt_sum_def bt_get_def inode_new_def)
    show "file_ok ?t i n" if "file_type n \<noteq> Directory" using that r by (simp add: inode_new_def)
  qed
  then show ?thesis
    using assms unfolding fs_inv_def space_ok_def numbers_ok_def t
    by (auto simp: bt_get_def used_bytes_def bt_sum_def tmpfs_new_def Let_def inode_new_def node_ok_def split: if_splits)
qed

interpretation tmpfs: inductive_invariant mounted fs_step fs_inv
  by unfold_locales (auto simp: mounted_def mounted_inv fs_step_inv)

section \<open>Properties\<close>



text \<open>
  Failed operations change nothing: whenever an operation reports an error, the file
  system is exactly what it was before.
\<close>
theorem tmpfs_failure_atomic:
  assumes "fs_exec op fs = Ret (Some e, fs')"
  shows "fs' = fs"
  using assms by (rule failed_unchanged)

text \<open>
  What is written is read back. After a successful write the same range reads as the
  bytes written, every other byte of the file and every other file is as before, and a gap
  between the old end and the write reads as zeros.
\<close>
theorem tmpfs_read_after_write:
  assumes "fs_inv fs" and "length bytes < 2 ^ 63" and "write_file i offset bytes fs = Ret (Inr k, fs')"
  shows "read_file i offset (length bytes) fs' = Inr bytes
     \<and> (\<exists>n n'. bt_get (inodes fs) i = Some n \<and> bt_get (inodes fs') i = Some n'
          \<and> (\<forall>j < length (data n'). j < unat offset \<or> unat offset + length bytes \<le> j \<longrightarrow>
               data n' ! j = (if j < length (data n) then data n ! j else 0)))
     \<and> (\<forall>i'. i' \<noteq> i \<longrightarrow> bt_get (inodes fs') i' = bt_get (inodes fs) i')"
proof -
  let ?stop = "unat offset + length bytes"
  obtain n where n: "bt_get (inodes fs) i = Some n" "file_type n \<noteq> Directory"
    and fs': "fs' = fs\<lparr>inodes := bt_insert i (n\<lparr>
           data := take (unat offset) (pad ?stop (data n)) @ bytes @ drop ?stop (data n),
           size := word_of_nat (max ?stop (length (data n)))\<rparr>) (inodes fs),
         total_used := total_used fs'\<rparr>"
    by (rule write_file_Inr [OF assms]) blast
  let ?d = "take (unat offset) (pad ?stop (data n)) @ bytes @ drop ?stop (data n)"
  have ino: "inodes fs' = bt_insert i (n\<lparr>data := ?d, size := word_of_nat (max ?stop (length (data n)))\<rparr>) (inodes fs)"
    by (subst fs') simp
  have inv': "fs_inv fs'" using write_inv [OF assms] .
  have get: "bt_get (inodes fs') i = Some (n\<lparr>data := ?d, size := word_of_nat (max ?stop (length (data n)))\<rparr>)"
    by (simp add: ino)
  have len: "unat (word_of_nat (length ?d) :: u64) = length ?d" using data_bound(3) [OF inv' get] by simp
  have "read_file i offset (length bytes) fs' = Inr bytes"
  proof (cases "bytes = []")
    case False
    then have "\<not> offset \<ge> word_of_nat (length ?d)" using len by (simp add: word_le_nat_alt)
    then show ?thesis using n(2) get by (simp add: read_file_def Let_def)
  qed (use n(2) get in \<open>simp add: read_file_def Let_def\<close>)
  moreover have "?d ! j = (if j < length (data n) then data n ! j else 0)"
    if "j < length ?d" "j < unat offset \<or> ?stop \<le> j" for j
    using that by (auto simp: nth_append pad_def)
  ultimately show ?thesis using n(1) get by (auto simp: ino)
qed

text \<open>
  Renaming an entry to itself destroys the file. \<^verbatim>\<open>rename\<close> removes the inode the new name
  refers to without comparing it with the one being moved: when both are the same, the call
  succeeds, the entry stays and the inode and its data are gone, still charged to the quota.
\<close>
theorem rename_to_itself_dangles:
  assumes "bt_get (inodes fs) p = Some par" and "file_type par = Directory"
    and "bt_get (children par) nm = Some x" and "\<not> is_dot nm" and "p \<noteq> x"
    and "bt_get (inodes fs) x = Some c" and "file_type c \<noteq> Directory"
  shows "\<exists>fs'. rename p nm p nm fs = Ret (Inr (), fs') \<and> lookup p nm fs' = Inr x
     \<and> bt_get (inodes fs') x = None \<and> total_used fs' = total_used fs"
proof -
  have "rename_replace p nm fs = Inr (bt_remove x (inodes fs))"
    using assms by (simp add: rename_replace_def)
  then show ?thesis
    using assms by (simp add: rename_def rename_move_def Let_def lookup_def)
qed

text \<open>
  Renaming into a directory that does not exist panics: the entry is removed from its old
  parent before the new parent is looked up, and that lookup is unwrapped.
\<close>
theorem rename_missing_parent_panics:
  assumes "bt_get (inodes fs) p = Some par" and "bt_get (children par) nm = Some x"
    and "\<not> is_dot nm" and "\<not> is_dot nn" and "bt_get (inodes fs) q = None"
  shows "rename p nm q nn fs = Panic"
proof -
  have "p \<noteq> q" using assms by auto
  then show ?thesis
    using assms by (simp add: rename_def rename_replace_def rename_move_def Let_def)
qed

text \<open>
  The space check wraps. A one-byte write near the end of the address range to a file, in
  a file system where another file holds data, is not refused for lack of space: the sum in
  the check wraps below the limit, and growing the file then panics.
\<close>
theorem write_space_check_wraps:
  assumes inv: "fs_inv fs" and n: "bt_get (inodes fs) i = Some n" "file_type n \<noteq> Directory"
    and more: "length (data n) < unat (total_used fs)"
  shows "write_file i (- 2) [b] fs = Panic"
proof -
  let ?old = "word_of_nat (length (data n)) :: u64"
  note old = data_bound(2,3) [OF inv n(1)]
  have stop: "(- 2 :: u64) + 1 = - 1" by simp
  have lt: "?old < - 1" using old by (simp add: word_less_nat_alt unat_minus_1)
  have eq: "total_used fs + (- 1 - ?old) = (total_used fs - ?old) - 1" by simp
  have d: "unat (total_used fs - ?old) = unat (total_used fs) - length (data n)"
    using more old by (simp add: unat_sub word_le_nat_alt)
  with more have "total_used fs - ?old \<noteq> 0" by (metis unat_0 zero_less_diff less_irrefl)
  then have "unat (total_used fs + (- 1 - ?old)) \<le> unat (total_used fs)"
    unfolding eq using unat_minus_one [of "total_used fs - ?old"] d by simp
  then have "\<not> max_size fs < total_used fs + (- 1 - ?old)"
    using space_bounds(1) [OF inv] by (simp add: word_less_nat_alt)
  moreover have "vec_resize (- 1) (data n) = Panic"
    using old(1) by (simp add: vec_resize_def ISIZE_MAX_def unat_minus_1 word_less_nat_alt)
  ultimately show ?thesis
    using n lt by (simp add: write_file_def Let_def stop)
qed

section \<open>Witnesses\<close>

definition wit_run :: "TmpfsOp list \<Rightarrow> TmpfsFilesystem \<Rightarrow> TmpfsFilesystem" where
  "wit_run ops fs = fold (\<lambda>op fs. case fs_exec op fs of Ret (_, fs') \<Rightarrow> fs' | Panic \<Rightarrow> fs) ops fs"

definition wit0 :: TmpfsFilesystem where
  "wit0 = tmpfs_new ''t'' 4096"

definition wit1 :: TmpfsFilesystem where
  "wit1 = wit_run [OpCreate 1 ''a'' Regular 0 0 0] wit0"

definition wit2 :: TmpfsFilesystem where
  "wit2 = wit_run [OpWrite 2 0 [7, 8, 9]] wit1"

definition wit3 :: TmpfsFilesystem where
  "wit3 = wit_run [OpCreate 1 ''b'' Regular 0 0 0] wit2"

lemma wit_mounted: "mounted wit0"
  by (auto simp: mounted_def wit0_def ISIZE_MAX_def intro!: exI [of _ 4096])

lemma wit_fs_steps: "fs_step wit0 wit1" "fs_step wit1 wit2" "fs_step wit2 wit3"
proof -
  have e: "fs_exec (OpCreate 1 ''a'' Regular 0 0 0) wit0 = Ret (None, wit1)" by code_simp
  show "fs_step wit0 wit1" by (rule fs_step.run [OF _ e]) code_simp
  have e: "fs_exec (OpWrite 2 0 [7, 8, 9]) wit1 = Ret (None, wit2)" by code_simp
  show "fs_step wit1 wit2" by (rule fs_step.run [OF _ e]) (simp add: admissible_def)
  have e: "fs_exec (OpCreate 1 ''b'' Regular 0 0 0) wit2 = Ret (None, wit3)" by code_simp
  show "fs_step wit2 wit3" by (rule fs_step.run [OF _ e]) code_simp
qed

lemma wit_reach: "fs_step\<^sup>*\<^sup>* wit0 wit3" "fs_inv wit1" "fs_inv wit3"
proof -
  show r: "fs_step\<^sup>*\<^sup>* wit0 wit3"
    by (rule rtranclp.rtrancl_into_rtrancl [OF rtranclp.rtrancl_into_rtrancl [OF r_into_rtranclp]]) (rule wit_fs_steps)+
  show "fs_inv wit3" by (rule tmpfs.reachable_inv [OF wit_mounted r])
  show "fs_inv wit1" by (rule tmpfs.reachable_inv [OF wit_mounted r_into_rtranclp]) (rule wit_fs_steps)
qed



theorem tmpfs_failure_atomic_witness:
  "fs_exec (OpRmdir 1 ''a'') wit3 = Ret (Some NotADirectory, wit3)"
proof -
  have "case fs_exec (OpRmdir 1 ''a'') wit3 of Ret (r, _) \<Rightarrow> r = Some NotADirectory | Panic \<Rightarrow> False"
    by code_simp
  then obtain fs' where "fs_exec (OpRmdir 1 ''a'') wit3 = Ret (Some NotADirectory, fs')"
    by (auto split: rust.splits)
  with tmpfs_failure_atomic [OF this] show ?thesis by simp
qed

theorem tmpfs_read_after_write_witness:
  "\<exists>fs'. write_file 2 5 [1, 2] wit3 = Ret (Inr 2, fs') \<and> read_file 2 5 (length [1, 2 :: u8]) fs' = Inr [1, 2]"
proof -
  have "case write_file 2 5 [1, 2] wit3 of Ret (r, _) \<Rightarrow> r = Inr 2 | Panic \<Rightarrow> False" by code_simp
  then obtain fs' where "write_file 2 5 [1, 2] wit3 = Ret (Inr 2, fs')" by (auto split: rust.splits)
  moreover have "length [1, 2 :: u8] < 2 ^ 63" by simp
  ultimately show ?thesis using tmpfs_read_after_write [OF wit_reach(3)] by blast
qed

lemma wit3_files:
  "map_option file_type (bt_get (inodes wit3) 1) = Some Directory"
  "Option.bind (bt_get (inodes wit3) 1) (\<lambda>n. bt_get (children n) ''a'') = Some 2"
  "map_option (\<lambda>n. (file_type n, data n)) (bt_get (inodes wit3) 2) = Some (Regular, [7, 8, 9])"
  "map_option (\<lambda>n. (file_type n, data n)) (bt_get (inodes wit3) 3) = Some (Regular, [])"
  "bt_get (inodes wit3) 9 = None" "total_used wit3 = 3" "\<not> is_dot ''a''" "\<not> is_dot ''z''"
  by code_simp+

lemma wit3_nodes:
  obtains par c n where "bt_get (inodes wit3) 1 = Some par" "file_type par = Directory"
    "bt_get (children par) ''a'' = Some 2" "bt_get (inodes wit3) 2 = Some c" "file_type c \<noteq> Directory"
    "bt_get (inodes wit3) 3 = Some n" "file_type n \<noteq> Directory" "data n = []"
  using wit3_files(1-4) by (auto simp: bind_eq_Some_conv)

theorem rename_to_itself_dangles_witness:
  "\<exists>fs'. rename 1 ''a'' 1 ''a'' wit3 = Ret (Inr (), fs') \<and> lookup 1 ''a'' fs' = Inr 2
     \<and> bt_get (inodes fs') 2 = None \<and> total_used fs' = total_used wit3"
  by (rule wit3_nodes) (rule rename_to_itself_dangles, simp_all add: wit3_files(7))

theorem rename_missing_parent_panics_witness: "rename 1 ''a'' 9 ''z'' wit3 = Panic"
  by (rule wit3_nodes) (rule rename_missing_parent_panics, simp_all add: wit3_files(5,7,8))

theorem write_space_check_wraps_witness: "write_file 3 (- 2) [0] wit3 = Panic"
proof -
  obtain n where "bt_get (inodes wit3) 3 = Some n" "file_type n \<noteq> Directory" "data n = []"
    by (rule wit3_nodes)
  then show ?thesis using write_space_check_wraps [OF wit_reach(3), of 3 n 0] by (simp add: wit3_files(6))
qed

end
