(* ===== verification/Firewall.thy ===== *)
theory Firewall
  imports Capability
begin

text \<open>
  The packet filter (\<^verbatim>\<open>kernel/src/firewall.rs\<close>): rule matching, IPv4 header parsing, the
  connection tracker, the token-bucket rate limiter, rule management behind the network
  capability, the built-in profiles and \<^verbatim>\<open>filter_packet\<close>. Times are arguments; the clock
  that stamps a new rule (\<^verbatim>\<open>hpet::read_millis\<close>) is the argument \<open>ts\<close>.
\<close>

section \<open>Matching\<close>

datatype Verdict = Allow | Deny | DenyAndLog

datatype Direction = Inbound | Outbound | Both

datatype Protocol = ProtoAny | Tcp | Udp | Icmp

definition from_ip_proto :: "u8 \<Rightarrow> Protocol" where
  "from_ip_proto n = (if n = 1 then Icmp else if n = 6 then Tcp else if n = 17 then Udp else ProtoAny)"

fun proto_code :: "Protocol \<Rightarrow> u64" where
  "proto_code ProtoAny = 0"
| "proto_code Tcp = 1"
| "proto_code Udp = 2"
| "proto_code Icmp = 3"

text \<open>An IPv4 address, most significant byte first.\<close>

type_synonym Addr = "u8 \<times> u8 \<times> u8 \<times> u8"

fun addr_be :: "Addr \<Rightarrow> u32" where
  "addr_be (a, b, c, d) = push_bit 24 (ucast a) OR push_bit 16 (ucast b) OR push_bit 8 (ucast c) OR ucast d"

definition u16_be :: "u8 \<Rightarrow> u8 \<Rightarrow> u16" where
  "u16_be hi lo = push_bit 8 (ucast hi) OR ucast lo"

datatype AddrMatch = AddrAny | AddrExact Addr | AddrSubnet Addr u8

text \<open>
  A shift by the full width takes its amount modulo 32 in a release build, so the mask of a
  prefix of length 0 has all bits set.
\<close>

definition subnet_mask :: "u8 \<Rightarrow> u32" where
  "subnet_mask prefix =
     (if prefix \<ge> 32 then 0xFFFFFFFF
      else NOT (push_bit (unat (32 - prefix) mod 32) 1 - 1))"

fun addr_matches :: "AddrMatch \<Rightarrow> Addr \<Rightarrow> bool" where
  "addr_matches AddrAny a = True"
| "addr_matches (AddrExact b) a = (b = a)"
| "addr_matches (AddrSubnet net prefix) a =
     (addr_be net AND subnet_mask prefix = addr_be a AND subnet_mask prefix)"

datatype PortMatch = PortAny | PortSingle u16 | PortRange u16 u16

fun port_matches :: "PortMatch \<Rightarrow> u16 \<Rightarrow> bool" where
  "port_matches PortAny port = True"
| "port_matches (PortSingle p) port = (p = port)"
| "port_matches (PortRange lo hi) port = (lo \<le> port \<and> port \<le> hi)"

record FirewallRule =
  rule_id :: u64
  rule_direction :: Direction
  rule_protocol :: Protocol
  rule_src_addr :: AddrMatch
  rule_dst_addr :: AddrMatch
  rule_src_port :: PortMatch
  rule_dst_port :: PortMatch
  rule_app_id :: "u64 option"
  action :: Verdict
  description :: string
  rule_enabled :: bool
  hit_count :: u64
  created_at :: u64

record PacketInfo =
  src_addr :: Addr
  dst_addr :: Addr
  src_port :: u16
  dst_port :: u16
  protocol :: Protocol
  pkt_length :: usize
  app_id :: "u64 option"

definition matches_packet :: "FirewallRule \<Rightarrow> PacketInfo \<Rightarrow> Direction \<Rightarrow> bool" where
  "matches_packet r pkt d =
     (if \<not> rule_enabled r then False
      else if rule_direction r \<noteq> Both \<and> rule_direction r \<noteq> d then False
      else if rule_protocol r \<noteq> ProtoAny \<and> rule_protocol r \<noteq> protocol pkt then False
      else if \<not> addr_matches (rule_src_addr r) (src_addr pkt) then False
      else if \<not> addr_matches (rule_dst_addr r) (dst_addr pkt) then False
      else if \<not> port_matches (rule_src_port r) (src_port pkt) then False
      else if \<not> port_matches (rule_dst_port r) (dst_port pkt) then False
      else (case rule_app_id r of None \<Rightarrow> True | Some a \<Rightarrow> app_id pkt = Some a))"

section \<open>Packets\<close>

text \<open>Reading the bytes at some positions of a slice; a position past the end panics.\<close>

definition index_all :: "u8 list \<Rightarrow> nat list \<Rightarrow> u8 list rust" where
  "index_all d is = (if \<forall>i \<in> set is. i < length d then Ret (map (\<lambda>i. d ! i) is) else Panic)"

definition from_ipv4 :: "u8 list \<Rightarrow> u64 option \<Rightarrow> PacketInfo option rust" where
  "from_ipv4 d app =
     (if length d < 20 then Ret None
      else rust_bind (index_all d [0]) (\<lambda>b0.
        let ihl = unat (b0 ! 0 AND 0x0F) * 4 in
        if length d < ihl then Ret None
        else rust_bind (index_all d [9, 12, 13, 14, 15, 16, 17, 18, 19, 2, 3]) (\<lambda>h.
          let proto = from_ip_proto (h ! 0);
              src = (h ! 1, h ! 2, h ! 3, h ! 4);
              dst = (h ! 5, h ! 6, h ! 7, h ! 8);
              total_len = ucast (u16_be (h ! 9) (h ! 10))
          in rust_bind
               (if length d \<ge> ihl + 4 \<and> (proto = Tcp \<or> proto = Udp)
                then rust_bind (index_all d [ihl, ihl + 1, ihl + 2, ihl + 3])
                       (\<lambda>p. Ret (u16_be (p ! 0) (p ! 1), u16_be (p ! 2) (p ! 3)))
                else Ret (0, 0)) (\<lambda>(sp, dp).
             Ret (Some \<lparr>src_addr = src, dst_addr = dst, src_port = sp, dst_port = dp, protocol = proto,
                        pkt_length = total_len, app_id = app\<rparr>)))))"

section \<open>Connection tracking\<close>

datatype ConnState = New | Established | Related

record TrackedConn =
  conn_state :: ConnState
  last_seen :: u64
  conn_packets :: u64
  timeout_secs :: u32

record ConnTracker =
  conn_table :: "(u64, TrackedConn) btree"
  max_entries :: nat

definition conn_new :: "nat \<Rightarrow> ConnTracker" where
  "conn_new limit = \<lparr>conn_table = bt_empty, max_entries = limit\<rparr>"

definition FNV_PRIME :: u64 where
  "FNV_PRIME = 0x0100000001b3"

fun addr_bytes :: "Addr \<Rightarrow> u8 list" where
  "addr_bytes (a, b, c, d) = [a, b, c, d]"

definition hash_tuple :: "Addr \<Rightarrow> Addr \<Rightarrow> u16 \<Rightarrow> u16 \<Rightarrow> Protocol \<Rightarrow> u64" where
  "hash_tuple src dst sp dp proto =
     (let h = fold (\<lambda>b h. (h XOR ucast b) * FNV_PRIME) (addr_bytes src @ addr_bytes dst) 0xcbf29ce484222325;
          h = (h XOR ucast sp) * FNV_PRIME;
          h = (h XOR ucast dp) * FNV_PRIME
      in h XOR proto_code proto)"

definition fwd_hash :: "PacketInfo \<Rightarrow> u64" where
  "fwd_hash pkt = hash_tuple (src_addr pkt) (dst_addr pkt) (src_port pkt) (dst_port pkt) (protocol pkt)"

definition rev_hash :: "PacketInfo \<Rightarrow> u64" where
  "rev_hash pkt = hash_tuple (dst_addr pkt) (src_addr pkt) (dst_port pkt) (src_port pkt) (protocol pkt)"

definition touch :: "u64 \<Rightarrow> TrackedConn \<Rightarrow> TrackedConn" where
  "touch now c = c\<lparr>last_seen := now, conn_packets := conn_packets c + 1,
     conn_state := (if conn_state c = New then Established else conn_state c)\<rparr>"

fun proto_timeout :: "Protocol \<Rightarrow> u32" where
  "proto_timeout Tcp = 7200"
| "proto_timeout Udp = 180"
| "proto_timeout Icmp = 30"
| "proto_timeout ProtoAny = 600"

definition track :: "PacketInfo \<Rightarrow> u64 \<Rightarrow> ConnTracker \<Rightarrow> ConnState \<times> ConnTracker" where
  "track pkt now t =
     (case bt_get (conn_table t) (fwd_hash pkt) of
        Some c \<Rightarrow> (conn_state (touch now c), t\<lparr>conn_table := bt_insert (fwd_hash pkt) (touch now c) (conn_table t)\<rparr>)
      | None \<Rightarrow> (case bt_get (conn_table t) (rev_hash pkt) of
          Some c \<Rightarrow> (Related, t\<lparr>conn_table := bt_insert (rev_hash pkt) (touch now c) (conn_table t)\<rparr>)
        | None \<Rightarrow>
            if length (conn_table t) \<ge> max_entries t then (New, t)
            else (New, t\<lparr>conn_table := bt_insert (fwd_hash pkt)
                   \<lparr>conn_state = New, last_seen = now, conn_packets = 1, timeout_secs = proto_timeout (protocol pkt)\<rparr>
                   (conn_table t)\<rparr>)))"

definition conn_cleanup :: "u64 \<Rightarrow> ConnTracker \<Rightarrow> nat \<times> ConnTracker" where
  "conn_cleanup now t =
     (let table' = bt_retain (\<lambda>_ c. saturating_sub now (last_seen c) < ucast (timeout_secs c)) (conn_table t)
      in (length (conn_table t) - length table', t\<lparr>conn_table := table'\<rparr>))"

definition conn_count :: "ConnTracker \<Rightarrow> nat" where
  "conn_count t = length (conn_table t)"

section \<open>Rate limiting\<close>

record RateBucket =
  tokens :: u32
  last_refill :: u64

record RateLimiter =
  buckets :: "(u32, RateBucket) btree"
  max_tokens :: u32
  refill_rate :: u32
  refill_interval_ms :: u64
  max_sources :: nat

definition rate_new :: "u32 \<Rightarrow> u32 \<Rightarrow> RateLimiter" where
  "rate_new max_pps burst = \<lparr>buckets = bt_empty, max_tokens = burst, refill_rate = max_pps,
     refill_interval_ms = 1000, max_sources = 4096\<rparr>"

definition evict_stale :: "u64 \<Rightarrow> RateLimiter \<Rightarrow> RateLimiter" where
  "evict_stale now_ms l =
     (let threshold = saturating_sub now_ms 60000
      in l\<lparr>buckets := bt_retain (\<lambda>_ b. last_refill b > threshold) (buckets l)\<rparr>)"

definition refill :: "RateLimiter \<Rightarrow> u64 \<Rightarrow> RateBucket \<Rightarrow> RateBucket" where
  "refill l now_ms b =
     (let elapsed = saturating_sub now_ms (last_refill b) in
      if elapsed \<ge> refill_interval_ms l
      then let periods = ucast (elapsed div refill_interval_ms l)
           in b\<lparr>tokens := min (tokens b + periods * refill_rate l) (max_tokens l), last_refill := now_ms\<rparr>
      else b)"

definition rate_check :: "Addr \<Rightarrow> u64 \<Rightarrow> RateLimiter \<Rightarrow> bool \<times> RateLimiter" where
  "rate_check src now_ms l =
     (let key = addr_be src in
      case bt_get (buckets l) key of
        Some bucket \<Rightarrow>
          (let b = refill l now_ms bucket in
           if tokens b > 0
           then (True, l\<lparr>buckets := bt_insert key (b\<lparr>tokens := tokens b - 1\<rparr>) (buckets l)\<rparr>)
           else (False, l\<lparr>buckets := bt_insert key b (buckets l)\<rparr>))
      | None \<Rightarrow>
          (let l' = (if length (buckets l) \<ge> max_sources l then evict_stale now_ms l else l)
           in (True, l'\<lparr>buckets := bt_insert key
                  \<lparr>tokens = max_tokens l' - 1, last_refill = now_ms\<rparr> (buckets l')\<rparr>)))"

section \<open>The firewall\<close>

record FirewallLogEntry =
  log_timestamp :: u64
  log_rule_id :: u64
  log_direction :: Direction
  log_verdict :: Verdict
  log_protocol :: Protocol
  log_src_addr :: Addr
  log_dst_addr :: Addr
  log_src_port :: u16
  log_dst_port :: u16
  log_app_id :: "u64 option"
  log_length :: usize

record FirewallStats =
  packets_allowed :: u64
  packets_denied :: u64
  packets_rate_limited :: u64
  packets_conntrack_allowed :: u64
  bytes_allowed :: u64
  bytes_denied :: u64

definition stats_default :: FirewallStats where
  "stats_default = \<lparr>packets_allowed = 0, packets_denied = 0, packets_rate_limited = 0,
     packets_conntrack_allowed = 0, bytes_allowed = 0, bytes_denied = 0\<rparr>"

datatype FirewallProfile = AllowAll | DefaultDeny | GamingOptimized

datatype FirewallError = CapabilityDenied | RuleNotFound | NotInitialized

record Firewall =
  rules :: "FirewallRule list"
  conntrack :: ConnTracker
  rate_limiter :: RateLimiter
  default_inbound :: Verdict
  default_outbound :: Verdict
  profile :: FirewallProfile
  enabled :: bool
  next_rule_id :: u64
  log_buffer :: "FirewallLogEntry list"
  max_log_entries :: nat
  stats :: FirewallStats

definition check_network_cap :: "CapTable \<Rightarrow> Rights \<Rightarrow> FirewallError + unit" where
  "check_network_cap ct required =
     (if \<exists>e \<in> set (cap_iter ct). (case snd e of Network _ _ r \<Rightarrow> contains r required | _ \<Rightarrow> False)
      then Inr () else Inl CapabilityDenied)"

definition app_port_allowed :: "CapTable \<Rightarrow> u16 \<Rightarrow> bool" where
  "app_port_allowed ct port \<longleftrightarrow>
     (\<exists>e \<in> set (cap_iter ct). (case snd e of
        Network lo hi r \<Rightarrow> (contains r Rights_READ \<or> contains r Rights_WRITE) \<and> lo \<le> port \<and> port \<le> hi
      | _ \<Rightarrow> False))"

definition firewall_new :: Firewall where
  "firewall_new = \<lparr>rules = [], conntrack = conn_new 65536, rate_limiter = rate_new 1000 2000,
     default_inbound = Deny, default_outbound = Allow, profile = DefaultDeny, enabled = True,
     next_rule_id = 1, log_buffer = [], max_log_entries = 4096, stats = stats_default\<rparr>"

subsection \<open>Profiles\<close>

text \<open>Each built-in rule takes the next id; \<open>ts\<close> is the reading of the clock when they are added.\<close>

definition next_id :: "Firewall \<Rightarrow> u64 \<times> Firewall" where
  "next_id fw = (next_rule_id fw, fw\<lparr>next_rule_id := next_rule_id fw + 1\<rparr>)"

definition insert_rule :: "FirewallRule \<Rightarrow> Firewall \<Rightarrow> Firewall" where
  "insert_rule r fw = fw\<lparr>rules := rules fw @ [r]\<rparr>"

definition add_built_in :: "(u64 \<Rightarrow> FirewallRule) \<Rightarrow> Firewall \<Rightarrow> Firewall" where
  "add_built_in mk fw = (let (i, fw') = next_id fw in insert_rule (mk i) fw')"

definition add_default_rules :: "u64 \<Rightarrow> Firewall \<Rightarrow> Firewall" where
  "add_default_rules ts fw =
     add_built_in (\<lambda>i. \<lparr>rule_id = i, rule_direction = Inbound, rule_protocol = Udp, rule_src_addr = AddrAny, rule_dst_addr = AddrAny,
       rule_src_port = PortSingle 53, rule_dst_port = PortAny, rule_app_id = None, action = Allow,
       description = ''DNS responses'', rule_enabled = True, hit_count = 0, created_at = ts\<rparr>) (
     add_built_in (\<lambda>i. \<lparr>rule_id = i, rule_direction = Inbound, rule_protocol = Udp, rule_src_addr = AddrAny, rule_dst_addr = AddrAny,
       rule_src_port = PortSingle 67, rule_dst_port = PortSingle 68, rule_app_id = None, action = Allow,
       description = ''DHCP replies'', rule_enabled = True, hit_count = 0, created_at = ts\<rparr>) (
     add_built_in (\<lambda>i. \<lparr>rule_id = i, rule_direction = Inbound, rule_protocol = Icmp, rule_src_addr = AddrAny, rule_dst_addr = AddrAny,
       rule_src_port = PortAny, rule_dst_port = PortAny, rule_app_id = None, action = Allow,
       description = ''allow ICMP'', rule_enabled = True, hit_count = 0, created_at = ts\<rparr>) (
     add_built_in (\<lambda>i. \<lparr>rule_id = i, rule_direction = Both, rule_protocol = ProtoAny, rule_src_addr = AddrExact (127, 0, 0, 1), rule_dst_addr = AddrExact (127, 0, 0, 1),
       rule_src_port = PortAny, rule_dst_port = PortAny, rule_app_id = None, action = Allow,
       description = ''loopback'', rule_enabled = True, hit_count = 0, created_at = ts\<rparr>) fw)))"

definition add_gaming_rules :: "u64 \<Rightarrow> Firewall \<Rightarrow> Firewall" where
  "add_gaming_rules ts fw =
     add_built_in (\<lambda>i. \<lparr>rule_id = i, rule_direction = Outbound, rule_protocol = Tcp, rule_src_addr = AddrAny, rule_dst_addr = AddrAny,
       rule_src_port = PortAny, rule_dst_port = PortSingle 8443, rule_app_id = None, action = DenyAndLog,
       description = ''block telemetry (8443)'', rule_enabled = True, hit_count = 0, created_at = ts\<rparr>) (
     add_built_in (\<lambda>i. \<lparr>rule_id = i, rule_direction = Both, rule_protocol = Udp, rule_src_addr = AddrAny, rule_dst_addr = AddrAny,
       rule_src_port = PortAny, rule_dst_port = PortRange 7777 7800, rule_app_id = None, action = Allow,
       description = ''game server ports'', rule_enabled = True, hit_count = 0, created_at = ts\<rparr>) (
     add_built_in (\<lambda>i. \<lparr>rule_id = i, rule_direction = Both, rule_protocol = Udp, rule_src_addr = AddrAny, rule_dst_addr = AddrAny,
       rule_src_port = PortAny, rule_dst_port = PortRange 3478 3480, rule_app_id = None, action = Allow,
       description = ''STUN/TURN NAT traversal'', rule_enabled = True, hit_count = 0, created_at = ts\<rparr>) (
     add_built_in (\<lambda>i. \<lparr>rule_id = i, rule_direction = Both, rule_protocol = Udp, rule_src_addr = AddrAny, rule_dst_addr = AddrAny,
       rule_src_port = PortAny, rule_dst_port = PortRange 27000 27050, rule_app_id = None, action = Allow,
       description = ''Steam game traffic'', rule_enabled = True, hit_count = 0, created_at = ts\<rparr>) fw)))"

definition apply_profile :: "u64 \<Rightarrow> FirewallProfile \<Rightarrow> Firewall \<Rightarrow> Firewall" where
  "apply_profile ts p fw =
     (let fw = fw\<lparr>rules := [], profile := p\<rparr> in
      case p of
        AllowAll \<Rightarrow> fw\<lparr>default_inbound := Allow, default_outbound := Allow\<rparr>
      | DefaultDeny \<Rightarrow> add_default_rules ts (fw\<lparr>default_inbound := Deny, default_outbound := Allow\<rparr>)
      | GamingOptimized \<Rightarrow>
          add_gaming_rules ts (add_default_rules ts (fw\<lparr>default_inbound := Deny, default_outbound := Allow\<rparr>)))"

subsection \<open>Rule management\<close>

definition add_rule ::
    "u64 \<Rightarrow> CapTable \<Rightarrow> Direction \<Rightarrow> Protocol \<Rightarrow> AddrMatch \<Rightarrow> AddrMatch \<Rightarrow> PortMatch \<Rightarrow> PortMatch \<Rightarrow> u64 option \<Rightarrow>
     Verdict \<Rightarrow> string \<Rightarrow> Firewall \<Rightarrow> (FirewallError + u64) \<times> Firewall" where
  "add_rule ts ct d proto sa da sp dp app act desc fw =
     (case check_network_cap ct Rights_WRITE of
        Inl e \<Rightarrow> (Inl e, fw)
      | Inr _ \<Rightarrow>
          (let (i, fw') = next_id fw
           in (Inr i, insert_rule \<lparr>rule_id = i, rule_direction = d, rule_protocol = proto, rule_src_addr = sa,
                  rule_dst_addr = da, rule_src_port = sp, rule_dst_port = dp, rule_app_id = app, action = act,
                  description = desc, rule_enabled = True, hit_count = 0, created_at = ts\<rparr> fw')))"

definition remove_rule :: "CapTable \<Rightarrow> u64 \<Rightarrow> Firewall \<Rightarrow> (FirewallError + unit) \<times> Firewall" where
  "remove_rule ct rid fw =
     (case check_network_cap ct Rights_WRITE of
        Inl e \<Rightarrow> (Inl e, fw)
      | Inr _ \<Rightarrow>
          (let rs = filter (\<lambda>r. rule_id r \<noteq> rid) (rules fw)
           in (if length rs < length (rules fw) then Inr () else Inl RuleNotFound, fw\<lparr>rules := rs\<rparr>)))"

fun set_first_enabled :: "u64 \<Rightarrow> bool \<Rightarrow> FirewallRule list \<Rightarrow> FirewallRule list option" where
  "set_first_enabled rid b [] = None"
| "set_first_enabled rid b (r # rs) =
     (if rule_id r = rid then Some (r\<lparr>rule_enabled := b\<rparr> # rs)
      else map_option ((#) r) (set_first_enabled rid b rs))"

definition set_rule_enabled :: "CapTable \<Rightarrow> u64 \<Rightarrow> bool \<Rightarrow> Firewall \<Rightarrow> (FirewallError + unit) \<times> Firewall" where
  "set_rule_enabled ct rid b fw =
     (case check_network_cap ct Rights_WRITE of
        Inl e \<Rightarrow> (Inl e, fw)
      | Inr _ \<Rightarrow> (case set_first_enabled rid b (rules fw) of
          Some rs \<Rightarrow> (Inr (), fw\<lparr>rules := rs\<rparr>)
        | None \<Rightarrow> (Inl RuleNotFound, fw)))"

definition set_profile :: "u64 \<Rightarrow> CapTable \<Rightarrow> FirewallProfile \<Rightarrow> Firewall \<Rightarrow> (FirewallError + unit) \<times> Firewall" where
  "set_profile ts ct p fw =
     (case check_network_cap ct Rights_WRITE of Inl e \<Rightarrow> (Inl e, fw) | Inr _ \<Rightarrow> (Inr (), apply_profile ts p fw))"

definition flush_rules :: "CapTable \<Rightarrow> Firewall \<Rightarrow> (FirewallError + unit) \<times> Firewall" where
  "flush_rules ct fw =
     (case check_network_cap ct Rights_WRITE of Inl e \<Rightarrow> (Inl e, fw) | Inr _ \<Rightarrow> (Inr (), fw\<lparr>rules := []\<rparr>))"

definition list_rules :: "CapTable \<Rightarrow> Firewall \<Rightarrow> FirewallError + FirewallRule list" where
  "list_rules ct fw =
     (case check_network_cap ct Rights_READ of Inl e \<Rightarrow> Inl e | Inr _ \<Rightarrow> Inr (rules fw))"

definition set_enabled :: "bool \<Rightarrow> Firewall \<Rightarrow> Firewall" where
  "set_enabled b fw = fw\<lparr>enabled := b\<rparr>"

definition recent_log :: "nat \<Rightarrow> Firewall \<Rightarrow> FirewallLogEntry list" where
  "recent_log n fw = drop (length (log_buffer fw) - n) (log_buffer fw)"

definition clear_log :: "Firewall \<Rightarrow> Firewall" where
  "clear_log fw = fw\<lparr>log_buffer := []\<rparr>"

subsection \<open>Filtering\<close>

definition log_denied :: "PacketInfo \<Rightarrow> Direction \<Rightarrow> u64 \<Rightarrow> u64 \<Rightarrow> Firewall \<Rightarrow> Firewall" where
  "log_denied pkt d rid timestamp fw =
     (let buf = (if length (log_buffer fw) \<ge> max_log_entries fw then tl (log_buffer fw) else log_buffer fw)
      in fw\<lparr>log_buffer := buf @ [\<lparr>log_timestamp = timestamp, log_rule_id = rid, log_direction = d,
             log_verdict = Deny, log_protocol = protocol pkt, log_src_addr = src_addr pkt,
             log_dst_addr = dst_addr pkt, log_src_port = src_port pkt, log_dst_port = dst_port pkt,
             log_app_id = app_id pkt, log_length = pkt_length pkt\<rparr>]\<rparr>)"

definition count_allowed :: "PacketInfo \<Rightarrow> FirewallStats \<Rightarrow> FirewallStats" where
  "count_allowed pkt s = s\<lparr>packets_allowed := packets_allowed s + 1,
     bytes_allowed := bytes_allowed s + pkt_length pkt\<rparr>"

definition count_denied :: "PacketInfo \<Rightarrow> FirewallStats \<Rightarrow> FirewallStats" where
  "count_denied pkt s = s\<lparr>packets_denied := packets_denied s + 1,
     bytes_denied := bytes_denied s + pkt_length pkt\<rparr>"

text \<open>The walk over the rules: the index of the first match; its hit counter is increased.\<close>

fun first_match :: "PacketInfo \<Rightarrow> Direction \<Rightarrow> FirewallRule list \<Rightarrow> (FirewallRule \<times> FirewallRule list) option" where
  "first_match pkt d [] = None"
| "first_match pkt d (r # rs) =
     (if matches_packet r pkt d then Some (r, r\<lparr>hit_count := hit_count r + 1\<rparr> # rs)
      else map_option (\<lambda>(m, rs'). (m, r # rs')) (first_match pkt d rs))"

definition apply_verdict :: "PacketInfo \<Rightarrow> Direction \<Rightarrow> u64 \<Rightarrow> u64 \<Rightarrow> Verdict \<Rightarrow> Firewall \<Rightarrow> Firewall" where
  "apply_verdict pkt d rid now v fw = (case v of
      Allow \<Rightarrow> fw\<lparr>stats := count_allowed pkt (stats fw)\<rparr>
    | Deny \<Rightarrow> fw\<lparr>stats := count_denied pkt (stats fw)\<rparr>
    | DenyAndLog \<Rightarrow> log_denied pkt d rid now (fw\<lparr>stats := count_denied pkt (stats fw)\<rparr>))"

definition filter_packet :: "PacketInfo \<Rightarrow> Direction \<Rightarrow> u64 \<Rightarrow> Firewall \<Rightarrow> Verdict \<times> Firewall" where
  "filter_packet pkt d now fw =
     (if \<not> enabled fw then (Allow, fw)
      else
        let (ct, t') = track pkt now (conntrack fw); fw = fw\<lparr>conntrack := t'\<rparr> in
        if ct = Established \<or> ct = Related
        then (Allow, fw\<lparr>stats := count_allowed pkt ((stats fw)\<lparr>packets_conntrack_allowed := packets_conntrack_allowed (stats fw) + 1\<rparr>)\<rparr>)
        else
          let (within, l') = (if d = Inbound then rate_check (src_addr pkt) (now * 1000) (rate_limiter fw)
                              else (True, rate_limiter fw));
              fw = fw\<lparr>rate_limiter := l'\<rparr> in
          if \<not> within
          then (Deny, fw\<lparr>stats := count_denied pkt ((stats fw)\<lparr>packets_rate_limited := packets_rate_limited (stats fw) + 1\<rparr>)\<rparr>)
          else case first_match pkt d (rules fw) of
              Some (r, rs') \<Rightarrow> (action r, apply_verdict pkt d (rule_id r) now (action r) (fw\<lparr>rules := rs'\<rparr>))
            | None \<Rightarrow>
                (let default = (case d of Inbound \<Rightarrow> default_inbound fw | Outbound \<Rightarrow> default_outbound fw
                                 | Both \<Rightarrow> default_inbound fw)
                 in (default, apply_verdict pkt d 0 now default fw)))"

definition fw_cleanup :: "u64 \<Rightarrow> Firewall \<Rightarrow> nat \<times> Firewall" where
  "fw_cleanup now fw = (let (n, t') = conn_cleanup now (conntrack fw) in (n, fw\<lparr>conntrack := t'\<rparr>))"

definition reset_stats :: "Firewall \<Rightarrow> Firewall" where
  "reset_stats fw = fw\<lparr>stats := stats_default\<rparr>"

definition reset_rule_counters :: "Firewall \<Rightarrow> Firewall" where
  "reset_rule_counters fw = fw\<lparr>rules := map (\<lambda>r. r\<lparr>hit_count := 0\<rparr>) (rules fw)\<rparr>"

definition rule_count :: "Firewall \<Rightarrow> nat" where
  "rule_count fw = length (rules fw)"

text \<open>The entry points of the network stack, on the static \<^verbatim>\<open>FIREWALL\<close>.\<close>

definition filter_inbound :: "PacketInfo \<Rightarrow> u64 \<Rightarrow> Firewall option \<Rightarrow> Verdict \<times> Firewall option" where
  "filter_inbound pkt now g = (case g of
      Some fw \<Rightarrow> (let (v, fw') = filter_packet pkt Inbound now fw in (v, Some fw'))
    | None \<Rightarrow> (Allow, None))"

definition filter_outbound :: "PacketInfo \<Rightarrow> u64 \<Rightarrow> Firewall option \<Rightarrow> Verdict \<times> Firewall option" where
  "filter_outbound pkt now g = (case g of
      Some fw \<Rightarrow> (let (v, fw') = filter_packet pkt Outbound now fw in (v, Some fw'))
    | None \<Rightarrow> (Allow, None))"

definition periodic_cleanup :: "u64 \<Rightarrow> Firewall option \<Rightarrow> Firewall option" where
  "periodic_cleanup now g = map_option (\<lambda>fw. snd (fw_cleanup now fw)) g"

definition firewall_init :: "u64 \<Rightarrow> Firewall option" where
  "firewall_init ts = Some (apply_profile ts DefaultDeny firewall_new)"

end
