(* ===== verification/Firewall_Props.thy ===== *)
theory Firewall_Props
  imports Firewall
begin

text \<open>
  Properties of the packet filter: the verdict of every packet in closed form, what address
  masks match, the burst bound of the rate limiter, the bounds of its tables over any run,
  the capability gate, and where the filter admits what its policy denies.
\<close>

section \<open>The verdict\<close>

text \<open>The policy: the action of the first rule that matches, else the default of the direction.\<close>

definition policy :: "Firewall \<Rightarrow> PacketInfo \<Rightarrow> Direction \<Rightarrow> Verdict" where
  "policy fw pkt d = (case find (\<lambda>r. matches_packet r pkt d) (rules fw) of
      Some r \<Rightarrow> action r
    | None \<Rightarrow> (if d = Outbound then default_outbound fw else default_inbound fw))"

definition tracked :: "Firewall \<Rightarrow> PacketInfo \<Rightarrow> bool" where
  "tracked fw pkt \<longleftrightarrow> bt_get (conn_table (conntrack fw)) (fwd_hash pkt) \<noteq> None
     \<or> bt_get (conn_table (conntrack fw)) (rev_hash pkt) \<noteq> None"

definition rate_limited :: "Firewall \<Rightarrow> PacketInfo \<Rightarrow> Direction \<Rightarrow> u64 \<Rightarrow> bool" where
  "rate_limited fw pkt d now \<longleftrightarrow> d = Inbound \<and> \<not> fst (rate_check (src_addr pkt) (now * 1000) (rate_limiter fw))"

lemma touch_state: "conn_state (touch now c) = Established \<or> conn_state (touch now c) = Related"
  by (cases "conn_state c") (simp_all add: touch_def)

lemma track_state:
  "fst (track pkt now t) \<noteq> New \<longleftrightarrow> bt_get (conn_table t) (fwd_hash pkt) \<noteq> None \<or> bt_get (conn_table t) (rev_hash pkt) \<noteq> None"
  using touch_state by (auto simp: track_def split: option.splits) (metis ConnState.distinct(1,3))+

lemma first_match_find:
  "first_match pkt d rs = None \<longleftrightarrow> find (\<lambda>r. matches_packet r pkt d) rs = None"
  "first_match pkt d rs = Some (r, rs') \<Longrightarrow> find (\<lambda>r. matches_packet r pkt d) rs = Some r"
  by (induction rs arbitrary: rs') (auto split: if_splits)

lemma verdict_eq:
  "fst (filter_packet pkt d now fw) =
     (if \<not> enabled fw \<or> tracked fw pkt then Allow
      else if rate_limited fw pkt d now then Deny else policy fw pkt d)"
proof (cases "enabled fw \<and> \<not> tracked fw pkt")
  case True
  then have new: "fst (track pkt now (conntrack fw)) = New"
    using track_state [of pkt now "conntrack fw"] by (auto simp: tracked_def)
  have pol: "policy fw pkt d = (case first_match pkt d (rules fw) of Some (r, _) \<Rightarrow> action r
      | None \<Rightarrow> (if d = Outbound then default_outbound fw else default_inbound fw))"
    using first_match_find [of pkt d "rules fw"] by (auto simp: policy_def split: option.split)
  show ?thesis
    using True new
    by (auto simp: filter_packet_def pol rate_limited_def Let_def split: prod.splits option.splits Direction.splits)
next
  case False
  show ?thesis
  proof (cases "enabled fw")
    case True
    with False have "fst (track pkt now (conntrack fw)) \<noteq> New"
      using track_state [of pkt now "conntrack fw"] by (auto simp: tracked_def)
    then have "fst (track pkt now (conntrack fw)) = Established \<or> fst (track pkt now (conntrack fw)) = Related"
      by (cases "fst (track pkt now (conntrack fw))") auto
    with True False show ?thesis by (auto simp: filter_packet_def Let_def split: prod.splits)
  qed (simp add: filter_packet_def)
qed

text \<open>The position of the first element that satisfies a predicate.\<close>

fun find_index :: "('a \<Rightarrow> bool) \<Rightarrow> 'a list \<Rightarrow> nat option" where
  "find_index P [] = None"
| "find_index P (x # xs) = (if P x then Some 0 else map_option Suc (find_index P xs))"

lemma first_match_rules:
  "map_option snd (first_match pkt d rs) = map_option
     (\<lambda>i. rs[i := (rs ! i)\<lparr>hit_count := hit_count (rs ! i) + 1\<rparr>]) (find_index (\<lambda>r. matches_packet r pkt d) rs)"
proof (induction rs)
  case (Cons r rs)
  then show ?case
    by (cases "first_match pkt d rs"; cases "find_index (\<lambda>r. matches_packet r pkt d) rs") auto
qed simp

text \<open>What a filtered packet leaves behind in the tracker and in the other components.\<close>

lemma apply_verdict_fields [simp]:
  "conntrack (apply_verdict pkt d rid now v fw) = conntrack fw"
  "enabled (apply_verdict pkt d rid now v fw) = enabled fw"
  "rules (apply_verdict pkt d rid now v fw) = rules fw"
  "max_log_entries (apply_verdict pkt d rid now v fw) = max_log_entries fw"
  "rate_limiter (apply_verdict pkt d rid now v fw) = rate_limiter fw"
  by (auto simp: apply_verdict_def log_denied_def Let_def split: Verdict.split)

lemma filter_conntrack:
  assumes "enabled fw"
  shows "conntrack (snd (filter_packet pkt d now fw)) = snd (track pkt now (conntrack fw))"
    and "enabled (snd (filter_packet pkt d now fw))"
  using assms by (auto simp: filter_packet_def Let_def split: prod.splits option.splits)

lemma track_makes_tracked:
  assumes "length (conn_table t) < max_entries t"
  shows "bt_get (conn_table (snd (track pkt now t))) (fwd_hash pkt) \<noteq> None
     \<or> bt_get (conn_table (snd (track pkt now t))) (rev_hash pkt) \<noteq> None"
  using assms by (auto simp: track_def split: option.splits)

lemma rules_after:
  "rules (snd (filter_packet pkt d now fw)) =
     (if \<not> enabled fw \<or> tracked fw pkt \<or> rate_limited fw pkt d now then rules fw
      else case find_index (\<lambda>r. matches_packet r pkt d) (rules fw) of
          None \<Rightarrow> rules fw
        | Some i \<Rightarrow> (rules fw)[i := (rules fw ! i)\<lparr>hit_count := hit_count (rules fw ! i) + 1\<rparr>])"
proof -
  have st: "fst (track pkt now (conntrack fw)) \<in> {Established, Related} \<longleftrightarrow> tracked fw pkt"
    using track_state [of pkt now "conntrack fw"] by (cases "fst (track pkt now (conntrack fw))") (auto simp: tracked_def)
  have fm: "(case first_match pkt d (rules fw) of None \<Rightarrow> rules fw | Some (r, rs) \<Rightarrow> rs) =
      (case find_index (\<lambda>r. matches_packet r pkt d) (rules fw) of
          None \<Rightarrow> rules fw
        | Some i \<Rightarrow> (rules fw)[i := (rules fw ! i)\<lparr>hit_count := hit_count (rules fw ! i) + 1\<rparr>])"
    using first_match_rules [of pkt d "rules fw"]
    by (cases "first_match pkt d (rules fw)"; cases "find_index (\<lambda>r. matches_packet r pkt d) (rules fw)") auto
  show ?thesis
    unfolding fm [symmetric] using st
    by (auto simp: filter_packet_def rate_limited_def Let_def split: prod.splits option.splits)
qed

section \<open>Address masks\<close>

lemma subnet_mask_bits:
  assumes "1 \<le> unat p" and "unat p \<le> 32" and "n < 32"
  shows "bit (subnet_mask p) n \<longleftrightarrow> 32 - unat p \<le> n"
proof (cases "unat p = 32")
  case True
  then have "p = 32" by (simp add: word_unat_eq_iff)
  moreover have "(0xFFFFFFFF :: u32) = - 1" by simp
  ultimately show ?thesis using assms(3) by (simp only: subnet_mask_def) simp
next
  case False
  then have lt: "p < 32" using assms(2) by (simp add: word_less_nat_alt)
  then have "unat (32 - p) = 32 - unat p" by (simp add: unat_sub word_le_nat_alt word_less_nat_alt)
  moreover have "unat p \<noteq> 0" using assms(1) by simp
  ultimately have "subnet_mask p = NOT (mask (32 - unat p))"
    using lt by (simp add: subnet_mask_def mask_eq_exp_minus_1 push_bit_of_1 not_le)
  then show ?thesis using assms(3) by (auto simp: bit_not_iff bit_mask_iff possible_bit_word)
qed

lemma mask_eq_iff_drop:
  fixes x y m :: u32
  assumes "\<And>n. n < 32 \<Longrightarrow> bit m n \<longleftrightarrow> k \<le> n"
  shows "x AND m = y AND m \<longleftrightarrow> drop_bit k x = drop_bit k y"
proof -
  have "x AND m = y AND m \<longleftrightarrow> (\<forall>n < 32. k \<le> n \<longrightarrow> bit x n = bit y n)"
    using assms by (auto simp: bit_eq_iff bit_and_iff possible_bit_word)
  also have "\<dots> \<longleftrightarrow> drop_bit k x = drop_bit k y"
  proof
    assume *: "\<forall>n < 32. k \<le> n \<longrightarrow> bit x n = bit y n"
    show "drop_bit k x = drop_bit k y"
    proof (rule bit_eqI)
      fix n
      show "bit (drop_bit k x) n = bit (drop_bit k y) n"
        using * bit_imp_le_length [of x "k + n"] bit_imp_le_length [of y "k + n"]
        by (auto simp: bit_drop_bit_eq)
    qed
  next
    assume *: "drop_bit k x = drop_bit k y"
    have "bit x n = bit y n" if "k \<le> n" for n
      using arg_cong [OF *, of "\<lambda>w. bit w (n - k)"] that by (simp add: bit_drop_bit_eq)
    then show "\<forall>n < 32. k \<le> n \<longrightarrow> bit x n = bit y n" by simp
  qed
  finally show ?thesis .
qed

section \<open>Properties of the verdict\<close>


text \<open>
  With room in the connection table, a packet sent twice is admitted the second time
  whatever the rules and the rate limiter say: the tracker records the flow before the
  policy is consulted, and records it also when the policy denies.
\<close>

theorem second_packet_admitted:
  assumes "enabled fw" and "length (conn_table (conntrack fw)) < max_entries (conntrack fw)"
  shows "fst (filter_packet pkt d' later (snd (filter_packet pkt d now fw))) = Allow"
  using track_makes_tracked [OF assms(2), of pkt now] filter_conntrack [OF assms(1), of pkt d now]
  by (auto simp: verdict_eq tracked_def)

text \<open>
  A filtered packet moves exactly one of the two packet counters by one and its byte
  counter by the length of the packet: the allowed ones for an \<open>Allow\<close>, the denied ones
  otherwise. A switched-off firewall counts nothing.
\<close>

theorem filter_accounting:
  "(let (v, fw') = filter_packet pkt d now fw in
      if \<not> enabled fw then fw' = fw
      else if v = Allow
      then packets_allowed (stats fw') = packets_allowed (stats fw) + 1
         \<and> bytes_allowed (stats fw') = bytes_allowed (stats fw) + pkt_length pkt
         \<and> packets_denied (stats fw') = packets_denied (stats fw) \<and> bytes_denied (stats fw') = bytes_denied (stats fw)
      else packets_denied (stats fw') = packets_denied (stats fw) + 1
         \<and> bytes_denied (stats fw') = bytes_denied (stats fw) + pkt_length pkt
         \<and> packets_allowed (stats fw') = packets_allowed (stats fw) \<and> bytes_allowed (stats fw') = bytes_allowed (stats fw))"
  by (auto simp: filter_packet_def Let_def count_allowed_def count_denied_def apply_verdict_def log_denied_def
      split: prod.splits option.splits Verdict.splits)

section \<open>Witnesses of the verdict\<close>

text \<open>
  The firewall as booted, and a TCP packet from outside to port 22, which no built-in rule admits.
\<close>

definition booted :: Firewall where
  "booted = the (firewall_init 0)"

lemmas booted_rules = booted_def firewall_init_def apply_profile_def add_default_rules_def add_built_in_def
  next_id_def insert_rule_def firewall_new_def conn_new_def rate_new_def bt_empty_def

definition probe :: PacketInfo where
  "probe = \<lparr>src_addr = (203, 0, 113, 9), dst_addr = (10, 0, 0, 5), src_port = 40000, dst_port = 22,
     protocol = Tcp, pkt_length = 60, app_id = None\<rparr>"

theorem second_packet_admitted_witness:
  "fst (filter_packet probe Inbound 7 booted) = Deny \<and> policy booted probe Inbound = Deny \<and>
   fst (filter_packet probe Inbound 8 (snd (filter_packet probe Inbound 7 booted))) = Allow"
proof (intro conjI)
  show pol: "policy booted probe Inbound = Deny"
    by (simp add: policy_def matches_packet_def probe_def booted_rules)
  have "conn_table (conntrack booted) = []" "buckets (rate_limiter booted) = []" by (simp_all add: booted_rules)
  then have "\<not> tracked booted probe" "\<not> rate_limited booted probe Inbound 7"
    by (simp_all add: tracked_def rate_limited_def rate_check_def Let_def)
  then show "fst (filter_packet probe Inbound 7 booted) = Deny" using pol by (simp add: verdict_eq) (simp add: booted_rules)
  show "fst (filter_packet probe Inbound 8 (snd (filter_packet probe Inbound 7 booted))) = Allow"
    by (rule second_packet_admitted) (simp_all add: booted_rules)
qed

section \<open>Bounds over any run\<close>

definition fw_bounded :: "Firewall \<Rightarrow> bool" where
  "fw_bounded fw \<longleftrightarrow>
     bt_ok (conn_table (conntrack fw)) \<and> max_entries (conntrack fw) = 65536
   \<and> length (conn_table (conntrack fw)) \<le> 65536
   \<and> max_log_entries fw = 4096 \<and> length (log_buffer fw) \<le> 4096
   \<and> bt_ok (buckets (rate_limiter fw)) \<and> max_tokens (rate_limiter fw) = 2000
   \<and> (\<forall>(a, b) \<in> set (buckets (rate_limiter fw)). tokens b \<le> 2000)"

text \<open>One call on the firewall, by the network stack, a management task or the periodic sweep.\<close>

inductive fw_step :: "Firewall \<Rightarrow> Firewall \<Rightarrow> bool" where
  step_packet: "fw_step fw (snd (filter_packet pkt d now fw))"
| step_cleanup: "fw_step fw (snd (fw_cleanup now fw))"
| step_add: "fw_step fw (snd (add_rule ts ct d proto sa da sp dp app act desc fw))"
| step_remove: "fw_step fw (snd (remove_rule ct rid fw))"
| step_rule_enabled: "fw_step fw (snd (set_rule_enabled ct rid b fw))"
| step_profile: "fw_step fw (snd (set_profile ts ct p fw))"
| step_flush: "fw_step fw (snd (flush_rules ct fw))"
| step_enabled: "fw_step fw (set_enabled b fw)"
| step_clear_log: "fw_step fw (clear_log fw)"
| step_reset_stats: "fw_step fw (reset_stats fw)"
| step_reset_counters: "fw_step fw (reset_rule_counters fw)"

lemma track_bounded:
  assumes "bt_ok (conn_table t)" and "length (conn_table t) \<le> max_entries t"
  shows "bt_ok (conn_table (snd (track pkt now t)))"
    and "length (conn_table (snd (track pkt now t))) \<le> max_entries t"
    and "max_entries (snd (track pkt now t)) = max_entries t"
proof -
  show "bt_ok (conn_table (snd (track pkt now t)))" "max_entries (snd (track pkt now t)) = max_entries t"
    using assms(1) by (auto simp: track_def split: option.splits)
  show "length (conn_table (snd (track pkt now t))) \<le> max_entries t"
  proof (cases "bt_get (conn_table t) (fwd_hash pkt) = None \<and> bt_get (conn_table t) (rev_hash pkt) = None
      \<and> length (conn_table t) < max_entries t")
    case True
    have "length (bt_insert (fwd_hash pkt) c (conn_table t)) \<le> max_entries t" for c
      by (rule order_trans [OF length_bt_insert_le]) (use True in simp)
    with True show ?thesis by (simp add: track_def)
  next
    case False
    then show ?thesis using assms by (auto simp: track_def length_bt_insert_old split: option.splits)
  qed
qed

lemma rate_check_bounded:
  assumes "bt_ok (buckets l)" and "0 < max_tokens l" and "\<forall>(a, b) \<in> set (buckets l). tokens b \<le> max_tokens l"
  shows "bt_ok (buckets (snd (rate_check src now l)))"
    and "max_tokens (snd (rate_check src now l)) = max_tokens l"
    and "\<forall>(a, b) \<in> set (buckets (snd (rate_check src now l))). tokens b \<le> max_tokens l"
proof -
  show "bt_ok (buckets (snd (rate_check src now l)))" "max_tokens (snd (rate_check src now l)) = max_tokens l"
    using assms(1) by (auto simp: rate_check_def evict_stale_def Let_def split: option.split)
  have dec: "x - 1 \<le> m" if "x \<le> m" "0 < x" for x m :: u32
    using that by unat_arith
  have refl: "tokens (refill l now b) \<le> max_tokens l" if "tokens b \<le> max_tokens l" for b
    using that by (simp add: refill_def Let_def)
  have ev: "\<forall>(a, b) \<in> set (buckets (evict_stale now l)). tokens b \<le> max_tokens l"
    using assms(3) by (auto simp: evict_stale_def bt_retain_def Let_def)
  have mx: "max_tokens (evict_stale now l) = max_tokens l" by (simp add: evict_stale_def Let_def)
  show "\<forall>(a, b) \<in> set (buckets (snd (rate_check src now l))). tokens b \<le> max_tokens l"
  proof (cases "bt_get (buckets l) (addr_be src)")
    case None
    define l' where "l' = (if length (buckets l) \<ge> max_sources l then evict_stale now l else l)"
    have l': "max_tokens l' = max_tokens l" "\<forall>(a, b) \<in> set (buckets l'). tokens b \<le> max_tokens l"
      using ev mx assms(3) by (simp_all add: l'_def)
    have "max_tokens l' - 1 \<le> max_tokens l" using assms(2) l'(1) dec by simp
    moreover have "snd (rate_check src now l) = l'\<lparr>buckets := bt_insert (addr_be src)
        \<lparr>tokens = max_tokens l' - 1, last_refill = now\<rparr> (buckets l')\<rparr>"
      using None by (simp add: rate_check_def Let_def l'_def)
    ultimately show ?thesis
      using l'(2) set_bt_insert [of "addr_be src" "\<lparr>tokens = max_tokens l' - 1, last_refill = now\<rparr>" "buckets l'"]
      by auto
  next
    case (Some b)
    then have "tokens b \<le> max_tokens l" using assms(3) bt_get_mem by fastforce
    with refl have b: "tokens (refill l now b) \<le> max_tokens l" by simp
    define b' where "b' = (if tokens (refill l now b) > 0
        then (refill l now b)\<lparr>tokens := tokens (refill l now b) - 1\<rparr> else refill l now b)"
    have "tokens b' \<le> max_tokens l" using b dec by (simp add: b'_def)
    moreover have "buckets (snd (rate_check src now l)) = bt_insert (addr_be src) b' (buckets l)"
      using Some by (simp add: rate_check_def Let_def b'_def)
    ultimately show ?thesis
      using assms(3) set_bt_insert [of "addr_be src" b' "buckets l"] by auto
  qed
qed

lemma log_denied_bounded:
  "length (log_buffer fw) \<le> max_log_entries fw \<Longrightarrow> 0 < max_log_entries fw \<Longrightarrow>
   length (log_buffer (log_denied pkt d rid ts fw)) \<le> max_log_entries fw"
  by (auto simp: log_denied_def Let_def)

lemma apply_verdict_log:
  "length (log_buffer fw) \<le> max_log_entries fw \<Longrightarrow> 0 < max_log_entries fw \<Longrightarrow>
   length (log_buffer (apply_verdict pkt d rid now v fw)) \<le> max_log_entries fw"
  using log_denied_bounded [of "fw\<lparr>stats := count_denied pkt (stats fw)\<rparr>"]
  by (cases v) (simp_all add: apply_verdict_def)

lemma filter_parts:
  "max_log_entries (snd (filter_packet pkt d now fw)) = max_log_entries fw"
  "conntrack (snd (filter_packet pkt d now fw)) =
     (if enabled fw then snd (track pkt now (conntrack fw)) else conntrack fw)"
  "rate_limiter (snd (filter_packet pkt d now fw)) = rate_limiter fw \<or>
   rate_limiter (snd (filter_packet pkt d now fw)) = snd (rate_check (src_addr pkt) (now * 1000) (rate_limiter fw))"
  by (auto simp: filter_packet_def Let_def split: prod.splits option.splits)

lemma filter_log:
  assumes "length (log_buffer fw) \<le> max_log_entries fw" "0 < max_log_entries fw"
  shows "length (log_buffer (snd (filter_packet pkt d now fw))) \<le> max_log_entries fw"
proof -
  have "length (log_buffer (apply_verdict pkt d rid now v x)) \<le> max_log_entries fw"
    if "log_buffer x = log_buffer fw" "max_log_entries x = max_log_entries fw" for rid v and x :: Firewall
    using assms apply_verdict_log [of x] that by simp
  then show ?thesis
    using assms(1) by (auto simp: filter_packet_def Let_def split: prod.splits option.splits)
qed

lemma add_built_in_fields [simp]:
  "conntrack (add_built_in mk fw) = conntrack fw" "rate_limiter (add_built_in mk fw) = rate_limiter fw"
  "log_buffer (add_built_in mk fw) = log_buffer fw" "max_log_entries (add_built_in mk fw) = max_log_entries fw"
  by (simp_all add: add_built_in_def next_id_def insert_rule_def)

lemma fw_bounded_cong:
  "conntrack fw' = conntrack fw \<Longrightarrow> rate_limiter fw' = rate_limiter fw \<Longrightarrow> length (log_buffer fw') \<le> length (log_buffer fw) \<Longrightarrow>
   max_log_entries fw' = max_log_entries fw \<Longrightarrow> fw_bounded fw \<Longrightarrow> fw_bounded fw'"
  by (simp add: fw_bounded_def)

lemma apply_profile_fields:
  "conntrack (apply_profile ts p fw) = conntrack fw" "rate_limiter (apply_profile ts p fw) = rate_limiter fw"
  "log_buffer (apply_profile ts p fw) = log_buffer fw" "max_log_entries (apply_profile ts p fw) = max_log_entries fw"
  by (cases p; simp add: apply_profile_def add_default_rules_def add_gaming_rules_def Let_def)+

lemma filter_bounded:
  assumes "fw_bounded fw"
  shows "fw_bounded (snd (filter_packet pkt d now fw))"
proof -
  have "length (log_buffer (snd (filter_packet pkt d now fw))) \<le> 4096"
    using assms filter_log [of fw pkt d now] by (simp add: fw_bounded_def)
  moreover have "bt_ok (buckets l) \<and> max_tokens l = 2000 \<and> (\<forall>(a, b) \<in> set (buckets l). tokens b \<le> 2000)"
    if "l = rate_limiter (snd (filter_packet pkt d now fw))" for l
    using filter_parts(3) [of pkt d now fw] that assms
      rate_check_bounded [of "rate_limiter fw" "src_addr pkt" "now * 1000"]
    by (auto simp: fw_bounded_def)
  ultimately show ?thesis
    using assms track_bounded [of "conntrack fw" pkt now] filter_parts(1,2) [of pkt d now fw]
    by (simp add: fw_bounded_def)
qed

lemma cleanup_bounded: "fw_bounded fw \<Longrightarrow> fw_bounded (snd (fw_cleanup now fw))"
  by (auto simp: fw_bounded_def fw_cleanup_def conn_cleanup_def bt_retain_def Let_def bt_ok_filter
      intro: order_trans [OF length_filter_le])

lemma fw_step_bounded: "fw_step fw fw' \<Longrightarrow> fw_bounded fw \<Longrightarrow> fw_bounded fw'"
proof (induction rule: fw_step.induct)
  case (step_packet fw pkt d now)
  then show ?case by (simp add: filter_bounded)
next
  case (step_cleanup fw now)
  then show ?case by (simp add: cleanup_bounded)
next
  case (step_profile fw ts ct p)
  then show ?case
    by (auto simp: set_profile_def apply_profile_fields intro: fw_bounded_cong split: sum.split)
qed (auto simp: add_rule_def remove_rule_def set_rule_enabled_def flush_rules_def set_enabled_def clear_log_def
    reset_stats_def reset_rule_counters_def next_id_def insert_rule_def Let_def fw_bounded_def
    split: sum.splits option.splits)

interpretation fw: inductive_invariant "\<lambda>fw. \<exists>ts. firewall_init ts = Some fw" fw_step fw_bounded
proof
  fix fw
  assume "\<exists>ts. firewall_init ts = Some fw"
  then show "fw_bounded fw"
    by (auto simp: firewall_init_def fw_bounded_def apply_profile_fields firewall_new_def conn_new_def rate_new_def bt_empty_def)
qed (rule fw_step_bounded)

text \<open>
  In every state reached from boot by packets, sweeps and management calls, the
  connection table holds at most 65536 flows, the log at most 4096 entries and no source
  more tokens than the burst of 2000, and both tables stay sorted maps.
\<close>

theorem firewall_bounds:
  assumes "firewall_init ts = Some fw" and "fw_step\<^sup>*\<^sup>* fw fw'"
  shows "conn_count (conntrack fw') \<le> 65536 \<and> length (log_buffer fw') \<le> 4096
     \<and> bt_ok (conn_table (conntrack fw')) \<and> bt_ok (buckets (rate_limiter fw'))
     \<and> (\<forall>src b. bt_get (buckets (rate_limiter fw')) src = Some b \<longrightarrow> tokens b \<le> 2000)"
  using fw.reachable_inv [of fw fw'] assms bt_get_mem
  by (fastforce simp: fw_bounded_def conn_count_def)

theorem firewall_bounds_witness:
  "conn_count (conntrack (snd (filter_packet probe Inbound 7 booted))) \<le> 65536"
proof -
  have "firewall_init 0 = Some booted" by (simp add: booted_def firewall_init_def)
  from firewall_bounds [OF this r_into_rtranclp [of fw_step, OF step_packet [of booted probe Inbound 7]]]
  show ?thesis by simp
qed

section \<open>The capability gate\<close>

lemma gate_closed:
  "\<nexists>h lo hi r. (h, Network lo hi r) \<in> set (cap_iter ct) \<and> contains r right \<Longrightarrow>
   check_network_cap ct right = Inl CapabilityDenied"
  by (force simp: check_network_cap_def split: Cap.splits)

text \<open>
  A caller whose capability table holds no network capability with the WRITE right gets
  \<open>CapabilityDenied\<close> from every call that edits rules or the profile, and the firewall is
  unchanged; without the READ right it cannot list the rules.
\<close>

theorem management_gated:
  "((\<nexists>h lo hi r. (h, Network lo hi r) \<in> set (cap_iter ct) \<and> contains r Rights_WRITE) \<longrightarrow>
     add_rule ts ct d proto sa da sp dp app act desc fw = (Inl CapabilityDenied, fw)
   \<and> remove_rule ct rid fw = (Inl CapabilityDenied, fw)
   \<and> set_rule_enabled ct rid b fw = (Inl CapabilityDenied, fw)
   \<and> set_profile ts ct p fw = (Inl CapabilityDenied, fw)
   \<and> flush_rules ct fw = (Inl CapabilityDenied, fw))
   \<and> ((\<nexists>h lo hi r. (h, Network lo hi r) \<in> set (cap_iter ct) \<and> contains r Rights_READ) \<longrightarrow>
     list_rules ct fw = Inl CapabilityDenied)"
  by (intro conjI impI)
    (simp_all add: gate_closed add_rule_def remove_rule_def set_rule_enabled_def set_profile_def flush_rules_def list_rules_def)

theorem management_gated_witness:
  "remove_rule (snd (insert_root (Network 1 80 Rights_READ) cap_table_new)) 1 booted = (Inl CapabilityDenied, booted)"
proof -
  let ?ct = "snd (insert_root (Network 1 80 Rights_READ) cap_table_new)"
  have "\<nexists>h lo hi r. (h, Network lo hi r) \<in> set (cap_iter ?ct) \<and> contains r Rights_WRITE"
    by (simp add: insert_root_def cap_table_new_def cap_iter_def bt_empty_def Rights_READ_def Rights_WRITE_def contains_def Let_def)
  then show ?thesis using management_gated [of ?ct] by blast
qed

section \<open>Rate limiting\<close>

text \<open>The answers of the limiter to a sequence of packets, each a source with its time.\<close>

fun rate_run :: "(Addr \<times> u64) list \<Rightarrow> RateLimiter \<Rightarrow> bool list" where
  "rate_run [] l = []"
| "rate_run ((src, t) # ps) l = (let (ok, l') = rate_check src t l in ok # rate_run ps l')"

text \<open>How many packets of the source with key \<open>k\<close> a run admits.\<close>

fun admitted :: "u32 \<Rightarrow> (Addr \<times> u64) list \<Rightarrow> bool list \<Rightarrow> nat" where
  "admitted k ((src, t) # ps) (ok # oks) = (if addr_be src = k \<and> ok then 1 else 0) + admitted k ps oks"
| "admitted k _ _ = 0"

lemma addr_be_bytes:
  "ucast (drop_bit 24 (addr_be (a, b, c, d))) = a" "ucast (drop_bit 16 (addr_be (a, b, c, d))) = b"
  "ucast (drop_bit 8 (addr_be (a, b, c, d))) = c" "ucast (addr_be (a, b, c, d)) = d"
  by (rule bit_word_eqI; auto simp: bit_simps dest: bit_imp_le_length)+

lemma addr_be_inject: "addr_be x = addr_be y \<longleftrightarrow> x = y"
proof
  assume eq: "addr_be x = addr_be y"
  obtain a b c d a' b' c' d' where "x = (a, b, c, d)" "y = (a', b', c', d')" by (cases x, cases y) auto
  then show "x = y" using addr_be_bytes [of a b c d] addr_be_bytes [of a' b' c' d'] eq by metis
qed simp

lemma rate_run_bucket:
  assumes "bt_ok (buckets l)" and "bt_get (buckets l) (addr_be src) = Some b" and "0 < last_refill b"
    and "0 < refill_interval_ms l" and "unat (refill_interval_ms l) \<le> 60000"
    and "\<forall>p \<in> set ps. unat (snd p) < unat (last_refill b) + unat (refill_interval_ms l)"
  shows "admitted (addr_be src) ps (rate_run ps l) = min (length (filter (\<lambda>p. fst p = src) ps)) (unat (tokens b))"
  using assms
proof (induction ps arbitrary: l b)
  case (Cons p ps)
  obtain s t where p: "p = (s, t)" by (cases p)
  have t: "unat t < unat (last_refill b) + unat (refill_interval_ms l)" using Cons.prems(6) by (simp add: p)
  have still: "refill l t b = b"
    using t Cons.prems(4) by (auto simp: refill_def Let_def word_le_nat_alt word_less_nat_alt unat_saturating_sub)
  have fresh: "last_refill b > saturating_sub t 60000"
    using t Cons.prems(3,5) by (simp add: word_less_nat_alt unat_saturating_sub)
  show ?case
  proof (cases "s = src")
    case True
    let ?b = "if tokens b > 0 then b\<lparr>tokens := tokens b - 1\<rparr> else b"
    let ?l = "l\<lparr>buckets := bt_insert (addr_be src) ?b (buckets l)\<rparr>"
    have step: "rate_check s t l = (tokens b > 0, ?l)"
      using True Cons.prems(2) still by (simp add: rate_check_def Let_def)
    have "admitted (addr_be src) ps (rate_run ps ?l) = min (length (filter (\<lambda>p. fst p = src) ps)) (unat (tokens ?b))"
      by (rule Cons.IH) (use Cons.prems in auto)
    moreover have "tokens b > 0 \<Longrightarrow> unat (tokens b - 1) = unat (tokens b) - 1 \<and> 0 < unat (tokens b)"
      by unat_arith
    moreover have "\<not> tokens b > 0 \<Longrightarrow> unat (tokens b) = 0"
      by unat_arith
    ultimately show ?thesis using step True by (auto simp: p)
  next
    case False
    have key: "addr_be s \<noteq> addr_be src" using False by (simp add: addr_be_inject)
    have get: "bt_get (buckets (snd (rate_check s t l))) (addr_be src) = Some b"
      using key Cons.prems(1,2) fresh
      by (auto simp: rate_check_def evict_stale_def bt_get_retain Let_def split: option.split)
    have fields: "refill_interval_ms (snd (rate_check s t l)) = refill_interval_ms l"
      "bt_ok (buckets (snd (rate_check s t l)))"
      using Cons.prems(1) by (auto simp: rate_check_def evict_stale_def Let_def split: option.split)
    have "admitted (addr_be src) ps (rate_run ps (snd (rate_check s t l)))
        = min (length (filter (\<lambda>p. fst p = src) ps)) (unat (tokens b))"
      by (rule Cons.IH) (use Cons.prems get fields in auto)
    then show ?thesis using False key by (cases "rate_check s t l") (simp add: p)
  qed
qed simp

text \<open>
  From the first packet of a source until the refill interval has passed, the limiter
  admits exactly the burst of that source and no more, however packets of other sources are
  interleaved and whatever they make it evict. (A bucket stamped at time 0 can be evicted
  early: the theorem starts after time 0.)
\<close>

theorem rate_burst:
  assumes "bt_ok (buckets l)" and "bt_get (buckets l) (addr_be src) = None" and "0 < max_tokens l"
    and "0 < t" and "0 < refill_interval_ms l" and "unat (refill_interval_ms l) \<le> 60000"
    and "\<forall>p \<in> set ps. unat (snd p) < unat t + unat (refill_interval_ms l)"
  shows "admitted (addr_be src) ((src, t) # ps) (rate_run ((src, t) # ps) l)
     = min (Suc (length (filter (\<lambda>p. fst p = src) ps))) (unat (max_tokens l))"
proof -
  let ?l = "if length (buckets l) \<ge> max_sources l then evict_stale t l else l"
  let ?b = "\<lparr>tokens = max_tokens l - 1, last_refill = t\<rparr>"
  let ?l' = "?l\<lparr>buckets := bt_insert (addr_be src) ?b (buckets ?l)\<rparr>"
  have step: "rate_check src t l = (True, ?l')"
    using assms(2) by (simp add: rate_check_def Let_def evict_stale_def)
  have "admitted (addr_be src) ps (rate_run ps ?l') = min (length (filter (\<lambda>p. fst p = src) ps)) (unat (tokens ?b))"
    by (rule rate_run_bucket) (use assms in \<open>auto simp: evict_stale_def Let_def\<close>)
  moreover have "unat (max_tokens l) = Suc (unat (max_tokens l - 1))"
    using assms(3) by unat_arith
  ultimately show ?thesis by (simp add: step)
qed

theorem rate_burst_witness:
  "admitted (addr_be (10, 0, 0, 1)) [((10, 0, 0, 1), 5000), ((10, 0, 0, 2), 5100), ((10, 0, 0, 1), 5200), ((10, 0, 0, 1), 5999)]
     (rate_run [((10, 0, 0, 1), 5000), ((10, 0, 0, 2), 5100), ((10, 0, 0, 1), 5200), ((10, 0, 0, 1), 5999)] (rate_new 1000 2)) = 2"
  using rate_burst [of "rate_new 1000 2" "(10, 0, 0, 1)" 5000
      "[((10, 0, 0, 2), 5100), ((10, 0, 0, 1), 5200), ((10, 0, 0, 1), 5999)]"]
  by (simp add: rate_new_def)

section \<open>Parsing and matching\<close>

text \<open>
  A subnet match with a prefix of 1 to 32 bits compares exactly that many leading bits of
  the addresses. With prefix 0, which ought to match every address, it matches the network
  address alone: the shift by 32 wraps and the mask has all bits set.
\<close>

theorem subnet_match:
  "(1 \<le> unat p \<and> unat p \<le> 32 \<longrightarrow>
     (addr_matches (AddrSubnet net p) a \<longleftrightarrow>
      drop_bit (32 - unat p) (addr_be net) = drop_bit (32 - unat p) (addr_be a)))
   \<and> (addr_matches (AddrSubnet net 0) a \<longleftrightarrow> a = net)"
proof (intro conjI impI)
  assume p: "1 \<le> unat p \<and> unat p \<le> 32"
  show "addr_matches (AddrSubnet net p) a \<longleftrightarrow>
      drop_bit (32 - unat p) (addr_be net) = drop_bit (32 - unat p) (addr_be a)"
    unfolding addr_matches.simps by (rule mask_eq_iff_drop) (use p subnet_mask_bits in auto)
next
  have "subnet_mask 0 = - 1" by (simp add: subnet_mask_def)
  then show "addr_matches (AddrSubnet net 0) a \<longleftrightarrow> a = net"
    using addr_be_inject by (auto simp del: addr_be.simps)
qed

theorem subnet_match_witness:
  "addr_matches (AddrSubnet (192, 168, 1, 0) 24) (192, 168, 1, 77)"
  using subnet_match [of 24 "(192, 168, 1, 0)" "(192, 168, 1, 77)"] by simp

text \<open>
  Parsing an IPv4 packet never reads past the slice it is given, whatever header length
  the packet claims: it answers \<open>None\<close> exactly when the slice is shorter than 20 bytes or than
  the claimed header, and the ports are 0 unless the protocol is TCP or UDP.
\<close>

theorem from_ipv4_total:
  "\<exists>r. from_ipv4 d app = Ret r \<and>
     (r = None \<longleftrightarrow> length d < 20 \<or> length d < unat (d ! 0 AND 0x0F) * 4) \<and>
     (\<forall>p. r = Some p \<longrightarrow> app_id p = app \<and> protocol p = from_ip_proto (d ! 9) \<and>
        addr_bytes (src_addr p) @ addr_bytes (dst_addr p) = map ((!) d) [12..<20] \<and>
        (protocol p \<notin> {Tcp, Udp} \<longrightarrow> src_port p = 0 \<and> dst_port p = 0))"
proof (cases "length d < 20 \<or> length d < unat (d ! 0 AND 0x0F) * 4")
  case True
  then show ?thesis by (auto simp: from_ipv4_def index_all_def Let_def)
next
  case False
  moreover have "[12..<20] = [12, 13, 14, 15, 16, 17, 18, 19 :: nat]" by (simp add: upt_conv_Cons)
  ultimately show ?thesis by (simp add: from_ipv4_def index_all_def Let_def not_less) auto
qed

theorem from_ipv4_total_witness:
  "\<exists>p. from_ipv4 [0x45, 0, 0, 28, 0, 0, 0, 0, 64, 1, 0, 0, 10, 0, 0, 1, 10, 0, 0, 2] None = Ret (Some p) \<and> src_port p = 0"
proof -
  let ?d = "[0x45, 0, 0, 28, 0, 0, 0, 0, 64, 1, 0, 0, 10, 0, 0, 1, 10, 0, 0, 2] :: u8 list"
  obtain r where r: "from_ipv4 ?d None = Ret r"
    and none: "r = None \<longleftrightarrow> length ?d < 20 \<or> length ?d < unat (?d ! 0 AND 0x0F) * 4"
    and ports: "\<forall>p. r = Some p \<longrightarrow> protocol p = from_ip_proto (?d ! 9) \<and> (protocol p \<notin> {Tcp, Udp} \<longrightarrow> src_port p = 0)"
    using from_ipv4_total [of ?d None] by blast
  have "r \<noteq> None" using none by simp
  then obtain p where p: "r = Some p" by auto
  have "protocol p = Icmp" using ports p by (simp add: from_ip_proto_def)
  then show ?thesis using r p ports by auto
qed

end
