(* ===== verification/Buddy.thy ===== *)
theory Buddy
  imports Prelude
begin

text \<open>
  The buddy allocator of physical frames (\<^verbatim>\<open>kernel/src/memory/buddy.rs\<close>): twelve doubly
  linked free lists threaded through the free frames themselves, and a bitmap of used
  frames. Physical memory is a function from addresses to 64-bit words, read and written
  through the direct map (\<^verbatim>\<open>phys_to_virt\<close>); an operation takes and returns the allocator
  together with the memory.
\<close>

section \<open>State\<close>

type_synonym phys = "u64 \<Rightarrow> u64"

definition MAX_ORDER :: nat where
  "MAX_ORDER = 12"

record BuddyAllocator =
  free_lists :: "u64 list"
  bitmap :: "u64 list"
  total_frames :: usize
  free_frames :: usize
  node_id :: u32

type_synonym buddy_state = "BuddyAllocator \<times> phys"

definition buddy_new :: "nat \<Rightarrow> usize \<Rightarrow> u32 \<Rightarrow> BuddyAllocator" where
  "buddy_new bitmap_len frames node =
     \<lparr>free_lists = replicate MAX_ORDER 0, bitmap = replicate bitmap_len (NOT 0),
      total_frames = frames, free_frames = 0, node_id = node\<rparr>"

definition buddy_stats :: "BuddyAllocator \<Rightarrow> usize \<times> usize" where
  "buddy_stats b = (total_frames b, free_frames b)"

text \<open>The bytes of a block of order \<open>n\<close>: \<^verbatim>\<open>1u64 << (order + 12)\<close>.\<close>

definition block_size :: "nat \<Rightarrow> u64" where
  "block_size n = push_bit (n + 12) 1"

definition frame_idx :: "u64 \<Rightarrow> nat" where
  "frame_idx addr = unat (drop_bit 12 addr)"

section \<open>The bitmap\<close>

definition frame_is_free :: "BuddyAllocator \<Rightarrow> nat \<Rightarrow> bool" where
  "frame_is_free b f =
     (if f \<ge> unat (total_frames b) then False
      else let w = f div 64; k = f mod 64 in
        if w \<ge> length (bitmap b) then False
        else (bitmap b ! w) AND push_bit k 1 = 0)"

definition is_block_free :: "BuddyAllocator \<Rightarrow> u64 \<Rightarrow> u8 \<Rightarrow> bool" where
  "is_block_free b addr order =
     list_all (\<lambda>i. frame_is_free b (frame_idx addr + i)) [0..<2 ^ (unat order mod 64)]"

definition mark_frame :: "bool \<Rightarrow> nat \<Rightarrow> u64 list \<Rightarrow> u64 list" where
  "mark_frame used f bm =
     (let w = f div 64; k = f mod 64 in
      if w < length bm
      then bm[w := (if used then bm ! w OR push_bit k 1 else bm ! w AND NOT (push_bit k 1))]
      else bm)"

definition mark_range :: "u64 \<Rightarrow> nat \<Rightarrow> bool \<Rightarrow> BuddyAllocator \<Rightarrow> BuddyAllocator" where
  "mark_range addr count used b =
     b\<lparr>bitmap := fold (\<lambda>i. mark_frame used (frame_idx addr + i)) [0..<count] (bitmap b)\<rparr>"

section \<open>The free lists\<close>

text \<open>A node holds the next block in its first word and the previous one in its second.\<close>

definition push_to_list :: "u64 \<Rightarrow> nat \<Rightarrow> buddy_state \<Rightarrow> buddy_state" where
  "push_to_list addr n s =
     (let (b, m) = s;
          nxt = free_lists b ! n;
          m = m(addr := nxt);
          m = m(addr + 8 := 0);
          m = (if nxt \<noteq> 0 then m(nxt + 8 := addr) else m)
      in (b\<lparr>free_lists := (free_lists b)[n := addr]\<rparr>, m))"

definition pop_from_list :: "u64 \<Rightarrow> nat \<Rightarrow> buddy_state \<Rightarrow> buddy_state" where
  "pop_from_list addr n s =
     (let (b, m) = s;
          nxt = m addr;
          prv = m (addr + 8);
          (b, m) = (if prv \<noteq> 0 then (b, m(prv := nxt))
                    else (b\<lparr>free_lists := (free_lists b)[n := nxt]\<rparr>, m));
          m = (if nxt \<noteq> 0 then m(nxt + 8 := prv) else m)
      in (b, m))"

definition max_addr :: "BuddyAllocator \<Rightarrow> u64" where
  "max_addr b = saturating_mul (total_frames b) 4096"

definition block_on_free_list :: "u64 \<Rightarrow> nat \<Rightarrow> buddy_state \<Rightarrow> bool" where
  "block_on_free_list addr n s =
     (let (b, m) = s in
      if \<not> is_block_free b addr (word_of_nat n) then False
      else
        let valid = (\<lambda>p. p = 0 \<or> p < max_addr b \<and> p AND 0xFFF = 0);
            nxt = m addr;
            prv = m (addr + 8) in
        if \<not> valid nxt \<or> \<not> valid prv then False
        else if prv = 0 then free_lists b ! n = addr
        else m prv = addr)"

section \<open>Allocation\<close>

text \<open>Splitting a block of order \<open>c\<close> down to \<open>order\<close>, pushing the upper halves.\<close>

fun split_loop :: "nat \<Rightarrow> u64 \<Rightarrow> nat \<Rightarrow> buddy_state \<Rightarrow> buddy_state" where
  "split_loop order block 0 s = s"
| "split_loop order block (Suc c) s =
     (if Suc c > order then split_loop order block c (push_to_list (block + block_size c) c s) else s)"

definition alloc_block :: "u8 \<Rightarrow> buddy_state \<Rightarrow> u64 option \<times> buddy_state" where
  "alloc_block order s =
     (let order = unat order in
      if order \<ge> MAX_ORDER then (None, s)
      else case find (\<lambda>n. free_lists (fst s) ! n \<noteq> 0) [order..<MAX_ORDER] of
          None \<Rightarrow> (None, s)
        | Some n \<Rightarrow>
            (let block = free_lists (fst s) ! n;
                 s = pop_from_list block n s;
                 (b, m) = split_loop order block n s;
                 b = mark_range block (2 ^ order) True b
             in (Some block, (b\<lparr>free_frames := free_frames b - 2 ^ order\<rparr>, m))))"

section \<open>Deallocation\<close>

function merge_loop :: "u64 \<Rightarrow> nat \<Rightarrow> buddy_state \<Rightarrow> u64 \<times> nat \<times> buddy_state" where
  "merge_loop addr n s =
     (if n < MAX_ORDER - 1
      then let buddy = addr XOR block_size n in
        if block_on_free_list buddy n s
        then merge_loop (min addr buddy) (n + 1) (pop_from_list buddy n s)
        else (addr, n, s)
      else (addr, n, s))"
  by pat_completeness auto
termination
  by (relation "measure (\<lambda>(addr, n, s). MAX_ORDER - 1 - n)") auto

declare merge_loop.simps [simp del]

text \<open>
  \<^verbatim>\<open>free_block\<close> for an order that has a free list; with a larger order, a block that is not
  already free makes the indexing of the free lists panic.
\<close>

definition free_listed :: "u64 \<Rightarrow> nat \<Rightarrow> buddy_state \<Rightarrow> buddy_state" where
  "free_listed addr order s =
     (if is_block_free (fst s) addr (word_of_nat order) then s
      else
        let (b, m) = s;
            b = b\<lparr>free_frames := free_frames b + 2 ^ order\<rparr>;
            (addr, n, s) = merge_loop addr order (b, m);
            (b, m) = push_to_list addr n s
        in (mark_range addr (2 ^ n) False b, m))"

definition free_block :: "u64 \<Rightarrow> u8 \<Rightarrow> buddy_state \<Rightarrow> buddy_state rust" where
  "free_block addr order s =
     (if is_block_free (fst s) addr order then Ret s
      else if unat order \<ge> MAX_ORDER then Panic
      else Ret (free_listed addr (unat order) s))"

section \<open>Adding memory\<close>

text \<open>The largest aligned block at \<open>addr\<close> that ends at or before \<open>e\<close>, trying orders from \<open>n\<close>.\<close>

function fit_order :: "u64 \<Rightarrow> u64 \<Rightarrow> nat \<Rightarrow> nat" where
  "fit_order addr e n =
     (if n < MAX_ORDER - 1
      then let size = block_size (n + 1) in
        if addr mod size \<noteq> 0 \<or> addr + size > e then n else fit_order addr e (n + 1)
      else n)"
  by pat_completeness auto
termination
  by (relation "measure (\<lambda>(addr, e, n). MAX_ORDER - 1 - n)") auto

declare fit_order.simps [simp del]

partial_function (option) add_loop :: "u64 \<Rightarrow> u64 \<Rightarrow> buddy_state \<Rightarrow> buddy_state option" where
  "add_loop addr e s =
     (if addr < e
      then if addr \<ge> max_addr (fst s) then Some s
        else let n = fit_order addr e 0
             in add_loop (addr + block_size n) e (free_listed addr n s)
      else Some s)"

declare add_loop.simps [code]

definition add_range :: "u64 \<Rightarrow> u64 \<Rightarrow> buddy_state \<Rightarrow> buddy_state option" where
  "add_range start e s = add_loop ((start + 4095) AND NOT 4095) (e AND NOT 4095) s"

section \<open>Counting\<close>

fun walk_count :: "BuddyAllocator \<Rightarrow> phys \<Rightarrow> u64 \<Rightarrow> nat \<Rightarrow> nat" where
  "walk_count b m node 0 = 0"
| "walk_count b m node (Suc hops) =
     (if node \<noteq> 0 \<and> node < max_addr b \<and> node AND 0xFFF = 0
      then Suc (walk_count b m (m node) hops) else 0)"

definition order_counts :: "buddy_state \<Rightarrow> nat list" where
  "order_counts s = map (\<lambda>n. walk_count (fst s) (snd s) (free_lists (fst s) ! n) 1000000) [0..<MAX_ORDER]"

end
