(* ===== verification/Buddy_Lists.thy ===== *)
theory Buddy_Lists
  imports Buddy
begin

text \<open>
  The free lists of the buddy allocator as doubly linked lists in physical memory: a segment
  predicate with its append and frame laws, and what pushing a block and unlinking one from
  the middle of a list do to all twelve lists.
\<close>

section \<open>Segments\<close>

text \<open>
  The nodes \<open>as\<close> linked from \<open>h\<close>, whose first node points back to \<open>p\<close>; \<open>l\<close> is the last node
  and \<open>e\<close> what it points to.
\<close>

fun dlls :: "phys \<Rightarrow> u64 \<Rightarrow> u64 \<Rightarrow> u64 list \<Rightarrow> u64 \<Rightarrow> u64 \<Rightarrow> bool" where
  "dlls m p h [] l e \<longleftrightarrow> h = e \<and> l = p"
| "dlls m p h (a # as) l e \<longleftrightarrow> h = a \<and> a \<noteq> 0 \<and> m (a + 8) = p \<and> dlls m a (m a) as l e"

definition dll :: "phys \<Rightarrow> u64 \<Rightarrow> u64 list \<Rightarrow> bool" where
  "dll m h as \<longleftrightarrow> (\<exists>l. dlls m 0 h as l 0)"

definition node :: "u64 \<Rightarrow> bool" where
  "node a \<longleftrightarrow> a AND 0xFFF = 0"

lemma node_iff: "node a \<longleftrightarrow> unat a mod 4096 = 0"
proof -
  have "a AND 0xFFF = take_bit 12 a"
    by (simp add: take_bit_eq_mask mask_numeral)
  then have "node a \<longleftrightarrow> unat (take_bit 12 a) = 0" by (simp add: node_def unat_eq_zero)
  then show ?thesis by (simp add: take_bit_eq_mod unat_mod)
qed

lemma node_second_word: "node a \<Longrightarrow> node b \<Longrightarrow> a \<noteq> b + 8"
proof
  assume "node a" "node b" "a = b + 8"
  then have b: "unat (b + 8) mod 4096 = 0" "unat b mod 4096 = 0" by (simp_all add: node_iff)
  have "unat (b + 8) = (unat b + 8) mod 2 ^ 64"
    using unat_word_ariths(1) [of b 8] by simp
  moreover have "(unat b + 8) mod 2 ^ 64 mod 2 ^ 12 = (unat b + 8) mod 2 ^ 12"
    by (rule mod_mod_cancel) (rule le_imp_power_dvd, simp)
  moreover have "(unat b + 8) mod 2 ^ 12 = (unat b mod 2 ^ 12 + 8) mod 2 ^ 12" by (simp only: mod_add_left_eq)
  ultimately have "unat (b + 8) mod 2 ^ 12 = (unat b mod 2 ^ 12 + 8) mod 2 ^ 12" by (simp only:)
  with b show False by simp
qed

lemma dlls_append:
  "dlls m p h (xs @ ys) l e \<longleftrightarrow> (\<exists>k j. dlls m p h xs k j \<and> dlls m k j ys l e)"
  by (induction xs arbitrary: p h) auto

lemma dlls_cong:
  "\<forall>a \<in> set as. m' a = m a \<and> m' (a + 8) = m (a + 8) \<Longrightarrow> dlls m' p h as l e = dlls m p h as l e"
  by (induction as arbitrary: p h) auto

lemma dlls_last: "dlls m p h as l e \<Longrightarrow> l = (if as = [] then p else last as)"
  by (induction as arbitrary: p h) auto

lemma dlls_head: "dlls m p h as l e \<Longrightarrow> h = (if as = [] then e else hd as)"
  by (cases as) auto

lemma dlls_nonzero: "dlls m p h as l e \<Longrightarrow> a \<in> set as \<Longrightarrow> a \<noteq> 0"
  by (induction as arbitrary: p h) auto

lemma dlls_next:
  assumes "dlls m p h as l e" and "as \<noteq> []" and "distinct as" and "\<forall>a \<in> set as. node a"
  shows "dlls (m(last as := e')) p h as l e'"
proof -
  obtain us k where as: "as = us @ [k]" using assms(2) by (metis append_butlast_last_id)
  have "\<forall>a \<in> set us. (m(k := e')) a = m a \<and> (m(k := e')) (a + 8) = m (a + 8)"
    using assms(3,4) as node_second_word by fastforce
  then have "dlls (m(k := e')) p h us k' j = dlls m p h us k' j" for k' j
    by (rule dlls_cong)
  moreover have "k \<noteq> k + 8" using assms(4) as node_second_word by simp
  ultimately show ?thesis using assms(1) by (auto simp: as dlls_append)
qed

lemma dlls_prev:
  assumes "dlls m p h as l e" and "as \<noteq> []" and "distinct as" and "\<forall>a \<in> set as. node a"
    and "l' = (if tl as = [] then hd as else l)"
  shows "dlls (m(h + 8 := p')) p' h as l' e"
proof -
  obtain ys where as: "as = h # ys" using assms(1,2) by (cases as) auto
  have neq: "a \<noteq> h + 8" if "a \<in> set as" for a
    using assms(4) as that node_second_word by auto
  have "dlls (m(h + 8 := p')) h (m h) ys l e = dlls m h (m h) ys l e"
    by (rule dlls_cong) (use assms(3) as neq in auto)
  moreover have "(m(h + 8 := p')) h = m h" using neq [of h] as by auto
  ultimately show ?thesis using assms(1,5) by (auto simp: as)
qed

section \<open>All free lists\<close>

definition lists_ok :: "u64 list \<Rightarrow> phys \<Rightarrow> (nat \<Rightarrow> u64 list) \<Rightarrow> bool" where
  "lists_ok fl m L \<longleftrightarrow> length fl = MAX_ORDER
     \<and> (\<forall>n < MAX_ORDER. dll m (fl ! n) (L n) \<and> distinct (L n) \<and> (\<forall>a \<in> set (L n). node a))
     \<and> (\<forall>n < MAX_ORDER. \<forall>k < MAX_ORDER. n \<noteq> k \<longrightarrow> set (L n) \<inter> set (L k) = {})"

lemma dll_cong:
  "\<forall>a \<in> set as. m' a = m a \<and> m' (a + 8) = m (a + 8) \<Longrightarrow> dll m' h as = dll m h as"
  unfolding dll_def using dlls_cong by blast

lemma dll_empty_iff: "dll m h as \<Longrightarrow> h = 0 \<longleftrightarrow> as = []"
  by (cases as) (auto simp: dll_def)

lemma dll_hd: "dll m h as \<Longrightarrow> h \<noteq> 0 \<Longrightarrow> as = h # tl as"
  by (cases as) (auto simp: dll_def)

text \<open>Pushing a block in front of one list.\<close>

lemma dll_push:
  assumes "dll m h as" and "distinct as" and "\<forall>x \<in> set as. node x" and "node a" and "a \<noteq> 0" and "a \<notin> set as"
  defines "m' \<equiv> (let m1 = m(a := h, a + 8 := 0) in if h \<noteq> 0 then m1(h + 8 := a) else m1)"
  shows "dll m' a (a # as)"
proof -
  let ?m1 = "m(a := h, a + 8 := 0)"
  obtain l where l: "dlls m 0 h as l 0" using assms(1) by (auto simp: dll_def)
  have "dlls ?m1 0 h as l 0 = dlls m 0 h as l 0"
    by (rule dlls_cong) (use assms(3,4,6) node_second_word in fastforce)
  with l have l1: "dlls ?m1 0 h as l 0" by simp
  have a: "a \<noteq> a + 8" using assms(4) node_second_word by blast
  show ?thesis
  proof (cases "as = []")
    case True
    then show ?thesis using l a assms(5) by (auto simp: dll_def m'_def)
  next
    case False
    then have h: "h \<noteq> 0" "h \<in> set as" "node h" using l assms(3) by (cases as; auto)+
    have "h \<noteq> a" using h(2) assms(6) by auto
    then have "m' a = h \<and> m' (a + 8) = 0"
      using h node_second_word [OF assms(4) h(3)] a by (simp add: m'_def)
    moreover have "dlls m' a h as (if tl as = [] then hd as else l) 0"
      using dlls_prev [OF l1 False assms(2,3) refl, of a] h(1) by (simp add: m'_def)
    ultimately show ?thesis using assms(5) by (auto simp: dll_def)
  qed
qed

text \<open>Unlinking a block from anywhere in one list.\<close>

lemma dll_unlink:
  assumes "dll m h (xs @ a # ys)" and "distinct (xs @ a # ys)" and "\<forall>x \<in> set (xs @ a # ys). node x"
  defines "m1 \<equiv> (if m (a + 8) \<noteq> 0 then m(m (a + 8) := m a) else m)"
  defines "m' \<equiv> (if m a \<noteq> 0 then m1(m a + 8 := m (a + 8)) else m1)"
  shows "dll m' (if m (a + 8) \<noteq> 0 then h else m a) (xs @ ys)"
    and "m (a + 8) \<noteq> 0 \<Longrightarrow> m (a + 8) \<in> set xs"
    and "m a \<noteq> 0 \<Longrightarrow> m a \<in> set ys"
    and "m (a + 8) = 0 \<longleftrightarrow> xs = []"
proof -
  obtain l k where xs: "dlls m 0 h xs k a" and ka: "m (a + 8) = k" and a0: "a \<noteq> 0"
    and ys: "dlls m a (m a) ys l 0"
    using assms(1) by (auto simp: dll_def dlls_append)
  have k: "k = (if xs = [] then 0 else last xs)" using dlls_last [OF xs] by simp
  have k0: "k = 0 \<longleftrightarrow> xs = []" using k dlls_nonzero [OF xs, of "last xs"] by auto
  then show prev0: "m (a + 8) = 0 \<longleftrightarrow> xs = []" using ka by simp
  show "m (a + 8) \<in> set xs" if "m (a + 8) \<noteq> 0" using that k ka by (simp split: if_splits)
  have j: "m a = (if ys = [] then 0 else hd ys)" using dlls_head [OF ys] by simp
  have j0: "m a = 0 \<longleftrightarrow> ys = []" using j dlls_nonzero [OF ys, of "hd ys"] by auto
  show "m a \<in> set ys" if "m a \<noteq> 0" using that j by (simp split: if_splits)
  have nodes: "\<forall>x \<in> set xs. node x" "\<forall>x \<in> set ys. node x" "distinct xs" "distinct ys" "set xs \<inter> set ys = {}"
    using assms(2,3) by auto
  define h' where "h' = (if m (a + 8) \<noteq> 0 then h else m a)"
  have xs1: "dlls m1 0 h' xs k (m a)"
  proof (cases "xs = []")
    case True
    then show ?thesis using k0 ka k by (simp add: h'_def)
  next
    case False
    then show ?thesis using dlls_next [OF xs False nodes(3,1)] k k0 ka by (simp add: h'_def m1_def)
  qed
  have ys1: "dlls m1 a (m a) ys l 0 = dlls m a (m a) ys l 0"
  proof (rule dlls_cong, rule ballI)
    fix y assume y: "y \<in> set ys"
    have "y \<noteq> k" "y + 8 \<noteq> k" if "k \<noteq> 0"
    proof -
      have "k \<in> set xs" using that k k0 by simp
      then show "y \<noteq> k" "y + 8 \<noteq> k" using y nodes(1,2,5) node_second_word [of k y] by auto
    qed
    then show "m1 y = m y \<and> m1 (y + 8) = m (y + 8)" using ka by (auto simp: m1_def)
  qed
  have xs2: "dlls m' 0 h' xs k (m a) = dlls m1 0 h' xs k (m a)"
  proof (rule dlls_cong, rule ballI)
    fix x assume x: "x \<in> set xs"
    have "x \<noteq> m a + 8" "x \<noteq> m a" if "m a \<noteq> 0"
      using x nodes(1,2,5) j j0 that node_second_word [of x "m a"] by auto
    then show "m' x = m1 x \<and> m' (x + 8) = m1 (x + 8)" by (auto simp: m'_def)
  qed
  have "\<exists>l'. dlls m' k (m a) ys l' 0"
  proof (cases "ys = []")
    case True
    then show ?thesis using j0 by simp
  next
    case False
    then show ?thesis
      using dlls_prev [OF ys1 [THEN iffD2, OF ys] False nodes(4,2) refl, of k] j0 ka by (auto simp: m'_def)
  qed
  then show "dll m' (if m (a + 8) \<noteq> 0 then h else m a) (xs @ ys)"
    using xs1 xs2 unfolding dll_def dlls_append h'_def by blast
qed

text \<open>What the two operations do to all lists together.\<close>

lemma lists_okD:
  assumes "lists_ok fl m L"
  shows "length fl = MAX_ORDER"
    and "n < MAX_ORDER \<Longrightarrow> dll m (fl ! n) (L n)"
    and "n < MAX_ORDER \<Longrightarrow> distinct (L n)"
    and "n < MAX_ORDER \<Longrightarrow> a \<in> set (L n) \<Longrightarrow> node a"
    and "n < MAX_ORDER \<Longrightarrow> k < MAX_ORDER \<Longrightarrow> a \<in> set (L n) \<Longrightarrow> a \<in> set (L k) \<Longrightarrow> n = k"
    and "n < MAX_ORDER \<Longrightarrow> a \<in> set (L n) \<Longrightarrow> a \<noteq> 0"
  using assms dlls_nonzero by (auto simp: lists_ok_def dll_def) blast+

lemma lists_okI:
  assumes "length fl = MAX_ORDER"
    and "\<And>n. n < MAX_ORDER \<Longrightarrow> dll m (fl ! n) (L n)"
    and "\<And>n. n < MAX_ORDER \<Longrightarrow> distinct (L n)"
    and "\<And>n a. n < MAX_ORDER \<Longrightarrow> a \<in> set (L n) \<Longrightarrow> node a"
    and "\<And>n k a. n < MAX_ORDER \<Longrightarrow> k < MAX_ORDER \<Longrightarrow> a \<in> set (L n) \<Longrightarrow> a \<in> set (L k) \<Longrightarrow> n = k"
  shows "lists_ok fl m L"
  using assms by (auto simp: lists_ok_def)

lemma push_lists:
  assumes ok: "lists_ok (free_lists b) m L" and n: "n < MAX_ORDER" and a: "node a" "a \<noteq> 0"
    and fresh: "\<And>k. k < MAX_ORDER \<Longrightarrow> a \<notin> set (L k)"
    and push: "push_to_list a n (b, m) = (b', m')"
  shows "lists_ok (free_lists b') m' (L(n := a # L n))" and "b' = b\<lparr>free_lists := free_lists b'\<rparr>"
proof -
  let ?h = "free_lists b ! n"
  have b': "b' = b\<lparr>free_lists := (free_lists b)[n := a]\<rparr>"
    and m': "m' = (let m1 = m(a := ?h, a + 8 := 0) in if ?h \<noteq> 0 then m1(?h + 8 := a) else m1)"
    using push by (auto simp: push_to_list_def Let_def split: if_splits)
  show "b' = b\<lparr>free_lists := free_lists b'\<rparr>" by (simp add: b')
  note D = lists_okD [OF ok]
  have hL: "?h \<noteq> 0 \<Longrightarrow> ?h \<in> set (L n)" using dll_hd [OF D(2) [OF n]] list.set_intros(1) by metis
  show "lists_ok (free_lists b') m' (L(n := a # L n))"
  proof (rule lists_okI)
    fix k assume k: "k < MAX_ORDER"
    show "dll m' (free_lists b' ! k) ((L(n := a # L n)) k)"
    proof (cases "k = n")
      case True
      then show ?thesis
        using dll_push [OF D(2,3) [OF n] _ a fresh [OF n]] D(1,4) n by (auto simp: b' m')
    next
      case False
      have "m' x = m x \<and> m' (x + 8) = m (x + 8)" if x: "x \<in> set (L k)" for x
      proof -
        have "x \<noteq> a" "node x" using x fresh [OF k] D(4) [OF k x] by auto
        moreover have "?h \<noteq> 0 \<Longrightarrow> x \<noteq> ?h \<and> node ?h" using hL D(5) [OF k n x] False D(4) n by auto
        ultimately show ?thesis
          using node_second_word [of x a] node_second_word [of a x] node_second_word [of x ?h] a(1)
          by (auto simp: m' Let_def)
      qed
      then have "dll m' (free_lists b ! k) (L k)" using D(2) [OF k] dll_cong by blast
      with False show ?thesis by (simp add: b')
    qed
  next
    fix i j x assume "i < MAX_ORDER" "j < MAX_ORDER" "x \<in> set ((L(n := a # L n)) i)" "x \<in> set ((L(n := a # L n)) j)"
    then show "i = j" using fresh D(5) by (auto split: if_splits)
  qed (use D a fresh n in \<open>auto simp: b' split: if_splits\<close>)
qed

lemma pop_lists:
  assumes ok: "lists_ok (free_lists b) m L" and n: "n < MAX_ORDER" and a: "a \<in> set (L n)"
    and pop: "pop_from_list a n (b, m) = (b', m')"
  shows "lists_ok (free_lists b') m' (L(n := remove1 a (L n)))" and "b' = b\<lparr>free_lists := free_lists b'\<rparr>"
proof -
  note D = lists_okD [OF ok]
  obtain xs ys where L: "L n = xs @ a # ys" "a \<notin> set xs" using a split_list_first by metis
  have rem: "remove1 a (L n) = xs @ ys" using L by (simp add: remove1_append)
  let ?m1 = "if m (a + 8) \<noteq> 0 then m(m (a + 8) := m a) else m"
  have b': "free_lists b' = (if m (a + 8) \<noteq> 0 then free_lists b else (free_lists b)[n := m a])"
    and m': "m' = (if m a \<noteq> 0 then ?m1(m a + 8 := m (a + 8)) else ?m1)"
    and "b' = b\<lparr>free_lists := free_lists b'\<rparr>"
    using pop by (auto simp: pop_from_list_def Let_def split: if_splits)
  then show "b' = b\<lparr>free_lists := free_lists b'\<rparr>" by simp
  note U = dll_unlink [OF D(2) [OF n, unfolded L(1)] D(3) [OF n, unfolded L(1)]]
  have nodes: "\<forall>x \<in> set (xs @ a # ys). node x" using D(4) [OF n] L(1) by auto
  show "lists_ok (free_lists b') m' (L(n := remove1 a (L n)))"
  proof (rule lists_okI)
    fix k assume k: "k < MAX_ORDER"
    show "dll m' (free_lists b' ! k) ((L(n := remove1 a (L n))) k)"
    proof (cases "k = n")
      case True
      then show ?thesis using U(1) [OF nodes] D(1) n by (auto simp: b' m' rem)
    next
      case False
      have mem: "m (a + 8) \<noteq> 0 \<Longrightarrow> m (a + 8) \<in> set (L n)" "m a \<noteq> 0 \<Longrightarrow> m a \<in> set (L n)"
        using U(2,3) [OF nodes] L(1) by auto
      have "m' x = m x \<and> m' (x + 8) = m (x + 8)" if x: "x \<in> set (L k)" for x
      proof -
        have x': "node x" "y \<in> set (L n) \<Longrightarrow> x \<noteq> y \<and> node y" for y
          using x False D(4) [OF k x] D(4) [OF n] D(5) [OF k n x] by auto
        show ?thesis
          using mem x' node_second_word [of x "m a"] node_second_word [of "m (a + 8)" x]
          by (auto simp: m')
      qed
      then have "dll m' (free_lists b ! k) (L k)" using D(2) [OF k] dll_cong by blast
      with False show ?thesis by (simp add: b')
    qed
  next
    fix i j x assume "i < MAX_ORDER" "j < MAX_ORDER" "x \<in> set ((L(n := remove1 a (L n))) i)"
      "x \<in> set ((L(n := remove1 a (L n))) j)"
    then show "i = j" using D(5) set_remove1_subset [of a "L n"] by (auto split: if_splits)
  qed (use D n set_remove1_subset [of a "L n"] in \<open>auto simp: b' distinct_remove1 split: if_splits\<close>)
qed

text \<open>The links of a listed block are what the membership test of the allocator looks for.\<close>

lemma listed_links:
  assumes ok: "lists_ok fl m L" and n: "n < MAX_ORDER" and a: "a \<in> set (L n)"
  shows "m a = 0 \<or> m a \<in> set (L n)" and "m (a + 8) = 0 \<or> m (a + 8) \<in> set (L n)"
    and "if m (a + 8) = 0 then fl ! n = a else m (m (a + 8)) = a"
proof -
  note D = lists_okD [OF ok]
  obtain xs ys where L: "L n = xs @ a # ys" using a split_list by metis
  note dl = D(2) [OF n, unfolded L]
  note U = dll_unlink [OF dl D(3) [OF n, unfolded L]]
  have nodes: "\<forall>x \<in> set (xs @ a # ys). node x" using D(4) [OF n] L by auto
  show "m a = 0 \<or> m a \<in> set (L n)" "m (a + 8) = 0 \<or> m (a + 8) \<in> set (L n)"
    using U(2,3) [OF nodes] L by auto
  show "if m (a + 8) = 0 then fl ! n = a else m (m (a + 8)) = a"
  proof (cases "xs = []")
    case True
    then show ?thesis using U(4) [OF nodes] dl by (auto simp: dll_def)
  next
    case False
    then obtain us k where "xs = us @ [k]" by (metis append_butlast_last_id)
    then show ?thesis using U(4) [OF nodes] False dl by (auto simp: dll_def dlls_append)
  qed
qed

end
