(* ===== verification/Buddy_Blocks.thy ===== *)
theory Buddy_Blocks
  imports Main
begin

text \<open>
  Sets of aligned blocks of frames, apart from any machine representation: a block of order
  \<open>n\<close> and number \<open>q\<close> holds the \<open>2 ^ n\<close> frames from \<open>q * 2 ^ n\<close>. In a well-formed set the blocks are
  disjoint and no two buddies are both free; such a set is determined by the frames it
  covers, and contains a block for every aligned run of free frames.
\<close>

section \<open>Blocks\<close>

type_synonym block = "nat \<times> nat"

definition frames_of :: "block \<Rightarrow> nat set" where
  "frames_of x = {snd x * 2 ^ fst x..<(snd x + 1) * 2 ^ fst x}"

definition bud :: "nat \<Rightarrow> nat" where
  "bud q = (if even q then q + 1 else q - 1)"

lemma mem_frames_of: "f \<in> frames_of (n, q) \<longleftrightarrow> f div 2 ^ n = q"
proof -
  have "f div 2 ^ n = q \<longleftrightarrow> q * 2 ^ n \<le> f \<and> f < (q + 1) * 2 ^ n"
    using div_nat_eqI [of "2 ^ n" q f] times_div_less_eq_dividend [of "2 ^ n" f] dividend_less_times_div [of "2 ^ n" f]
    by (auto simp: algebra_simps)
  then show ?thesis by (auto simp: frames_of_def)
qed

lemma frames_of_nonempty [simp]: "frames_of x \<noteq> {}"
  using mem_frames_of [of "snd x * 2 ^ fst x" "fst x" "snd x"] by auto

lemma frames_of_finite [simp]: "finite (frames_of x)"
  by (simp add: frames_of_def)

lemma card_frames_of [simp]: "card (frames_of (n, q)) = 2 ^ n"
  by (simp add: frames_of_def)

lemma frames_of_inj: "frames_of (n, q) = frames_of (n, r) \<Longrightarrow> q = r"
  using frames_of_nonempty [of "(n, q)"] by (auto simp: mem_frames_of set_eq_iff)

lemma frames_of_disjoint: "q \<noteq> r \<Longrightarrow> frames_of (n, q) \<inter> frames_of (n, r) = {}"
  by (auto simp: mem_frames_of)

lemma frames_of_le:
  assumes "n \<le> k" and "f \<in> frames_of (n, q)" and "f \<in> frames_of (k, r)"
  shows "frames_of (n, q) \<subseteq> frames_of (k, r)"
proof
  fix g assume g: "g \<in> frames_of (n, q)"
  have "h div 2 ^ k = h div 2 ^ n div 2 ^ (k - n)" for h :: nat
    using assms(1) by (simp add: div_mult2_eq [symmetric] power_add [symmetric])
  with g assms(2,3) show "g \<in> frames_of (k, r)" by (simp add: mem_frames_of)
qed

lemma frames_of_parent: "frames_of (Suc n, q div 2) = frames_of (n, q) \<union> frames_of (n, bud q)"
proof -
  have "f div 2 ^ Suc n = q div 2 \<longleftrightarrow> f div 2 ^ n = q \<or> f div 2 ^ n = bud q" for f
  proof -
    have "f div 2 ^ Suc n = f div 2 ^ n div 2" by (simp add: div_mult2_eq [symmetric] mult.commute)
    moreover have "x div 2 = q div 2 \<longleftrightarrow> x = q \<or> x = bud q" for x
      unfolding bud_def by presburger
    ultimately show ?thesis by simp
  qed
  then show ?thesis by (auto simp: mem_frames_of)
qed

lemma frames_of_halves: "frames_of (Suc n, q) = frames_of (n, 2 * q) \<union> frames_of (n, 2 * q + 1)"
  using frames_of_parent [of n "2 * q"] by (simp add: bud_def)

lemma bud_neq [simp]: "bud q \<noteq> q" "q \<noteq> bud q"
  by (auto simp: bud_def elim: oddE)

lemma bud_bud [simp]: "bud (bud q) = q"
  by (auto simp: bud_def elim: oddE)

section \<open>Well-formed sets\<close>

definition free_set :: "block set \<Rightarrow> nat set" where
  "free_set B = (\<Union>x \<in> B. frames_of x)"

definition wf_blocks :: "nat \<Rightarrow> block set \<Rightarrow> bool" where
  "wf_blocks N B \<longleftrightarrow>
     (\<forall>n q. (n, q) \<in> B \<longrightarrow> n \<le> 11 \<and> q \<noteq> 0 \<and> (q + 1) * 2 ^ n \<le> N)
   \<and> (\<forall>x \<in> B. \<forall>y \<in> B. x \<noteq> y \<longrightarrow> frames_of x \<inter> frames_of y = {})
   \<and> (\<forall>n q. (n, q) \<in> B \<longrightarrow> n < 11 \<longrightarrow> (n, bud q) \<notin> B)"

lemma wf_blocksD:
  assumes "wf_blocks N B"
  shows "(n, q) \<in> B \<Longrightarrow> n \<le> 11" and "(n, q) \<in> B \<Longrightarrow> q \<noteq> 0" and "(n, q) \<in> B \<Longrightarrow> (q + 1) * 2 ^ n \<le> N"
    and "x \<in> B \<Longrightarrow> y \<in> B \<Longrightarrow> f \<in> frames_of x \<Longrightarrow> f \<in> frames_of y \<Longrightarrow> x = y"
    and "(n, q) \<in> B \<Longrightarrow> n < 11 \<Longrightarrow> (n, bud q) \<notin> B"
  using assms unfolding wf_blocks_def by blast+

lemma wf_blocks_empty [simp]: "wf_blocks N {}"
  by (simp add: wf_blocks_def)

lemma wf_blocks_subset: "wf_blocks N B \<Longrightarrow> C \<subseteq> B \<Longrightarrow> wf_blocks N C"
  unfolding wf_blocks_def by blast

lemma free_set_bounds: "wf_blocks N B \<Longrightarrow> f \<in> free_set B \<Longrightarrow> 0 < f \<and> f < N"
proof -
  assume wf: "wf_blocks N B" and "f \<in> free_set B"
  then obtain n q where q: "(n, q) \<in> B" "f \<in> frames_of (n, q)" by (auto simp: free_set_def)
  have "q \<noteq> 0" "(q + 1) * 2 ^ n \<le> N" using wf_blocksD(2,3) [OF wf q(1)] by auto
  moreover have "1 * 2 ^ n \<le> q * 2 ^ n" using \<open>q \<noteq> 0\<close> by (intro mult_right_mono) auto
  moreover have "(0::nat) < 1 * 2 ^ n" by simp
  moreover have "q * 2 ^ n \<le> f" "f < (q + 1) * 2 ^ n" using q(2) by (simp_all add: frames_of_def)
  ultimately show ?thesis by linarith
qed

lemma free_set_finite: "wf_blocks N B \<Longrightarrow> finite (free_set B)"
  using free_set_bounds by (metis finite_nat_set_iff_bounded)

lemma free_set_insert: "free_set (insert x B) = frames_of x \<union> free_set B"
  by (simp add: free_set_def)

lemma free_set_remove:
  assumes "wf_blocks N B" and "x \<in> B"
  shows "free_set (B - {x}) = free_set B - frames_of x"
proof -
  have "y = x" if "y \<in> B" "f \<in> frames_of y" "f \<in> frames_of x" for y f
    using wf_blocksD(4) [OF assms(1) that(1) assms(2) that(2,3)] .
  then show ?thesis using assms(2) unfolding free_set_def by blast
qed

text \<open>An aligned run of free frames lies in one free block.\<close>

lemma covered:
  assumes wf: "wf_blocks N B"
  shows "n \<le> 11 \<Longrightarrow> frames_of (n, q) \<subseteq> free_set B \<Longrightarrow> \<exists>k r. (k, r) \<in> B \<and> n \<le> k \<and> frames_of (n, q) \<subseteq> frames_of (k, r)"
proof (induction n arbitrary: q)
  case 0
  have "q \<in> frames_of (0, q)" by (simp add: mem_frames_of)
  with 0 obtain k r where "(k, r) \<in> B" "q \<in> frames_of (k, r)" by (auto simp: free_set_def)
  then show ?case using frames_of_le [of 0 k q q r] \<open>q \<in> frames_of (0, q)\<close> by blast
next
  case (Suc n)
  have half: "frames_of (Suc n, q) \<subseteq> frames_of (k, r) \<or> k = n \<and> r = x"
    if "(k, r) \<in> B" "n \<le> k" "frames_of (n, x) \<subseteq> frames_of (k, r)" "frames_of (n, x) \<subseteq> frames_of (Suc n, q)" for k r x
  proof (cases "k = n")
    case True
    with that(3) show ?thesis using frames_of_disjoint [of x r n] frames_of_nonempty [of "(n, x)"] by blast
  next
    case False
    with that obtain f where "f \<in> frames_of (Suc n, q)" "f \<in> frames_of (k, r)" "Suc n \<le> k"
      using frames_of_nonempty [of "(n, x)"] by (metis Suc_leI le_neq_implies_less subset_eq equals0I)
    then show ?thesis using frames_of_le by blast
  qed
  have sub: "frames_of (n, 2 * q) \<subseteq> frames_of (Suc n, q)" "frames_of (n, 2 * q + 1) \<subseteq> frames_of (Suc n, q)"
    by (auto simp: frames_of_halves)
  obtain k r where k: "(k, r) \<in> B" "n \<le> k" "frames_of (n, 2 * q) \<subseteq> frames_of (k, r)"
    using Suc.IH [of "2 * q"] Suc.prems sub(1) Suc_leD subset_trans by metis
  obtain k' r' where k': "(k', r') \<in> B" "n \<le> k'" "frames_of (n, 2 * q + 1) \<subseteq> frames_of (k', r')"
    using Suc.IH [of "2 * q + 1"] Suc.prems sub(2) Suc_leD subset_trans by metis
  have "\<not> (k = n \<and> r = 2 * q \<and> k' = n \<and> r' = 2 * q + 1)"
    using k(1) k'(1) wf_blocksD(5) [OF wf, of n "2 * q"] Suc.prems(1) by (auto simp: bud_def)
  then consider "frames_of (Suc n, q) \<subseteq> frames_of (k, r)" | "frames_of (Suc n, q) \<subseteq> frames_of (k', r')"
    using half [OF k sub(1)] half [OF k' sub(2)] by blast
  moreover have "Suc n \<le> j" if "frames_of (Suc n, q) \<subseteq> frames_of (j, i)" for j i
    using card_mono [OF frames_of_finite that] by (simp only: card_frames_of) (rule power_le_imp_le_exp [of 2], simp_all)
  ultimately show ?case using k(1) k'(1) by cases blast+
qed

text \<open>The set of blocks is determined by the frames it covers.\<close>

lemma block_iff:
  assumes wf: "wf_blocks N B"
  shows "(n, q) \<in> B \<longleftrightarrow> n \<le> 11 \<and> frames_of (n, q) \<subseteq> free_set B
     \<and> (n < 11 \<longrightarrow> \<not> frames_of (Suc n, q div 2) \<subseteq> free_set B)"
proof (intro iffI conjI impI)
  assume q: "(n, q) \<in> B"
  show "n \<le> 11" "frames_of (n, q) \<subseteq> free_set B" using wf_blocksD(1) [OF wf q] q by (auto simp: free_set_def)
  assume "n < 11"
  show "\<not> frames_of (Suc n, q div 2) \<subseteq> free_set B"
  proof
    assume "frames_of (Suc n, q div 2) \<subseteq> free_set B"
    then obtain k r where k: "(k, r) \<in> B" "Suc n \<le> k" "frames_of (Suc n, q div 2) \<subseteq> frames_of (k, r)"
      using covered [OF wf, of "Suc n" "q div 2"] \<open>n < 11\<close> by auto
    then have "frames_of (n, q) \<subseteq> frames_of (k, r)" by (simp add: frames_of_parent)
    then have "(n, q) = (k, r)" using wf_blocksD(4) [OF wf q k(1)] frames_of_nonempty by blast
    with k(2) show False by simp
  qed
next
  assume *: "n \<le> 11 \<and> frames_of (n, q) \<subseteq> free_set B \<and> (n < 11 \<longrightarrow> \<not> frames_of (Suc n, q div 2) \<subseteq> free_set B)"
  then obtain k r where k: "(k, r) \<in> B" "n \<le> k" "frames_of (n, q) \<subseteq> frames_of (k, r)"
    using covered [OF wf, of n q] by auto
  show "(n, q) \<in> B"
  proof (cases "k = n")
    case True
    then show ?thesis using k frames_of_disjoint [of q r n] frames_of_nonempty [of "(n, q)"] by blast
  next
    case False
    then have "Suc n \<le> k" "n < 11" using k(1,2) wf_blocksD(1) [OF wf k(1)] by auto
    moreover obtain f where "f \<in> frames_of (n, q)" using frames_of_nonempty by blast
    ultimately have "frames_of (Suc n, q div 2) \<subseteq> frames_of (k, r)"
      using frames_of_le [of "Suc n" k f "q div 2" r] k(3) by (auto simp: frames_of_parent)
    with * k(1) \<open>n < 11\<close> show ?thesis by (auto simp: free_set_def)
  qed
qed

lemma blocks_unique: "wf_blocks N B \<Longrightarrow> wf_blocks M C \<Longrightarrow> free_set B = free_set C \<Longrightarrow> B = C"
  using block_iff by auto

section \<open>Taking a block out\<close>

text \<open>The upper halves left over when block \<open>(c, q)\<close> is split down to an order.\<close>

fun split_set :: "nat \<Rightarrow> nat \<Rightarrow> nat \<Rightarrow> block set" where
  "split_set order q 0 = {}"
| "split_set order q (Suc c) = (if Suc c > order then insert (c, 2 * q + 1) (split_set order (2 * q) c) else {})"

lemma split_set_free:
  assumes "order \<le> c"
  shows "free_set (split_set order q c) = frames_of (c, q) - frames_of (order, q * 2 ^ (c - order))"
    and "frames_of (order, q * 2 ^ (c - order)) \<subseteq> frames_of (c, q)"
proof -
  have "free_set (split_set order q c) = frames_of (c, q) - frames_of (order, q * 2 ^ (c - order))
      \<and> frames_of (order, q * 2 ^ (c - order)) \<subseteq> frames_of (c, q)"
    using assms
  proof (induction c arbitrary: q)
    case 0
    then show ?case by (simp add: free_set_def)
  next
    case (Suc c)
    show ?case
    proof (cases "order = Suc c")
      case True
      then show ?thesis by (simp add: free_set_def)
    next
      case False
      then have "order \<le> c" using Suc.prems by simp
      then have pow: "2 * q * 2 ^ (c - order) = q * 2 ^ (Suc c - order)" by (simp add: Suc_diff_le)
      have disj: "frames_of (c, 2 * q) \<inter> frames_of (c, 2 * q + 1) = {}" by (rule frames_of_disjoint) simp
      have IH: "free_set (split_set order (2 * q) c) = frames_of (c, 2 * q) - frames_of (order, q * 2 ^ (Suc c - order))"
        "frames_of (order, q * 2 ^ (Suc c - order)) \<subseteq> frames_of (c, 2 * q)"
        using Suc.IH [OF \<open>order \<le> c\<close>, of "2 * q"] by (simp_all add: pow)
      have "split_set order q (Suc c) = insert (c, 2 * q + 1) (split_set order (2 * q) c)"
        using \<open>order \<le> c\<close> by simp
      then show ?thesis using IH disj by (auto simp only: free_set_insert frames_of_halves)
    qed
  qed
  then show "free_set (split_set order q c) = frames_of (c, q) - frames_of (order, q * 2 ^ (c - order))"
    and "frames_of (order, q * 2 ^ (c - order)) \<subseteq> frames_of (c, q)" by auto
qed

text \<open>Each of them is the buddy of a block that holds the allocated frames.\<close>

lemma split_set_elem:
  assumes "x \<in> split_set order q c" and "order \<le> c"
  obtains k r where "x = (k, r)" and "order \<le> k" and "k < c" and "odd r"
    and "frames_of (order, q * 2 ^ (c - order)) \<subseteq> frames_of (k, bud r)"
    and "frames_of (k, r) \<subseteq> frames_of (c, q)" and "frames_of (k, bud r) \<subseteq> frames_of (c, q)"
    and "q \<noteq> 0 \<longrightarrow> r \<noteq> 0"
proof -
  have "\<exists>k r. x = (k, r) \<and> order \<le> k \<and> k < c \<and> odd r \<and> frames_of (order, q * 2 ^ (c - order)) \<subseteq> frames_of (k, bud r)
      \<and> frames_of (k, r) \<subseteq> frames_of (c, q) \<and> frames_of (k, bud r) \<subseteq> frames_of (c, q)"
    using assms
  proof (induction c arbitrary: q)
    case (Suc c)
    then have "order \<le> c" by (auto split: if_splits)
    then have pow: "2 * q * 2 ^ (c - order) = q * 2 ^ (Suc c - order)" by (simp add: Suc_diff_le)
    from Suc.prems \<open>order \<le> c\<close> consider "x = (c, 2 * q + 1)" | "x \<in> split_set order (2 * q) c" by auto
    then show ?case
    proof cases
      case 1
      have "frames_of (order, q * 2 ^ (Suc c - order)) \<subseteq> frames_of (c, bud (2 * q + 1))"
        using split_set_free(2) [OF \<open>order \<le> c\<close>, of "2 * q"] pow by (simp add: bud_def)
      with 1 \<open>order \<le> c\<close> show ?thesis
        using frames_of_parent [of c "2 * q + 1"] by (intro exI [of _ c] exI [of _ "2 * q + 1"]) auto
    next
      case 2
      obtain k r where "x = (k, r)" "order \<le> k" "k < c" "odd r"
        "frames_of (order, q * 2 ^ (Suc c - order)) \<subseteq> frames_of (k, bud r)"
        "frames_of (k, r) \<subseteq> frames_of (c, 2 * q)" "frames_of (k, bud r) \<subseteq> frames_of (c, 2 * q)"
        using Suc.IH [OF 2 \<open>order \<le> c\<close>] unfolding pow by blast
      moreover have "frames_of (c, 2 * q) \<subseteq> frames_of (Suc c, q)" by (simp add: frames_of_halves)
      ultimately show ?thesis using less_SucI subset_trans by metis
    qed
  qed simp
  then obtain k r where "x = (k, r)" "order \<le> k" "k < c" "odd r" "frames_of (order, q * 2 ^ (c - order)) \<subseteq> frames_of (k, bud r)"
    "frames_of (k, r) \<subseteq> frames_of (c, q)" "frames_of (k, bud r) \<subseteq> frames_of (c, q)" by blast
  moreover have "q \<noteq> 0 \<longrightarrow> r \<noteq> 0" using \<open>odd r\<close> by (auto elim: oddE)
  ultimately show thesis using that by blast
qed

lemma split_set_disjoint:
  assumes "order \<le> c" and "x \<in> split_set order q c" and "y \<in> split_set order q c" and "f \<in> frames_of x" and "f \<in> frames_of y"
  shows "x = y"
  using assms
proof (induction c arbitrary: q)
  case (Suc c)
  then have "order \<le> c" by (auto split: if_splits)
  have sub: "frames_of z \<subseteq> frames_of (c, 2 * q)" if "z \<in> split_set order (2 * q) c" for z
    using split_set_elem [OF that \<open>order \<le> c\<close>] by metis
  have "frames_of (c, 2 * q) \<inter> frames_of (c, 2 * q + 1) = {}" by (rule frames_of_disjoint) simp
  then have apart: "f \<notin> frames_of (c, 2 * q + 1)" if "z \<in> split_set order (2 * q) c" "f \<in> frames_of z" for z
    using sub [OF that(1)] that(2) by blast
  have "x \<in> insert (c, 2 * q + 1) (split_set order (2 * q) c)" "y \<in> insert (c, 2 * q + 1) (split_set order (2 * q) c)"
    using Suc.prems(2,3) \<open>order \<le> c\<close> by simp_all
  then show ?case using apart Suc.IH [OF \<open>order \<le> c\<close>] Suc.prems(4,5) by blast
qed simp

lemma alloc_blocks:
  assumes wf: "wf_blocks N B" and x: "(c, q) \<in> B" and le: "order \<le> c"
  defines "B' \<equiv> B - {(c, q)} \<union> split_set order q c"
  shows "wf_blocks N B'" and "free_set B' = free_set B - frames_of (order, q * 2 ^ (c - order))"
proof -
  let ?A = "frames_of (order, q * 2 ^ (c - order))"
  have un: "free_set (X \<union> Y) = free_set X \<union> free_set Y" for X Y by (simp add: free_set_def)
  have csub: "frames_of (c, q) \<subseteq> free_set B" using x by (auto simp: free_set_def)
  show free: "free_set B' = free_set B - ?A"
    unfolding B'_def un free_set_remove [OF wf x] split_set_free(1) [OF le]
    using split_set_free(2) [OF le, of q] csub by auto
  have old: "frames_of y \<inter> frames_of (c, q) = {}" if "y \<in> B - {(c, q)}" for y
    using wf_blocksD(4) [OF wf, of y "(c, q)"] x that by blast
  have new: "frames_of y \<subseteq> frames_of (c, q)" if "y \<in> split_set order q c" for y
    using split_set_elem [OF that le] by metis
  have bounds: "n \<le> 11 \<and> r \<noteq> 0 \<and> (r + 1) * 2 ^ n \<le> N" if nr: "(n, r) \<in> split_set order q c" for n r
  proof -
    have "n < c" "r \<noteq> 0" using split_set_elem [OF nr le] wf_blocksD(2) [OF wf x] by (metis prod.inject)+
    moreover have "(r + 1) * 2 ^ n - 1 \<in> frames_of (n, r)"
    proof -
      have "(0::nat) < 2 ^ n" by simp
      then show ?thesis unfolding frames_of_def by (simp, linarith)
    qed
    then have "(r + 1) * 2 ^ n - 1 \<in> frames_of (c, q)" using new [OF nr] by blast
    then have "(r + 1) * 2 ^ n - 1 < (q + 1) * 2 ^ c" by (simp only: frames_of_def fst_conv snd_conv atLeastLessThan_iff)
    then have "(r + 1) * 2 ^ n \<le> (q + 1) * 2 ^ c" by linarith
    ultimately show ?thesis using wf_blocksD(1,3) [OF wf x] by linarith
  qed
  show "wf_blocks N B'"
    unfolding wf_blocks_def
  proof (intro conjI allI ballI impI)
    fix n r assume nr: "(n, r) \<in> B'"
    then show "n \<le> 11" "r \<noteq> 0" "(r + 1) * 2 ^ n \<le> N"
      using bounds [of n r] wf_blocksD(1-3) [OF wf, of n r] by (auto simp: B'_def)
    assume n: "n < 11"
    show "(n, bud r) \<notin> B'"
    proof
      assume b: "(n, bud r) \<in> B'"
      have no_new: False if "(n, s) \<in> split_set order q c" "(n, bud s) \<in> B'" for s
      proof -
        have A: "?A \<subseteq> frames_of (n, bud s)" using split_set_elem [OF that(1) le] by (metis prod.inject)
        have "frames_of (n, bud s) \<subseteq> free_set B'" using that(2) by (auto simp: free_set_def)
        then show False using A free frames_of_nonempty [of "(order, q * 2 ^ (c - order))"] by blast
      qed
      from nr b consider "(n, r) \<in> split_set order q c" | "(n, bud r) \<in> split_set order q c" | "(n, r) \<in> B" "(n, bud r) \<in> B"
        by (auto simp: B'_def)
      then show False using no_new [of r] no_new [of "bud r"] nr b wf_blocksD(5) [OF wf, of n r] n by cases auto
    qed
  next
    fix y z assume yz: "y \<in> B'" "z \<in> B'" "y \<noteq> z"
    then show "frames_of y \<inter> frames_of z = {}"
      using old new split_set_disjoint [OF le, of y q z] wf_blocksD(4) [OF wf, of y z]
      unfolding B'_def by blast
  qed
qed

section \<open>Putting a block back\<close>

lemma free_blocks_insert:
  assumes wf: "wf_blocks N B" and x: "n \<le> 11" "q \<noteq> 0" "(q + 1) * 2 ^ n \<le> N"
    and disj: "frames_of (n, q) \<inter> free_set B = {}" and no_bud: "n < 11 \<longrightarrow> (n, bud q) \<notin> B"
  shows "wf_blocks N (insert (n, q) B)"
proof -
  have out: "frames_of y \<inter> frames_of (n, q) = {}" if "y \<in> B" for y
    using disj that by (auto simp: free_set_def)
  show ?thesis
    unfolding wf_blocks_def
  proof (intro conjI allI ballI impI)
    fix k r assume "(k, r) \<in> insert (n, q) B"
    then show "k \<le> 11" "r \<noteq> 0" "(r + 1) * 2 ^ k \<le> N" using x wf_blocksD(1-3) [OF wf, of k r] by auto
    assume "k < 11"
    then show "(k, bud r) \<notin> insert (n, q) B"
      using \<open>(k, r) \<in> insert (n, q) B\<close> no_bud wf_blocksD(5) [OF wf, of k r] by auto
  next
    fix y z assume "y \<in> insert (n, q) B" "z \<in> insert (n, q) B" "y \<noteq> z"
    then show "frames_of y \<inter> frames_of z = {}"
      using out [of y] out [of z] wf_blocksD(4) [OF wf, of y z] by blast
  qed
qed

text \<open>A merge step: the buddy leaves the set and the parent is the block to put back.\<close>

lemma merge_step:
  assumes wf: "wf_blocks N B" and b: "(n, bud q) \<in> B" and x: "q \<noteq> 0" "(q + 1) * 2 ^ n \<le> N"
    and disj: "frames_of (n, q) \<inter> free_set B = {}"
  shows "wf_blocks N (B - {(n, bud q)})" and "q div 2 \<noteq> 0" and "(q div 2 + 1) * 2 ^ Suc n \<le> N"
    and "frames_of (Suc n, q div 2) \<inter> free_set (B - {(n, bud q)}) = {}"
    and "frames_of (Suc n, q div 2) \<union> free_set (B - {(n, bud q)}) = frames_of (n, q) \<union> free_set B"
proof -
  have rem: "free_set (B - {(n, bud q)}) = free_set B - frames_of (n, bud q)" by (rule free_set_remove [OF wf b])
  show "wf_blocks N (B - {(n, bud q)})" using wf_blocks_subset [OF wf] by blast
  have "bud q \<noteq> 0" "(bud q + 1) * 2 ^ n \<le> N" using wf_blocksD(2,3) [OF wf b] by auto
  show "q div 2 \<noteq> 0" using \<open>bud q \<noteq> 0\<close> x(1) by (auto simp: bud_def split: if_splits)
  have "(q div 2 + 1) * 2 = max (q + 1) (bud q + 1)" by (auto simp: bud_def max_def elim!: evenE oddE)
  then have "(q div 2 + 1) * 2 ^ Suc n = max (q + 1) (bud q + 1) * 2 ^ n" by (metis mult.assoc power_Suc)
  then show "(q div 2 + 1) * 2 ^ Suc n \<le> N" using x(2) \<open>(bud q + 1) * 2 ^ n \<le> N\<close> by (auto simp: max_def)
  show "frames_of (Suc n, q div 2) \<inter> free_set (B - {(n, bud q)}) = {}"
    using disj by (auto simp: rem frames_of_parent)
  show "frames_of (Suc n, q div 2) \<union> free_set (B - {(n, bud q)}) = frames_of (n, q) \<union> free_set B"
    using b by (auto simp: rem frames_of_parent free_set_def)
qed

text \<open>Next to a block that is not free, a buddy whose frames are all free is itself a free block.\<close>

lemma buddy_free_iff:
  assumes wf: "wf_blocks N B" and n: "n < 11" and disj: "frames_of (n, q) \<inter> free_set B = {}"
  shows "frames_of (n, bud q) \<subseteq> free_set B \<longleftrightarrow> (n, bud q) \<in> B"
proof
  assume "frames_of (n, bud q) \<subseteq> free_set B"
  moreover have "\<not> frames_of (Suc n, bud q div 2) \<subseteq> free_set B"
    using disj frames_of_nonempty [of "(n, q)"] frames_of_parent [of n "bud q"] by (simp only: bud_bud) blast
  ultimately show "(n, bud q) \<in> B" using n by (simp add: block_iff [OF wf])
qed (auto simp: free_set_def)

end
