(* ===== verification/Buddy_Inv.thy ===== *)
theory Buddy_Inv
  imports Buddy_Lists Buddy_Blocks
begin

text \<open>
  The invariant of the buddy allocator: the free lists in memory and the bitmap represent one
  well-formed set of blocks. The theory relates addresses to block numbers, and shows what
  each primitive (push, unlink, mark, membership test, split, merge) does to the set.
\<close>

section \<open>Addresses of blocks\<close>

definition badr :: "nat \<Rightarrow> nat \<Rightarrow> u64" where
  "badr n q = word_of_nat (q * 2 ^ (n + 12))"

lemma unat_badr: "q * 2 ^ n < 2 ^ 52 \<Longrightarrow> unat (badr n q) = q * 2 ^ (n + 12)"
proof -
  assume "q * 2 ^ n < 2 ^ 52"
  then have "q * 2 ^ n * 2 ^ 12 < 2 ^ 52 * 2 ^ 12" by (rule mult_strict_right_mono) simp
  then have "q * 2 ^ (n + 12) < 2 ^ 64" by (simp add: power_add)
  then have "take_bit LENGTH(64) (q * 2 ^ (n + 12)) = q * 2 ^ (n + 12)" by (intro take_bit_nat_eq_self) simp
  then show ?thesis unfolding badr_def unsigned_of_nat by (simp only: of_nat_id)
qed

lemma unat_pow2: "n < 64 \<Longrightarrow> unat ((2 :: u64) ^ n) = 2 ^ n"
proof -
  assume "n < 64"
  then have "(2 :: nat) ^ n < 2 ^ 64" by (intro power_strict_increasing) simp_all
  then have "take_bit LENGTH(64) ((2 :: nat) ^ n) = 2 ^ n" by (intro take_bit_nat_eq_self) simp
  moreover have "(2 :: u64) ^ n = word_of_nat (2 ^ n)" by simp
  ultimately show ?thesis by (simp only: unsigned_of_nat of_nat_id)
qed

lemma frame_idx_badr: "q * 2 ^ n < 2 ^ 52 \<Longrightarrow> frame_idx (badr n q) = q * 2 ^ n"
  by (simp add: frame_idx_def drop_bit_eq_div unat_div unat_badr power_add)

lemma node_badr: "q * 2 ^ n < 2 ^ 52 \<Longrightarrow> node (badr n q)"
  by (simp add: node_iff unat_badr power_add)

lemma badr_eq_iff:
  assumes "q * 2 ^ n < 2 ^ 52" and "r * 2 ^ k < 2 ^ 52"
  shows "badr n q = badr k r \<longleftrightarrow> q * 2 ^ n = r * 2 ^ k"
proof -
  have "badr n q = badr k r \<longleftrightarrow> q * 2 ^ (n + 12) = r * 2 ^ (k + 12)"
    using unat_badr [OF assms(1)] unat_badr [OF assms(2)] by (metis word_unat_eq_iff)
  then show ?thesis by (simp add: power_add)
qed

lemma badr_zero_iff: "q * 2 ^ n < 2 ^ 52 \<Longrightarrow> badr n q = 0 \<longleftrightarrow> q = 0"
  using badr_eq_iff [of q n 0 0] by (simp add: badr_def)

lemma badr_half: "badr (Suc n) q = badr n (2 * q)"
proof -
  have "q * 2 ^ (Suc n + 12) = 2 * q * 2 ^ (n + 12)" by (simp only: add_Suc power_Suc mult.assoc mult.left_commute)
  then show ?thesis unfolding badr_def by (rule arg_cong)
qed

lemma badr_upper: "badr n (2 * q) + block_size n = badr n (2 * q + 1)"
  by (simp add: badr_def block_size_def push_bit_of_1 algebra_simps)

lemma badr_buddy: "badr n q XOR block_size n = badr n (bud q)"
proof -
  have "bud q = q XOR 1" by (auto simp: bud_def xor_Suc_0_eq)
  then have "word_of_nat (bud q) = (word_of_nat q XOR 1 :: u64)" by (simp add: of_nat_xor_eq)
  moreover have "badr n q = push_bit (n + 12) (word_of_nat q)" for q
    by (simp add: badr_def push_bit_eq_mult)
  ultimately show ?thesis by (simp add: block_size_def push_bit_xor)
qed

lemma badr_min:
  assumes "q * 2 ^ n < 2 ^ 52" and "bud q * 2 ^ n < 2 ^ 52"
  shows "min (badr n q) (badr n (bud q)) = badr (Suc n) (q div 2)"
proof (cases "even q")
  case True
  then have "badr n q \<le> badr n (bud q)"
    using assms by (simp add: word_le_nat_alt unat_badr bud_def)
  moreover have "badr (Suc n) (q div 2) = badr n q" using True by (simp add: badr_half)
  ultimately show ?thesis by (simp add: min_def)
next
  case False
  moreover from False have "q \<noteq> 0" by (intro notI) simp
  ultimately have "\<not> badr n q \<le> badr n (bud q)"
    using assms by (simp add: word_le_nat_alt unat_badr bud_def)
  moreover have "badr (Suc n) (q div 2) = badr n (bud q)" using False by (simp add: badr_half bud_def)
  ultimately show ?thesis by (simp add: min_def)
qed

lemma max_addr_bound:
  assumes "unat (total_frames b) \<le> 2 ^ 40"
  shows "unat (max_addr b) = unat (total_frames b) * 4096"
proof -
  have "unat (total_frames b) * 4096 \<le> 2 ^ 40 * 2 ^ 12" using assms by simp
  then have lt: "unat (total_frames b) * 4096 < 2 ^ 64" by simp
  then have "unat (total_frames b * 4096) = unat (total_frames b) * 4096"
    by (subst unat_mult_lem [THEN iffD1]) simp_all
  moreover have "uint (total_frames b) * uint (4096 :: u64) < 2 ^ LENGTH(64)"
  proof -
    have "int (unat (total_frames b) * 4096) < int (2 ^ 64)" using lt by (simp only: of_nat_less_iff)
    then show ?thesis by simp
  qed
  ultimately show ?thesis by (simp only: max_addr_def saturating_mul_def if_True)
qed

section \<open>The bitmap\<close>

lemma and_bit_eq_0: "(x :: u64) AND push_bit k 1 = 0 \<longleftrightarrow> \<not> bit x k"
  by (simp add: and_exp_eq_0_iff_not_bit push_bit_of_1)

lemma length_mark_frame [simp]: "length (mark_frame used f bm) = length bm"
  by (simp add: mark_frame_def Let_def)

lemma bit_mark_frame:
  assumes "g div 64 < length bm"
  shows "bit (mark_frame used f bm ! (g div 64)) (g mod 64)
     \<longleftrightarrow> (if f = g then used else bit (bm ! (g div 64)) (g mod 64))"
proof -
  have eq: "f div 64 = g div 64 \<Longrightarrow> f mod 64 = g mod 64 \<longleftrightarrow> f = g" by (metis div_mult_mod_eq)
  have "g mod 64 < 64" by simp
  then show ?thesis
    using assms eq
    by (auto simp: mark_frame_def Let_def nth_list_update bit_simps possible_bit_word)
qed

lemma mark_frames:
  "length (fold (\<lambda>i. mark_frame used (base + i)) js bm) = length bm"
  "g div 64 < length bm \<Longrightarrow>
   bit (fold (\<lambda>i. mark_frame used (base + i)) js bm ! (g div 64)) (g mod 64)
     \<longleftrightarrow> (if \<exists>i \<in> set js. g = base + i then used else bit (bm ! (g div 64)) (g mod 64))"
  by (induction js arbitrary: bm) (auto simp: bit_mark_frame)

lemma frame_is_free_iff:
  "frame_is_free b f \<longleftrightarrow> f < unat (total_frames b) \<and> f div 64 < length (bitmap b) \<and> \<not> bit (bitmap b ! (f div 64)) (f mod 64)"
  by (simp only: frame_is_free_def Let_def and_bit_eq_0) auto

lemma mark_range_free:
  "frame_is_free (mark_range a n used b) f \<longleftrightarrow>
     (if frame_idx a \<le> f \<and> f < frame_idx a + n
      then \<not> used \<and> f < unat (total_frames b) \<and> f div 64 < length (bitmap b)
      else frame_is_free b f)"
proof -
  have "(\<exists>i \<in> set [0..<n]. f = frame_idx a + i) \<longleftrightarrow> frame_idx a \<le> f \<and> f < frame_idx a + n"
    by (auto intro: bexI [of _ "f - frame_idx a"])
  then show ?thesis
    using mark_frames [where used = used and base = "frame_idx a" and bm = "bitmap b" and js = "[0..<n]"]
    by (auto simp: frame_is_free_iff mark_range_def)
qed

lemma mark_range_fields [simp]:
  "total_frames (mark_range a n used b) = total_frames b" "free_frames (mark_range a n used b) = free_frames b"
  "free_lists (mark_range a n used b) = free_lists b" "length (bitmap (mark_range a n used b)) = length (bitmap b)"
  by (simp_all add: mark_range_def mark_frames)

lemma frame_range:
  "q * 2 ^ n < 2 ^ 52 \<Longrightarrow> frame_idx (badr n q) \<le> f \<and> f < frame_idx (badr n q) + 2 ^ n \<longleftrightarrow> f \<in> frames_of (n, q)"
  by (simp add: frame_idx_badr frames_of_def algebra_simps)

lemma is_block_free_iff:
  assumes "n \<le> 11" and "q * 2 ^ n < 2 ^ 52"
  shows "is_block_free b (badr n q) (word_of_nat n) \<longleftrightarrow> (\<forall>f \<in> frames_of (n, q). frame_is_free b f)"
proof -
  have "unat (word_of_nat n :: u8) = n" using assms(1) by (simp add: unsigned_of_nat take_bit_nat_eq_self)
  then have "is_block_free b (badr n q) (word_of_nat n) \<longleftrightarrow> (\<forall>i < 2 ^ n. frame_is_free b (q * 2 ^ n + i))"
    using assms by (simp add: is_block_free_def frame_idx_badr list_all_iff atLeast0LessThan Ball_def)
  also have "\<dots> \<longleftrightarrow> (\<forall>f \<in> frames_of (n, q). frame_is_free b f)"
  proof
    assume *: "\<forall>i < 2 ^ n. frame_is_free b (q * 2 ^ n + i)"
    show "\<forall>f \<in> frames_of (n, q). frame_is_free b f"
    proof
      fix f assume "f \<in> frames_of (n, q)"
      then show "frame_is_free b f" using * [rule_format, of "f - q * 2 ^ n"] by (auto simp: frames_of_def)
    qed
  qed (auto simp: frames_of_def)
  finally show ?thesis .
qed

section \<open>The invariant\<close>

text \<open>The lists of a state hold exactly the blocks of a set.\<close>

definition lists_rep :: "buddy_state \<Rightarrow> block set \<Rightarrow> bool" where
  "lists_rep s B \<longleftrightarrow> (\<exists>L. lists_ok (free_lists (fst s)) (snd s) L
     \<and> (\<forall>n < MAX_ORDER. set (L n) = badr n ` {q. (n, q) \<in> B}))"

definition buddy_inv :: "buddy_state \<Rightarrow> block set \<Rightarrow> bool" where
  "buddy_inv s B \<longleftrightarrow> (let b = fst s; N = unat (total_frames b) in
     N \<le> 2 ^ 40 \<and> N \<le> 64 * length (bitmap b) \<and> wf_blocks N B \<and> lists_rep s B
   \<and> (\<forall>f. frame_is_free b f \<longleftrightarrow> f \<in> free_set B) \<and> unat (free_frames b) = card (free_set B))"

lemma buddy_invD:
  assumes "buddy_inv s B"
  shows "unat (total_frames (fst s)) \<le> 2 ^ 40"
    and "unat (total_frames (fst s)) \<le> 64 * length (bitmap (fst s))"
    and "wf_blocks (unat (total_frames (fst s))) B" and "lists_rep s B"
    and "frame_is_free (fst s) f \<longleftrightarrow> f \<in> free_set B"
    and "unat (free_frames (fst s)) = card (free_set B)"
  using assms by (simp_all add: buddy_inv_def Let_def)

lemma block_bound:
  assumes "(q + 1) * 2 ^ n \<le> N" and "N \<le> 2 ^ 40"
  shows "q * 2 ^ n < 2 ^ 52" and "bud q * 2 ^ n < 2 ^ 52" and "q * 2 ^ n < N"
proof -
  have "(0 :: nat) < 2 ^ n" by simp
  moreover have "(q + 1) * 2 ^ n = q * 2 ^ n + 2 ^ n" by simp
  ultimately show "q * 2 ^ n < N" using assms(1) by linarith
  then show "q * 2 ^ n < 2 ^ 52" using assms(2) by simp
  have "bud q * 2 ^ n \<le> (q + 1) * 2 ^ n" by (intro mult_right_mono) (auto simp: bud_def)
  then show "bud q * 2 ^ n < 2 ^ 52" using assms by simp
qed

lemma listed_bound:
  assumes "wf_blocks N B" and "N \<le> 2 ^ 40" and "(n, q) \<in> B"
  shows "q * 2 ^ n < 2 ^ 52" and "n < MAX_ORDER" and "q \<noteq> 0"
  using block_bound(1) [OF wf_blocksD(3) [OF assms(1,3)] assms(2)] wf_blocksD(1,2) [OF assms(1,3)]
  by (auto simp: MAX_ORDER_def)

lemma rep_push:
  assumes rep: "lists_rep (b, m) B" and wf: "wf_blocks N B" "N \<le> 2 ^ 40"
    and x: "n \<le> 11" "q \<noteq> 0" "q * 2 ^ n < 2 ^ 52" and disj: "frames_of (n, q) \<inter> free_set B = {}"
  shows "lists_rep (push_to_list (badr n q) n (b, m)) (insert (n, q) B)"
    and "fst (push_to_list (badr n q) n (b, m)) = b\<lparr>free_lists := free_lists (fst (push_to_list (badr n q) n (b, m)))\<rparr>"
proof -
  obtain L where L: "lists_ok (free_lists b) m L" "\<And>k. k < MAX_ORDER \<Longrightarrow> set (L k) = badr k ` {q. (k, q) \<in> B}"
    using rep by (auto simp: lists_rep_def)
  have n: "n < MAX_ORDER" using x(1) by (simp add: MAX_ORDER_def)
  have fresh: "badr n q \<notin> set (L k)" if k: "k < MAX_ORDER" for k
  proof
    assume "badr n q \<in> set (L k)"
    then obtain r where r: "(k, r) \<in> B" "badr n q = badr k r" using L(2) [OF k] by auto
    then have "q * 2 ^ n = r * 2 ^ k" using badr_eq_iff [OF x(3) listed_bound(1) [OF wf r(1)]] by simp
    then have "q * 2 ^ n \<in> frames_of (n, q) \<and> q * 2 ^ n \<in> frames_of (k, r)" by (simp add: frames_of_def)
    then show False using disj r(1) by (auto simp: free_set_def)
  qed
  obtain b' m' where push: "push_to_list (badr n q) n (b, m) = (b', m')" by fastforce
  note P = push_lists [OF L(1) n node_badr [OF x(3)] _ fresh push]
  show "lists_rep (push_to_list (badr n q) n (b, m)) (insert (n, q) B)"
    unfolding lists_rep_def push fst_conv snd_conv
  proof (rule exI [of _ "L(n := badr n q # L n)"], intro conjI allI impI)
    show "lists_ok (free_lists b') m' (L(n := badr n q # L n))" using P(1) x(2,3) badr_zero_iff by blast
    fix k assume "k < MAX_ORDER"
    then show "set ((L(n := badr n q # L n)) k) = badr k ` {r. (k, r) \<in> insert (n, q) B}"
      using L(2) [of k] by auto
  qed
  show "fst (push_to_list (badr n q) n (b, m)) = b\<lparr>free_lists := free_lists (fst (push_to_list (badr n q) n (b, m)))\<rparr>"
    using P(2) x(2,3) badr_zero_iff by (simp add: push)
qed

lemma rep_pop:
  assumes rep: "lists_rep (b, m) B" and wf: "wf_blocks N B" "N \<le> 2 ^ 40" and x: "(n, q) \<in> B"
  shows "lists_rep (pop_from_list (badr n q) n (b, m)) (B - {(n, q)})"
    and "fst (pop_from_list (badr n q) n (b, m)) = b\<lparr>free_lists := free_lists (fst (pop_from_list (badr n q) n (b, m)))\<rparr>"
proof -
  obtain L where L: "lists_ok (free_lists b) m L" "\<And>k. k < MAX_ORDER \<Longrightarrow> set (L k) = badr k ` {q. (k, q) \<in> B}"
    using rep by (auto simp: lists_rep_def)
  have n: "n < MAX_ORDER" using listed_bound(2) [OF wf x] .
  have mem: "badr n q \<in> set (L n)" using L(2) [OF n] x by auto
  obtain b' m' where pop: "pop_from_list (badr n q) n (b, m) = (b', m')" by fastforce
  note P = pop_lists [OF L(1) n mem pop]
  have inj: "badr n r = badr n q \<longleftrightarrow> r = q" if "(n, r) \<in> B" for r
    using badr_eq_iff [OF listed_bound(1) [OF wf that] listed_bound(1) [OF wf x]] by simp
  have "set (remove1 (badr n q) (L n)) = badr n ` {r. (n, r) \<in> B - {(n, q)}}"
    using lists_okD(3) [OF L(1) n] L(2) [OF n] inj by auto
  then show "lists_rep (pop_from_list (badr n q) n (b, m)) (B - {(n, q)})"
    unfolding lists_rep_def pop fst_conv snd_conv
    using P(1) L(2) by (intro exI [of _ "L(n := remove1 (badr n q) (L n))"]) auto
  show "fst (pop_from_list (badr n q) n (b, m)) = b\<lparr>free_lists := free_lists (fst (pop_from_list (badr n q) n (b, m)))\<rparr>"
    using P(2) by (simp add: pop)
qed

text \<open>The head of a list is one of its blocks, and an empty list has none.\<close>

lemma rep_head:
  assumes "lists_rep s B" and "n < MAX_ORDER"
  shows "free_lists (fst s) ! n \<noteq> 0 \<Longrightarrow> \<exists>q. (n, q) \<in> B \<and> free_lists (fst s) ! n = badr n q"
    and "free_lists (fst s) ! n = 0 \<Longrightarrow> (n, q) \<notin> B"
proof -
  obtain L where L: "lists_ok (free_lists (fst s)) (snd s) L" "set (L n) = badr n ` {q. (n, q) \<in> B}"
    using assms by (auto simp: lists_rep_def)
  note dl = lists_okD(2) [OF L(1) assms(2)]
  show "\<exists>q. (n, q) \<in> B \<and> free_lists (fst s) ! n = badr n q" if "free_lists (fst s) ! n \<noteq> 0"
  proof -
    have "free_lists (fst s) ! n \<in> set (L n)" using dll_hd [OF dl that] by (metis list.set_intros(1))
    then show ?thesis using L(2) by auto
  qed
  show "(n, q) \<notin> B" if "free_lists (fst s) ! n = 0"
    using dll_empty_iff [OF dl] that L(2) by auto
qed

end
