(* ===== verification/Buddy_Props.thy ===== *)
theory Buddy_Props
  imports Buddy_Inv
begin

text \<open>
  What the buddy allocator promises: allocation hands out an aligned run of free frames
  whenever there is one, freeing returns exactly the frames given back and merges them, the
  invariant holds over every history of calls that free only what is allocated, and where
  the guard against double frees does not protect.
\<close>

section \<open>Allocation\<close>

lemma split_rep:
  assumes "order \<le> c" and "lists_rep s B" and "wf_blocks N (B \<union> split_set order q c)" and "N \<le> 2 ^ 40"
    and "\<forall>x \<in> split_set order q c. frames_of x \<inter> free_set B = {}"
  shows "lists_rep (split_loop order (badr c q) c s) (B \<union> split_set order q c)"
    and "fst (split_loop order (badr c q) c s) = (fst s)\<lparr>free_lists := free_lists (fst (split_loop order (badr c q) c s))\<rparr>"
proof -
  have "lists_rep (split_loop order (badr c q) c s) (B \<union> split_set order q c)
      \<and> fst (split_loop order (badr c q) c s) = (fst s)\<lparr>free_lists := free_lists (fst (split_loop order (badr c q) c s))\<rparr>"
    using assms
  proof (induction c arbitrary: q s B)
    case (Suc c)
    show ?case
    proof (cases "order = Suc c")
      case False
      with Suc.prems(1) have le: "order \<le> c" by simp
      obtain b m where s: "s = (b, m)" by fastforce
      let ?x = "(c, 2 * q + 1)"
      let ?s = "push_to_list (badr c (2 * q + 1)) c (b, m)"
      have split: "split_set order q (Suc c) = insert ?x (split_set order (2 * q) c)" using le by simp
      have total: "insert ?x B \<union> split_set order (2 * q) c = B \<union> split_set order q (Suc c)" unfolding split by blast
      have x: "?x \<in> B \<union> split_set order q (Suc c)" unfolding split by blast
      note bd = listed_bound [OF Suc.prems(3,4) x]
      have wfB: "wf_blocks N B" using wf_blocks_subset [OF Suc.prems(3)] by blast
      have xB: "frames_of ?x \<inter> free_set B = {}" using Suc.prems(5) unfolding split by blast
      have c: "c \<le> 11" using bd(2) by (simp add: MAX_ORDER_def)
      note P = rep_push [OF Suc.prems(2) [unfolded s] wfB Suc.prems(4) c bd(3,1) xB]
      have "frames_of y \<inter> free_set (insert ?x B) = {}" if y: "y \<in> split_set order (2 * q) c" for y
      proof -
        have "frames_of y \<subseteq> frames_of (c, 2 * q)" using split_set_elem [OF y le] by metis
        then have "frames_of y \<inter> frames_of ?x = {}" using frames_of_disjoint [of "2 * q" "2 * q + 1" c] by auto
        moreover have "frames_of y \<inter> free_set B = {}" using Suc.prems(5) y unfolding split by blast
        ultimately show ?thesis by (auto simp: free_set_insert)
      qed
      then have "lists_rep (split_loop order (badr c (2 * q)) c ?s) (insert ?x B \<union> split_set order (2 * q) c)
          \<and> fst (split_loop order (badr c (2 * q)) c ?s) = (fst ?s)\<lparr>free_lists := free_lists (fst (split_loop order (badr c (2 * q)) c ?s))\<rparr>"
        using Suc.prems(3,4) total by (intro Suc.IH [OF le P(1)]) auto
      moreover have "split_loop order (badr (Suc c) q) (Suc c) s = split_loop order (badr c (2 * q)) c ?s"
        using le by (simp add: s badr_half badr_upper)
      ultimately show ?thesis using total P(2) by (metis (no_types, lifting) BuddyAllocator.update_convs(1) BuddyAllocator.surjective fst_conv s)
    qed (use Suc.prems in \<open>simp add: free_set_def\<close>)
  qed simp
  then show "lists_rep (split_loop order (badr c q) c s) (B \<union> split_set order q c)"
    and "fst (split_loop order (badr c q) c s) = (fst s)\<lparr>free_lists := free_lists (fst (split_loop order (badr c q) c s))\<rparr>"
    by auto
qed

lemma frame_is_free_cong:
  "total_frames b' = total_frames b \<Longrightarrow> bitmap b' = bitmap b \<Longrightarrow> frame_is_free b' f = frame_is_free b f"
  by (simp add: frame_is_free_def)

lemma alloc_none:
  assumes inv: "buddy_inv s B" and "unat order \<le> 11" and "alloc_block order s = (None, s')"
  shows "s' = s" and "\<not> frames_of (unat order, q) \<subseteq> free_set B"
proof -
  let ?o = "unat order"
  have none: "find (\<lambda>n. free_lists (fst s) ! n \<noteq> 0) [?o..<MAX_ORDER] = None"
    and "s' = s"
    using assms(2,3) by (auto simp: alloc_block_def Let_def MAX_ORDER_def split: option.splits prod.splits)
  then show "s' = s" by simp
  show "\<not> frames_of (?o, q) \<subseteq> free_set B"
  proof
    assume "frames_of (?o, q) \<subseteq> free_set B"
    then obtain k r where k: "(k, r) \<in> B" "?o \<le> k"
      using covered [OF buddy_invD(3) [OF inv], of ?o q] assms(2) by auto
    then have "k < MAX_ORDER" using listed_bound(2) buddy_invD(1,3) [OF inv] by blast
    moreover from this have "free_lists (fst s) ! k = 0" using none k(2) by (auto simp: find_None_iff)
    ultimately show False using rep_head(2) [OF buddy_invD(4) [OF inv]] k(1) by blast
  qed
qed

lemma alloc_some:
  assumes inv: "buddy_inv s B" and al: "alloc_block order s = (Some a, s')"
  shows "\<exists>B' q. a = badr (unat order) q \<and> unat order \<le> 11 \<and> q \<noteq> 0 \<and> (q + 1) * 2 ^ unat order \<le> unat (total_frames (fst s))
     \<and> frames_of (unat order, q) \<subseteq> free_set B
     \<and> buddy_inv s' B' \<and> free_set B' = free_set B - frames_of (unat order, q)
     \<and> total_frames (fst s') = total_frames (fst s)"
proof -
  let ?o = "unat order"
  let ?N = "unat (total_frames (fst s))"
  note I = buddy_invD [OF inv]
  obtain c where o: "?o < MAX_ORDER" and c: "find (\<lambda>n. free_lists (fst s) ! n \<noteq> 0) [?o..<MAX_ORDER] = Some c"
    using al by (auto simp: alloc_block_def Let_def split: if_splits option.splits prod.splits)
  then have c': "?o \<le> c" "c < MAX_ORDER" "free_lists (fst s) ! c \<noteq> 0" by (auto simp: find_Some_iff)
  obtain q where q: "(c, q) \<in> B" "free_lists (fst s) ! c = badr c q" using rep_head(1) [OF I(4) c'(2,3)] by blast
  obtain b m where s: "s = (b, m)" by fastforce
  define s1 where "s1 = pop_from_list (badr c q) c s"
  define s2 where "s2 = split_loop ?o (badr c q) c s1"
  let ?q = "q * 2 ^ (c - ?o)"
  have adr: "badr c q = badr ?o ?q" using c'(1) by (simp add: badr_def algebra_simps power_add [symmetric])
  let ?B = "B - {(c, q)} \<union> split_set ?o q c"
  note AB = alloc_blocks [OF I(3) q(1) c'(1)]
  have pop: "lists_rep s1 (B - {(c, q)})" "fst s1 = b\<lparr>free_lists := free_lists (fst s1)\<rparr>"
    using rep_pop [OF I(4) [unfolded s] I(3,1) q(1)] by (simp_all add: s1_def s)
  have "frames_of x \<inter> free_set (B - {(c, q)}) = {}" if x: "x \<in> split_set ?o q c" for x
  proof -
    have "frames_of x \<subseteq> frames_of (c, q)" using split_set_elem [OF x c'(1)] by metis
    then show ?thesis using free_set_remove [OF I(3) q(1)] by auto
  qed
  then have split: "lists_rep s2 ?B" "fst s2 = b\<lparr>free_lists := free_lists (fst s2)\<rparr>"
    using split_rep [OF c'(1) pop(1) AB(1) I(1)] pop(2) unfolding s2_def
    by (metis (no_types, lifting) BuddyAllocator.update_convs(1) BuddyAllocator.surjective)+
  let ?b = "mark_range (badr c q) (2 ^ ?o) True (fst s2)"
  have s': "a = badr c q" "s' = (?b\<lparr>free_frames := free_frames ?b - 2 ^ ?o\<rparr>, snd s2)"
    using al o c by (auto simp: alloc_block_def Let_def q(2) s1_def [symmetric] s2_def [symmetric] split: prod.splits)
  have sub: "frames_of (?o, ?q) \<subseteq> free_set B"
    using split_set_free(2) [OF c'(1)] q(1) by (auto simp: free_set_def)
  have "?q * 2 ^ ?o = q * 2 ^ c" using c'(1) by (simp add: power_add [symmetric])
  then have qb: "?q * 2 ^ ?o < 2 ^ 52" using listed_bound(1) [OF I(3,1) q(1)] by (simp only:)
  have q0: "?q \<noteq> 0" using listed_bound(3) [OF I(3,1) q(1)] by simp
  have top: "(?q + 1) * 2 ^ ?o \<le> ?N"
  proof -
    have "(?q + 1) * 2 ^ ?o - 1 \<in> frames_of (?o, ?q)"
      using zero_less_power [of "2 :: nat" ?o] unfolding frames_of_def by (simp, linarith)
    then have "(?q + 1) * 2 ^ ?o - 1 < ?N" using sub free_set_bounds [OF I(3)] by blast
    then show ?thesis by linarith
  qed
  have tf: "total_frames (fst s') = total_frames (fst s)" "length (bitmap (fst s')) = length (bitmap (fst s))"
    "free_lists (fst s') = free_lists (fst s2)"
  proof -
    have "total_frames (fst s2) = total_frames b" "length (bitmap (fst s2)) = length (bitmap b)"
      by (subst split(2), simp)+
    then show "total_frames (fst s') = total_frames (fst s)" "length (bitmap (fst s')) = length (bitmap (fst s))"
      "free_lists (fst s') = free_lists (fst s2)"
      by (simp_all add: s' s)
  qed
  have ff: "frame_is_free (fst s') f \<longleftrightarrow> f \<in> free_set ?B" for f
  proof -
    have "frame_is_free (fst s2) f = frame_is_free b f"
      by (rule frame_is_free_cong) (subst split(2), simp)+
    moreover have "frame_is_free (fst s') f = frame_is_free ?b f"
      by (rule frame_is_free_cong) (simp_all add: s')
    ultimately show ?thesis
      using frame_range [OF qb, of f] I(5) [of f] by (simp add: mark_range_free adr AB(2) s)
  qed
  have card: "unat (free_frames (fst s')) = card (free_set ?B)"
  proof -
    have "card (free_set ?B) = card (free_set B) - 2 ^ ?o" "2 ^ ?o \<le> card (free_set B)"
      using AB(2) sub card_Diff_subset [OF frames_of_finite sub] card_mono [OF free_set_finite [OF I(3)] sub] by simp_all
    moreover have "free_frames (fst s2) = free_frames b" by (subst split(2)) simp
    moreover have "unat ((2 :: u64) ^ ?o) = 2 ^ ?o" using o by (intro unat_pow2) (simp add: MAX_ORDER_def)
    ultimately show ?thesis using I(6) by (simp add: s' s unat_sub word_le_nat_alt)
  qed
  have "lists_rep s' ?B" using split(1) tf(3) by (simp add: lists_rep_def s')
  then have "buddy_inv s' ?B"
    using I(1,2) AB(1) tf ff card by (simp add: buddy_inv_def Let_def)
  then show ?thesis
    using adr s'(1) q0 top sub AB(2) tf(1) o by (intro exI [of _ ?B] exI [of _ ?q]) (auto simp: MAX_ORDER_def)
qed

section \<open>Deallocation\<close>

text \<open>
  While a block that is not free is being put back, the membership test on its buddy is
  exact: it holds just when the buddy is a free block of the same order.
\<close>

lemma on_free_list_iff:
  assumes rep: "lists_rep (b, m) B" and wf: "wf_blocks N B" and N: "N = unat (total_frames b)" "N \<le> 2 ^ 40"
    and x: "n < 11" "(q + 1) * 2 ^ n \<le> N" and disj: "frames_of (n, q) \<inter> free_set B = {}"
    and bits: "\<And>f. f \<notin> frames_of (n, q) \<Longrightarrow> frame_is_free b f \<longleftrightarrow> f \<in> free_set B"
  shows "block_on_free_list (badr n (bud q)) n (b, m) \<longleftrightarrow> (n, bud q) \<in> B"
proof -
  let ?a = "badr n (bud q)"
  note bd = block_bound(2) [OF x(2) N(2)]
  have "frames_of (n, bud q) \<inter> frames_of (n, q) = {}" by (rule frames_of_disjoint) simp
  then have "is_block_free b ?a (word_of_nat n) \<longleftrightarrow> frames_of (n, bud q) \<subseteq> free_set B"
    using is_block_free_iff [OF _ bd, of b] x(1) bits by auto
  then have free: "is_block_free b ?a (word_of_nat n) \<longleftrightarrow> (n, bud q) \<in> B"
    using buddy_free_iff [OF wf x(1) disj] by simp
  show ?thesis
  proof (cases "(n, bud q) \<in> B")
    case True
    obtain L where L: "lists_ok (free_lists b) m L" "\<And>k. k < MAX_ORDER \<Longrightarrow> set (L k) = badr k ` {q. (k, q) \<in> B}"
      using rep by (auto simp: lists_rep_def)
    have n: "n < MAX_ORDER" using x(1) by (simp add: MAX_ORDER_def)
    have valid: "p < max_addr b \<and> p AND 0xFFF = 0" if p: "p \<in> set (L n)" for p
    proof -
      obtain r where r: "(n, r) \<in> B" "p = badr n r" using p L(2) [OF n] by auto
      note rb = block_bound [OF wf_blocksD(3) [OF wf r(1)] N(2)]
      have "unat p < N * 4096" using rb(3) by (simp add: r(2) unat_badr [OF rb(1)] power_add)
      then show ?thesis
        using max_addr_bound [of b] N node_badr [OF rb(1)] by (simp add: word_less_nat_alt r(2) node_def)
    qed
    have "?a \<in> set (L n)" using True L(2) [OF n] by auto
    note links = listed_links [OF L(1) n this]
    have v: "m ?a = 0 \<or> m ?a < max_addr b \<and> m ?a AND 0xFFF = 0"
      "m (?a + 8) = 0 \<or> m (?a + 8) < max_addr b \<and> m (?a + 8) AND 0xFFF = 0"
      using links(1,2) valid by blast+
    then have "block_on_free_list ?a n (b, m)"
      unfolding block_on_free_list_def using True free links(3) by (simp add: Let_def split: if_splits)
    then show ?thesis using True by simp
  qed (use free in \<open>simp add: block_on_free_list_def\<close>)
qed

lemma merge_rep:
  assumes "lists_rep (b, m) B" and "wf_blocks N B" and "N = unat (total_frames b)" "N \<le> 2 ^ 40"
    and "n \<le> 11" "q \<noteq> 0" "(q + 1) * 2 ^ n \<le> N" and "frames_of (n, q) \<inter> free_set B = {}"
    and "\<And>f. f \<notin> frames_of (n, q) \<Longrightarrow> frame_is_free b f \<longleftrightarrow> f \<in> free_set B"
  shows "\<exists>k r b' m' C. merge_loop (badr n q) n (b, m) = (badr k r, k, (b', m')) \<and> lists_rep (b', m') C
     \<and> wf_blocks N C \<and> k \<le> 11 \<and> r \<noteq> 0 \<and> (r + 1) * 2 ^ k \<le> N \<and> frames_of (k, r) \<inter> free_set C = {}
     \<and> frames_of (k, r) \<union> free_set C = frames_of (n, q) \<union> free_set B
     \<and> (k < 11 \<longrightarrow> (k, bud r) \<notin> C) \<and> b' = b\<lparr>free_lists := free_lists b'\<rparr>
     \<and> (\<forall>f. f \<notin> frames_of (k, r) \<longrightarrow> frame_is_free b f = (f \<in> free_set C))"
  using assms
proof (induction "11 - n" arbitrary: n q b m B)
  case 0
  then have "merge_loop (badr n q) n (b, m) = (badr n q, n, (b, m))"
    by (subst merge_loop.simps) (simp add: MAX_ORDER_def)
  with 0 show ?case by (intro exI [of _ n] exI [of _ q] exI [of _ b] exI [of _ m] exI [of _ B]) auto
next
  case (Suc d)
  then have n: "n < 11" by simp
  note bd = block_bound [OF Suc.prems(7,4)]
  have test: "block_on_free_list (badr n (bud q)) n (b, m) \<longleftrightarrow> (n, bud q) \<in> B"
    using on_free_list_iff [OF Suc.prems(1-4) n Suc.prems(7,8)] Suc.prems(9) by blast
  show ?case
  proof (cases "(n, bud q) \<in> B")
    case False
    then have "merge_loop (badr n q) n (b, m) = (badr n q, n, (b, m))"
      using test by (subst merge_loop.simps) (simp add: badr_buddy)
    with Suc.prems False show ?thesis by (intro exI [of _ n] exI [of _ q] exI [of _ b] exI [of _ m] exI [of _ B]) auto
  next
    case True
    note M = merge_step [OF Suc.prems(2) True Suc.prems(6,7,8)]
    obtain b1 m1 where pop: "pop_from_list (badr n (bud q)) n (b, m) = (b1, m1)" by fastforce
    have step: "merge_loop (badr n q) n (b, m) = merge_loop (badr (Suc n) (q div 2)) (Suc n) (b1, m1)"
      using test True n by (subst merge_loop.simps) (simp add: badr_buddy badr_min [OF bd(1,2)] pop MAX_ORDER_def)
    note P = rep_pop [OF Suc.prems(1,2,4) True, unfolded pop fst_conv]
    have same: "total_frames b1 = total_frames b" "bitmap b1 = bitmap b" by (subst P(2), simp)+
    have bits: "frame_is_free b1 f \<longleftrightarrow> f \<in> free_set (B - {(n, bud q)})" if "f \<notin> frames_of (Suc n, q div 2)" for f
    proof -
      have "frame_is_free b1 f = frame_is_free b f" by (rule frame_is_free_cong [OF same])
      then show ?thesis using Suc.prems(9) [of f] that M(5) by (auto simp: frames_of_parent)
    qed
    have "\<exists>k r b' m' C. merge_loop (badr (Suc n) (q div 2)) (Suc n) (b1, m1) = (badr k r, k, (b', m')) \<and> lists_rep (b', m') C
     \<and> wf_blocks N C \<and> k \<le> 11 \<and> r \<noteq> 0 \<and> (r + 1) * 2 ^ k \<le> N \<and> frames_of (k, r) \<inter> free_set C = {}
     \<and> frames_of (k, r) \<union> free_set C = frames_of (Suc n, q div 2) \<union> free_set (B - {(n, bud q)})
     \<and> (k < 11 \<longrightarrow> (k, bud r) \<notin> C) \<and> b' = b1\<lparr>free_lists := free_lists b'\<rparr>
     \<and> (\<forall>f. f \<notin> frames_of (k, r) \<longrightarrow> frame_is_free b1 f = (f \<in> free_set C))"
      by (rule Suc.hyps(1)) (use Suc.hyps(2) Suc.prems(3,4) n P(1) M same(1) bits in auto)
    moreover have "frame_is_free b1 f = frame_is_free b f" for f by (rule frame_is_free_cong [OF same])
    moreover have "b1\<lparr>free_lists := l\<rparr> = b\<lparr>free_lists := l\<rparr>" for l by (subst P(2)) simp
    ultimately show ?thesis unfolding step M(5) by simp
  qed
qed

lemma free_rep:
  assumes inv: "buddy_inv s B" and x: "n \<le> 11" "q \<noteq> 0" "(q + 1) * 2 ^ n \<le> unat (total_frames (fst s))"
    and disj: "frames_of (n, q) \<inter> free_set B = {}"
  shows "\<exists>B'. buddy_inv (free_listed (badr n q) n s) B' \<and> free_set B' = frames_of (n, q) \<union> free_set B
     \<and> total_frames (fst (free_listed (badr n q) n s)) = total_frames (fst s)"
proof -
  let ?N = "unat (total_frames (fst s))"
  note I = buddy_invD [OF inv]
  obtain b m where s: "s = (b, m)" by fastforce
  note bd = block_bound [OF x(3) I(1)]
  have "f \<in> frames_of (n, q) \<Longrightarrow> \<not> frame_is_free b f" for f using I(5) disj by (auto simp: s)
  then have "\<not> is_block_free b (badr n q) (word_of_nat n)"
    using is_block_free_iff [OF x(1) bd(1), of b] frames_of_nonempty [of "(n, q)"] by blast
  then have not_free: "\<not> is_block_free (fst s) (badr n q) (word_of_nat n)" by (simp add: s)
  define b0 where "b0 = b\<lparr>free_frames := free_frames b + 2 ^ n\<rparr>"
  have b0: "frame_is_free b0 f = frame_is_free b f" "total_frames b0 = total_frames b" for f
    by (simp_all add: b0_def frame_is_free_def)
  have "lists_rep (b0, m) B" using I(4) by (simp add: lists_rep_def b0_def s)
  from merge_rep [OF this I(3) _ I(1) x disj] b0 I(5)
  obtain k r b1 m1 C where mg: "merge_loop (badr n q) n (b0, m) = (badr k r, k, (b1, m1))" "lists_rep (b1, m1) C"
    and C: "wf_blocks ?N C" "k \<le> 11" "r \<noteq> 0" "(r + 1) * 2 ^ k \<le> ?N" "frames_of (k, r) \<inter> free_set C = {}"
      "frames_of (k, r) \<union> free_set C = frames_of (n, q) \<union> free_set B" "k < 11 \<longrightarrow> (k, bud r) \<notin> C"
    and b1: "b1 = b0\<lparr>free_lists := free_lists b1\<rparr>"
    and bits: "\<And>f. f \<notin> frames_of (k, r) \<Longrightarrow> frame_is_free b0 f = (f \<in> free_set C)"
    by (auto simp: s)
  note rb = block_bound [OF C(4) I(1)]
  obtain b2 m2 where ps: "push_to_list (badr k r) k (b1, m1) = (b2, m2)" by fastforce
  note P = rep_push [OF mg(2) C(1) I(1) C(2,3) rb(1) C(5), unfolded ps fst_conv]
  let ?b = "mark_range (badr k r) (2 ^ k) False b2"
  have res: "free_listed (badr n q) n s = (?b, m2)"
    using not_free by (simp add: free_listed_def s b0_def [symmetric] mg(1) ps)
  let ?B = "insert (k, r) C"
  have same: "total_frames b2 = total_frames b" "bitmap b2 = bitmap b" "free_frames b2 = free_frames b + 2 ^ n"
    by (subst P(2), simp, subst b1, simp add: b0_def)+
  have wf: "wf_blocks ?N ?B" by (rule free_blocks_insert [OF C(1-5,7)])
  have ff: "frame_is_free ?b f \<longleftrightarrow> f \<in> free_set ?B" for f
  proof (cases "f \<in> frames_of (k, r)")
    case True
    then have "f < ?N" using free_set_bounds [OF wf, of f] by (auto simp: free_set_insert)
    then have "f div 64 < length (bitmap b)" using I(2) by (simp add: s div_less_iff_less_mult mult.commute)
    with True \<open>f < ?N\<close> show ?thesis
      using frame_range [OF rb(1), of f] by (simp add: mark_range_free same s free_set_insert)
  next
    case False
    have "frame_is_free b2 f = frame_is_free b0 f" by (rule frame_is_free_cong) (simp_all add: same b0_def)
    with False show ?thesis
      using frame_range [OF rb(1), of f] bits [OF False] by (auto simp: mark_range_free free_set_insert)
  qed
  have card: "unat (free_frames ?b) = card (free_set ?B)"
  proof -
    have eq: "free_set ?B = frames_of (n, q) \<union> free_set B" using C(6) by (simp add: free_set_insert)
    then have c: "card (free_set ?B) = 2 ^ n + card (free_set B)"
      using card_Un_disjoint [OF frames_of_finite free_set_finite [OF I(3)] disj] by simp
    have "free_set ?B \<subseteq> {..<?N}" using free_set_bounds [OF wf] by auto
    then have "card (free_set ?B) \<le> ?N" using card_mono [of "{..<?N}"] by fastforce
    then have "2 ^ n + card (free_set B) \<le> 2 ^ 40" using c I(1) by simp
    moreover have p: "unat ((2 :: u64) ^ n) = 2 ^ n" using x(1) by (intro unat_pow2) simp
    ultimately have "unat (free_frames b + 2 ^ n) = unat (free_frames b) + unat ((2 :: u64) ^ n)"
      using I(6) by (intro unat_plus_no_overflow) (simp add: s)
    then show ?thesis using I(6) c p by (simp add: same s)
  qed
  have "lists_rep (?b, m2) ?B" using P(1) by (simp add: lists_rep_def)
  then have "buddy_inv (?b, m2) ?B"
    using I(1,2) wf ff card by (simp add: buddy_inv_def same s)
  then show ?thesis
    using C(6) unfolding res by (intro exI [of _ ?B]) (simp add: free_set_insert same s)
qed

lemma free_double:
  assumes inv: "buddy_inv s B" and x: "n \<le> 11" "q * 2 ^ n < 2 ^ 52" and sub: "frames_of (n, q) \<subseteq> free_set B"
  shows "free_listed (badr n q) n s = s"
  using is_block_free_iff [OF x, of "fst s"] buddy_invD(5) [OF inv] sub by (auto simp: free_listed_def)

section \<open>Adding memory\<close>

lemma page_round: "w AND NOT 4095 = badr 0 (unat w div 4096)"
proof -
  have "w AND NOT 4095 = w AND NOT (mask 12)" by (simp add: mask_numeral)
  also have "\<dots> = push_bit 12 (drop_bit 12 w)"
    by (rule bit_word_eqI) (auto simp: bit_simps)
  also have "\<dots> = badr 0 (unat w div 4096)"
  proof -
    have "unat (drop_bit 12 w) = unat w div 4096" by (simp add: drop_bit_eq_div unat_div)
    then have "word_of_nat (unat w div 4096) = drop_bit 12 w" by (metis of_nat_unat ucast_id)
    then show ?thesis by (simp add: badr_def push_bit_eq_mult)
  qed
  finally show ?thesis .
qed

lemma unat_block_size: "n \<le> 11 \<Longrightarrow> unat (block_size n) = 2 ^ (n + 12)"
  by (simp add: block_size_def push_bit_of_1 unat_pow2)

lemma badr_0: "badr n q = badr 0 (q * 2 ^ n)"
  by (simp add: badr_def power_add algebra_simps)

lemma badr_next: "badr 0 f + block_size n = badr 0 (f + 2 ^ n)"
  by (simp add: badr_def block_size_def push_bit_of_1 power_add algebra_simps)

lemma fit_order_spec:
  assumes "n \<le> 11" and "f mod 2 ^ n = 0" and "f + 2 ^ n \<le> g" and "g \<le> 2 ^ 40"
  shows "fit_order (badr 0 f) (badr 0 g) n \<le> 11
     \<and> f mod 2 ^ fit_order (badr 0 f) (badr 0 g) n = 0 \<and> f + 2 ^ fit_order (badr 0 f) (badr 0 g) n \<le> g"
  using assms
proof (induction "11 - n" arbitrary: n)
  case 0
  then show ?case by (subst (1 2 3) fit_order.simps) (simp add: MAX_ORDER_def)
next
  case (Suc d)
  then have n: "Suc n \<le> 11" by simp
  let ?z = "block_size (Suc n)"
  have z: "unat ?z = 2 ^ Suc n * 4096" using unat_block_size [OF n] by (simp add: power_add)
  have f: "unat (badr 0 f) = f * 4096" "unat (badr 0 g) = g * 4096"
    using unat_badr [of f 0] unat_badr [of g 0] Suc.prems(3,4) by simp_all
  have "f * 4096 + 2 ^ Suc n * 4096 < 2 ^ 64"
    using Suc.prems(3,4) power_increasing [OF n, of "2 :: nat"] by simp
  then have "unat (badr 0 f + ?z) = f * 4096 + 2 ^ Suc n * 4096"
    by (subst unat_plus_no_overflow) (simp_all only: f z len_num0 len_bit0 len_num1 mult_2, simp_all)
  moreover have "unat (badr 0 f mod ?z) = (f mod 2 ^ Suc n) * 4096"
    by (simp only: unat_mod f z mult_mod_left)
  moreover have "badr 0 f mod ?z = 0 \<longleftrightarrow> unat (badr 0 f mod ?z) = 0" by (simp add: unat_eq_zero)
  ultimately have test: "badr 0 f mod ?z \<noteq> 0 \<or> badr 0 f + ?z > badr 0 g \<longleftrightarrow>
      \<not> (f mod 2 ^ Suc n = 0 \<and> f + 2 ^ Suc n \<le> g)"
    by (simp only: word_less_nat_alt f) linarith
  show ?case
  proof (cases "f mod 2 ^ Suc n = 0 \<and> f + 2 ^ Suc n \<le> g")
    case True
    then have "fit_order (badr 0 f) (badr 0 g) n = fit_order (badr 0 f) (badr 0 g) (Suc n)"
      using test n by (subst fit_order.simps) (simp add: MAX_ORDER_def)
    then show ?thesis using Suc.hyps(1) [of "Suc n"] Suc.hyps(2) n True Suc.prems(4) by simp
  next
    case False
    then have "fit_order (badr 0 f) (badr 0 g) n = n"
      using test by (subst fit_order.simps) (simp add: Let_def)
    then show ?thesis using Suc.prems by simp
  qed
qed

lemma add_loop_rep:
  assumes "buddy_inv s B" and "f \<noteq> 0" and "f \<le> g" and "g \<le> unat (total_frames (fst s))" and "{f..<g} \<inter> free_set B = {}"
  shows "\<exists>s' B'. add_loop (badr 0 f) (badr 0 g) s = Some s' \<and> buddy_inv s' B' \<and> free_set B' = {f..<g} \<union> free_set B
     \<and> total_frames (fst s') = total_frames (fst s)"
  using assms
proof (induction "g - f" arbitrary: f s B rule: less_induct)
  case less
  note I = buddy_invD [OF less.prems(1)]
  have g: "g \<le> 2 ^ 40" using less.prems(4) I(1) by simp
  have u: "unat (badr 0 f) = f * 4096" "unat (badr 0 g) = g * 4096"
    using unat_badr [of f 0] unat_badr [of g 0] less.prems(3) g by simp_all
  show ?case
  proof (cases "f = g")
    case True
    then show ?thesis using less.prems by (subst add_loop.simps) auto
  next
    case False
    let ?n = "fit_order (badr 0 f) (badr 0 g) 0"
    have n: "?n \<le> 11" "f mod 2 ^ ?n = 0" "f + 2 ^ ?n \<le> g"
      using fit_order_spec [of 0 f g] False less.prems(3) g by auto
    define q where "q = f div 2 ^ ?n"
    have fq: "f = q * 2 ^ ?n" using div_mult_mod_eq [of f "2 ^ ?n"] n(2) unfolding q_def by simp
    then have q0: "q \<noteq> 0" using less.prems(2) by (metis mult_0)
    have "badr 0 f < badr 0 g" "\<not> badr 0 f \<ge> max_addr (fst s)"
      using False less.prems(3,4) max_addr_bound [OF I(1)] by (simp_all add: word_less_nat_alt word_le_nat_alt u)
    then have step: "add_loop (badr 0 f) (badr 0 g) s
        = add_loop (badr 0 (f + 2 ^ ?n)) (badr 0 g) (free_listed (badr ?n q) ?n s)"
      using badr_0 [of ?n q] by (subst add_loop.simps) (simp add: Let_def badr_next fq [symmetric])
    have top: "(q + 1) * 2 ^ ?n = f + 2 ^ ?n" using fq by simp
    have fr: "frames_of (?n, q) = {f..<f + 2 ^ ?n}" using fq top by (simp only: frames_of_def fst_conv snd_conv)
    have "frames_of (?n, q) \<subseteq> {f..<g}" using n(3) unfolding fr by auto
    then have disj: "frames_of (?n, q) \<inter> free_set B = {}" using less.prems(5) by blast
    obtain B1 where B1: "buddy_inv (free_listed (badr ?n q) ?n s) B1" "free_set B1 = frames_of (?n, q) \<union> free_set B"
      "total_frames (fst (free_listed (badr ?n q) ?n s)) = total_frames (fst s)"
      using free_rep [OF less.prems(1) n(1) q0 _ disj] top n(3) less.prems(4) by auto
    have "{f + 2 ^ ?n..<g} \<subseteq> {f..<g}" "{f + 2 ^ ?n..<g} \<inter> frames_of (?n, q) = {}" unfolding fr by auto
    then have "{f + 2 ^ ?n..<g} \<inter> free_set B1 = {}" using less.prems(5) unfolding B1(2) by blast
    moreover have "g - (f + 2 ^ ?n) < g - f" using n(3) zero_less_power [of "2 :: nat" ?n] by linarith
    ultimately obtain s' B' where "add_loop (badr 0 (f + 2 ^ ?n)) (badr 0 g) (free_listed (badr ?n q) ?n s) = Some s'"
      "buddy_inv s' B'" "free_set B' = {f + 2 ^ ?n..<g} \<union> free_set B1" "total_frames (fst s') = total_frames (fst s)"
      using less.hyps [OF _ B1(1), of "f + 2 ^ ?n"] less.prems(2-4) n(3) B1(3) False by auto
    moreover have "{f + 2 ^ ?n..<g} \<union> free_set B1 = {f..<g} \<union> free_set B" using B1(2) fr n(3) by auto
    ultimately show ?thesis unfolding step by auto
  qed
qed

lemma add_range_rep:
  assumes inv: "buddy_inv s B" and lo: "0 < unat start" "unat start + 4095 < 2 ^ 64"
    and hi: "unat e div 4096 \<le> unat (total_frames (fst s))"
    and disj: "{(unat start + 4095) div 4096..<unat e div 4096} \<inter> free_set B = {}"
  shows "\<exists>s' B'. add_range start e s = Some s' \<and> buddy_inv s' B'
     \<and> free_set B' = {(unat start + 4095) div 4096..<unat e div 4096} \<union> free_set B
     \<and> total_frames (fst s') = total_frames (fst s)"
proof -
  let ?f = "(unat start + 4095) div 4096" and ?g = "unat e div 4096"
  note I = buddy_invD [OF inv]
  have "unat (start + 4095) = unat start + 4095" using lo(2) by (subst unat_plus_no_overflow) simp_all
  then have rng: "add_range start e s = add_loop (badr 0 ?f) (badr 0 ?g) s"
    by (simp only: add_range_def page_round)
  show ?thesis
  proof (cases "?f \<le> ?g")
    case True
    then show ?thesis using add_loop_rep [OF inv _ True hi disj] lo(1) by (simp add: rng)
  next
    case False
    have g: "?g * 2 ^ 0 < 2 ^ 52" using hi I(1) by simp
    have "unat start + 4095 < 2 ^ 64" by (rule lo(2))
    then have "?f < 2 ^ 52" by (simp add: div_less_iff_less_mult)
    then have "\<not> badr 0 ?f < badr 0 ?g"
      using False unat_badr [OF g] unat_badr [of ?f 0] by (simp add: word_less_nat_alt)
    then show ?thesis using inv False by (subst rng, subst add_loop.simps) auto
  qed
qed

section \<open>The allocator as a set of free frames\<close>

text \<open>The abstraction: the frames the bitmap marks free. Blocks are aligned runs of frames.\<close>

definition free_of :: "buddy_state \<Rightarrow> nat set" where
  "free_of s = {f. frame_is_free (fst s) f}"

definition block_frames :: "u64 \<Rightarrow> nat \<Rightarrow> nat set" where
  "block_frames a n = {frame_idx a..<frame_idx a + 2 ^ n}"

text \<open>A block a caller may free: aligned, within the managed memory, not at frame 0, and allocated throughout.\<close>

definition allocated :: "buddy_state \<Rightarrow> u64 \<Rightarrow> nat \<Rightarrow> bool" where
  "allocated s a n \<longleftrightarrow> n < MAX_ORDER \<and> unat a mod 2 ^ (n + 12) = 0 \<and> a \<noteq> 0
     \<and> frame_idx a + 2 ^ n \<le> unat (total_frames (fst s)) \<and> block_frames a n \<inter> free_of s = {}"

definition buddy_ok :: "buddy_state \<Rightarrow> bool" where
  "buddy_ok s \<longleftrightarrow> (\<exists>B. buddy_inv s B)"

definition buddy_init :: "buddy_state \<Rightarrow> bool" where
  "buddy_init s \<longleftrightarrow> (\<exists>len N node m. s = (buddy_new len N node, m) \<and> unat N \<le> 2 ^ 40 \<and> unat N \<le> 64 * len)"

inductive buddy_step :: "buddy_state \<Rightarrow> buddy_state \<Rightarrow> bool" where
  step_add: "0 < unat start \<Longrightarrow> unat start + 4095 < 2 ^ 64 \<Longrightarrow> unat e div 4096 \<le> unat (total_frames (fst s)) \<Longrightarrow>
     {(unat start + 4095) div 4096..<unat e div 4096} \<inter> free_of s = {} \<Longrightarrow> add_range start e s = Some s' \<Longrightarrow> buddy_step s s'"
| step_alloc: "alloc_block order s = (r, s') \<Longrightarrow> buddy_step s s'"
| step_free: "allocated s a (unat order) \<Longrightarrow> free_block a order s = Ret s' \<Longrightarrow> buddy_step s s'"

lemma free_of_eq: "buddy_inv s B \<Longrightarrow> free_of s = free_set B"
  using buddy_invD(5) by (auto simp: free_of_def)

lemma block_frames_badr: "q * 2 ^ n < 2 ^ 52 \<Longrightarrow> block_frames (badr n q) n = frames_of (n, q)"
  using frame_range by (auto simp: block_frames_def)

lemma allocated_badr:
  assumes "buddy_inv s B" and "allocated s a n"
  obtains q where "a = badr n q" and "n \<le> 11" and "q \<noteq> 0" and "(q + 1) * 2 ^ n \<le> unat (total_frames (fst s))"
    and "frames_of (n, q) \<inter> free_set B = {}" and "q * 2 ^ n < 2 ^ 52"
proof -
  define q where "q = unat a div 2 ^ (n + 12)"
  have "unat a = q * 2 ^ (n + 12)" using assms(2) div_mult_mod_eq [of "unat a" "2 ^ (n + 12)"] by (simp add: allocated_def q_def)
  then have a: "a = badr n q" unfolding badr_def by (metis of_nat_unat ucast_id)
  have idx: "frame_idx a = q * 2 ^ n"
    by (simp add: frame_idx_def drop_bit_eq_div unat_div \<open>unat a = _\<close> power_add)
  have top: "(q + 1) * 2 ^ n \<le> unat (total_frames (fst s))" using assms(2) by (simp add: allocated_def idx)
  note bd = block_bound [OF top buddy_invD(1) [OF assms(1)]]
  have "q \<noteq> 0" using assms(2) a by (auto simp: allocated_def badr_def)
  then show thesis
    using that [OF a _ _ top _ bd(1)] assms(2) block_frames_badr [OF bd(1)] free_of_eq [OF assms(1)]
    by (simp add: allocated_def a MAX_ORDER_def)
qed

lemma buddy_init_ok: "buddy_init s \<Longrightarrow> buddy_ok s"
proof -
  assume "buddy_init s"
  then obtain len N node m where s: "s = (buddy_new len N node, m)" "unat N \<le> 2 ^ 40" "unat N \<le> 64 * len"
    by (auto simp: buddy_init_def)
  have "lists_rep s {}"
    unfolding lists_rep_def
    by (rule exI [of _ "\<lambda>_. []"]) (simp add: lists_ok_def s buddy_new_def dll_def)
  moreover have "\<not> frame_is_free (fst s) f" for f
    by (simp add: frame_is_free_iff s buddy_new_def)
  ultimately have "buddy_inv s {}" using s(2,3) by (simp add: buddy_inv_def s buddy_new_def free_set_def)
  then show ?thesis by (auto simp: buddy_ok_def)
qed

lemma buddy_step_ok: "buddy_step s s' \<Longrightarrow> buddy_ok s \<Longrightarrow> buddy_ok s'"
proof (induction rule: buddy_step.induct)
  case (step_add start e s s')
  then obtain B where B: "buddy_inv s B" by (auto simp: buddy_ok_def)
  then show ?case
    using add_range_rep [OF B step_add(1-3)] step_add(4,5) free_of_eq [OF B] by (auto simp: buddy_ok_def)
next
  case (step_alloc order s r s')
  then obtain B where B: "buddy_inv s B" by (auto simp: buddy_ok_def)
  show ?case
  proof (cases r)
    case (Some a)
    then show ?thesis using alloc_some [OF B, of order a s'] step_alloc unfolding buddy_ok_def by blast
  next
    case None
    then have "s' = s" using step_alloc by (auto simp: alloc_block_def Let_def split: if_splits option.splits prod.splits)
    then show ?thesis using step_alloc by simp
  qed
next
  case (step_free s a order s')
  then obtain B where B: "buddy_inv s B" by (auto simp: buddy_ok_def)
  obtain q where q: "a = badr (unat order) q" "unat order \<le> 11" "q \<noteq> 0"
    "(q + 1) * 2 ^ unat order \<le> unat (total_frames (fst s))" "frames_of (unat order, q) \<inter> free_set B = {}"
    using allocated_badr [OF B step_free(1)] by blast
  have "s' = s \<or> s' = free_listed a (unat order) s"
    using step_free(2) q(2) by (auto simp: free_block_def split: if_splits)
  then show ?case using free_rep [OF B q(2-5)] B by (auto simp: buddy_ok_def q(1))
qed

interpretation buddy: inductive_invariant buddy_init buddy_step buddy_ok
  by unfold_locales (auto intro: buddy_init_ok buddy_step_ok)

section \<open>Counting the lists\<close>

lemma walk_count_dlls:
  "dlls m p h as l 0 \<Longrightarrow> \<forall>a \<in> set as. a < max_addr b \<and> a AND 0xFFF = 0 \<Longrightarrow> walk_count b m h hops = min hops (length as)"
proof (induction hops arbitrary: p h as)
  case (Suc hops)
  then show ?case by (cases as) auto
qed simp

lemma listed_valid:
  assumes "wf_blocks (unat (total_frames b)) B" and "unat (total_frames b) \<le> 2 ^ 40" and "(n, q) \<in> B"
  shows "badr n q < max_addr b \<and> badr n q AND 0xFFF = 0"
proof -
  note bd = block_bound [OF wf_blocksD(3) [OF assms(1,3)] assms(2)]
  have "unat (badr n q) < unat (total_frames b) * 4096" using bd(3) by (simp add: unat_badr [OF bd(1)] power_add)
  then show ?thesis
    using max_addr_bound [OF assms(2)] node_badr [OF bd(1)] by (simp add: word_less_nat_alt node_def)
qed

lemma order_counts_nth:
  assumes inv: "buddy_inv s B" and n: "n < MAX_ORDER"
  shows "order_counts s ! n = min 1000000 (card {q. (n, q) \<in> B})"
proof -
  note I = buddy_invD [OF inv]
  obtain L where L: "lists_ok (free_lists (fst s)) (snd s) L" "set (L n) = badr n ` {q. (n, q) \<in> B}"
    using I(4) n by (auto simp: lists_rep_def)
  have "inj_on (badr n) {q. (n, q) \<in> B}"
    using badr_eq_iff [OF listed_bound(1) [OF I(3,1)] listed_bound(1) [OF I(3,1)]] by (auto simp: inj_on_def)
  then have "length (L n) = card {q. (n, q) \<in> B}"
    using distinct_card [OF lists_okD(3) [OF L(1) n]] card_image L(2) by metis
  moreover have "\<forall>a \<in> set (L n). a < max_addr (fst s) \<and> a AND 0xFFF = 0"
    using L(2) listed_valid [OF I(3,1)] by auto
  moreover obtain l where "dlls (snd s) 0 (free_lists (fst s) ! n) (L n) l 0"
    using lists_okD(2) [OF L(1) n] by (auto simp: dll_def)
  ultimately have "walk_count (fst s) (snd s) (free_lists (fst s) ! n) 1000000 = min 1000000 (card {q. (n, q) \<in> B})"
    using walk_count_dlls by metis
  then show ?thesis using n by (simp only: order_counts_def nth_map_upt length_upt) simp
qed

lemma order_counts_eq:
  assumes "buddy_inv s B" and "buddy_inv s' B"
  shows "order_counts s = order_counts s'"
  using order_counts_nth [OF assms(1)] order_counts_nth [OF assms(2)]
  by (intro nth_equalityI) (simp_all add: order_counts_def del: nth_map)

lemma wf_blocks_finite:
  assumes "wf_blocks N B"
  shows "finite B"
proof (rule finite_subset)
  show "B \<subseteq> {..11} \<times> {..N}"
  proof
    fix x assume "x \<in> B"
    moreover obtain n q where "x = (n, q)" by fastforce
    moreover have "q * 1 \<le> (q + 1) * 2 ^ n" by (intro mult_mono) simp_all
    ultimately show "x \<in> {..11} \<times> {..N}" using wf_blocksD(1,3) [OF assms, of n q] by auto
  qed
qed simp

lemma card_free_set:
  assumes wf: "wf_blocks N B"
  shows "card (free_set B) = (\<Sum>n<MAX_ORDER. card {q. (n, q) \<in> B} * 2 ^ n)"
proof -
  have fin: "finite {q. (n, q) \<in> B}" for n
    by (rule finite_subset [OF _ finite_imageI [OF wf_blocks_finite [OF wf], of snd]]) force
  have "card (free_set B) = (\<Sum>x\<in>B. card (frames_of x))"
    unfolding free_set_def using wf wf_blocks_finite [OF wf]
    by (intro card_UN_disjoint) (auto simp: wf_blocks_def)
  also have "\<dots> = (\<Sum>(n, q)\<in>(SIGMA n:{..<MAX_ORDER}. {q. (n, q) \<in> B}). card (frames_of (n, q)))"
    using wf_blocksD(1) [OF wf] by (intro sum.cong) (auto simp: MAX_ORDER_def less_Suc_eq_le numeral_eq_Suc)
  also have "\<dots> = (\<Sum>n<MAX_ORDER. \<Sum>q\<in>{q. (n, q) \<in> B}. card (frames_of (n, q)))"
    using fin by (intro sum.Sigma [symmetric]) auto
  finally show ?thesis by simp
qed

section \<open>Properties\<close>

lemma reached_blocks:
  assumes "buddy_init s0" and "buddy_step\<^sup>*\<^sup>* s0 s"
  obtains B where "buddy_inv s B"
  using buddy.reachable_inv [OF assms] by (auto simp: buddy_ok_def)

lemma aligned_badr:
  assumes "unat (a :: u64) mod 2 ^ (n + 12) = 0"
  obtains q where "a = badr n q" and "q * 2 ^ n < 2 ^ 52"
proof -
  define q where "q = unat a div 2 ^ (n + 12)"
  have q: "unat a = q * 2 ^ (n + 12)" using assms div_mult_mod_eq [of "unat a" "2 ^ (n + 12)"] by (simp add: q_def)
  then have "a = badr n q" unfolding badr_def by (metis of_nat_unat ucast_id)
  moreover have "q * 2 ^ n * 2 ^ 12 < 2 ^ 52 * 2 ^ 12" using unat_bound [of a] q by (simp add: power_add mult.assoc)
  then have "q * 2 ^ n < 2 ^ 52" by (simp only: mult_less_cancel2)
  ultimately show thesis using that by blast
qed

text \<open>
  C8. In every reachable state, an allocation that succeeds returns the address of an aligned
  run of \<open>2 ^ order\<close> frames, none of them frame 0, that were all free, and exactly those frames
  stop being free; an allocation fails only when there is no aligned run of free frames of
  that size anywhere, and then changes nothing.
\<close>

theorem buddy_alloc:
  assumes "buddy_init s0" and "buddy_step\<^sup>*\<^sup>* s0 s" and "alloc_block order s = (r, s')"
  shows "case r of
      Some a \<Rightarrow> unat order < MAX_ORDER \<and> unat a mod 2 ^ (unat order + 12) = 0 \<and> a \<noteq> 0
        \<and> block_frames a (unat order) \<subseteq> free_of s \<and> free_of s' = free_of s - block_frames a (unat order)
    | None \<Rightarrow> s' = s \<and> (unat order < MAX_ORDER \<longrightarrow>
        (\<nexists>a. unat a mod 2 ^ (unat order + 12) = 0 \<and> block_frames a (unat order) \<subseteq> free_of s))"
proof -
  obtain B where B: "buddy_inv s B" using reached_blocks [OF assms(1,2)] .
  show ?thesis
  proof (cases r)
    case None
    then have s': "s' = s"
      using assms(3) by (auto simp: alloc_block_def Let_def split: if_splits option.splits prod.splits)
    have "\<not> block_frames a (unat order) \<subseteq> free_of s"
      if o: "unat order < MAX_ORDER" and al: "unat a mod 2 ^ (unat order + 12) = 0" for a
    proof -
      obtain q where "a = badr (unat order) q" "q * 2 ^ unat order < 2 ^ 52" using aligned_badr [OF al] .
      then show ?thesis
        using alloc_none(2) [OF B] o assms(3) None block_frames_badr free_of_eq [OF B]
        by (simp add: MAX_ORDER_def)
    qed
    then show ?thesis using None s' by auto
  next
    case (Some a)
    obtain B' q where q: "a = badr (unat order) q" "unat order \<le> 11" "q \<noteq> 0"
      "(q + 1) * 2 ^ unat order \<le> unat (total_frames (fst s))" "frames_of (unat order, q) \<subseteq> free_set B"
      "buddy_inv s' B'" "free_set B' = free_set B - frames_of (unat order, q)"
      using alloc_some [OF B, of order a s'] assms(3) Some by blast
    note bd = block_bound(1) [OF q(4) buddy_invD(1) [OF B]]
    show ?thesis
      using q bd block_frames_badr [OF bd] free_of_eq [OF B] free_of_eq [OF q(6)] Some badr_zero_iff [OF bd]
      by (simp add: unat_badr MAX_ORDER_def)
  qed
qed

text \<open>
  C14. In every reachable state, freeing an allocated block returns without a panic and makes
  exactly its frames free, however many merges with buddies that takes; freeing a block
  whose frames are all free already is refused and changes nothing.
\<close>

theorem buddy_free:
  assumes "buddy_init s0" and "buddy_step\<^sup>*\<^sup>* s0 s" and "unat order < MAX_ORDER"
  shows "(allocated s a (unat order) \<longrightarrow>
           (\<exists>s'. free_block a order s = Ret s' \<and> free_of s' = free_of s \<union> block_frames a (unat order)))
       \<and> (block_frames a (unat order) \<subseteq> free_of s \<longrightarrow> free_block a order s = Ret s)"
proof (intro conjI impI)
  obtain B where B: "buddy_inv s B" using reached_blocks [OF assms(1,2)] .
  assume al: "allocated s a (unat order)"
  obtain q where q: "a = badr (unat order) q" "unat order \<le> 11" "q \<noteq> 0"
    "(q + 1) * 2 ^ unat order \<le> unat (total_frames (fst s))" "frames_of (unat order, q) \<inter> free_set B = {}"
    "q * 2 ^ unat order < 2 ^ 52"
    using allocated_badr [OF B al] .
  obtain B' where B': "buddy_inv (free_listed a (unat order) s) B'" "free_set B' = frames_of (unat order, q) \<union> free_set B"
    using free_rep [OF B q(2-5)] q(1) by blast
  have "is_block_free (fst s) a order \<Longrightarrow> free_listed a (unat order) s = s"
    by (simp add: free_listed_def)
  then have "free_block a order s = Ret (free_listed a (unat order) s)"
    using assms(3) by (auto simp: free_block_def)
  then show "\<exists>s'. free_block a order s = Ret s' \<and> free_of s' = free_of s \<union> block_frames a (unat order)"
    using free_of_eq [OF B] free_of_eq [OF B'(1)] B'(2) block_frames_badr [OF q(6)] q(1) by auto
next
  assume sub: "block_frames a (unat order) \<subseteq> free_of s"
  have "frame_is_free (fst s) (frame_idx a + i)" if "i < 2 ^ unat order" for i
  proof -
    have "frame_idx a + i \<in> block_frames a (unat order)" using that by (simp add: block_frames_def)
    then show ?thesis using sub by (auto simp: free_of_def)
  qed
  then have "is_block_free (fst s) a order"
    using assms(3) by (simp add: is_block_free_def list_all_iff MAX_ORDER_def)
  then show "free_block a order s = Ret s" by (simp add: free_block_def)
qed

text \<open>
  Allocating a block and freeing it again restores the allocator: the same frames are
  free, the counter is back, and every order has as many free blocks as before, so splitting
  and merging leave no fragmentation behind.
\<close>

theorem buddy_roundtrip:
  assumes "buddy_init s0" and "buddy_step\<^sup>*\<^sup>* s0 s" and "alloc_block order s = (Some a, s')"
  shows "\<exists>s''. free_block a order s' = Ret s'' \<and> free_of s'' = free_of s
     \<and> free_frames (fst s'') = free_frames (fst s) \<and> order_counts s'' = order_counts s"
proof -
  obtain B where B: "buddy_inv s B" using reached_blocks [OF assms(1,2)] .
  obtain B' q where q: "a = badr (unat order) q" "unat order \<le> 11" "q \<noteq> 0"
    "(q + 1) * 2 ^ unat order \<le> unat (total_frames (fst s))" "frames_of (unat order, q) \<subseteq> free_set B"
    and B': "buddy_inv s' B'" "free_set B' = free_set B - frames_of (unat order, q)"
    "total_frames (fst s') = total_frames (fst s)"
    using alloc_some [OF B assms(3)] by blast
  have "frames_of (unat order, q) \<inter> free_set B' = {}" using B'(2) by auto
  from free_rep [OF B'(1) q(2,3) _ this] q(4) B'(3)
  obtain C where C: "buddy_inv (free_listed a (unat order) s') C" "free_set C = free_set B"
    "total_frames (fst (free_listed a (unat order) s')) = total_frames (fst s)"
    using q(5) B'(2) unfolding q(1) by auto
  have "C = B" using blocks_unique [OF buddy_invD(3) [OF C(1)] buddy_invD(3) [OF B] C(2)] .
  have "is_block_free (fst s') a order \<Longrightarrow> free_listed a (unat order) s' = s'"
    by (simp add: free_listed_def)
  then have "free_block a order s' = Ret (free_listed a (unat order) s')"
    using q(2) by (auto simp: free_block_def MAX_ORDER_def)
  moreover have "free_frames (fst (free_listed a (unat order) s')) = free_frames (fst s)"
    using buddy_invD(6) [OF C(1)] buddy_invD(6) [OF B] C(2) by (simp add: word_unat_eq_iff)
  ultimately show ?thesis
    using order_counts_eq [OF C(1) [unfolded \<open>C = B\<close>] B] free_of_eq [OF C(1)] free_of_eq [OF B] C(2) by auto
qed

text \<open>
  In every reachable state the three records of what is free agree: the counter is the
  number of frames the bitmap marks free, and (up to a million frames, where the walk over a
  list is cut off) the blocks counted along the free lists add up to it.
\<close>

theorem buddy_accounting:
  assumes "buddy_init s0" and "buddy_step\<^sup>*\<^sup>* s0 s" and "unat (total_frames (fst s)) \<le> 1000000"
  shows "unat (free_frames (fst s)) = card (free_of s)
     \<and> (\<Sum>n<MAX_ORDER. order_counts s ! n * 2 ^ n) = card (free_of s)"
proof -
  obtain B where B: "buddy_inv s B" using reached_blocks [OF assms(1,2)] .
  note I = buddy_invD [OF B]
  have total: "card (free_set B) = (\<Sum>n<MAX_ORDER. card {q. (n, q) \<in> B} * 2 ^ n)" by (rule card_free_set [OF I(3)])
  have "free_set B \<subseteq> {..<unat (total_frames (fst s))}" using free_set_bounds [OF I(3)] by auto
  then have "card (free_set B) \<le> card {..<unat (total_frames (fst s))}" by (intro card_mono) simp_all
  then have "card (free_set B) \<le> 1000000" using assms(3) by simp
  moreover have "card {q. (n, q) \<in> B} \<le> card (free_set B)" if n: "n < MAX_ORDER" for n
  proof -
    have "card {q. (n, q) \<in> B} * 1 \<le> card {q. (n, q) \<in> B} * 2 ^ n" by (intro mult_left_mono) simp_all
    also have "\<dots> \<le> card (free_set B)" unfolding total using n by (intro member_le_sum) auto
    finally show ?thesis by simp
  qed
  ultimately have "card {q. (n, q) \<in> B} \<le> 1000000" if "n < MAX_ORDER" for n
    using le_trans that by blast
  then have "order_counts s ! n = card {q. (n, q) \<in> B}" if "n < MAX_ORDER" for n
    using order_counts_nth [OF B that] that by (simp add: min_absorb2)
  then have "(\<Sum>n<MAX_ORDER. order_counts s ! n * 2 ^ n) = card (free_set B)"
    unfolding total by (intro sum.cong) simp_all
  then show ?thesis using I(6) free_of_eq [OF B] by metis
qed

text \<open>Sixteen frames, of which 4 to 15 are given to the allocator.\<close>

definition bare :: buddy_state where
  "bare = (buddy_new 1 16 0, \<lambda>_. 0)"

definition boot :: buddy_state where
  "boot = the (add_range 0x4000 0x10000 bare)"

text \<open>
  The guard refuses a second free only when every frame of the block is free. Freeing a
  block of two frames after its first frame has been freed on its own passes the guard: the
  frame is then on two lists, and the next two allocations both start at it.
\<close>

theorem partial_double_free:
  "\<exists>s1 s2 s3 s4 s5. alloc_block 1 boot = (Some 0x4000, s1) \<and> free_block 0x4000 0 s1 = Ret s2
     \<and> free_block 0x4000 1 s2 = Ret s3
     \<and> alloc_block 0 s3 = (Some 0x4000, s4) \<and> alloc_block 2 s4 = (Some 0x4000, s5)"
proof -
  let ?s1 = "snd (alloc_block 1 boot)"
  let ?s2 = "free_listed 0x4000 0 ?s1"
  let ?s3 = "free_listed 0x4000 1 ?s2"
  let ?s4 = "snd (alloc_block 0 ?s3)"
  have "fst (alloc_block 1 boot) = Some 0x4000" by code_simp
  moreover have "\<not> is_block_free (fst ?s1) 0x4000 0" by code_simp
  moreover have "\<not> is_block_free (fst ?s2) 0x4000 1" by code_simp
  moreover have "fst (alloc_block 0 ?s3) = Some 0x4000" by code_simp
  moreover have "fst (alloc_block 2 ?s4) = Some 0x4000" by code_simp
  ultimately show ?thesis
    by (intro exI [of _ ?s1] exI [of _ ?s2] exI [of _ ?s3] exI [of _ ?s4] exI [of _ "snd (alloc_block 2 ?s4)"])
      (simp add: free_block_def MAX_ORDER_def prod_eq_iff)
qed

section \<open>Witnesses\<close>

lemma bare_init: "buddy_init bare"
  unfolding buddy_init_def bare_def by (intro exI [of _ 1] exI [of _ 16] exI) simp

lemma boot_reached: "buddy_step\<^sup>*\<^sup>* bare boot"
proof (rule r_into_rtranclp)
  have none: "free_of bare = {}" by (simp add: free_of_def frame_is_free_iff bare_def buddy_new_def)
  have frames: "total_frames (fst bare) = 16" by (simp add: bare_def buddy_new_def)
  obtain B where B: "buddy_inv bare B" using buddy_init_ok [OF bare_init] by (auto simp: buddy_ok_def)
  have "\<exists>s'. add_range 0x4000 0x10000 bare = Some s'"
    using add_range_rep [OF B, of "0x4000" "0x10000"] none free_of_eq [OF B] by (auto simp: frames)
  then have "add_range 0x4000 0x10000 bare = Some boot" by (auto simp: boot_def)
  then show "buddy_step bare boot"
    by (intro step_add [of "0x4000" "0x10000" bare]) (simp_all add: none frames)
qed

lemma boot_alloc: "fst (alloc_block 1 boot) = Some 0x4000"
  by code_simp

theorem buddy_alloc_witness:
  "\<exists>s'. alloc_block 1 boot = (Some 0x4000, s') \<and> free_of s' = free_of boot - {4, 5}"
proof -
  have "alloc_block 1 boot = (Some 0x4000, snd (alloc_block 1 boot))"
    using surjective_pairing [of "alloc_block 1 boot"] boot_alloc by simp
  moreover have "block_frames 0x4000 1 = {4, 5}" by (auto simp: block_frames_def frame_idx_def drop_bit_eq_div)
  ultimately show ?thesis
    using buddy_alloc [OF bare_init boot_reached, of 1 "Some 0x4000" "snd (alloc_block 1 boot)"]
    by (intro exI [of _ "snd (alloc_block 1 boot)"]) simp
qed

theorem buddy_free_witness:
  "free_block 0x4000 0 boot = Ret boot \<and> (\<exists>s'. free_block 0x1000 0 boot = Ret s' \<and> free_of s' = insert 1 (free_of boot))"
proof -
  have "frame_is_free (fst boot) 4" "\<not> frame_is_free (fst boot) 1" "total_frames (fst boot) = 16" by code_simp+
  moreover have "block_frames 0x4000 0 = {4}" "block_frames 0x1000 0 = {1}" "frame_idx 0x1000 = 1"
    by (auto simp: block_frames_def frame_idx_def drop_bit_eq_div)
  ultimately show ?thesis
    using buddy_free [OF bare_init boot_reached, of 0 "0x4000"] buddy_free [OF bare_init boot_reached, of 0 "0x1000"]
    by (auto simp: allocated_def free_of_def MAX_ORDER_def)
qed

theorem buddy_roundtrip_witness:
  "\<exists>s''. free_block 0x4000 1 (snd (alloc_block 1 boot)) = Ret s'' \<and> order_counts s'' = order_counts boot"
proof -
  have "alloc_block 1 boot = (Some 0x4000, snd (alloc_block 1 boot))"
    using surjective_pairing [of "alloc_block 1 boot"] boot_alloc by simp
  from buddy_roundtrip [OF bare_init boot_reached this] show ?thesis by blast
qed

theorem buddy_accounting_witness:
  "card (free_of boot) = 12 \<and> (\<Sum>n<MAX_ORDER. order_counts boot ! n * 2 ^ n) = 12"
proof -
  have "total_frames (fst boot) = 16" "free_frames (fst boot) = 12" by code_simp+
  then show ?thesis using buddy_accounting [OF bare_init boot_reached] by simp
qed

end
