(* ===== verification/Ipc.thy ===== *)
theory Ipc
  imports Prelude
begin

text \<open>
  The kernel's message channels (\<^verbatim>\<open>kernel/src/ipc.rs\<close>): a table of ring buffers of 64
  messages, each with an owner and an optional frame shared between its two ends. The
  frame allocator is a parameter (\<open>alloc\<close>, \<open>dealloc\<close> on a memory state); its contract is
  the locale \<open>frame_allocator\<close>. The theory shows that the ring buffers implement bounded
  FIFO queues, that the whole table refines a table of message lists, and that shared
  frames are neither leaked nor shared between channels.
\<close>

section \<open>Data\<close>

record Message =
  msg_type :: u64
  arg1 :: u64
  arg2 :: u64
  arg3 :: u64

definition IPC_BUFFER_SIZE :: usize where
  "IPC_BUFFER_SIZE = 64"

definition SYSTEM_OWNER :: u64 where
  "SYSTEM_OWNER = 0"

definition message_default :: Message where
  "message_default = \<lparr>msg_type = 0, arg1 = 0, arg2 = 0, arg3 = 0\<rparr>"

record Channel =
  buffer :: "Message list"
  head :: usize
  tail :: usize
  len :: usize
  shared_frame :: "u64 option"
  owner_pid :: u64

record IpcSystem =
  channels :: "(usize, Channel) btree"
  next_chan_id :: usize

datatype IpcError = Channel_full | Invalid_channel

section \<open>Operations\<close>

definition ipc_new :: IpcSystem where
  "ipc_new = \<lparr>channels = bt_empty, next_chan_id = 1\<rparr>"

text \<open>\<^verbatim>\<open>allocate_frame\<close> returns a frame or fails; \<^verbatim>\<open>deallocate_frame\<close> takes one back.\<close>

type_synonym 'm alloc_fn = "'m \<Rightarrow> u64 option \<times> 'm"
type_synonym 'm dealloc_fn = "u64 \<Rightarrow> 'm \<Rightarrow> 'm"

definition create_channel_owned ::
    "'m alloc_fn \<Rightarrow> bool \<Rightarrow> u64 \<Rightarrow> IpcSystem \<Rightarrow> 'm \<Rightarrow> usize \<times> IpcSystem \<times> 'm" where
  "create_channel_owned alloc with_shmem owner s m =
     (let cid = next_chan_id s;
          (frame, m') = (if with_shmem then alloc m else (None, m));
          chan = \<lparr>buffer = replicate (unat IPC_BUFFER_SIZE) message_default, head = 0, tail = 0,
                  len = 0, shared_frame = frame, owner_pid = owner\<rparr>
      in (cid, \<lparr>channels = bt_insert cid chan (channels s), next_chan_id = cid + 1\<rparr>, m'))"

definition create_channel :: "'m alloc_fn \<Rightarrow> bool \<Rightarrow> IpcSystem \<Rightarrow> 'm \<Rightarrow> usize \<times> IpcSystem \<times> 'm" where
  "create_channel alloc with_shmem s m = create_channel_owned alloc with_shmem SYSTEM_OWNER s m"

text \<open>
  \<^verbatim>\<open>PhysAddr::new\<close> refuses an address of more than 52 bits and
  \<^verbatim>\<open>PhysFrame::from_start_address\<close> one that is not page aligned; the caller unwraps.
\<close>

definition frame_ok :: "u64 \<Rightarrow> bool" where
  "frame_ok a \<longleftrightarrow> a < 0x10000000000000 \<and> a AND 0xFFF = 0"

definition destroy_channel ::
    "'m dealloc_fn \<Rightarrow> usize \<Rightarrow> IpcSystem \<Rightarrow> 'm \<Rightarrow> (bool \<times> IpcSystem \<times> 'm) rust" where
  "destroy_channel dealloc chan_id s m =
     (case bt_get (channels s) chan_id of
        None \<Rightarrow> Ret (False, s, m)
      | Some chan \<Rightarrow>
          (let s' = s\<lparr>channels := bt_remove chan_id (channels s)\<rparr> in
           case shared_frame chan of
             None \<Rightarrow> Ret (True, s', m)
           | Some frame_addr \<Rightarrow>
               if frame_ok frame_addr then Ret (True, s', dealloc frame_addr m) else Panic))"

fun destroy_channels ::
    "'m dealloc_fn \<Rightarrow> usize list \<Rightarrow> IpcSystem \<Rightarrow> 'm \<Rightarrow> (IpcSystem \<times> 'm) rust" where
  "destroy_channels dealloc [] s m = Ret (s, m)"
| "destroy_channels dealloc (i # ids) s m =
     rust_bind (destroy_channel dealloc i s m)
       (\<lambda>(_, s', m'). destroy_channels dealloc ids s' m')"

definition cleanup_task_channels ::
    "'m dealloc_fn \<Rightarrow> u64 \<Rightarrow> IpcSystem \<Rightarrow> 'm \<Rightarrow> (IpcSystem \<times> 'm) rust" where
  "cleanup_task_channels dealloc pid s m =
     (if pid = SYSTEM_OWNER then Ret (s, m)
      else let owned = map fst (filter (\<lambda>e. owner_pid (snd e) = pid) (channels s))
           in destroy_channels dealloc owned s m)"

text \<open>The body of \<^verbatim>\<open>send\<close> and of \<^verbatim>\<open>try_recv\<close> on the channel found; an index past the buffer panics.\<close>

definition chan_send :: "Message \<Rightarrow> Channel \<Rightarrow> (IpcError + Channel) rust" where
  "chan_send msg c =
     (if len c = IPC_BUFFER_SIZE then Ret (Inl Channel_full)
      else if length (buffer c) \<le> unat (tail c) then Panic
      else Ret (Inr (c\<lparr>buffer := (buffer c)[unat (tail c) := msg],
                      tail := (tail c + 1) mod IPC_BUFFER_SIZE, len := len c + 1\<rparr>)))"

definition chan_recv :: "Channel \<Rightarrow> (Message \<times> Channel) option rust" where
  "chan_recv c =
     (if len c = 0 then Ret None
      else if length (buffer c) \<le> unat (head c) then Panic
      else Ret (Some (buffer c ! unat (head c),
                      c\<lparr>head := (head c + 1) mod IPC_BUFFER_SIZE, len := len c - 1\<rparr>)))"

definition send :: "usize \<Rightarrow> Message \<Rightarrow> IpcSystem \<Rightarrow> ((IpcError + unit) \<times> IpcSystem) rust" where
  "send chan_id msg s =
     (case bt_get (channels s) chan_id of
        None \<Rightarrow> Ret (Inl Invalid_channel, s)
      | Some chan \<Rightarrow>
          rust_bind (chan_send msg chan) (\<lambda>r. case r of
              Inl e \<Rightarrow> Ret (Inl e, s)
            | Inr chan' \<Rightarrow> Ret (Inr (), s\<lparr>channels := bt_insert chan_id chan' (channels s)\<rparr>)))"

definition try_recv :: "usize \<Rightarrow> IpcSystem \<Rightarrow> (Message option \<times> IpcSystem) rust" where
  "try_recv chan_id s =
     (case bt_get (channels s) chan_id of
        None \<Rightarrow> Ret (None, s)
      | Some chan \<Rightarrow>
          rust_bind (chan_recv chan) (\<lambda>r. case r of
              None \<Rightarrow> Ret (None, s)
            | Some (msg, chan') \<Rightarrow>
                Ret (Some msg, s\<lparr>channels := bt_insert chan_id chan' (channels s)\<rparr>)))"

definition channel_len :: "usize \<Rightarrow> IpcSystem \<Rightarrow> usize option" where
  "channel_len chan_id s = map_option len (bt_get (channels s) chan_id)"

definition get_channel_shared_frame :: "usize \<Rightarrow> IpcSystem \<Rightarrow> u64 option" where
  "get_channel_shared_frame chan_id s = Option.bind (bt_get (channels s) chan_id) shared_frame"

section \<open>A ring buffer is a bounded queue\<close>

definition chan_ok :: "Channel \<Rightarrow> bool" where
  "chan_ok c \<longleftrightarrow> length (buffer c) = 64 \<and> unat (head c) < 64 \<and> unat (len c) \<le> 64
     \<and> unat (tail c) = (unat (head c) + unat (len c)) mod 64"

definition queue_of :: "Channel \<Rightarrow> Message list" where
  "queue_of c = map (\<lambda>i. buffer c ! ((unat (head c) + i) mod 64)) [0..<unat (len c)]"

lemma length_queue_of [simp]: "length (queue_of c) = unat (len c)"
  by (simp add: queue_of_def)

lemma unat_ring_next:
  "unat (w :: usize) < 64 \<Longrightarrow> unat ((w + 1) mod IPC_BUFFER_SIZE) = (unat w + 1) mod 64"
  by (simp add: IPC_BUFFER_SIZE_def unat_mod unat_plus_no_overflow)

lemma len_full_iff: "w = IPC_BUFFER_SIZE \<longleftrightarrow> unat w = 64"
  by (auto simp: IPC_BUFFER_SIZE_def word_unat_eq_iff)

lemma unat_len_suc: "unat (w :: usize) < 64 \<Longrightarrow> unat (w + 1) = Suc (unat w)"
  by (simp add: unat_plus_no_overflow)

lemma unat_len_pred: "(w :: usize) \<noteq> 0 \<Longrightarrow> unat (w - 1) = unat w - 1"
  by (simp add: unat_minus_one)

lemma ring_index_neq:
  assumes "i < n" and "n < 64"
  shows "(h + n) mod 64 \<noteq> (h + i) mod (64 :: nat)"
proof
  assume "(h + n) mod 64 = (h + i) mod 64"
  then have "64 dvd (h + n) - (h + i)" using assms(1) by (simp add: mod_eq_dvd_iff_nat)
  then show False using assms by (auto dest: dvd_imp_le)
qed

lemma chan_send_full: "chan_ok c \<Longrightarrow> unat (len c) = 64 \<Longrightarrow> chan_send msg c = Ret (Inl Channel_full)"
  by (simp add: chan_send_def len_full_iff)

lemma chan_send_room:
  assumes "chan_ok c" and "unat (len c) < 64"
  obtains c' where "chan_send msg c = Ret (Inr c')" and "chan_ok c'"
    and "queue_of c' = queue_of c @ [msg]"
    and "shared_frame c' = shared_frame c" and "owner_pid c' = owner_pid c"
proof
  let ?t = "(unat (head c) + unat (len c)) mod 64"
  let ?c' = "c\<lparr>buffer := (buffer c)[unat (tail c) := msg],
     tail := (tail c + 1) mod IPC_BUFFER_SIZE, len := len c + 1\<rparr>"
  from assms have t: "unat (tail c) = ?t" "?t < 64" and b: "length (buffer c) = 64"
    by (auto simp: chan_ok_def)
  show "chan_send msg c = Ret (Inr ?c')"
    using assms t b by (simp add: chan_send_def len_full_iff)
  show "chan_ok ?c'"
    using assms t b by (simp add: chan_ok_def unat_ring_next unat_len_suc mod_Suc_eq)
  have "(buffer c)[?t := msg] ! ((unat (head c) + i) mod 64) = buffer c ! ((unat (head c) + i) mod 64)"
    if "i < unat (len c)" for i
    using ring_index_neq [OF that assms(2)] by (simp add: nth_list_update_neq)
  then show "queue_of ?c' = queue_of c @ [msg]"
    using t b by (simp add: queue_of_def unat_len_suc [OF assms(2)])
qed simp_all

lemma chan_recv_empty: "len c = 0 \<Longrightarrow> chan_recv c = Ret None"
  by (simp add: chan_recv_def)

lemma chan_recv_some:
  assumes "chan_ok c" and "len c \<noteq> 0"
  obtains c' where "chan_recv c = Ret (Some (hd (queue_of c), c'))" and "chan_ok c'"
    and "queue_of c' = tl (queue_of c)"
    and "shared_frame c' = shared_frame c" and "owner_pid c' = owner_pid c"
proof
  let ?c' = "c\<lparr>head := (head c + 1) mod IPC_BUFFER_SIZE, len := len c - 1\<rparr>"
  from assms(2) obtain n where n: "unat (len c) = Suc n"
    by (cases "unat (len c)") (auto simp: unat_eq_zero)
  have h: "unat (head c) < 64" and b: "length (buffer c) = 64" using assms by (auto simp: chan_ok_def)
  have ups: "[0..<Suc n] = 0 # map Suc [0..<n]" by (simp add: upt_conv_Cons map_Suc_upt del: upt_Suc)
  have q: "queue_of c = buffer c ! unat (head c)
      # map (\<lambda>i. buffer c ! ((unat (head c) + Suc i) mod 64)) [0..<n]"
    using h by (simp add: queue_of_def n ups del: upt_Suc)
  show "chan_recv c = Ret (Some (hd (queue_of c), ?c'))"
    using assms(2) h b by (simp add: chan_recv_def q)
  show "chan_ok ?c'"
    using assms h b n by (simp add: chan_ok_def unat_ring_next unat_len_pred mod_simps)
  show "queue_of ?c' = tl (queue_of c)"
    using h n unfolding q by (simp add: queue_of_def unat_ring_next unat_len_pred assms(2) mod_simps)
qed simp_all

definition ipc_ok :: "IpcSystem \<Rightarrow> bool" where
  "ipc_ok s \<longleftrightarrow> bt_ok (channels s)
     \<and> (\<forall>e \<in> set (channels s). chan_ok (snd e)
          \<and> (case shared_frame (snd e) of None \<Rightarrow> True | Some f \<Rightarrow> frame_ok f))"

lemma ipc_ok_get:
  "ipc_ok s \<Longrightarrow> bt_get (channels s) i = Some c \<Longrightarrow> chan_ok c"
  by (force simp: ipc_ok_def dest: bt_get_mem)

lemma ipc_ok_frame:
  "ipc_ok s \<Longrightarrow> bt_get (channels s) i = Some c \<Longrightarrow> shared_frame c = Some f \<Longrightarrow> frame_ok f"
  by (force simp: ipc_ok_def dest!: bt_get_mem)

lemma ipc_ok_insert:
  assumes "ipc_ok s" and "chan_ok c" and "\<And>f. shared_frame c = Some f \<Longrightarrow> frame_ok f"
  shows "ipc_ok \<lparr>channels = bt_insert i c (channels s), next_chan_id = n\<rparr>"
  using assms set_bt_insert [of i c "channels s"]
  by (fastforce simp: ipc_ok_def split: option.split)

lemma ipc_ok_filter: "ipc_ok s \<Longrightarrow> ipc_ok (s\<lparr>channels := filter P (channels s)\<rparr>)"
  by (auto simp: ipc_ok_def bt_ok_filter)

lemma ipc_update_eq: "s\<lparr>channels := t\<rparr> = \<lparr>channels = t, next_chan_id = next_chan_id s\<rparr>"
  by simp

text \<open>The two operations on the table, by what they do to the queue of the channel.\<close>

lemma send_full:
  assumes "ipc_ok s" and "bt_get (channels s) i = Some c" and "length (queue_of c) = 64"
  shows "send i msg s = Ret (Inl Channel_full, s)"
  using assms by (simp add: send_def chan_send_full ipc_ok_get)

lemma send_room:
  assumes "ipc_ok s" and "bt_get (channels s) i = Some c" and "length (queue_of c) < 64"
  obtains c' where "send i msg s = Ret (Inr (), s\<lparr>channels := bt_insert i c' (channels s)\<rparr>)"
    and "ipc_ok (s\<lparr>channels := bt_insert i c' (channels s)\<rparr>)"
    and "queue_of c' = queue_of c @ [msg]"
    and "shared_frame c' = shared_frame c" and "owner_pid c' = owner_pid c"
proof -
  have ok: "chan_ok c" and room: "unat (len c) < 64" using assms by (simp_all add: ipc_ok_get)
  obtain c' where c': "chan_send msg c = Ret (Inr c')" "chan_ok c'"
    "queue_of c' = queue_of c @ [msg]" "shared_frame c' = shared_frame c" "owner_pid c' = owner_pid c"
    using chan_send_room [OF ok room] by blast
  show ?thesis
  proof
    show "send i msg s = Ret (Inr (), s\<lparr>channels := bt_insert i c' (channels s)\<rparr>)"
      using assms c' by (simp add: send_def)
    show "ipc_ok (s\<lparr>channels := bt_insert i c' (channels s)\<rparr>)"
      unfolding ipc_update_eq
      using assms(1) c'(2) by (rule ipc_ok_insert) (use assms c' ipc_ok_frame in auto)
  qed (use c' in auto)
qed

lemma recv_empty:
  assumes "bt_get (channels s) i = Some c" and "queue_of c = []"
  shows "try_recv i s = Ret (None, s)"
proof -
  from assms(2) have "len c = 0" by (simp add: queue_of_def unat_eq_zero)
  then show ?thesis using assms(1) by (simp add: try_recv_def chan_recv_empty)
qed

lemma recv_some:
  assumes "ipc_ok s" and "bt_get (channels s) i = Some c" and "queue_of c \<noteq> []"
  obtains c' where "try_recv i s = Ret (Some (hd (queue_of c)), s\<lparr>channels := bt_insert i c' (channels s)\<rparr>)"
    and "ipc_ok (s\<lparr>channels := bt_insert i c' (channels s)\<rparr>)"
    and "queue_of c' = tl (queue_of c)"
    and "shared_frame c' = shared_frame c" and "owner_pid c' = owner_pid c"
proof -
  have ok: "chan_ok c" and ne: "len c \<noteq> 0" using assms by (auto simp: ipc_ok_get queue_of_def)
  obtain c' where c': "chan_recv c = Ret (Some (hd (queue_of c), c'))" "chan_ok c'"
    "queue_of c' = tl (queue_of c)" "shared_frame c' = shared_frame c" "owner_pid c' = owner_pid c"
    using chan_recv_some [OF ok ne] by blast
  show ?thesis
  proof
    show "try_recv i s = Ret (Some (hd (queue_of c)), s\<lparr>channels := bt_insert i c' (channels s)\<rparr>)"
      using assms c' by (simp add: try_recv_def)
    show "ipc_ok (s\<lparr>channels := bt_insert i c' (channels s)\<rparr>)"
      unfolding ipc_update_eq
      using assms(1) c'(2) by (rule ipc_ok_insert) (use assms c' ipc_ok_frame in auto)
  qed (use c' in auto)
qed

section \<open>Bounded FIFO queues\<close>

text \<open>
  Clients that offer a list of messages and clients that take \<open>n\<close> times: \<open>offer_all\<close>
  ignores a refused message, as the interrupt handlers that feed the input channels do.
\<close>

fun offer_all :: "('m \<Rightarrow> 'q \<Rightarrow> (('e + unit) \<times> 'q) rust) \<Rightarrow> 'm list \<Rightarrow> 'q \<Rightarrow> 'q rust" where
  "offer_all enq [] q = Ret q"
| "offer_all enq (x # xs) q = rust_bind (enq x q) (\<lambda>(_, q'). offer_all enq xs q')"

fun take_n :: "('q \<Rightarrow> ('m option \<times> 'q) rust) \<Rightarrow> nat \<Rightarrow> 'q \<Rightarrow> ('m list \<times> 'q) rust" where
  "take_n deq 0 q = Ret ([], q)"
| "take_n deq (Suc n) q = rust_bind (deq q) (\<lambda>(r, q').
     rust_bind (take_n deq n q') (\<lambda>(xs, q''). Ret ((case r of None \<Rightarrow> xs | Some x \<Rightarrow> x # xs), q'')))"

locale bounded_fifo =
  fixes enq :: "'m \<Rightarrow> 'q \<Rightarrow> (('e + unit) \<times> 'q) rust"
    and deq :: "'q \<Rightarrow> ('m option \<times> 'q) rust"
    and contents :: "'q \<Rightarrow> 'm list"
    and invar :: "'q \<Rightarrow> bool"
    and capacity :: nat
    and full :: 'e
  assumes bounded: "invar q \<Longrightarrow> length (contents q) \<le> capacity"
    and enq_full: "invar q \<Longrightarrow> length (contents q) = capacity \<Longrightarrow> enq m q = Ret (Inl full, q)"
    and enq_room: "invar q \<Longrightarrow> length (contents q) < capacity \<Longrightarrow>
      \<exists>q'. enq m q = Ret (Inr (), q') \<and> invar q' \<and> contents q' = contents q @ [m]"
    and deq_empty: "invar q \<Longrightarrow> contents q = [] \<Longrightarrow> deq q = Ret (None, q)"
    and deq_some: "invar q \<Longrightarrow> contents q = m # ms \<Longrightarrow>
      \<exists>q'. deq q = Ret (Some m, q') \<and> invar q' \<and> contents q' = ms"
begin

lemma offer_all_contents:
  "invar q \<Longrightarrow> \<exists>q'. offer_all enq xs q = Ret q' \<and> invar q'
     \<and> contents q' = take capacity (contents q @ xs)"
proof (induction xs arbitrary: q)
  case Nil
  then show ?case using bounded by simp
next
  case (Cons x xs)
  show ?case
  proof (cases "length (contents q) = capacity")
    case True
    with Cons.prems Cons.IH [OF Cons.prems] show ?thesis by (auto simp: enq_full)
  next
    case False
    with bounded [OF Cons.prems] have "length (contents q) < capacity" by simp
    from enq_room [OF Cons.prems this, of x] Cons.IH show ?thesis by fastforce
  qed
qed

lemma take_n_contents:
  "invar q \<Longrightarrow> \<exists>q'. take_n deq n q = Ret (take n (contents q), q') \<and> invar q'
     \<and> contents q' = drop n (contents q)"
proof (induction n arbitrary: q)
  case (Suc n)
  show ?case
  proof (cases "contents q")
    case Nil
    with Suc.prems Suc.IH [OF Suc.prems] show ?thesis by (auto simp: deq_empty)
  next
    case (Cons m ms)
    from deq_some [OF Suc.prems Cons] Suc.IH show ?thesis by (fastforce simp: Cons)
  qed
qed simp

lemma fill_and_drain:
  assumes "invar q"
  shows "\<exists>q' q''. offer_all enq xs q = Ret q' \<and>
     take_n deq n q' = Ret (take n (take capacity (contents q @ xs)), q'')
     \<and> invar q'' \<and> contents q'' = drop n (take capacity (contents q @ xs))"
  using offer_all_contents [OF assms, of xs] take_n_contents [of _ n] by fastforce

end

definition messages :: "usize \<Rightarrow> IpcSystem \<Rightarrow> Message list" where
  "messages i s = (case bt_get (channels s) i of None \<Rightarrow> [] | Some c \<Rightarrow> queue_of c)"

definition has_channel :: "usize \<Rightarrow> IpcSystem \<Rightarrow> bool" where
  "has_channel i s \<longleftrightarrow> ipc_ok s \<and> bt_get (channels s) i \<noteq> None"

lemma has_channelE:
  assumes "has_channel i s"
  obtains c where "ipc_ok s" and "bt_get (channels s) i = Some c" and "messages i s = queue_of c"
    and "chan_ok c"
  using assms by (auto simp: has_channel_def messages_def ipc_ok_get)

interpretation chan: bounded_fifo "send i" "try_recv i" "messages i" "has_channel i" 64 Channel_full
  for i
proof
  fix q assume "has_channel i q"
  then show "length (messages i q) \<le> 64" by (elim has_channelE) (simp add: chan_ok_def)
next
  fix q m assume "has_channel i q" "length (messages i q) = 64"
  then show "send i m q = Ret (Inl Channel_full, q)" by (elim has_channelE) (simp add: send_full)
next
  fix q m assume q: "has_channel i q" and room: "length (messages i q) < 64"
  from q obtain c where c: "ipc_ok q" "bt_get (channels q) i = Some c" "messages i q = queue_of c"
    by (rule has_channelE)
  from send_room [OF c(1,2)] room c(3) obtain c' where
    "send i m q = Ret (Inr (), q\<lparr>channels := bt_insert i c' (channels q)\<rparr>)"
    "ipc_ok (q\<lparr>channels := bt_insert i c' (channels q)\<rparr>)" "queue_of c' = queue_of c @ [m]"
    by (metis (no_types))
  then show "\<exists>q'. send i m q = Ret (Inr (), q') \<and> has_channel i q' \<and> messages i q' = messages i q @ [m]"
    by (simp add: has_channel_def messages_def c)
next
  fix q assume "has_channel i q" "messages i q = []"
  then show "try_recv i q = Ret (None, q)" by (elim has_channelE) (simp add: recv_empty)
next
  fix q m ms assume q: "has_channel i q" and ne: "messages i q = m # ms"
  from q obtain c where c: "ipc_ok q" "bt_get (channels q) i = Some c" "messages i q = queue_of c"
    by (rule has_channelE)
  from ne c(3) have "queue_of c \<noteq> []" by simp
  from recv_some [OF c(1,2) this] obtain c' where
    "try_recv i q = Ret (Some (hd (queue_of c)), q\<lparr>channels := bt_insert i c' (channels q)\<rparr>)"
    "ipc_ok (q\<lparr>channels := bt_insert i c' (channels q)\<rparr>)" "queue_of c' = tl (queue_of c)"
    by (metis (no_types))
  then show "\<exists>q'. try_recv i q = Ret (Some m, q') \<and> has_channel i q' \<and> messages i q' = ms"
    using ne by (simp add: has_channel_def messages_def c)
qed

section \<open>The table refines a table of message lists\<close>

text \<open>
  The abstract state of a channel is the list of its unread messages, its frame and its
  owner. The specification has no ring buffer, no indices and no loop: cleaning up after a
  task is one pass over the table.
\<close>

record ChanSpec =
  cs_queue :: "Message list"
  cs_frame :: "u64 option"
  cs_owner :: u64

type_synonym IpcSpec = "(usize, ChanSpec) btree \<times> usize"

datatype IpcOp = Create bool u64 | Destroy usize | Cleanup u64 | Send usize Message
  | Recv usize | Length usize | Frame usize

datatype IpcOut = Created usize | Destroyed bool | Cleaned | Sent "IpcError + unit"
  | Received "Message option" | HasLength "usize option" | HasFrame "u64 option"

definition ipc_exec ::
    "'m alloc_fn \<Rightarrow> 'm dealloc_fn \<Rightarrow> IpcOp \<Rightarrow> IpcSystem \<times> 'm \<Rightarrow> (IpcOut \<times> IpcSystem \<times> 'm) rust" where
  "ipc_exec alloc dealloc op = (\<lambda>(s, m). case op of
      Create shmem owner \<Rightarrow>
        (let (i, s', m') = create_channel_owned alloc shmem owner s m in Ret (Created i, s', m'))
    | Destroy i \<Rightarrow> rust_bind (destroy_channel dealloc i s m) (\<lambda>(b, s', m'). Ret (Destroyed b, s', m'))
    | Cleanup pid \<Rightarrow> rust_bind (cleanup_task_channels dealloc pid s m) (\<lambda>(s', m'). Ret (Cleaned, s', m'))
    | Send i msg \<Rightarrow> rust_bind (send i msg s) (\<lambda>(r, s'). Ret (Sent r, s', m))
    | Recv i \<Rightarrow> rust_bind (try_recv i s) (\<lambda>(r, s'). Ret (Received r, s', m))
    | Length i \<Rightarrow> Ret (HasLength (channel_len i s), s, m)
    | Frame i \<Rightarrow> Ret (HasFrame (get_channel_shared_frame i s), s, m))"

definition owned_frames :: "u64 \<Rightarrow> (usize, ChanSpec) btree \<Rightarrow> u64 list" where
  "owned_frames pid t =
     List.map_filter (\<lambda>e. cs_frame (snd e)) (filter (\<lambda>e. cs_owner (snd e) = pid) t)"

definition spec_exec ::
    "'m alloc_fn \<Rightarrow> 'm dealloc_fn \<Rightarrow> IpcOp \<Rightarrow> IpcSpec \<times> 'm \<Rightarrow> IpcOut \<times> IpcSpec \<times> 'm" where
  "spec_exec alloc dealloc op = (\<lambda>((t, n), m). case op of
      Create shmem owner \<Rightarrow>
        (let (f, m') = (if shmem then alloc m else (None, m))
         in (Created n, (bt_insert n \<lparr>cs_queue = [], cs_frame = f, cs_owner = owner\<rparr> t, n + 1), m'))
    | Destroy i \<Rightarrow> (case bt_get t i of
          None \<Rightarrow> (Destroyed False, (t, n), m)
        | Some c \<Rightarrow> (Destroyed True, (bt_remove i t, n),
                      (case cs_frame c of None \<Rightarrow> m | Some f \<Rightarrow> dealloc f m)))
    | Cleanup pid \<Rightarrow>
        if pid = SYSTEM_OWNER then (Cleaned, (t, n), m)
        else (Cleaned, (filter (\<lambda>e. cs_owner (snd e) \<noteq> pid) t, n), fold dealloc (owned_frames pid t) m)
    | Send i msg \<Rightarrow> (case bt_get t i of
          None \<Rightarrow> (Sent (Inl Invalid_channel), (t, n), m)
        | Some c \<Rightarrow> if length (cs_queue c) = 64 then (Sent (Inl Channel_full), (t, n), m)
            else (Sent (Inr ()), (bt_insert i (c\<lparr>cs_queue := cs_queue c @ [msg]\<rparr>) t, n), m))
    | Recv i \<Rightarrow> (case bt_get t i of
          None \<Rightarrow> (Received None, (t, n), m)
        | Some c \<Rightarrow> (case cs_queue c of
              [] \<Rightarrow> (Received None, (t, n), m)
            | msg # q \<Rightarrow> (Received (Some msg), (bt_insert i (c\<lparr>cs_queue := q\<rparr>) t, n), m)))
    | Length i \<Rightarrow>
        (HasLength (map_option (\<lambda>c. word_of_nat (length (cs_queue c))) (bt_get t i)), (t, n), m)
    | Frame i \<Rightarrow> (HasFrame (Option.bind (bt_get t i) cs_frame), (t, n), m))"

definition abs_chan :: "Channel \<Rightarrow> ChanSpec" where
  "abs_chan c = \<lparr>cs_queue = queue_of c, cs_frame = shared_frame c, cs_owner = owner_pid c\<rparr>"

definition abs_ipc :: "IpcSystem \<Rightarrow> IpcSpec" where
  "abs_ipc s = (bt_map abs_chan (channels s), next_chan_id s)"

lemma abs_chan_simps [simp]:
  "cs_queue (abs_chan c) = queue_of c" "cs_frame (abs_chan c) = shared_frame c"
  "cs_owner (abs_chan c) = owner_pid c"
  by (simp_all add: abs_chan_def)

lemma abs_chan_eqI:
  "queue_of c' = q \<Longrightarrow> shared_frame c' = shared_frame c \<Longrightarrow> owner_pid c' = owner_pid c
     \<Longrightarrow> abs_chan c' = (abs_chan c)\<lparr>cs_queue := q\<rparr>"
  by (simp add: abs_chan_def)

definition aligned_at :: "'m alloc_fn \<Rightarrow> 'm \<Rightarrow> bool" where
  "aligned_at alloc m \<longleftrightarrow> (\<forall>f m'. alloc m = (Some f, m') \<longrightarrow> frame_ok f)"

definition aligned_alloc :: "'m alloc_fn \<Rightarrow> bool" where
  "aligned_alloc alloc \<longleftrightarrow> (\<forall>m. aligned_at alloc m)"

text \<open>A run of \<^verbatim>\<open>destroy_channel\<close> over distinct ids removes them and frees their frames in order.\<close>

lemma destroy_channel_eq:
  assumes "ipc_ok s" and "bt_get (channels s) i = Some c"
  shows "destroy_channel dealloc i s m = Ret (True, s\<lparr>channels := bt_remove i (channels s)\<rparr>,
     (case shared_frame c of None \<Rightarrow> m | Some f \<Rightarrow> dealloc f m))"
  using assms ipc_ok_frame [OF assms]
  by (cases "shared_frame c") (simp_all add: destroy_channel_def)

lemma ipc_ok_remove: "ipc_ok s \<Longrightarrow> ipc_ok (s\<lparr>channels := bt_remove i (channels s)\<rparr>)"
  unfolding bt_remove_def by (rule ipc_ok_filter)

lemma map_filter_map_cong:
  "(\<And>e. e \<in> set xs \<Longrightarrow> f (g e) = h e) \<Longrightarrow> List.map_filter f (map g xs) = List.map_filter h xs"
  by (induction xs) (auto simp: map_filter_simps split: option.split)

lemma filter_bt_remove:
  "filter (\<lambda>e. fst e \<notin> A) (bt_remove i t) = filter (\<lambda>e. fst e \<notin> insert i A) t"
  by (auto simp: bt_remove_def intro: filter_cong)

lemma destroy_channels_eq:
  assumes "ipc_ok s" and "distinct ids" and "\<forall>i \<in> set ids. bt_get (channels s) i \<noteq> None"
  shows "destroy_channels dealloc ids s m
     = Ret (s\<lparr>channels := filter (\<lambda>e. fst e \<notin> set ids) (channels s)\<rparr>,
            fold dealloc (List.map_filter (\<lambda>i. Option.bind (bt_get (channels s) i) shared_frame) ids) m)"
  using assms
proof (induction ids arbitrary: s m)
  case (Cons i ids)
  from Cons.prems obtain c where c: "bt_get (channels s) i = Some c" by auto
  let ?s = "s\<lparr>channels := bt_remove i (channels s)\<rparr>"
  from Cons.prems have "ipc_ok ?s" and "distinct ids"
    and "\<forall>j \<in> set ids. bt_get (channels ?s) j \<noteq> None" by (auto simp: ipc_ok_remove)
  note IH = Cons.IH [OF this]
  have same: "List.map_filter (\<lambda>j. Option.bind (bt_get (bt_remove i (channels s)) j) shared_frame) ids
     = List.map_filter (\<lambda>j. Option.bind (bt_get (channels s) j) shared_frame) ids"
    by (rule map_filter_map_cong [where g = "\<lambda>x. x" and xs = ids, simplified])
      (use Cons.prems(2) in auto)
  show ?case
    by (simp add: destroy_channel_eq [OF Cons.prems(1) c] IH same filter_bt_remove c map_filter_simps
        del: bt_get_remove split: option.split)
qed (simp add: map_filter_simps)

lemma owned_filter:
  assumes "bt_ok t"
  shows "filter (\<lambda>e. fst e \<notin> set (map fst (filter (\<lambda>e. P (snd e)) t))) t = filter (\<lambda>e. \<not> P (snd e)) t"
proof (rule filter_cong [OF refl])
  fix e assume e: "e \<in> set t"
  have "e' = e" if "e' \<in> set t" "fst e' = fst e" for e'
    using bt_ok_distinct [OF assms] e that by (metis eq_key_imp_eq_value prod.collapse)
  with e show "(fst e \<notin> set (map fst (filter (\<lambda>e. P (snd e)) t))) = (\<not> P (snd e))" by force
qed

lemma owned_frames_eq:
  assumes "bt_ok t"
  shows "List.map_filter (\<lambda>i. Option.bind (bt_get t i) shared_frame)
       (map fst (filter (\<lambda>e. owner_pid (snd e) = pid) t)) = owned_frames pid (bt_map abs_chan t)"
proof -
  have get: "bt_get t (fst e) = Some (snd e)" if "e \<in> set t" for e
    using that by (simp add: bt_get_set [OF assms])
  have "owned_frames pid (bt_map abs_chan t)
     = List.map_filter (\<lambda>e. shared_frame (snd e)) (filter (\<lambda>e. owner_pid (snd e) = pid) t)"
    unfolding owned_frames_def bt_map_def filter_map o_def abs_chan_simps prod.sel
    by (rule map_filter_map_cong) simp
  moreover have "List.map_filter (\<lambda>i. Option.bind (bt_get t i) shared_frame)
       (map fst (filter (\<lambda>e. owner_pid (snd e) = pid) t))
     = List.map_filter (\<lambda>e. shared_frame (snd e)) (filter (\<lambda>e. owner_pid (snd e) = pid) t)"
    by (rule map_filter_map_cong) (simp add: get)
  ultimately show ?thesis by simp
qed

lemma cleanup_eq:
  assumes "ipc_ok s" and "pid \<noteq> SYSTEM_OWNER"
  shows "cleanup_task_channels dealloc pid s m
     = Ret (s\<lparr>channels := filter (\<lambda>e. owner_pid (snd e) \<noteq> pid) (channels s)\<rparr>,
            fold dealloc (owned_frames pid (bt_map abs_chan (channels s))) m)"
proof -
  let ?owned = "map fst (filter (\<lambda>e. owner_pid (snd e) = pid) (channels s))"
  from assms(1) have ok: "bt_ok (channels s)" by (simp add: ipc_ok_def)
  have "distinct ?owned" using bt_ok_distinct [OF ok] by (rule distinct_map_filter)
  moreover have "\<forall>i \<in> set ?owned. bt_get (channels s) i \<noteq> None"
    using ok by (auto simp: bt_get_set [symmetric])
  ultimately show ?thesis
    using assms destroy_channels_eq [of s ?owned dealloc m]
      owned_filter [OF ok, of "\<lambda>c. owner_pid c = pid"]
    by (simp add: cleanup_task_channels_def owned_frames_eq [OF ok])
qed

lemma create_ok:
  assumes "ipc_ok s" and "aligned_at alloc m" and "create_channel_owned alloc shmem owner s m = (i, s', m')"
  shows "ipc_ok s' \<and> spec_exec alloc dealloc (Create shmem owner) (abs_ipc s, m) = (Created i, abs_ipc s', m')"
proof -
  obtain f m1 where f: "(if shmem then alloc m else (None, m)) = (f, m1)" by (cases "if shmem then alloc m else (None, m)")
  let ?c = "\<lparr>buffer = replicate 64 message_default, head = 0, tail = 0, len = 0, shared_frame = f, owner_pid = owner\<rparr>"
  have s': "i = next_chan_id s" "m' = m1"
      "s' = \<lparr>channels = bt_insert (next_chan_id s) ?c (channels s), next_chan_id = next_chan_id s + 1\<rparr>"
    using assms(3) f by (auto simp: create_channel_owned_def IPC_BUFFER_SIZE_def Let_def)
  have "ipc_ok s'"
    unfolding s' by (rule ipc_ok_insert [OF assms(1)])
      (use assms(2) f in \<open>auto simp: chan_ok_def aligned_at_def split: if_splits\<close>)
  moreover have "abs_chan ?c = \<lparr>cs_queue = [], cs_frame = f, cs_owner = owner\<rparr>"
    by (simp add: abs_chan_def queue_of_def)
  ultimately show ?thesis
    using f by (simp add: spec_exec_def abs_ipc_def s' bt_map_insert)
qed

lemma spec_sends:
  assumes "ipc_ok s"
  shows "\<exists>r s'. send i msg s = Ret (r, s') \<and> ipc_ok s'
     \<and> spec_exec alloc dealloc (Send i msg) (abs_ipc s, m) = (Sent r, abs_ipc s', m)"
proof (cases "bt_get (channels s) i")
  case None
  then show ?thesis using assms by (simp add: send_def spec_exec_def abs_ipc_def bt_get_map)
next
  case (Some c)
  show ?thesis
  proof (cases "length (queue_of c) = 64")
    case True
    then show ?thesis
      using send_full [OF assms Some True] assms Some by (simp add: spec_exec_def abs_ipc_def bt_get_map)
  next
    case False
    moreover have "chan_ok c" using assms Some by (rule ipc_ok_get)
    ultimately have room: "length (queue_of c) < 64" by (simp add: chan_ok_def)
    obtain c' where c': "send i msg s = Ret (Inr (), s\<lparr>channels := bt_insert i c' (channels s)\<rparr>)"
      "ipc_ok (s\<lparr>channels := bt_insert i c' (channels s)\<rparr>)" "queue_of c' = queue_of c @ [msg]"
      "shared_frame c' = shared_frame c" "owner_pid c' = owner_pid c"
      by (rule send_room [OF assms Some room])
    have "abs_chan c' = (abs_chan c)\<lparr>cs_queue := queue_of c @ [msg]\<rparr>"
      using c'(3-5) by (rule abs_chan_eqI)
    with False Some c'(1,2) show ?thesis
      by (simp add: spec_exec_def abs_ipc_def bt_get_map bt_map_insert)
  qed
qed

lemma spec_recvs:
  assumes "ipc_ok s"
  shows "\<exists>r s'. try_recv i s = Ret (r, s') \<and> ipc_ok s'
     \<and> spec_exec alloc dealloc (Recv i) (abs_ipc s, m) = (Received r, abs_ipc s', m)"
proof (cases "bt_get (channels s) i")
  case None
  then show ?thesis using assms by (simp add: try_recv_def spec_exec_def abs_ipc_def bt_get_map)
next
  case (Some c)
  show ?thesis
  proof (cases "queue_of c")
    case Nil
    then show ?thesis
      using recv_empty [OF Some] assms Some by (simp add: spec_exec_def abs_ipc_def bt_get_map)
  next
    case (Cons msg q)
    then have "queue_of c \<noteq> []" by simp
    then obtain c' where
      c': "try_recv i s = Ret (Some (hd (queue_of c)), s\<lparr>channels := bt_insert i c' (channels s)\<rparr>)"
      "ipc_ok (s\<lparr>channels := bt_insert i c' (channels s)\<rparr>)" "queue_of c' = tl (queue_of c)"
      "shared_frame c' = shared_frame c" "owner_pid c' = owner_pid c"
      by (rule recv_some [OF assms Some])
    have "abs_chan c' = (abs_chan c)\<lparr>cs_queue := tl (queue_of c)\<rparr>"
      using c'(3-5) by (rule abs_chan_eqI)
    with Cons Some c'(1,2) show ?thesis
      by (simp add: spec_exec_def abs_ipc_def bt_get_map bt_map_insert)
  qed
qed

lemma spec_destroys:
  assumes "ipc_ok s"
  shows "\<exists>b s' m'. destroy_channel dealloc i s m = Ret (b, s', m') \<and> ipc_ok s'
     \<and> spec_exec alloc dealloc (Destroy i) (abs_ipc s, m) = (Destroyed b, abs_ipc s', m')"
proof (cases "bt_get (channels s) i")
  case None
  then show ?thesis using assms by (auto simp: destroy_channel_def spec_exec_def abs_ipc_def bt_get_map)
next
  case (Some c)
  show ?thesis
    using destroy_channel_eq [OF assms Some, of dealloc m] Some
    by (auto simp: ipc_ok_remove [OF assms] spec_exec_def abs_ipc_def bt_get_map bt_map_remove)
qed

lemma spec_cleans:
  assumes "ipc_ok s"
  shows "\<exists>s' m'. cleanup_task_channels dealloc pid s m = Ret (s', m') \<and> ipc_ok s'
     \<and> spec_exec alloc dealloc (Cleanup pid) (abs_ipc s, m) = (Cleaned, abs_ipc s', m')"
proof (cases "pid = SYSTEM_OWNER")
  case True
  then show ?thesis using assms by (simp add: cleanup_task_channels_def spec_exec_def abs_ipc_def)
next
  case False
  have "filter (\<lambda>e. cs_owner (snd e) \<noteq> pid) (bt_map abs_chan t)
      = bt_map abs_chan (filter (\<lambda>e. owner_pid (snd e) \<noteq> pid) t)" for t
    using bt_map_filter [of abs_chan "\<lambda>_ c. cs_owner c \<noteq> pid" t] by simp
  with False show ?thesis
    by (simp add: cleanup_eq [OF assms False] ipc_ok_filter [OF assms] spec_exec_def abs_ipc_def)
qed

lemma ipc_exec_refines:
  assumes "ipc_ok s" and "aligned_at alloc m"
  shows "\<exists>r s' m'. ipc_exec alloc dealloc op (s, m) = Ret (r, s', m') \<and> ipc_ok s'
     \<and> spec_exec alloc dealloc op (abs_ipc s, m) = (r, abs_ipc s', m')"
proof (cases op)
  case (Create shmem owner)
  obtain i s' m' where c: "create_channel_owned alloc shmem owner s m = (i, s', m')"
    by (metis prod_cases3)
  from create_ok [OF assms c] show ?thesis by (simp add: Create ipc_exec_def c)
next
  case (Destroy i)
  with spec_destroys [OF assms(1), of dealloc i m alloc] show ?thesis by (auto simp: ipc_exec_def)
next
  case (Cleanup pid)
  with spec_cleans [OF assms(1), of dealloc pid m alloc] show ?thesis by (auto simp: ipc_exec_def)
next
  case (Send i msg)
  with spec_sends [OF assms(1), of i msg alloc dealloc m] show ?thesis by (auto simp: ipc_exec_def)
next
  case (Recv i)
  with spec_recvs [OF assms(1), of i alloc dealloc m] show ?thesis by (auto simp: ipc_exec_def)
next
  case (Length i)
  with assms(1) show ?thesis
    by (simp add: ipc_exec_def spec_exec_def abs_ipc_def bt_get_map channel_len_def option.map_comp o_def)
next
  case (Frame i)
  with assms(1) show ?thesis
    by (cases "bt_get (channels s) i")
      (simp_all add: ipc_exec_def spec_exec_def abs_ipc_def bt_get_map get_channel_shared_frame_def)
qed

text \<open>Runs of operations, interleaved over all channels in any order.\<close>

fun ipc_run where
  "ipc_run alloc dealloc [] st = Ret ([], st)"
| "ipc_run alloc dealloc (op # ops) st =
     rust_bind (ipc_exec alloc dealloc op st) (\<lambda>(r, st').
       rust_bind (ipc_run alloc dealloc ops st') (\<lambda>(rs, st''). Ret (r # rs, st'')))"

fun spec_run where
  "spec_run alloc dealloc [] st = ([], st)"
| "spec_run alloc dealloc (op # ops) st =
     (let (r, st') = spec_exec alloc dealloc op st; (rs, st'') = spec_run alloc dealloc ops st'
      in (r # rs, st''))"

lemma ipc_run_refines_from:
  assumes "ipc_ok s" and "aligned_alloc alloc"
  shows "\<exists>rs s' m'. ipc_run alloc dealloc ops (s, m) = Ret (rs, s', m') \<and> ipc_ok s'
     \<and> spec_run alloc dealloc ops (abs_ipc s, m) = (rs, abs_ipc s', m')"
  using assms(1)
proof (induction ops arbitrary: s m)
  case (Cons op ops)
  have "aligned_at alloc m" using assms(2) by (simp add: aligned_alloc_def)
  from ipc_exec_refines [OF Cons.prems this, of dealloc op] obtain r s1 m1 where
    1: "ipc_exec alloc dealloc op (s, m) = Ret (r, s1, m1)" "ipc_ok s1"
      "spec_exec alloc dealloc op (abs_ipc s, m) = (r, abs_ipc s1, m1)" by blast
  from Cons.IH [OF 1(2), of m1] 1 show ?case by (fastforce simp: Let_def split: prod.split)
qed simp

section \<open>Shared frames\<close>

text \<open>
  The contract of the frame allocator, as far as the channels rely on it: a frame handed
  out was not out before, and a frame given back is no longer out. \<open>out m\<close> are the
  frames that are allocated in the memory state \<open>m\<close>.
\<close>

locale frame_allocator =
  fixes alloc :: "'m alloc_fn"
    and dealloc :: "'m dealloc_fn"
    and out :: "'m \<Rightarrow> u64 set"
    and invar :: "'m \<Rightarrow> bool"
  assumes alloc_some: "invar m \<Longrightarrow> alloc m = (Some f, m') \<Longrightarrow>
      invar m' \<and> f \<notin> out m \<and> out m' = insert f (out m) \<and> frame_ok f"
    and alloc_none: "invar m \<Longrightarrow> alloc m = (None, m') \<Longrightarrow> invar m' \<and> out m' = out m"
    and dealloc_out: "invar m \<Longrightarrow> f \<in> out m \<Longrightarrow> frame_ok f \<Longrightarrow>
      invar (dealloc f m) \<and> out (dealloc f m) = out m - {f}"

text \<open>The frame of each channel, and the frames all channels hold together.\<close>

definition frame_at :: "(usize, ChanSpec) btree \<Rightarrow> usize \<Rightarrow> u64 option" where
  "frame_at t i = Option.bind (bt_get t i) cs_frame"

lemma frame_at_insert:
  "frame_at (bt_insert i c t) = (frame_at t)(i := cs_frame c)"
  by (auto simp: frame_at_def fun_eq_iff)

lemma frame_at_remove: "frame_at (bt_remove i t) = (frame_at t)(i := None)"
  by (auto simp: frame_at_def fun_eq_iff)

lemma frame_at_filter:
  assumes "bt_ok t"
  shows "frame_at (filter (\<lambda>e. cs_owner (snd e) \<noteq> pid) t) i
     = (case bt_get t i of None \<Rightarrow> None | Some c \<Rightarrow> if cs_owner c = pid then None else cs_frame c)"
  using bt_get_filter [OF assms, of "\<lambda>_ c. cs_owner c \<noteq> pid" i]
  by (simp add: frame_at_def split: option.split)

definition exclusive :: "('a \<Rightarrow> 'b option) \<Rightarrow> bool" where
  "exclusive h \<longleftrightarrow> (\<forall>i j f. h i = Some f \<longrightarrow> h j = Some f \<longrightarrow> i = j)"

lemma exclusiveD: "exclusive h \<Longrightarrow> h i = Some f \<Longrightarrow> h j = Some f \<Longrightarrow> i = j"
  by (auto simp: exclusive_def)

lemma exclusive_none: "exclusive h \<Longrightarrow> exclusive (h(i := None))"
  by (auto simp: exclusive_def)

lemma exclusive_some: "exclusive h \<Longrightarrow> f \<notin> ran h \<Longrightarrow> exclusive (h(i \<mapsto> f))"
  by (auto simp: exclusive_def ran_def)

lemma owned_frames_set:
  "bt_ok t \<Longrightarrow> set (owned_frames pid t)
     = {f. \<exists>i c. bt_get t i = Some c \<and> cs_owner c = pid \<and> cs_frame c = Some f}"
  by (force simp: owned_frames_def bt_get_set map_filter_def)

lemma distinct_map_filter_frames:
  assumes "distinct (map fst t)"
    and "\<And>e e' f. e \<in> set t \<Longrightarrow> e' \<in> set t \<Longrightarrow> g (snd e) = Some f \<Longrightarrow> g (snd e') = Some f \<Longrightarrow> fst e = fst e'"
  shows "distinct (List.map_filter (\<lambda>e. g (snd e)) t)"
  using assms
proof (induction t)
  case (Cons e t)
  then have "distinct (List.map_filter (\<lambda>e. g (snd e)) t)" by auto
  moreover have "f \<notin> set (List.map_filter (\<lambda>e. g (snd e)) t)" if "g (snd e) = Some f" for f
  proof
    assume "f \<in> set (List.map_filter (\<lambda>e. g (snd e)) t)"
    then obtain e' where "e' \<in> set t" "g (snd e') = Some f" by (auto simp: map_filter_def)
    with Cons.prems(2) [of e e' f] that have "fst e = fst e'" by simp
    with \<open>e' \<in> set t\<close> Cons.prems(1) show False by simp
  qed
  ultimately show ?case by (simp add: map_filter_simps split: option.split)
qed (simp add: map_filter_simps)

lemma owned_frames_distinct:
  assumes "bt_ok t" and "exclusive (frame_at t)"
  shows "distinct (owned_frames pid t)"
  unfolding owned_frames_def
proof (rule distinct_map_filter_frames)
  show "distinct (map fst (filter (\<lambda>e. cs_owner (snd e) = pid) t))"
    using bt_ok_distinct [OF assms(1)] by (rule distinct_map_filter)
next
  fix e e' f
  assume "e \<in> set (filter (\<lambda>e. cs_owner (snd e) = pid) t)" "e' \<in> set (filter (\<lambda>e. cs_owner (snd e) = pid) t)"
    and f: "cs_frame (snd e) = Some f" "cs_frame (snd e') = Some f"
  then have "bt_get t (fst e) = Some (snd e)" "bt_get t (fst e') = Some (snd e')"
    by (auto simp: bt_get_set [OF assms(1)])
  with f show "fst e = fst e'" by (intro exclusiveD [OF assms(2)]) (simp_all add: frame_at_def)
qed

text \<open>
  Frame accounting against the frames \<open>base\<close> that others hold: the frames out are those
  of \<open>base\<close> and those of the channels, no frame is in two channels, and every channel id
  is below the next one to be given out.
\<close>

definition accounted :: "('m \<Rightarrow> u64 set) \<Rightarrow> ('m \<Rightarrow> bool) \<Rightarrow> u64 set \<Rightarrow> IpcSpec \<times> 'm \<Rightarrow> bool" where
  "accounted out invar base = (\<lambda>((t, n), m). bt_ok t \<and> invar m \<and> exclusive (frame_at t)
     \<and> base \<inter> ran (frame_at t) = {} \<and> out m = base \<union> ran (frame_at t)
     \<and> (\<forall>f \<in> ran (frame_at t). frame_ok f) \<and> (\<forall>i. bt_get t i \<noteq> None \<longrightarrow> i < n))"

fun creates :: "IpcOp \<Rightarrow> bool" where
  "creates (Create _ _) = True"
| "creates _ = False"

context frame_allocator
begin

lemma alloc_aligned_inv:
  "accounted out invar base ((t, n), m) \<Longrightarrow> alloc m = (Some f, m') \<Longrightarrow> f \<notin> base \<union> ran (frame_at t)"
  using alloc_some by (fastforce simp: accounted_def)

lemma accounted_create:
  assumes acc: "accounted out invar base ((t, n), m)" and n: "n < - 1"
  shows "accounted out invar base (snd (spec_exec alloc dealloc (Create shmem owner) ((t, n), m)))"
proof -
  obtain f m1 where f: "(if shmem then alloc m else (None, m)) = (f, m1)"
    by (cases "if shmem then alloc m else (None, m)")
  have fresh: "bt_get t n = None" using acc by (force simp: accounted_def)
  then have none: "frame_at t n = None" by (simp add: frame_at_def)
  have lt: "n < n + 1" using less_max_word_suc [OF n] by simp
  have below: "i < n + 1" if "i = n \<or> bt_get t i \<noteq> None" for i
    using that acc lt by (auto simp: accounted_def intro: less_trans)
  show ?thesis
  proof (cases f)
    case None
    with none have "(frame_at t)(n := f) = frame_at t" by (simp add: fun_eq_iff)
    moreover have "invar m1 \<and> out m1 = out m"
      using acc f None alloc_none [of m] by (auto simp: accounted_def split: if_splits)
    ultimately show ?thesis
      using acc f below by (auto simp: accounted_def spec_exec_def frame_at_insert)
  next
    case (Some a)
    with f have al: "alloc m = (Some a, m1)" by (auto split: if_splits)
    have "invar m" using acc by (simp add: accounted_def)
    with al have m1: "invar m1" "out m1 = insert a (out m)" "a \<notin> out m" "frame_ok a" using alloc_some by blast+
    have "ran ((frame_at t)(n \<mapsto> a)) = insert a (ran (frame_at t))" using none by (rule ran_map_upd)
    moreover have "exclusive ((frame_at t)(n \<mapsto> a))"
      using acc m1 by (intro exclusive_some) (auto simp: accounted_def)
    ultimately show ?thesis
      using acc f below m1 Some by (auto simp: accounted_def spec_exec_def frame_at_insert simp del: fun_upd_apply)
  qed
qed

lemma dealloc_all:
  "invar m \<Longrightarrow> distinct fs \<Longrightarrow> set fs \<subseteq> out m \<Longrightarrow> (\<forall>f \<in> set fs. frame_ok f) \<Longrightarrow>
     invar (fold dealloc fs m) \<and> out (fold dealloc fs m) = out m - set fs"
proof (induction fs arbitrary: m)
  case (Cons f fs)
  then have "invar (dealloc f m) \<and> out (dealloc f m) = out m - {f}" using dealloc_out by simp
  with Cons.IH [of "dealloc f m"] Cons.prems show ?case by auto
qed simp

lemma accounted_destroy:
  assumes acc: "accounted out invar base ((t, n), m)"
  shows "accounted out invar base (snd (spec_exec alloc dealloc (Destroy i) ((t, n), m)))"
proof (cases "bt_get t i")
  case None
  with acc show ?thesis by (simp add: spec_exec_def)
next
  case (Some c)
  let ?h = "frame_at t"
  have h: "?h i = cs_frame c" by (simp add: frame_at_def Some)
  have ex: "exclusive ?h" using acc by (simp add: accounted_def)
  have ran: "ran (?h(i := None)) = ran ?h - set_option (cs_frame c)"
    unfolding h [symmetric] using exclusiveD [OF ex, of i] by (auto simp: ran_def) (metis)+
  have free: "invar (case cs_frame c of None \<Rightarrow> m | Some f \<Rightarrow> dealloc f m)
      \<and> out (case cs_frame c of None \<Rightarrow> m | Some f \<Rightarrow> dealloc f m) = out m - set_option (cs_frame c)"
  proof (cases "cs_frame c")
    case (Some f)
    with h have "f \<in> ran ?h" by (auto simp: ran_def)
    with acc dealloc_out [of m f] Some show ?thesis by (auto simp: accounted_def)
  qed (use acc in \<open>simp add: accounted_def\<close>)
  have "set_option (cs_frame c) \<subseteq> ran ?h" using h by (auto simp: ran_def)
  then show ?thesis
    using acc free exclusive_none [OF ex, of i] unfolding accounted_def spec_exec_def
    by (auto simp: Some frame_at_remove ran)
qed

lemma accounted_cleanup:
  assumes acc: "accounted out invar base ((t, n), m)"
  shows "accounted out invar base (snd (spec_exec alloc dealloc (Cleanup pid) ((t, n), m)))"
proof (cases "pid = SYSTEM_OWNER")
  case True
  with acc show ?thesis by (simp add: spec_exec_def)
next
  case False
  let ?h = "frame_at t" and ?h' = "frame_at (filter (\<lambda>e. cs_owner (snd e) \<noteq> pid) t)"
  have ok: "bt_ok t" and ex: "exclusive ?h" and inv: "invar m" using acc by (simp_all add: accounted_def)
  have sub: "?h' i = Some f \<Longrightarrow> ?h i = Some f" for i f
    using frame_at_filter [OF ok, of pid i] by (auto simp: frame_at_def split: option.splits if_splits)
  have owned: "set (owned_frames pid t) \<subseteq> ran ?h"
    by (auto simp: owned_frames_set [OF ok] frame_at_def ran_def bind_eq_Some_conv)
  have ran: "ran ?h' = ran ?h - set (owned_frames pid t)"
  proof (intro set_eqI iffI)
    fix f assume "f \<in> ran ?h'"
    then obtain i c where i: "bt_get t i = Some c" "cs_owner c \<noteq> pid" "cs_frame c = Some f"
      by (auto simp: ran_def frame_at_filter [OF ok] split: option.splits if_splits)
    then have h: "?h i = Some f" by (simp add: frame_at_def)
    have "f \<notin> set (owned_frames pid t)"
    proof
      assume "f \<in> set (owned_frames pid t)"
      then obtain j d where j: "bt_get t j = Some d" "cs_owner d = pid" "cs_frame d = Some f"
        by (auto simp: owned_frames_set [OF ok])
      then have "j = i" by (intro exclusiveD [OF ex _ h]) (simp add: frame_at_def)
      with i j show False by simp
    qed
    with h show "f \<in> ran ?h - set (owned_frames pid t)" by (auto simp: ran_def)
  next
    fix f assume f: "f \<in> ran ?h - set (owned_frames pid t)"
    then obtain i c where i: "bt_get t i = Some c" "cs_frame c = Some f"
      by (auto simp: ran_def frame_at_def bind_eq_Some_conv)
    with f have "cs_owner c \<noteq> pid" by (auto simp: owned_frames_set [OF ok])
    with i show "f \<in> ran ?h'" by (auto simp: ran_def frame_at_filter [OF ok] intro!: exI [of _ i])
  qed
  have "invar (fold dealloc (owned_frames pid t) m)
      \<and> out (fold dealloc (owned_frames pid t) m) = out m - set (owned_frames pid t)"
    using acc owned by (intro dealloc_all owned_frames_distinct ok ex inv) (auto simp: accounted_def)
  moreover have "exclusive ?h'"
    using exclusiveD [OF ex] sub unfolding exclusive_def by blast
  moreover have "bt_get (filter (\<lambda>e. cs_owner (snd e) \<noteq> pid) t) i \<noteq> None \<Longrightarrow> bt_get t i \<noteq> None" for i
    using bt_get_filter [OF ok, of "\<lambda>_ c. cs_owner c \<noteq> pid" i] by (auto split: option.splits)
  ultimately show ?thesis
    using acc False ran owned unfolding accounted_def spec_exec_def by (auto simp: bt_ok_filter)
qed

lemma accounted_same_frame:
  assumes "accounted out invar base ((t, n), m)" and "bt_get t i = Some c" and "cs_frame c' = cs_frame c"
  shows "accounted out invar base ((bt_insert i c' t, n), m)"
proof -
  have "frame_at (bt_insert i c' t) = frame_at t"
    using assms(2,3) by (auto simp: frame_at_insert fun_eq_iff frame_at_def)
  moreover have "bt_get (bt_insert i c' t) j \<noteq> None \<Longrightarrow> j < n" for j
    using assms(1,2) by (cases "j = i") (auto simp: accounted_def)
  ultimately show ?thesis using assms(1) by (auto simp: accounted_def)
qed

lemma accounted_exec:
  assumes acc: "accounted out invar base ((t, n), m)" and n: "creates op \<Longrightarrow> n < - 1"
  shows "accounted out invar base (snd (spec_exec alloc dealloc op ((t, n), m)))"
proof (cases op)
  case (Send i msg)
  with acc show ?thesis
    by (auto simp: spec_exec_def split: option.split intro: accounted_same_frame)
next
  case (Recv i)
  with acc show ?thesis
    by (auto simp: spec_exec_def split: option.split list.split intro: accounted_same_frame)
qed (use acc n in \<open>auto simp: accounted_create accounted_destroy accounted_cleanup\<close>,
     auto simp: spec_exec_def)

lemma next_id_exec:
  assumes "spec_exec alloc dealloc op ((t, n), m) = (r, (t', n'), m')"
    and "unat n + length (filter creates (op # ops)) < 2 ^ 64"
  shows "unat n' + length (filter creates ops) < 2 ^ 64" and "creates op \<Longrightarrow> n < - 1"
proof -
  show lt: "n < - 1" if "creates op"
    using assms(2) that by (simp add: word_less_nat_alt unat_minus_1)
  show "unat n' + length (filter creates ops) < 2 ^ 64"
  proof (cases "creates op")
    case True
    with less_max_word_suc [OF lt [OF True]] assms show ?thesis
      by (cases op) (auto simp: spec_exec_def Let_def split: prod.splits)
  next
    case False
    with assms show ?thesis
      by (cases op) (auto simp: spec_exec_def Let_def split: prod.splits option.splits if_splits list.splits)
  qed
qed

lemma accounted_run:
  assumes "ipc_ok s" and "accounted out invar base (abs_ipc s, m)"
    and "unat (next_chan_id s) + length (filter creates ops) < 2 ^ 64"
  shows "\<exists>rs s' m'. ipc_run alloc dealloc ops (s, m) = Ret (rs, s', m') \<and> ipc_ok s'
     \<and> accounted out invar base (abs_ipc s', m')"
  using assms
proof (induction ops arbitrary: s m)
  case (Cons op ops)
  have "aligned_at alloc m"
    using Cons.prems(2) alloc_some by (fastforce simp: aligned_at_def accounted_def split: prod.splits)
  from ipc_exec_refines [OF Cons.prems(1) this, of dealloc op] obtain r s1 m1 where
    1: "ipc_exec alloc dealloc op (s, m) = Ret (r, s1, m1)" "ipc_ok s1"
      "spec_exec alloc dealloc op (abs_ipc s, m) = (r, abs_ipc s1, m1)" by blast
  obtain t n where tn: "abs_ipc s = (t, n)" "n = next_chan_id s" by (simp add: abs_ipc_def)
  obtain t' n' where tn': "abs_ipc s1 = (t', n')" "n' = next_chan_id s1" by (simp add: abs_ipc_def)
  note next_ = next_id_exec [OF 1(3) [unfolded tn(1) tn'(1)], of ops]
  have bound: "unat n + length (filter creates (op # ops)) < 2 ^ 64" using Cons.prems(3) tn(2) by simp
  have "accounted out invar base (abs_ipc s1, m1)"
    using accounted_exec [OF Cons.prems(2) [unfolded tn(1)], of op] next_(2) [OF bound] 1(3) tn(1) by simp
  then obtain rs s' m' where "ipc_run alloc dealloc ops (s1, m1) = Ret (rs, s', m')" "ipc_ok s'"
    "accounted out invar base (abs_ipc s', m')"
    using Cons.IH [OF 1(2)] next_(1) [OF bound] tn'(2) by blast
  then show ?case using 1(1) by simp
qed simp

end

section \<open>Properties\<close>

text \<open>
  C9. The channel table refines a table of message lists. Every sequence of operations from
  the empty table, over any number of channels and tasks and in any order, returns without
  a panic, gives the same results as the specification (bounded lists instead of ring
  buffers, one pass instead of a clean-up loop) and leaves the memory the same.
\<close>
theorem ipc_refines:
  assumes "aligned_alloc alloc"
  shows "\<exists>rs s' m'. ipc_run alloc dealloc ops (ipc_new, m) = Ret (rs, s', m')
     \<and> spec_run alloc dealloc ops (([], 1), m) = (rs, abs_ipc s', m')"
proof -
  have "ipc_ok ipc_new" and "abs_ipc ipc_new = ([], 1)"
    by (simp_all add: ipc_new_def ipc_ok_def abs_ipc_def bt_empty_def bt_map_def)
  then show ?thesis using ipc_run_refines_from [OF _ assms, of ipc_new dealloc ops m] by auto
qed

text \<open>
  Messages of a channel arrive in order, without loss or duplication. Offering a list
  of messages to a channel and then reading \<open>n\<close> times yields the messages that were
  queued followed by those offered, cut at the capacity of 64; what does not fit is
  refused, and what is not read stays queued.
\<close>
theorem ipc_fifo:
  assumes "has_channel i s"
  shows "\<exists>s' s''. offer_all (send i) xs s = Ret s'
     \<and> take_n (try_recv i) n s' = Ret (take n (take 64 (messages i s @ xs)), s'')
     \<and> has_channel i s'' \<and> messages i s'' = drop n (take 64 (messages i s @ xs))"
  using assms by (rule chan.fill_and_drain)

section \<open>Witnesses\<close>

definition pool_alloc :: "u64 list alloc_fn" where
  "pool_alloc fs = (case fs of [] \<Rightarrow> (None, [])
     | f # fs' \<Rightarrow> if frame_ok f then (Some f, fs') else (None, fs'))"

lemma pool_alloc_aligned: "aligned_alloc pool_alloc"
  by (auto simp: aligned_alloc_def aligned_at_def pool_alloc_def split: list.splits if_splits)

definition wit_msg :: "u64 \<Rightarrow> Message" where
  "wit_msg n = \<lparr>msg_type = n, arg1 = 0, arg2 = 0, arg3 = 0\<rparr>"

definition wit_ops :: "IpcOp list" where
  "wit_ops = [Create True 7, Create False 8, Send 1 (wit_msg 1), Send 1 (wit_msg 2), Recv 1,
     Send 9 (wit_msg 3), Cleanup 7, Recv 1, Length 2]"

theorem ipc_refines_witness:
  "\<exists>s'. ipc_run pool_alloc (#) wit_ops (ipc_new, [0x5000])
     = Ret ([Created 1, Created 2, Sent (Inr ()), Sent (Inr ()), Received (Some (wit_msg 1)),
             Sent (Inl Invalid_channel), Cleaned, Received None, HasLength (Some 0)], s', [0x5000])"
proof -
  have "spec_run pool_alloc (#) wit_ops (([], 1), [0x5000])
     = ([Created 1, Created 2, Sent (Inr ()), Sent (Inr ()), Received (Some (wit_msg 1)),
             Sent (Inl Invalid_channel), Cleaned, Received None, HasLength (Some 0)],
        ([(2, \<lparr>cs_queue = [], cs_frame = None, cs_owner = 8\<rparr>)], 3), [0x5000])"
    by code_simp
  then show ?thesis
    using ipc_refines [OF pool_alloc_aligned, of "(#)" wit_ops "[0x5000]"] by auto
qed

theorem ipc_fifo_witness:
  "\<exists>s' s''. offer_all (send 1) [wit_msg 5, wit_msg 6] (fst (snd (create_channel_owned pool_alloc False 7 ipc_new []))) = Ret s'
     \<and> take_n (try_recv 1) 3 s' = Ret ([wit_msg 5, wit_msg 6], s'') \<and> messages 1 s'' = []"
proof -
  let ?s = "fst (snd (create_channel_owned pool_alloc False 7 ipc_new []))"
  have "channels ?s \<noteq> []" and "has_channel 1 ?s" and "messages 1 ?s = []"
    by (simp_all add: create_channel_owned_def ipc_new_def has_channel_def messages_def ipc_ok_def
        bt_empty_def bt_get_def bt_ok_def chan_ok_def queue_of_def IPC_BUFFER_SIZE_def)
  then show ?thesis using ipc_fifo [of 1 ?s "[wit_msg 5, wit_msg 6]" 3] by auto
qed

end
