(* ===== verification/Frames_Props.thy ===== *)
theory Frames_Props
  imports Frames
begin

text \<open>
  Properties of the frame layer: the hand-over from the boot allocator gives the buddy
  allocator exactly the usable frames that are neither in use nor reserved; the layer meets
  the contract the IPC channels rely on as long as the boot allocator is drained, so channel
  frames are neither leaked nor shared; and without that condition it hands out frames twice.
\<close>

section \<open>The contract of the frame allocator\<close>

text \<open>Frames that are out: within the managed memory, not frame 0, and not free.\<close>

definition frames_out :: "FrameSystem \<Rightarrow> u64 set" where
  "frames_out sys = {f. node f \<and> f \<noteq> 0 \<and> frame_idx f < unat (total_frames (hd (buddies sys)))
     \<and> frame_idx f \<notin> free_of (hd (buddies sys), mem sys)}"

definition one_node :: "FrameSystem \<Rightarrow> bool" where
  "one_node sys \<longleftrightarrow> length (buddies sys) = 1 \<and> buddy_ok (hd (buddies sys), mem sys)"

definition drained :: "FrameSystem \<Rightarrow> bool" where
  "drained sys \<longleftrightarrow> (case boot_allocator sys of None \<Rightarrow> True | Some a \<Rightarrow> fst (boot_allocate a) = None)"

lemma one_nodeE:
  assumes "one_node sys"
  obtains b B where "buddies sys = [b]" and "buddy_inv (b, mem sys) B" and "hd (buddies sys) = b"
  using assms by (cases "buddies sys") (auto simp: one_node_def buddy_ok_def)

lemma boot_allocate_drained: "boot_allocate a = (None, a') \<Longrightarrow> boot_allocate a' = (None, a')"
proof (induction a rule: boot_allocate.induct)
  case (1 a)
  show ?case
  proof (cases "find_usable (drop (region_idx a) (memory_regions a)) (region_idx a)")
    case None
    then have "a' = a" using "1.prems" by (subst (asm) boot_allocate.simps) simp
    then show ?thesis using None by (subst boot_allocate.simps) simp
  next
    case (Some x)
    obtain i r where x: "x = (i, r)" by fastforce
    have full: "region_start r + next_frame a * 4096 \<ge> region_end r"
      using "1.prems" Some x by (subst (asm) boot_allocate.simps) (auto simp: Let_def split: if_splits)
    then have "boot_allocate (a\<lparr>region_idx := i + 1, next_frame := 0\<rparr>) = (None, a')"
      using "1.prems" Some x by (subst (asm) boot_allocate.simps) (simp add: Let_def)
    then show ?thesis using "1.IH" [OF Some x [symmetric] refl] full by simp
  qed
qed

lemma node_badr_0:
  assumes "node f"
  shows "f = badr 0 (frame_idx f)" and "frame_idx f * 2 ^ 0 < 2 ^ 52"
proof -
  obtain q where q: "f = badr 0 q" "q * 2 ^ 0 < 2 ^ 52"
    using aligned_badr [of f 0] assms by (auto simp: node_iff)
  then have "frame_idx f = q" using frame_idx_badr [of q 0] by simp
  then show "f = badr 0 (frame_idx f)" "frame_idx f * 2 ^ 0 < 2 ^ 52" using q by simp_all
qed

lemma frames_of_0 [simp]: "frames_of (0, q) = {q}"
  by (auto simp: frames_of_def)

lemma page_of_badr:
  assumes "q < 2 ^ 52"
  shows "badr 0 q AND NOT 0xFFF = badr 0 q"
proof -
  have "unat (badr 0 q) div 4096 = q" using unat_badr [of q 0] assms by simp
  then show ?thesis using page_round [of "badr 0 q"] by (simp only:)
qed

text \<open>One allocation, seen through the buddy allocator alone.\<close>

lemma allocate_frame_one:
  assumes "buddies sys = [b]" and "buddy_inv (b, mem sys) B"
  shows "allocate_frame sys = (case alloc_block 0 (b, mem sys) of
      (Some a, b', m') \<Rightarrow> (Some a, sys\<lparr>buddies := [b'], mem := m'\<rparr>)
    | (None, _, _) \<Rightarrow> (case boot_allocator sys of
          None \<Rightarrow> (None, sys)
        | Some a \<Rightarrow> (fst (boot_allocate a), sys\<lparr>boot_allocator := Some (snd (boot_allocate a))\<rparr>)))"
proof (cases "fst (alloc_block 0 (b, mem sys))")
  case None
  then obtain s' where s': "alloc_block 0 (b, mem sys) = (None, s')" by (metis prod.collapse)
  then have "s' = (b, mem sys)" using alloc_none(1) [OF assms(2) _ s'] by simp
  then show ?thesis
    using assms(1) s' by (simp add: allocate_frame_def split: option.split prod.split)
next
  case (Some a)
  then obtain b' m' where s': "alloc_block 0 (b, mem sys) = (Some a, b', m')" by (metis prod.collapse)
  from alloc_some [OF assms(2) s'] obtain q where q: "a = badr 0 q" "(q + 1) * 2 ^ 0 \<le> unat (total_frames b)" by auto
  have "q < 2 ^ 52" using block_bound(1) [OF q(2)] buddy_invD(1) [OF assms(2)] by simp
  then show ?thesis using assms(1) s' page_of_badr q(1) by (simp add: allocate_frame_def)
qed

lemma frames_out_eq:
  assumes "buddies sys = [b]" and "buddy_inv (b, mem sys) B"
  shows "frames_out sys = {f. node f \<and> f \<noteq> 0 \<and> frame_idx f < unat (total_frames b) \<and> frame_idx f \<notin> free_set B}"
  using free_of_eq [OF assms(2)] by (simp add: frames_out_def assms(1))

lemma frame_okI: "node f \<Longrightarrow> frame_idx f < 2 ^ 40 \<Longrightarrow> frame_ok f"
proof -
  assume f: "node f" "frame_idx f < 2 ^ 40"
  have "unat f = frame_idx f * 4096" using node_badr_0 [OF f(1)] unat_badr [of "frame_idx f" 0] by simp
  then have "unat f < 2 ^ 52" using f(2) by simp
  then show ?thesis using f(1) by (simp add: frame_ok_def node_def word_less_nat_alt)
qed

lemma alloc_frame_some:
  assumes inv: "one_node sys" "drained sys" and al: "allocate_frame sys = (Some f, sys')"
  shows "one_node sys' \<and> drained sys' \<and> f \<notin> frames_out sys \<and> frames_out sys' = insert f (frames_out sys) \<and> frame_ok f"
proof -
  obtain b B where b: "buddies sys = [b]" "buddy_inv (b, mem sys) B" using one_nodeE [OF inv(1)] by blast
  obtain b' m' where al': "alloc_block 0 (b, mem sys) = (Some f, b', m')" and sys': "sys' = sys\<lparr>buddies := [b'], mem := m'\<rparr>"
    using al inv(2) unfolding allocate_frame_one [OF b] drained_def by (auto split: option.splits prod.splits)
  from alloc_some [OF b(2) al'] obtain B' q where q: "f = badr 0 q" "q \<noteq> 0" "(q + 1) * 2 ^ 0 \<le> unat (total_frames b)"
    "q \<in> free_set B" "buddy_inv (b', m') B'" "free_set B' = free_set B - {q}" "total_frames b' = total_frames b" by auto
  note bd = block_bound [OF q(3) buddy_invD(1) [OF b(2), unfolded fst_conv]]
  have f: "node f" "f \<noteq> 0" "frame_idx f = q"
    using node_badr [OF bd(1)] badr_zero_iff [OF bd(1)] frame_idx_badr [OF bd(1)] q(1,2) by simp_all
  have idx: "g = f \<longleftrightarrow> frame_idx g = q" if "node g" for g using node_badr_0(1) [OF that] q(1) f(3) by metis
  have "frames_out sys' = insert f (frames_out sys)"
    unfolding frames_out_eq [OF b] using frames_out_eq [of sys' b' B'] q(4-7) f idx bd(3) by (auto simp: sys')
  moreover have "f \<notin> frames_out sys" using frames_out_eq [OF b] f(3) q(4) by simp
  moreover have "frame_ok f"
    using frame_okI [OF f(1)] f(3) bd(3) buddy_invD(1) [OF b(2)] by simp
  moreover have "one_node sys' \<and> drained sys'"
    using q(5) inv(2) by (auto simp: sys' one_node_def drained_def buddy_ok_def)
  ultimately show ?thesis by blast
qed

lemma alloc_frame_none:
  assumes inv: "one_node sys" "drained sys" and al: "allocate_frame sys = (None, sys')"
  shows "one_node sys' \<and> drained sys' \<and> frames_out sys' = frames_out sys"
proof -
  obtain b B where b: "buddies sys = [b]" "buddy_inv (b, mem sys) B" using one_nodeE [OF inv(1)] by blast
  have sys': "buddies sys' = buddies sys" "mem sys' = mem sys"
    "boot_allocator sys' = map_option (\<lambda>a. snd (boot_allocate a)) (boot_allocator sys)"
    using al unfolding allocate_frame_one [OF b] by (auto split: option.splits prod.splits)
  have "drained sys'"
    using inv(2) boot_allocate_drained sys'(3) unfolding drained_def
    by (auto split: option.splits) (metis prod.collapse fst_conv)
  then show ?thesis using inv(1) sys' by (simp add: one_node_def frames_out_def)
qed

lemma dealloc_frame:
  assumes inv: "one_node sys" "drained sys" and f: "f \<in> frames_out sys"
  shows "one_node (deallocate_frame f sys) \<and> drained (deallocate_frame f sys)
     \<and> frames_out (deallocate_frame f sys) = frames_out sys - {f}"
proof -
  obtain b B where b: "buddies sys = [b]" "buddy_inv (b, mem sys) B" using one_nodeE [OF inv(1)] by blast
  let ?q = "frame_idx f"
  have f': "node f" "f \<noteq> 0" "?q < unat (total_frames b)" "?q \<notin> free_set B" using f frames_out_eq [OF b] by auto
  note fq = node_badr_0 [OF f'(1)]
  have "?q \<noteq> 0" using badr_zero_iff [OF fq(2)] fq(1) f'(2) by auto
  then obtain B' where B': "buddy_inv (free_listed f 0 (b, mem sys)) B'" "free_set B' = insert ?q (free_set B)"
    "total_frames (fst (free_listed f 0 (b, mem sys))) = total_frames b"
    using free_rep [OF b(2), of 0 ?q] f'(3,4) fq(1) by auto
  obtain b' m' where r: "free_listed f 0 (b, mem sys) = (b', m')" by fastforce
  have sys': "deallocate_frame f sys = sys\<lparr>buddies := [b'], mem := m'\<rparr>" using b(1) r by (simp add: deallocate_frame_def)
  have idx: "g = f \<longleftrightarrow> frame_idx g = ?q" if "node g" for g using node_badr_0(1) [OF that] fq(1) by metis
  have "frames_out (deallocate_frame f sys) = frames_out sys - {f}"
    unfolding frames_out_eq [OF b] sys'
    using frames_out_eq [of "sys\<lparr>buddies := [b'], mem := m'\<rparr>" b' B'] B' r idx by auto
  moreover have "one_node (deallocate_frame f sys)" using B'(1) r by (auto simp: sys' one_node_def buddy_ok_def)
  moreover have "drained (deallocate_frame f sys)" using inv(2) by (simp add: sys' drained_def)
  ultimately show ?thesis by blast
qed

interpretation fa: frame_allocator allocate_frame deallocate_frame frames_out "\<lambda>sys. one_node sys \<and> drained sys"
  by unfold_locales (blast dest: alloc_frame_some, blast dest: alloc_frame_none, blast dest: dealloc_frame)

section \<open>Properties of the channels on the frame layer\<close>

definition channel_frame :: "IpcSystem \<Rightarrow> usize \<Rightarrow> u64 option" where
  "channel_frame s i = Option.bind (bt_get (channels s) i) shared_frame"

lemma frame_at_abs: "frame_at (fst (abs_ipc s)) i = channel_frame s i"
  by (cases "bt_get (channels s) i") (simp_all add: frame_at_def channel_frame_def abs_ipc_def bt_get_map abs_chan_def)


section \<open>The fallback\<close>

text \<open>
  Once the buddy allocator has no free frame, a request falls back on the boot allocator,
  whose cursor was never moved past the memory it handed over: if its next frame lies in the
  managed memory, it is given out although it is already out.
\<close>

theorem fallback_aliases:
  assumes "one_node sys" and "free_of (hd (buddies sys), mem sys) = {}"
    and "boot_allocator sys = Some a" and "boot_allocate a = (Some f, a')"
    and "node f" and "f \<noteq> 0" and "frame_idx f < unat (total_frames (hd (buddies sys)))"
  shows "\<exists>sys'. allocate_frame sys = (Some f, sys') \<and> f \<in> frames_out sys"
proof -
  obtain b B where b: "buddies sys = [b]" "buddy_inv (b, mem sys) B" "hd (buddies sys) = b"
    using one_nodeE [OF assms(1)] by blast
  have "free_set B = {}" using assms(2) free_of_eq [OF b(2)] b(3) by simp
  then have "fst (alloc_block 0 (b, mem sys)) = None"
    using alloc_some [OF b(2), of 0] by (cases "alloc_block 0 (b, mem sys)"; cases "fst (alloc_block 0 (b, mem sys))") fastforce+
  then have "allocate_frame sys = (Some f, sys\<lparr>boot_allocator := Some a'\<rparr>)"
    unfolding allocate_frame_one [OF b(1,2)] using assms(3,4) by (auto split: prod.split option.split)
  then show ?thesis using assms(2,5-7) by (simp add: frames_out_def)
qed

section \<open>The hand-over\<close>

definition range_frames :: "u64 \<times> u64 \<Rightarrow> nat set" where
  "range_frames p = {(unat (fst p) + 4095) div 4096..<unat (snd p) div 4096}"

lemma mem_range_frames: "f \<in> range_frames (lo, hi) \<longleftrightarrow> unat lo \<le> f * 4096 \<and> (f + 1) * 4096 \<le> unat hi"
proof -
  have "(unat lo + 4095) div 4096 \<le> f \<longleftrightarrow> unat lo \<le> f * 4096" by linarith
  moreover have "f < unat hi div 4096 \<longleftrightarrow> (f + 1) * 4096 \<le> unat hi"
    using less_eq_div_iff_mult_less_eq [of 4096 "f + 1" "unat hi"] by auto
  ultimately show ?thesis by (simp add: range_frames_def)
qed

abbreviation apart :: "u64 \<times> u64 \<Rightarrow> u64 \<times> u64 \<Rightarrow> bool" where
  "apart p p' \<equiv> unat (snd p) \<le> unat (fst p')"

lemma apart_frames: "apart p p' \<Longrightarrow> range_frames p \<inter> range_frames p' = {}"
  using mem_range_frames [of _ "fst p" "snd p"] mem_range_frames [of _ "fst p'" "snd p'"] by fastforce

lemma add_ranges_rep:
  assumes "buddy_inv s B" and "sorted_wrt apart rs"
    and "\<forall>(lo, hi) \<in> set rs. 0 < unat lo \<and> unat lo + 4095 < 2 ^ 64 \<and> unat hi div 4096 \<le> unat (total_frames (fst s))"
    and "\<forall>p \<in> set rs. range_frames p \<inter> free_set B = {}"
  shows "\<exists>s' B'. add_ranges rs s = Some s' \<and> buddy_inv s' B' \<and> free_set B' = (\<Union>p \<in> set rs. range_frames p) \<union> free_set B
     \<and> total_frames (fst s') = total_frames (fst s)"
  using assms
proof (induction rs arbitrary: s B)
  case (Cons p rs)
  obtain lo hi where p: "p = (lo, hi)" by fastforce
  obtain s1 B1 where 1: "add_range lo hi s = Some s1" "buddy_inv s1 B1" "free_set B1 = range_frames p \<union> free_set B"
    "total_frames (fst s1) = total_frames (fst s)"
    using add_range_rep [OF Cons.prems(1), of lo hi] Cons.prems(3,4) by (auto simp: p range_frames_def)
  have "range_frames r \<inter> free_set B1 = {}" if "r \<in> set rs" for r
    using that Cons.prems(2,4) apart_frames [of p r] 1(3) by auto
  then obtain s' B' where "add_ranges rs s1 = Some s'" "buddy_inv s' B'"
    "free_set B' = (\<Union>p \<in> set rs. range_frames p) \<union> free_set B1" "total_frames (fst s') = total_frames (fst s1)"
    using Cons.IH [OF 1(2)] Cons.prems(2,3) 1(4) by (auto simp: p)
  then show ?case using 1 by (auto simp: p)
qed auto

text \<open>The ranges of one region.\<close>

lemma region_ranges_bounds:
  assumes "p \<in> set (region_ranges crash c r)" and "\<And>cb. crash = Some cb \<Longrightarrow> unat cb \<le> 2 ^ 52"
  shows "unat c \<le> unat (fst p) \<and> unat (region_start r) \<le> unat (fst p) \<and> unat (fst p) < unat (snd p)
     \<and> unat (snd p) \<le> unat (region_end r)"
proof -
  have "unat (cb + 0x400000) = unat cb + 0x400000" if "crash = Some cb" for cb
    using assms(2) [OF that] by (subst unat_plus_no_overflow) simp_all
  then show ?thesis
    using assms(1)
    by (auto simp: region_ranges_def Let_def min_def word_less_nat_alt word_le_nat_alt split: if_splits option.splits)
qed

lemma region_ranges_sorted:
  assumes "\<And>cb. crash = Some cb \<Longrightarrow> unat cb \<le> 2 ^ 52"
  shows "sorted_wrt apart (region_ranges crash c r)"
proof -
  have "unat (cb + 0x400000) = unat cb + 0x400000" if "crash = Some cb" for cb
    using assms [OF that] by (subst unat_plus_no_overflow) simp_all
  then show ?thesis by (auto simp: region_ranges_def Let_def split: option.split)
qed

lemma region_ranges_mem:
  assumes "\<And>cb. crash = Some cb \<Longrightarrow> unat cb \<le> 2 ^ 52"
  shows "(\<exists>p \<in> set (region_ranges crash c r). f \<in> range_frames p) \<longleftrightarrow>
     unat c \<le> f * 4096 \<and> unat (region_start r) \<le> f * 4096 \<and> (f + 1) * 4096 \<le> unat (region_end r)
   \<and> (case crash of None \<Rightarrow> True | Some cb \<Rightarrow> (f + 1) * 4096 \<le> unat cb \<or> unat cb + 0x400000 \<le> f * 4096)"
proof -
  have "unat (cb + 0x400000) = unat cb + 0x400000" if "crash = Some cb" for cb
    using assms [OF that] by (subst unat_plus_no_overflow) simp_all
  then show ?thesis
    by (cases crash)
      (auto simp: region_ranges_def Let_def min_def mem_range_frames word_less_nat_alt word_le_nat_alt)
qed

lemma sorted_concat:
  assumes "sorted_wrt (\<lambda>r r'. unat (region_end r) \<le> unat (region_start r')) rs"
    and "\<And>cb. crash = Some cb \<Longrightarrow> unat cb \<le> 2 ^ 52"
  shows "sorted_wrt apart (concat (map (region_ranges crash c) rs))"
  using assms(1)
proof (induction rs)
  case (Cons r rs)
  have "apart p p'" if "p \<in> set (region_ranges crash c r)" "r' \<in> set rs" "p' \<in> set (region_ranges crash c r')" for p p' r'
    using region_ranges_bounds [OF that(1) assms(2)] region_ranges_bounds [OF that(3) assms(2)] Cons.prems that(2) by force
  then show ?case
    using Cons region_ranges_sorted [OF assms(2)] by (auto simp: sorted_wrt_append)
qed simp

lemma max_usable_ge: "r \<in> set rs \<Longrightarrow> usable r \<Longrightarrow> region_end r \<le> max_usable rs"
proof -
  define g :: "MemoryRegion \<Rightarrow> u64 \<Rightarrow> u64" where "g = (\<lambda>r m. if usable r \<and> region_end r > m then region_end r else m)"
  assume "r \<in> set rs" "usable r"
  then show ?thesis
    unfolding max_usable_def g_def [symmetric]
  proof (induction rs rule: rev_induct)
    case (snoc x xs)
    have "fold g xs 0 \<le> g x (fold g xs 0)" by (auto simp: g_def)
    moreover have "r = x \<Longrightarrow> region_end r \<le> g x (fold g xs 0)" using snoc.prems by (auto simp: g_def not_less)
    ultimately show ?case using snoc by auto
  qed simp
qed

lemma max_usable_le: "\<forall>r \<in> set rs. usable r \<longrightarrow> region_end r \<le> M \<Longrightarrow> max_usable rs \<le> M"
  unfolding max_usable_def by (induction rs rule: rev_induct) auto

lemma crash_bound:
  assumes "reserve_crash_region frames = Some cb" and "unat frames \<le> 2 ^ 40"
  shows "unat cb \<le> 2 ^ 52"
proof -
  have "unat frames * 4096 \<le> 2 ^ 40 * 4096" using assms(2) by (intro mult_right_mono) simp_all
  then have t: "unat (frames * 4096) \<le> 2 ^ 52" by (simp add: unat_word_ariths)
  have cb: "cb = (frames * 4096 - CRASH_RESERVE_SIZE) AND NOT 0xFFF" "CRASH_RESERVE_SIZE \<le> frames * 4096"
    using assms(1) by (auto simp: reserve_crash_region_def Let_def split: if_splits)
  have "cb \<le> frames * 4096 - CRASH_RESERVE_SIZE" unfolding cb(1) by (rule word_and_le2)
  also have "\<dots> \<le> frames * 4096" using cb(2) by unat_arith
  finally show ?thesis using t by (simp add: word_le_nat_alt)
qed

lemma usable_bounds:
  assumes "\<forall>r \<in> set regions. usable r \<longrightarrow> unat (region_end r) \<le> 2 ^ 52"
  shows "unat (max_usable regions div 4096) \<le> 2 ^ 40"
    and "reserve_crash_region (max_usable regions div 4096) = Some cb \<Longrightarrow> unat cb \<le> 2 ^ 52"
proof -
  have "\<forall>r \<in> set regions. usable r \<longrightarrow> region_end r \<le> 0x10000000000000"
    using assms by (simp add: word_le_nat_alt)
  then have "unat (max_usable regions) \<le> 2 ^ 52" using max_usable_le [of regions "0x10000000000000"] by (simp add: word_le_nat_alt)
  then show N: "unat (max_usable regions div 4096) \<le> 2 ^ 40" by (simp add: unat_div)
  show "unat cb \<le> 2 ^ 52" if "reserve_crash_region (max_usable regions div 4096) = Some cb" by (rule crash_bound [OF that N])
qed

lemma handover:
  assumes map_ok: "\<forall>r \<in> set regions. usable r \<longrightarrow> unat (region_end r) \<le> 2 ^ 52"
      "sorted_wrt (\<lambda>r r'. unat (region_end r) \<le> unat (region_start r')) (filter usable regions)"
    and boot: "boot_allocator sys = Some a" "current_cursor a = Some c" "0 < c" and empty: "buddies sys = []"
  shows "\<exists>sys'. init_buddy_allocator regions sys = Some sys' \<and> one_node sys'
     \<and> free_of (hd (buddies sys'), mem sys') = (\<Union>p \<in> set (concat
          (map (region_ranges (reserve_crash_region (max_usable regions div 4096)) c) (filter usable regions))). range_frames p)"
proof -
  let ?frames = "max_usable regions div 4096"
  let ?words = "(?frames + 63) div 64"
  let ?crash = "reserve_crash_region ?frames"
  let ?rs = "concat (map (region_ranges ?crash c) (filter usable regions))"
  let ?s0 = "(buddy_new (unat ?words) ?frames 0, mem sys)"
  note N = usable_bounds(1) [OF map_ok(1)]
  have words: "unat ?frames \<le> 64 * unat ?words"
  proof -
    have "unat (?frames + 63) = unat ?frames + 63" using N by (subst unat_plus_no_overflow) simp_all
    then have "unat ?words = (unat ?frames + 63) div 64" by (simp add: unat_div)
    then show ?thesis by simp
  qed
  note cb = usable_bounds(2) [OF map_ok(1)]
  obtain B where B: "buddy_inv ?s0 B" using buddy_init_ok [of ?s0] N words by (auto simp: buddy_init_def buddy_ok_def)
  have "free_of ?s0 = {}" by (simp add: free_of_def frame_is_free_iff buddy_new_def)
  then have B0: "free_set B = {}" using free_of_eq [OF B] by simp
  have sorted: "sorted_wrt apart ?rs" by (rule sorted_concat [OF map_ok(2) cb])
  have bounds: "0 < unat lo \<and> unat lo + 4095 < 2 ^ 64 \<and> unat hi div 4096 \<le> unat (total_frames (fst ?s0))"
    if lh: "(lo, hi) \<in> set ?rs" for lo hi
  proof -
    obtain r where r: "r \<in> set regions" "usable r" "(lo, hi) \<in> set (region_ranges ?crash c r)" using lh by auto
    have h: "unat c \<le> unat lo" "unat lo < unat hi" "unat hi \<le> unat (region_end r)"
      using region_ranges_bounds [OF r(3) cb] by auto
    have "0 < unat c" using boot(3) by (simp add: word_less_nat_alt)
    moreover have "unat (region_end r) \<le> 2 ^ 52" using map_ok(1) r by blast
    moreover have "unat hi \<le> unat (max_usable regions)"
      using h(3) max_usable_ge [OF r(1,2)] by (simp add: word_le_nat_alt)
    then have "unat hi div 4096 \<le> unat ?frames" by (simp add: unat_div div_le_mono)
    ultimately show ?thesis using h by (simp add: buddy_new_def)
  qed
  obtain s' B' where s': "add_ranges ?rs ?s0 = Some s'" "buddy_inv s' B'" "free_set B' = (\<Union>p \<in> set ?rs. range_frames p)"
  proof -
    have 1: "\<forall>(lo, hi) \<in> set ?rs. 0 < unat lo \<and> unat lo + 4095 < 2 ^ 64
        \<and> unat hi div 4096 \<le> unat (total_frames (fst ?s0))" using bounds by fast
    have 2: "\<forall>p \<in> set ?rs. range_frames p \<inter> free_set B = {}" unfolding B0 by simp
    show thesis using add_ranges_rep [OF B sorted 1 2] that unfolding B0 Un_empty_right by metis
  qed
  obtain b m where bm: "s' = (b, m)" by fastforce
  let ?sys = "sys\<lparr>buddies := [b], mem := m\<rparr>"
  have init: "init_buddy_allocator regions sys = Some ?sys"
    using s'(1) bm boot empty by (simp add: init_buddy_allocator_def Let_def)
  have "one_node ?sys" using s'(2) bm by (auto simp: one_node_def buddy_ok_def)
  then show ?thesis using init s'(3) free_of_eq [OF s'(2)] bm by (intro exI [of _ ?sys]) simp
qed

text \<open>
  C39. On a memory map whose usable regions do not overlap and end below \<open>2 ^ 52\<close>, the hand-over
  at boot terminates and leaves one well-formed buddy allocator, and a frame is free in it
  just when it lies whole in a usable region, at or above the boot allocator's cursor, and
  outside the region reserved for crash dumps.
\<close>

theorem buddy_handover:
  assumes map_ok: "\<forall>r \<in> set regions. usable r \<longrightarrow> unat (region_end r) \<le> 2 ^ 52"
      "sorted_wrt (\<lambda>r r'. unat (region_end r) \<le> unat (region_start r')) (filter usable regions)"
    and boot: "boot_allocator sys = Some a" "current_cursor a = Some c" "0 < c" and empty: "buddies sys = []"
  shows "\<exists>sys'. init_buddy_allocator regions sys = Some sys' \<and> one_node sys'
     \<and> (\<forall>f. f \<in> free_of (hd (buddies sys'), mem sys') \<longleftrightarrow>
          unat c \<le> f * 4096
        \<and> (\<exists>r \<in> set regions. usable r \<and> unat (region_start r) \<le> f * 4096 \<and> (f + 1) * 4096 \<le> unat (region_end r))
        \<and> (case reserve_crash_region (max_usable regions div 4096) of None \<Rightarrow> True
           | Some cb \<Rightarrow> (f + 1) * 4096 \<le> unat cb \<or> unat cb + 0x400000 \<le> f * 4096))"
proof -
  let ?crash = "reserve_crash_region (max_usable regions div 4096)"
  obtain sys' where sys': "init_buddy_allocator regions sys = Some sys'" "one_node sys'"
    "free_of (hd (buddies sys'), mem sys') = (\<Union>p \<in> set (concat (map (region_ranges ?crash c) (filter usable regions))). range_frames p)"
    using handover [OF map_ok boot empty] by blast
  have "f \<in> free_of (hd (buddies sys'), mem sys') \<longleftrightarrow>
      (\<exists>r \<in> set regions. usable r \<and> (\<exists>p \<in> set (region_ranges ?crash c r). f \<in> range_frames p))" for f
    unfolding sys'(3) by auto
  then have "f \<in> free_of (hd (buddies sys'), mem sys') \<longleftrightarrow>
      unat c \<le> f * 4096
      \<and> (\<exists>r \<in> set regions. usable r \<and> unat (region_start r) \<le> f * 4096 \<and> (f + 1) * 4096 \<le> unat (region_end r))
      \<and> (case ?crash of None \<Rightarrow> True | Some cb \<Rightarrow> (f + 1) * 4096 \<le> unat cb \<or> unat cb + 0x400000 \<le> f * 4096)" for f
    using region_ranges_mem [OF usable_bounds(2) [OF map_ok(1)], where f = f and c = c] by auto
  then show ?thesis using sys'(1,2) by blast
qed

section \<open>Witnesses\<close>

text \<open>
  A machine with three usable frames, 1 to 3: after the hand-over three frames are given out,
  and the fourth request gets frame 1 again.
\<close>

definition small_map :: "MemoryRegion list" where
  "small_map = [\<lparr>region_start = 0, region_end = 0x1000, usable = False\<rparr>,
     \<lparr>region_start = 0x1000, region_end = 0x4000, usable = True\<rparr>]"

definition small_boot :: FrameSystem where
  "small_boot = \<lparr>buddies = [], mem = (\<lambda>_. 0), boot_allocator = Some (boot_init small_map), freed_frames = []\<rparr>"

definition small_sys :: "nat \<Rightarrow> FrameSystem" where
  "small_sys n = ((\<lambda>sys. snd (allocate_frame sys)) ^^ n) (the (init_buddy_allocator small_map small_boot))"

lemma small_map_ok:
  "\<forall>r \<in> set small_map. usable r \<longrightarrow> unat (region_end r) \<le> 2 ^ 52"
  "sorted_wrt (\<lambda>r r'. unat (region_end r) \<le> unat (region_start r')) (filter usable small_map)"
  "boot_allocator small_boot = Some (boot_init small_map)" "current_cursor (boot_init small_map) = Some 0x1000"
  "buddies small_boot = []"
  by (simp_all add: small_map_def small_boot_def current_cursor_def boot_init_def)

lemma one_node_alloc:
  assumes "one_node sys"
  shows "one_node (snd (allocate_frame sys))"
proof -
  obtain b B where b: "buddies sys = [b]" "buddy_inv (b, mem sys) B" using one_nodeE [OF assms] by blast
  obtain r s' where r: "alloc_block 0 (b, mem sys) = (r, s')" by (metis surj_pair)
  have "buddy_ok s'" using buddy_step_ok [OF step_alloc [OF r]] b(2) by (auto simp: buddy_ok_def)
  then show ?thesis
    using r assms unfolding allocate_frame_one [OF b] by (auto simp: one_node_def split: option.split prod.split)
qed

lemma small_one_node: "one_node (small_sys n)"
proof (induction n)
  case (Suc n)
  then show ?case using one_node_alloc by (simp add: small_sys_def)
next
  case 0
  show ?case using handover [OF small_map_ok(1-4) _ small_map_ok(5)] by (auto simp: small_sys_def)
qed

theorem buddy_handover_witness:
  "one_node (small_sys 0) \<and> 2 \<in> free_of (hd (buddies (small_sys 0)), mem (small_sys 0))"
proof -
  have none: "reserve_crash_region (max_usable small_map div 4096) = None"
    by (simp add: reserve_crash_region_def max_usable_def small_map_def CRASH_RESERVE_SIZE_def)
  have "(\<exists>r \<in> set small_map. usable r \<and> unat (region_start r) \<le> 2 * 4096 \<and> (2 + 1) * 4096 \<le> unat (region_end r))"
    by (simp add: small_map_def)
  then show ?thesis
    using buddy_handover [OF small_map_ok(1-4) _ small_map_ok(5)] unfolding none by (auto simp: small_sys_def)
qed

theorem fallback_aliases_witness:
  "map (\<lambda>n. fst (allocate_frame (small_sys n))) [0, 1, 2] = [Some 0x1000, Some 0x2000, Some 0x3000]
   \<and> fst (allocate_frame (small_sys 3)) = Some 0x1000"
proof
  show "map (\<lambda>n. fst (allocate_frame (small_sys n))) [0, 1, 2] = [Some 0x1000, Some 0x2000, Some 0x3000]"
    by code_simp
  have full: "list_all (\<lambda>f. \<not> frame_is_free (hd (buddies (small_sys 3))) f) [0..<4]"
    and N: "total_frames (hd (buddies (small_sys 3))) = 4"
    and boot: "map_option boot_allocate (boot_allocator (small_sys 3)) = Some (Some 0x1000, (boot_init small_map)\<lparr>next_frame := 1\<rparr>)"
    by code_simp+
  have "free_of (hd (buddies (small_sys 3)), mem (small_sys 3)) = {}"
    using full N by (auto simp: free_of_def list_all_iff frame_is_free_def split: if_splits)
  moreover obtain a where "boot_allocator (small_sys 3) = Some a" "boot_allocate a = (Some 0x1000, (boot_init small_map)\<lparr>next_frame := 1\<rparr>)"
    using boot by auto
  ultimately show "fst (allocate_frame (small_sys 3)) = Some 0x1000"
    using fallback_aliases [OF small_one_node] N by (fastforce simp: node_def frame_idx_def drop_bit_eq_div)
qed


end
