(* ===== verification/Sandbox.thy ===== *)
theory Sandbox
  imports Shield_Policy Rust_Str Cap_System
begin

text \<open>
  Mandatory sandboxing at the system call edge (\<^verbatim>\<open>kernel/src/sandbox.rs\<close>, the head of
  \<^verbatim>\<open>syscall_handler_inner\<close> in \<^verbatim>\<open>kernel/src/syscall.rs\<close> and the Linux task table of
  \<^verbatim>\<open>kernel/src/linux_syscall.rs\<close>): the level and the manifest grants of each task, the
  classes of gated calls, and the gate that asks AthGuard's policy enforcer. The theory
  shows that the counter of the fast path is exact, so that the gate gives in every
  reachable state the verdict that the levels and grants alone determine.
\<close>

unbundle bit_operations_syntax

section \<open>State\<close>

datatype SandboxLevel = Trusted | AppSandbox | Strict

fun level_profile :: "SandboxLevel \<Rightarrow> SandboxProfile" where
  "level_profile Trusted = SystemService"
| "level_profile AppSandbox = Sandboxed"
| "level_profile Strict = Untrusted"

record Grants =
  g_network :: bool
  g_devices :: bool
  g_install :: bool

definition grants_default :: Grants where
  "grants_default = \<lparr>g_network = False, g_devices = False, g_install = False\<rparr>"

record SandboxState =
  TABLE :: "(u64, SandboxLevel) btree option"
  GRANTS :: "(u64, Grants) btree option"
  SANDBOXED_COUNT :: usize
  CHECKS :: u64
  DENIALS :: u64
  GRANT_ALLOWS :: u64

definition sandbox_static :: SandboxState where
  "sandbox_static = \<lparr>TABLE = None, GRANTS = None, SANDBOXED_COUNT = 0, CHECKS = 0, DENIALS = 0,
     GRANT_ALLOWS = 0\<rparr>"

definition sandbox_init :: "SandboxState \<Rightarrow> SandboxState" where
  "sandbox_init s = s\<lparr>TABLE := Some bt_empty, GRANTS := Some bt_empty\<rparr>"

definition set_task_level :: "u64 \<Rightarrow> SandboxLevel \<Rightarrow> SandboxState \<Rightarrow> SandboxState" where
  "set_task_level pid level s =
     (case TABLE s of
        None \<Rightarrow> s
      | Some m \<Rightarrow>
          let was_sandboxed = (case bt_get m pid of Some l \<Rightarrow> l \<noteq> Trusted | None \<Rightarrow> False) in
          if level = Trusted then
            s\<lparr>TABLE := Some (bt_remove pid m),
              SANDBOXED_COUNT := (if bt_get m pid \<noteq> None \<and> was_sandboxed
                                  then SANDBOXED_COUNT s - 1 else SANDBOXED_COUNT s)\<rparr>
          else
            s\<lparr>TABLE := Some (bt_insert pid level m),
              SANDBOXED_COUNT := (if \<not> was_sandboxed then SANDBOXED_COUNT s + 1 else SANDBOXED_COUNT s)\<rparr>)"

definition set_task_grants :: "u64 \<Rightarrow> Grants \<Rightarrow> SandboxState \<Rightarrow> SandboxState" where
  "set_task_grants pid grants s =
     (case GRANTS s of
        None \<Rightarrow> s
      | Some m \<Rightarrow> s\<lparr>GRANTS := Some (if grants = grants_default then bt_remove pid m
                                    else bt_insert pid grants m)\<rparr>)"

definition grants_of :: "SandboxState \<Rightarrow> u64 \<Rightarrow> Grants" where
  "grants_of s pid =
     (case Option.bind (GRANTS s) (\<lambda>m. bt_get m pid) of Some g \<Rightarrow> g | None \<Rightarrow> grants_default)"

definition forget_task :: "u64 \<Rightarrow> SandboxState \<Rightarrow> SandboxState" where
  "forget_task pid s =
     (let s = (case TABLE s of
                 None \<Rightarrow> s
               | Some m \<Rightarrow>
                   s\<lparr>TABLE := Some (bt_remove pid m),
                     SANDBOXED_COUNT := (case bt_get m pid of
                         Some l \<Rightarrow> if l \<noteq> Trusted then SANDBOXED_COUNT s - 1 else SANDBOXED_COUNT s
                       | None \<Rightarrow> SANDBOXED_COUNT s)\<rparr>)
      in s\<lparr>GRANTS := map_option (bt_remove pid) (GRANTS s)\<rparr>)"

definition level_of :: "SandboxState \<Rightarrow> u64 \<Rightarrow> SandboxLevel" where
  "level_of s pid =
     (case Option.bind (TABLE s) (\<lambda>m. bt_get m pid) of Some l \<Rightarrow> l | None \<Rightarrow> Trusted)"

definition TRUSTED_APPS :: "str list" where
  "TRUSTED_APPS = map lit [''user_init'', ''ath-sh'', ''athshell'', ''driver_supervisor'', ''amdgpud'',
     ''i915d'', ''nvidiad'', ''athinstaller'', ''settings'', ''task_mgr'', ''files'', ''terminal'',
     ''text_editor'', ''kanata_daemon'']"

definition level_for_app :: "str \<Rightarrow> SandboxLevel" where
  "level_for_app name =
     (let base = after_last 47 name in if base \<in> set TRUSTED_APPS then Trusted else AppSandbox)"

section \<open>Gated calls\<close>

datatype GateClass = Device | NetworkClass | Install

definition SYS_DRIVER_REGISTER :: u64 where "SYS_DRIVER_REGISTER = 109"
definition SYS_DRIVER_CLAIM_DEVICE :: u64 where "SYS_DRIVER_CLAIM_DEVICE = 111"
definition SYS_DRIVER_ENABLE_DMA :: u64 where "SYS_DRIVER_ENABLE_DMA = 113"
definition SYS_DRIVER_IRQ_SETUP :: u64 where "SYS_DRIVER_IRQ_SETUP = 116"
definition SYS_DRIVER_DMA_MAP :: u64 where "SYS_DRIVER_DMA_MAP = 117"
definition SYS_DRIVER_DMA_UNMAP :: u64 where "SYS_DRIVER_DMA_UNMAP = 118"
definition SYS_LINUXKPI_PCI_ENABLE :: u64 where "SYS_LINUXKPI_PCI_ENABLE = 132"
definition SYS_INSTALL_RUN :: u64 where "SYS_INSTALL_RUN = 256"
definition SYS_INSTALL_CREATE_ACCOUNT :: u64 where "SYS_INSTALL_CREATE_ACCOUNT = 257"
definition SYS_NET_DNS :: u64 where "SYS_NET_DNS = 264"

lemmas syscall_numbers = SYS_DRIVER_REGISTER_def SYS_DRIVER_CLAIM_DEVICE_def SYS_DRIVER_ENABLE_DMA_def
  SYS_DRIVER_IRQ_SETUP_def SYS_DRIVER_DMA_MAP_def SYS_DRIVER_DMA_UNMAP_def SYS_LINUXKPI_PCI_ENABLE_def
  SYS_INSTALL_RUN_def SYS_INSTALL_CREATE_ACCOUNT_def SYS_NET_DNS_def

definition class_of :: "u64 \<Rightarrow> GateClass option" where
  "class_of nr =
     (if nr = SYS_DRIVER_REGISTER \<or> nr = SYS_DRIVER_CLAIM_DEVICE \<or> nr = SYS_DRIVER_ENABLE_DMA
         \<or> nr = SYS_DRIVER_IRQ_SETUP \<or> nr = SYS_DRIVER_DMA_MAP \<or> nr = SYS_DRIVER_DMA_UNMAP
         \<or> nr = SYS_LINUXKPI_PCI_ENABLE then Some Device
      else if nr = 121 \<or> nr = 122 then Some NetworkClass
      else if nr = SYS_INSTALL_RUN \<or> nr = SYS_INSTALL_CREATE_ACCOUNT then Some Install
      else None)"

definition class_of_device :: "u8 \<Rightarrow> DeviceKind" where
  "class_of_device pci_class =
     (if pci_class = 0x01 then StorageDev
      else if pci_class = 0x02 then NicDev
      else if pci_class = 0x03 then GpuDev
      else if pci_class = 0x04 then AudioDev
      else if pci_class = 0x0C then UsbDev
      else OtherDev)"

text \<open>
  The fields of \<^verbatim>\<open>PciDevice\<close> the gate reads. What \<^verbatim>\<open>pci::enumerate\<close> finds on the bus is an
  argument of the functions below.
\<close>

record PciDevice =
  pci_bus :: u8
  pci_device :: u8
  pci_function :: u8
  pci_class :: u8

definition device_kind_of_id :: "PciDevice list \<Rightarrow> u64 \<Rightarrow> DeviceKind" where
  "device_kind_of_id devs device_id =
     (if drop_bit 24 device_id \<noteq> 0 then OtherDev
      else
        let bus = ucast (drop_bit 16 device_id AND 0xFF) :: u8;
            dev = ucast (drop_bit 8 device_id AND 0xFF) :: u8;
            func = ucast (device_id AND 0xFF) :: u8
        in case find (\<lambda>d. pci_bus d = bus \<and> pci_device d = dev \<and> pci_function d = func) devs of
             Some d \<Rightarrow> class_of_device (pci_class d)
           | None \<Rightarrow> OtherDev)"

fun request_for :: "GateClass \<Rightarrow> DeviceKind \<Rightarrow> SyscallRequest" where
  "request_for Device k = DeviceAccess k True"
| "request_for Install k = CapabilityRequest SystemConfig"
| "request_for NetworkClass k = NetworkConnect 0 Outbound_dir"

definition class_of_linux :: "u64 \<Rightarrow> GateClass option" where
  "class_of_linux nr = (if 41 \<le> nr \<and> nr \<le> 55 then Some NetworkClass else None)"

fun granted :: "Grants \<Rightarrow> GateClass \<Rightarrow> bool" where
  "granted g Device = g_devices g"
| "granted g NetworkClass = g_network g"
| "granted g Install = g_install g"

definition gate :: "u64 \<Rightarrow> u64 \<Rightarrow> GateClass option \<Rightarrow> DeviceKind \<Rightarrow> SandboxState \<Rightarrow> bool \<times> SandboxState" where
  "gate now pid cls dev_kind s =
     (if SANDBOXED_COUNT s = 0 then (True, s)
      else
        let level = level_of s pid in
        if level = Trusted then (True, s)
        else case cls of
          None \<Rightarrow> (True, s)
        | Some c \<Rightarrow>
            let s = s\<lparr>CHECKS := CHECKS s + 1\<rparr> in
            if level = AppSandbox \<and> granted (grants_of s pid) c
            then (True, s\<lparr>GRANT_ALLOWS := GRANT_ALLOWS s + 1\<rparr>)
            else
              let enforcer = enforcer_new (from_profile (level_profile level)) Deny in
              case fst (enforcer_check (request_for c dev_kind) pid now enforcer) of
                Allowed \<Rightarrow> (True, s)
              | Denied \<Rightarrow> (False, s\<lparr>DENIALS := DENIALS s + 1\<rparr>))"

definition check_syscall :: "u64 \<Rightarrow> u64 \<Rightarrow> u64 \<Rightarrow> SandboxState \<Rightarrow> bool \<times> SandboxState" where
  "check_syscall now pid nr s = gate now pid (class_of nr) OtherDev s"

definition check_syscall_dev ::
  "u64 \<Rightarrow> PciDevice list \<Rightarrow> u64 \<Rightarrow> u64 \<Rightarrow> u64 \<Rightarrow> SandboxState \<Rightarrow> bool \<times> SandboxState" where
  "check_syscall_dev now devs pid nr device_id s =
     (let dev_kind = (if nr = SYS_DRIVER_CLAIM_DEVICE then device_kind_of_id devs device_id else OtherDev)
      in gate now pid (class_of nr) dev_kind s)"

definition check_linux_syscall :: "u64 \<Rightarrow> u64 \<Rightarrow> u64 \<Rightarrow> SandboxState \<Rightarrow> bool \<times> SandboxState" where
  "check_linux_syscall now pid nr s = gate now pid (class_of_linux nr) OtherDev s"

section \<open>The system call edge\<close>

type_synonym LinuxTasks = "(u64, bool) btree"

definition mark_task_as_linux :: "u64 \<Rightarrow> LinuxTasks \<Rightarrow> LinuxTasks" where
  "mark_task_as_linux pid m = bt_insert pid True m"

definition is_linux_task :: "LinuxTasks \<Rightarrow> u64 \<Rightarrow> bool" where
  "is_linux_task m pid = (case bt_get m pid of Some b \<Rightarrow> b | None \<Rightarrow> False)"

definition unmark_linux_task :: "u64 \<Rightarrow> LinuxTasks \<Rightarrow> LinuxTasks" where
  "unmark_linux_task pid m = bt_remove pid m"

text \<open>
  The head of \<^verbatim>\<open>syscall_handler_inner\<close>: a refused call returns with all ones in \<^verbatim>\<open>rax\<close>, any
  other goes on to the Linux or the native table.
\<close>

datatype dispatch = Refused Regs | To_linux Regs | To_native Regs

definition caller_pid :: "nat \<Rightarrow> Scheduler \<Rightarrow> u64" where
  "caller_pid cpu sched = (case current_task_id cpu sched of Some (TaskId n) \<Rightarrow> n | None \<Rightarrow> 0)"

definition syscall_edge ::
  "u64 \<Rightarrow> PciDevice list \<Rightarrow> LinuxTasks \<Rightarrow> nat \<Rightarrow> Scheduler \<Rightarrow> Regs \<Rightarrow> SandboxState \<Rightarrow> dispatch \<times> SandboxState" where
  "syscall_edge now devs linux cpu sched regs s =
     (let pid = caller_pid cpu sched;
          is_linux = is_linux_task linux pid;
          (gate_ok, s) = (if is_linux then check_linux_syscall now pid (rax regs) s
                          else check_syscall_dev now devs pid (rax regs) (rsi regs) s)
      in (if \<not> gate_ok then Refused (regs\<lparr>rax := - 1\<rparr>)
          else if is_linux then To_linux regs else To_native regs, s))"

section \<open>The fast path counter\<close>

definition sb_ok :: "SandboxState \<Rightarrow> bool" where
  "sb_ok s \<longleftrightarrow> (case TABLE s of
      None \<Rightarrow> SANDBOXED_COUNT s = 0
    | Some m \<Rightarrow> bt_ok m \<and> (\<forall>pid. bt_get m pid \<noteq> Some Trusted) \<and> SANDBOXED_COUNT s = word_of_nat (length m))"

lemma length_bt_remove:
  "bt_ok m \<Longrightarrow> bt_get m k = Some v \<Longrightarrow> Suc (length (bt_remove k m)) = length m"
  using bt_sum_remove [of m k v "\<lambda>_ _. 1"] by (simp add: length_bt_sum)

lemma length_bt_insert_new: "bt_get m k = None \<Longrightarrow> length (bt_insert k v m) = Suc (length m)"
  using bt_sum_insert_new [of m k "\<lambda>_ _. 1" v] by (simp add: length_bt_sum)

lemma count_remove:
  assumes "bt_ok m" and "bt_get m k = Some v"
  shows "word_of_nat (length m) - 1 = (word_of_nat (length (bt_remove k m)) :: usize)"
  using length_bt_remove [OF assms, symmetric] by simp

lemma sb_ok_init: "TABLE s = None \<Longrightarrow> sb_ok s \<Longrightarrow> sb_ok (sandbox_init s)"
  by (simp add: sb_ok_def sandbox_init_def bt_empty_def)

lemma sb_ok_set_level:
  assumes "sb_ok s"
  shows "sb_ok (set_task_level pid level s)"
proof (cases "TABLE s")
  case (Some m)
  with assms have m: "bt_ok m" "\<And>p. bt_get m p \<noteq> Some Trusted" "SANDBOXED_COUNT s = word_of_nat (length m)"
    by (simp_all add: sb_ok_def)
  show ?thesis
  proof (cases "bt_get m pid")
    case None
    then show ?thesis
      using Some m by (simp add: sb_ok_def set_task_level_def Let_def bt_remove_absent length_bt_insert_new)
  next
    case (Some l)
    then have "l \<noteq> Trusted" using m(2) by auto
    then show ?thesis
      using \<open>TABLE s = Some m\<close> Some m count_remove [OF m(1) Some] length_bt_insert_old [OF m(1), of pid]
      by (simp add: sb_ok_def set_task_level_def Let_def)
  qed
qed (use assms in \<open>simp add: set_task_level_def\<close>)

lemma sb_ok_forget:
  assumes "sb_ok s"
  shows "sb_ok (forget_task pid s)"
proof (cases "TABLE s")
  case (Some m)
  with assms have m: "bt_ok m" "\<And>p. bt_get m p \<noteq> Some Trusted" "SANDBOXED_COUNT s = word_of_nat (length m)"
    by (simp_all add: sb_ok_def)
  show ?thesis
  proof (cases "bt_get m pid")
    case None
    then show ?thesis using Some m by (simp add: sb_ok_def forget_task_def Let_def bt_remove_absent)
  next
    case (Some l)
    then have "l \<noteq> Trusted" using m(2) by auto
    then show ?thesis
      using \<open>TABLE s = Some m\<close> Some m count_remove [OF m(1) Some]
      by (simp add: sb_ok_def forget_task_def Let_def)
  qed
qed (use assms in \<open>simp add: forget_task_def sb_ok_def\<close>)

lemma sb_ok_set_grants: "sb_ok s \<Longrightarrow> sb_ok (set_task_grants pid g s)"
  by (simp add: sb_ok_def set_task_grants_def split: option.splits)

lemma gate_frame:
  "TABLE (snd (gate now pid cls k s)) = TABLE s"
  "GRANTS (snd (gate now pid cls k s)) = GRANTS s"
  "SANDBOXED_COUNT (snd (gate now pid cls k s)) = SANDBOXED_COUNT s"
  by (simp_all add: gate_def Let_def split: option.split SecurityDecision.split)

lemma sb_ok_gate: "sb_ok s \<Longrightarrow> sb_ok (snd (gate now pid cls k s))"
  by (simp add: sb_ok_def gate_frame cong: option.case_cong)

lemma syscall_edge_gate:
  "syscall_edge now devs linux cpu sched regs s =
     (let pid = caller_pid cpu sched; lin = is_linux_task linux pid;
          cls = (if lin then class_of_linux (rax regs) else class_of (rax regs));
          k = (if \<not> lin \<and> rax regs = SYS_DRIVER_CLAIM_DEVICE then device_kind_of_id devs (rsi regs) else OtherDev);
          r = gate now pid cls k s
      in (if \<not> fst r then Refused (regs\<lparr>rax := - 1\<rparr>) else if lin then To_linux regs else To_native regs,
          snd r))"
  by (simp add: syscall_edge_def check_linux_syscall_def check_syscall_dev_def Let_def split: prod.split)

text \<open>The operations the kernel applies to the tables: at boot, on spawn and exit, and on each call.\<close>

inductive sb_step :: "SandboxState \<Rightarrow> SandboxState \<Rightarrow> bool" where
  boot: "TABLE s = None \<Longrightarrow> sb_step s (sandbox_init s)"
| level: "sb_step s (set_task_level pid l s)"
| grants: "sb_step s (set_task_grants pid g s)"
| exit: "sb_step s (forget_task pid s)"
| syscall: "sb_step s (snd (syscall_edge now devs linux cpu sched regs s))"
| probe: "sb_step s (snd (check_syscall now pid nr s))"

interpretation sandbox: inductive_invariant "\<lambda>s. s = sandbox_static" sb_step sb_ok
proof
  show "s = sandbox_static \<Longrightarrow> sb_ok s" for s
    by (simp add: sandbox_static_def sb_ok_def)
  show "sb_step s t \<Longrightarrow> sb_ok s \<Longrightarrow> sb_ok t" for s t
  proof (induction rule: sb_step.induct)
    case (syscall s now devs linux cpu sched regs)
    then show ?case by (simp add: syscall_edge_gate Let_def sb_ok_gate)
  next
    case (probe s now pid nr)
    then show ?case by (simp add: check_syscall_def sb_ok_gate)
  qed (simp_all add: sb_ok_init sb_ok_set_level sb_ok_forget sb_ok_set_grants)
qed

section \<open>The verdict\<close>

text \<open>What the levels and grants alone say about a call of class \<open>cls\<close>.\<close>

definition may_call :: "SandboxState \<Rightarrow> u64 \<Rightarrow> GateClass option \<Rightarrow> bool" where
  "may_call s pid cls \<longleftrightarrow> (case cls of
      None \<Rightarrow> True
    | Some c \<Rightarrow> (case level_of s pid of
        Trusted \<Rightarrow> True
      | AppSandbox \<Rightarrow> granted (grants_of s pid) c
      | Strict \<Rightarrow> False))"

text \<open>Neither profile of a sandboxed task lets any gated request through, for any device.\<close>

lemma profile_denies:
  "l \<noteq> Trusted \<Longrightarrow> decision_of (enforcer_new (from_profile (level_profile l)) Deny) (request_for c k) = Denied"
  by (cases l; cases c)
    (simp_all add: enforcer_new_def profile_defs builder_defs default_limits_def check_device_def
      check_network_def mode_ok_def allows_write_def)

text \<open>With a table of distinct 64-bit keys the counter wraps to zero only when every id is in it.\<close>

lemma count_zero_all_trusted:
  assumes "sb_ok s" and "SANDBOXED_COUNT s = 0" and "level_of s p0 = Trusted"
  shows "level_of s pid = Trusted"
proof (cases "TABLE s")
  case (Some m)
  with assms have m: "bt_ok m" "bt_get m p0 = None" "word_of_nat (length m) = (0 :: usize)"
    by (auto simp: sb_ok_def level_of_def split: option.splits)
  have "length m = card (fst ` set m)"
    using distinct_card [OF bt_ok_distinct [OF m(1)]] by simp
  also have "\<dots> < card (UNIV :: u64 set)"
    using m(2) by (intro psubset_card_mono) (auto simp: bt_get_def map_of_eq_None_iff)
  finally have "length m < 2 ^ 64" by (simp add: card_word)
  then have "unat (word_of_nat (length m) :: usize) = length m"
    by (simp add: unat_of_nat take_bit_nat_eq_self)
  with m(3) have "m = []" by simp
  then show ?thesis using Some by (simp add: level_of_def)
qed (simp add: level_of_def)

lemma gate_verdict:
  assumes "sb_ok s" and "level_of s p0 = Trusted"
  shows "fst (gate now pid cls k s) = may_call s pid cls"
proof (cases "SANDBOXED_COUNT s = 0")
  case True
  then have "level_of s pid = Trusted" using count_zero_all_trusted [OF assms(1)] assms(2) by blast
  then show ?thesis using True by (simp add: gate_def may_call_def split: option.split)
next
  case False
  have "grants_of (s\<lparr>CHECKS := n\<rparr>) pid = grants_of s pid" for n by (simp add: grants_of_def)
  with False show ?thesis
    using profile_denies [of "level_of s pid"]
    by (cases "level_of s pid") (simp_all add: gate_def may_call_def Let_def split: option.split)
qed

lemma gate_keeps_tables:
  "level_of (snd (gate now pid cls k s)) = level_of s" "grants_of (snd (gate now pid cls k s)) = grants_of s"
  by (simp_all add: fun_eq_iff level_of_def grants_of_def gate_frame)

text \<open>A call that resolves a host name is not gated: a task at level \<open>Strict\<close> may make it.\<close>

lemma dns_not_gated: "class_of SYS_NET_DNS = None"
  by (simp add: class_of_def syscall_numbers)

section \<open>Properties\<close>

text \<open>
  C3. Mandatory sandboxing at the system call edge. In every state reached by booting,
  spawning, exiting and earlier calls, and as long as some task id is not sandboxed, a call
  goes on to its table exactly when it is not gated, or the caller is trusted, or the
  caller is at the application level and its manifest grants the call's class; otherwise
  it returns with all ones. A strict task passes no gated call. The gate's fast path, the
  devices on the bus and the time make no difference, and no call changes a level or a
  grant.
\<close>

theorem sandbox_gate:
  assumes "rtranclp sb_step sandbox_static s" and "level_of s p0 = Trusted"
    and "syscall_edge now devs linux cpu sched regs s = (d, s')"
  shows "d = (let pid = caller_pid cpu sched; lin = is_linux_task linux pid in
              if may_call s pid (if lin then class_of_linux (rax regs) else class_of (rax regs))
              then (if lin then To_linux regs else To_native regs)
              else Refused (regs\<lparr>rax := - 1\<rparr>))
    \<and> level_of s' = level_of s \<and> grants_of s' = grants_of s"
proof -
  have ok: "sb_ok s" using refl assms(1) by (rule sandbox.reachable_inv)
  show ?thesis
    using assms(3) by (auto simp: syscall_edge_gate Let_def gate_verdict [OF ok assms(2)] gate_keeps_tables)
qed

section \<open>Witnesses\<close>

definition wit_sched :: Scheduler where
  "wit_sched = \<lparr>runqueues = [], switch_stash = [], blocked_tasks = [],
     current_task = [Some \<lparr>task_id = TaskId 7, cap_table = cap_table_new\<rparr>]\<rparr>"

definition wit_sandbox :: SandboxState where
  "wit_sandbox = set_task_level 7 Strict (sandbox_init sandbox_static)"

definition wit_regs :: Regs where
  "wit_regs = \<lparr>rax = 121, rdi = 0, rsi = 0, rdx = 0, r10 = 0, r8 = 0\<rparr>"

theorem sandbox_gate_witness:
  "fst (syscall_edge 0 [] bt_empty 0 wit_sched wit_regs wit_sandbox) = Refused (wit_regs\<lparr>rax := - 1\<rparr>)"
proof -
  have "sb_step sandbox_static (sandbox_init sandbox_static)"
    by (rule sb_step.boot) (simp add: sandbox_static_def)
  moreover have "sb_step (sandbox_init sandbox_static) wit_sandbox"
    unfolding wit_sandbox_def by (rule sb_step.level)
  ultimately have reach: "rtranclp sb_step sandbox_static wit_sandbox"
    by (meson rtranclp.intros)
  have trusted: "level_of wit_sandbox 0 = Trusted" by code_simp
  obtain d s' where e: "syscall_edge 0 [] bt_empty 0 wit_sched wit_regs wit_sandbox = (d, s')"
    by (cases "syscall_edge 0 [] bt_empty 0 wit_sched wit_regs wit_sandbox")
  have pid: "caller_pid 0 wit_sched = 7" by code_simp
  have no: "\<not> may_call wit_sandbox 7 (class_of (rax wit_regs))" by code_simp
  have lin: "\<not> is_linux_task bt_empty 7" by code_simp
  from sandbox_gate [OF reach trusted e] show ?thesis
    by (simp only: e fst_conv pid no lin Let_def if_False)
qed

end
