(* ===== verification/Tar.thy ===== *)
theory Tar
  imports Rust_Str
begin

text \<open>
  The reader of the initial RAM file system (\<^verbatim>\<open>kernel/src/tar.rs\<close>). Offsets are natural
  numbers: a size field has eleven octal digits, so for any archive that fits in memory the
  additions of the source stay far below the width of \<^verbatim>\<open>usize\<close> (\<open>tar_no_overflow\<close>). The
  theory shows that both readers return exactly what a writer of the format put in, that
  they always stop, and what they do on an archive that was cut off.
\<close>

unbundle bit_operations_syntax

section \<open>Reading\<close>

record TarFile =
  tf_name :: str
  tf_data :: "u8 list"

definition entry_name :: "u8 list \<Rightarrow> str" where
  "entry_name header =
     (case from_utf8 (takeWhile (\<lambda>b. b \<noteq> 0) (take 100 header)) of Some s \<Rightarrow> s | None \<Rightarrow> [])"

definition entry_size :: "u8 list \<Rightarrow> usize" where
  "entry_size header =
     (let size_str = trim (case from_utf8 (take 11 (drop 124 header)) of Some s \<Rightarrow> s | None \<Rightarrow> lit ''0'')
      in case from_octal size_str of Some n \<Rightarrow> n | None \<Rightarrow> 0)"

definition padded_size :: "usize \<Rightarrow> usize" where
  "padded_size sz = (sz + 511) AND NOT 511"

function get_file_from :: "u8 list \<Rightarrow> nat \<Rightarrow> str \<Rightarrow> TarFile option rust" where
  "get_file_from data offset path =
     (if offset + 512 \<le> length data then
        let header = take 512 (drop offset data) in
        if header ! 0 = 0 then Ret None
        else
          let name = entry_name header;
              sz = entry_size header;
              file_data_start = offset + 512;
              file_data_end = file_data_start + unat sz in
          if name = path then
            (if file_data_end \<le> length data
             then Ret (Some \<lparr>tf_name = name, tf_data = take (unat sz) (drop file_data_start data)\<rparr>)
             else Panic)
          else get_file_from data (file_data_start + unat (padded_size sz)) path
      else Ret None)"
  by pat_completeness auto
termination
  by (relation "measure (\<lambda>(data, offset, path). length data - offset)") auto

declare get_file_from.simps [simp del]

definition get_file :: "u8 list \<Rightarrow> str \<Rightarrow> TarFile option rust" where
  "get_file data path = get_file_from data 0 path"

text \<open>\<^verbatim>\<open>TarIter::next\<close>: the next file and the offset after it.\<close>

function tar_next :: "u8 list \<Rightarrow> nat \<Rightarrow> (TarFile \<times> nat) option" where
  "tar_next data offset =
     (if offset + 512 \<le> length data then
        let header = take 512 (drop offset data) in
        if header ! 0 = 0 then None
        else
          let name = entry_name header;
              sz = entry_size header;
              file_data_start = offset + 512;
              file_data_end = file_data_start + unat sz in
          if file_data_end > length data then None
          else
            let file = \<lparr>tf_name = name, tf_data = take (unat sz) (drop file_data_start data)\<rparr>;
                offset' = file_data_start + unat (padded_size sz) in
            if sz > 0 \<and> \<not> (name \<noteq> [] \<and> last name = 47) then Some (file, offset')
            else tar_next data offset'
      else None)"
  by pat_completeness auto
termination
  by (relation "measure (\<lambda>(data, offset). length data - offset)") auto

declare tar_next.simps [simp del]

lemma tar_next_advances: "tar_next data offset = Some (f, offset') \<Longrightarrow> offset < offset' \<and> offset < length data"
proof (induction data offset rule: tar_next.induct)
  case (1 data offset)
  show ?case
    using "1.prems" "1.IH"
    by (subst (asm) tar_next.simps) (fastforce simp: Let_def split: if_splits)
qed

text \<open>What a \<^verbatim>\<open>for\<close> loop over the iterator sees.\<close>

function tar_iter :: "u8 list \<Rightarrow> nat \<Rightarrow> TarFile list" where
  "tar_iter data offset =
     (case tar_next data offset of
        None \<Rightarrow> []
      | Some (f, offset') \<Rightarrow> f # tar_iter data offset')"
  by pat_completeness auto
termination
  by (relation "measure (\<lambda>(data, offset). length data - offset)")
    (use tar_next_advances in fastforce)+

declare tar_iter.simps [simp del]

section \<open>The format\<close>

text \<open>
  A writer of the format, as \<^verbatim>\<open>tar\<close> lays an archive out: a header block with the name, eleven
  octal digits of the size, the data padded to a multiple of 512 bytes, and two zero blocks
  at the end. The header fields the reader does not look at are zero.
\<close>

fun octal :: "nat \<Rightarrow> nat \<Rightarrow> u8 list" where
  "octal 0 n = []"
| "octal (Suc k) n = octal k (n div 8) @ [word_of_nat (48 + n mod 8)]"

definition pad_to :: "nat \<Rightarrow> u8 list \<Rightarrow> u8 list" where
  "pad_to n bs = bs @ replicate (n - length bs) 0"

definition tar_header :: "u8 list \<Rightarrow> nat \<Rightarrow> u8 list" where
  "tar_header name sz = pad_to 512 (pad_to 124 name @ octal 11 sz)"

definition tar_entry :: "u8 list \<times> u8 list \<Rightarrow> u8 list" where
  "tar_entry e = tar_header (fst e) (length (snd e)) @ pad_to ((length (snd e) + 511) div 512 * 512) (snd e)"

definition tar_archive :: "(u8 list \<times> u8 list) list \<Rightarrow> u8 list" where
  "tar_archive es = concat (map tar_entry es) @ replicate 1024 0"

definition entry_ok :: "u8 list \<times> u8 list \<Rightarrow> bool" where
  "entry_ok e \<longleftrightarrow> fst e \<noteq> [] \<and> length (fst e) \<le> 100 \<and> list_all (\<lambda>b. 0 < b \<and> b < 0x80) (fst e)
     \<and> length (snd e) < 8 ^ 11"

definition entry_file :: "u8 list \<times> u8 list \<Rightarrow> TarFile" where
  "entry_file e = \<lparr>tf_name = map unat (fst e), tf_data = snd e\<rparr>"

section \<open>Header fields\<close>

lemma length_octal [simp]: "length (octal k n) = k"
  by (induction k n rule: octal.induct) auto

lemma unat_octal_digit: "unat (word_of_nat (48 + n mod 8) :: u8) = 48 + n mod 8"
proof -
  have "unat (word_of_nat m :: u8) = m" if "m < 256" for m
    using that by (simp add: unat_of_nat take_bit_eq_mod)
  moreover have "n mod 8 < 8" by simp
  then have "48 + n mod 8 < 256" by linarith
  ultimately show ?thesis by blast
qed

lemma octal_digits_octal:
  assumes "acc * 8 ^ k + n mod 8 ^ k < 2 ^ 64"
  shows "octal_digits acc (map unat (octal k n) @ rest) = octal_digits (acc * 8 ^ k + n mod 8 ^ k) rest"
  using assms
proof (induction k arbitrary: n rest)
  case (Suc k)
  let ?m = "acc * 8 ^ k + n div 8 mod 8 ^ k"
  have eq: "acc * 8 ^ Suc k + n mod 8 ^ Suc k = ?m * 8 + n mod 8"
    by (simp add: mod_mult2_eq algebra_simps)
  have bound: "?m * 8 + n mod 8 < 2 ^ 64" using Suc.prems by (simp only: eq)
  have "?m \<le> ?m * 8 + n mod 8" by (rule trans_le_add1) simp
  then have "?m < 2 ^ 64" using bound by (rule le_less_trans)
  have "n mod 8 < 8" by simp
  then have "n mod 8 \<le> 7" by linarith
  have "octal_digits acc (map unat (octal (Suc k) n) @ rest)
      = octal_digits acc (map unat (octal k (n div 8)) @ (48 + n mod 8) # rest)"
    by (simp only: octal.simps map_append list.map unat_octal_digit append_assoc append.simps)
  also have "\<dots> = octal_digits ?m ((48 + n mod 8) # rest)"
    using \<open>?m < 2 ^ 64\<close> by (rule Suc.IH)
  also have "\<dots> = octal_digits (?m * 8 + n mod 8) rest"
    using bound \<open>n mod 8 \<le> 7\<close> by simp
  finally show ?case by (simp only: eq)
qed simp

lemma octal_chars: "b \<in> set (octal k n) \<Longrightarrow> 48 \<le> unat b \<and> unat b \<le> 55"
proof (induction k n rule: octal.induct)
  case (2 k n)
  have "n mod 8 < 8" by simp
  with 2 unat_octal_digit [of n] show ?case by auto
qed simp

lemma octal_nonempty: "0 < k \<Longrightarrow> octal k n \<noteq> []"
  by (cases k) simp_all

lemma from_octal_octal:
  assumes "0 < k" and "k \<le> 21" and "n < 8 ^ k"
  shows "from_octal (map unat (octal k n)) = Some (word_of_nat n)"
proof -
  obtain c cs where c: "octal k n = c # cs" using octal_nonempty [OF assms(1)] by (cases "octal k n") auto
  then have "unat c \<noteq> 43" using octal_chars [of c k n] by auto
  moreover have "(8::nat) ^ k \<le> 8 ^ 21" using assms(2) by (rule power_increasing) simp
  then have "octal_digits 0 (map unat (octal k n)) = Some n"
    using octal_digits_octal [of 0 k n "[]"] assms(3) by simp
  ultimately show ?thesis using c by (simp add: from_octal_def)
qed

lemma length_tar_header [simp]: "length name \<le> 124 \<Longrightarrow> length (tar_header name sz) = 512"
  by (simp add: tar_header_def pad_to_def)

lemma tar_header_name:
  assumes "entry_ok e"
  shows "entry_name (tar_header (fst e) sz @ rest) = map unat (fst e)"
    and "(tar_header (fst e) sz @ rest) ! 0 \<noteq> 0"
proof -
  let ?n = "fst e"
  have ok: "?n \<noteq> []" "length ?n \<le> 100" "\<forall>b\<in>set ?n. 0 < b \<and> b < 0x80"
    using assms by (auto simp: entry_ok_def list_all_iff)
  let ?t = "take 100 (?n @ replicate (124 - length ?n) 0)"
  have take: "take 100 (tar_header ?n sz @ rest) = ?t"
    using ok(2) by (simp add: tar_header_def pad_to_def)
  have "takeWhile (\<lambda>b. b \<noteq> 0) ?t = ?n"
    using ok by (auto simp: takeWhile_append takeWhile_replicate)
  moreover have "from_utf8 ?n = Some (map unat ?n)"
    using ok(3) by (intro from_utf8_ascii) (simp add: list_all_iff)
  ultimately show "entry_name (tar_header ?n sz @ rest) = map unat ?n"
    by (simp only: entry_name_def take option.case)
  show "(tar_header ?n sz @ rest) ! 0 \<noteq> 0"
    using ok by (cases ?n) (auto simp: tar_header_def pad_to_def)
qed

lemma tar_header_size:
  assumes "length name \<le> 124" and "sz < 8 ^ 11"
  shows "entry_size (tar_header name sz @ rest) = word_of_nat sz"
proof -
  let ?d = "octal 11 sz"
  have bytes: "take 11 (drop 124 (tar_header name sz @ rest)) = ?d"
    using assms(1) by (simp add: tar_header_def pad_to_def)
  have ascii: "from_utf8 ?d = Some (map unat ?d)"
    using octal_chars [of _ 11 sz]
    by (intro from_utf8_ascii) (fastforce simp: list_all_iff word_less_nat_alt)
  have ne: "map unat ?d \<noteq> []" using octal_nonempty [of 11 sz] by simp
  have "hd (map unat ?d) \<in> set (map unat ?d)" "last (map unat ?d) \<in> set (map unat ?d)"
    using hd_in_set [OF ne] last_in_set [OF ne] by blast+
  then have "\<not> is_whitespace (hd (map unat ?d)) \<and> \<not> is_whitespace (last (map unat ?d))"
    using octal_chars [of _ 11 sz] not_whitespace_digit by fastforce
  then have "trim (map unat ?d) = map unat ?d" by (intro trim_id) simp
  then show ?thesis
    using from_octal_octal [of 11 sz] assms(2) by (simp only: entry_size_def bytes ascii) simp
qed

section \<open>One entry at a time\<close>

lemma unat_padded_size:
  assumes "n < 8 ^ 11"
  shows "unat (padded_size (word_of_nat n)) = (n + 511) div 512 * 512"
proof -
  let ?w = "word_of_nat n + 511 :: usize"
  have w: "unat ?w = n + 511"
    using assms by (simp add: unat_word_ariths unat_of_nat take_bit_eq_mod)
  have "?w AND NOT 511 = ?w AND NOT (mask 9)" by (simp add: mask_numeral)
  also have "\<dots> = push_bit 9 (drop_bit 9 ?w)" by (rule bit_word_eqI) (auto simp: bit_simps)
  finally have "padded_size (word_of_nat n) = push_bit 9 (drop_bit 9 ?w)" by (simp add: padded_size_def)
  moreover have "unat (push_bit 9 (drop_bit 9 ?w)) = unat ?w div 512 * 512"
  proof -
    have "unat (drop_bit 9 ?w) = unat ?w div 512" by (simp add: drop_bit_eq_div unat_div)
    moreover have "unat ?w div 512 * 512 < 2 ^ 64"
      using div_times_less_eq_dividend [of "unat ?w" 512] assms by (simp add: w)
    ultimately show ?thesis
      by (simp add: push_bit_eq_mult unat_word_ariths)
  qed
  ultimately show ?thesis by (simp add: w)
qed

lemma tar_entry_split:
  assumes "entry_ok e" and "data = pre @ tar_entry e @ rest"
  defines "header \<equiv> take 512 (drop (length pre) data)"
  shows "length pre + 512 + length (snd e) \<le> length data" and "header ! 0 \<noteq> 0"
    and "entry_name header = map unat (fst e)" and "entry_size header = word_of_nat (length (snd e))"
    and "take (length (snd e)) (drop (length pre + 512) data) = snd e"
    and "length pre + 512 + unat (padded_size (word_of_nat (length (snd e)))) = length (pre @ tar_entry e)"
    and "unat (word_of_nat (length (snd e)) :: usize) = length (snd e)"
proof -
  let ?n = "length (snd e)" and ?h = "tar_header (fst e) (length (snd e))"
  have ok: "length (fst e) \<le> 124" "?n < 8 ^ 11" using assms(1) by (auto simp: entry_ok_def)
  have le: "?n \<le> (?n + 511) div 512 * 512"
    using div_mult_mod_eq [of "?n + 511" 512] mod_less_divisor [of 512 "?n + 511"] by linarith
  have h: "header = ?h" using ok(1) by (simp add: header_def assms(2) tar_entry_def)
  show "length pre + 512 + ?n \<le> length data"
    using ok(1) le by (simp add: assms(2) tar_entry_def pad_to_def)
  show "header ! 0 \<noteq> 0" and "entry_name header = map unat (fst e)"
    using tar_header_name [OF assms(1), of ?n "[]"] by (simp_all add: h)
  show "entry_size header = word_of_nat ?n"
    using tar_header_size [OF ok, of "[]"] by (simp add: h)
  show "take ?n (drop (length pre + 512) data) = snd e"
    using ok(1) by (simp add: assms(2) tar_entry_def pad_to_def)
  show "length pre + 512 + unat (padded_size (word_of_nat ?n)) = length (pre @ tar_entry e)"
    using ok le by (simp add: unat_padded_size tar_entry_def pad_to_def)
  show "unat (word_of_nat ?n :: usize) = ?n"
    using ok(2) by (simp add: unat_of_nat take_bit_eq_mod)
qed

lemma get_file_entry:
  assumes "entry_ok e" and "data = pre @ tar_entry e @ rest"
  shows "get_file_from data (length pre) path =
     (if map unat (fst e) = path then Ret (Some (entry_file e))
      else get_file_from data (length (pre @ tar_entry e)) path)"
  using tar_entry_split [OF assms]
  by (subst get_file_from.simps) (simp add: Let_def entry_file_def add.assoc)

definition listed :: "u8 list \<times> u8 list \<Rightarrow> bool" where
  "listed e \<longleftrightarrow> snd e \<noteq> [] \<and> last (fst e) \<noteq> 47"

lemma tar_next_entry:
  assumes "entry_ok e" and "data = pre @ tar_entry e @ rest"
  shows "tar_next data (length pre) =
     (if listed e then Some (entry_file e, length (pre @ tar_entry e))
      else tar_next data (length (pre @ tar_entry e)))"
proof -
  note split = tar_entry_split [OF assms]
  have "fst e \<noteq> []" using assms(1) by (simp add: entry_ok_def)
  then have "last (map unat (fst e)) = 47 \<longleftrightarrow> last (fst e) = 47"
    by (simp add: last_map word_unat_eq_iff)
  moreover have "(0 :: usize) < word_of_nat (length (snd e)) \<longleftrightarrow> snd e \<noteq> []"
    using split(7) by (simp add: word_gt_0 word_unat_eq_iff)
  ultimately show ?thesis
    using split \<open>fst e \<noteq> []\<close>
    by (subst tar_next.simps) (cases "snd e = []"; simp add: Let_def entry_file_def listed_def add.assoc)
qed

lemma get_file_end: "data = pre @ replicate n 0 \<Longrightarrow> get_file_from data (length pre) path = Ret None"
  by (subst get_file_from.simps) (auto simp: Let_def)

lemma tar_next_end: "data = pre @ replicate n 0 \<Longrightarrow> tar_next data (length pre) = None"
  by (subst tar_next.simps) (auto simp: Let_def)

section \<open>Whole archives\<close>

lemma get_file_entries:
  assumes "list_all entry_ok es" and "data = pre @ concat (map tar_entry es) @ rest"
  shows "get_file_from data (length pre) path =
     (case find (\<lambda>e. map unat (fst e) = path) es of
        Some e \<Rightarrow> Ret (Some (entry_file e))
      | None \<Rightarrow> get_file_from data (length (pre @ concat (map tar_entry es))) path)"
  using assms
proof (induction es arbitrary: pre)
  case (Cons e es)
  from Cons.prems have "entry_ok e" and data: "data = pre @ tar_entry e @ concat (map tar_entry es) @ rest"
    by simp_all
  from get_file_entry [OF this] Cons.IH [of "pre @ tar_entry e"] Cons.prems show ?case
    by (simp add: add.assoc cong: option.case_cong)
qed simp

lemma tar_iter_entries:
  assumes "list_all entry_ok es" and "data = pre @ concat (map tar_entry es) @ rest"
  shows "tar_iter data (length pre) =
     map entry_file (filter listed es) @ tar_iter data (length (pre @ concat (map tar_entry es)))"
  using assms
proof (induction es arbitrary: pre)
  case (Cons e es)
  from Cons.prems have "entry_ok e" and data: "data = pre @ tar_entry e @ concat (map tar_entry es) @ rest"
    by simp_all
  note nxt = tar_next_entry [OF this]
  from Cons.IH [of "pre @ tar_entry e"] Cons.prems
  have "tar_iter data (length (pre @ tar_entry e)) = map entry_file (filter listed es)
      @ tar_iter data (length (pre @ concat (map tar_entry (e # es))))"
    by simp
  then show ?case
    using nxt tar_iter.simps [of data "length pre"] tar_iter.simps [of data "length (pre @ tar_entry e)"]
    by (cases "listed e") simp_all
qed simp

lemma tar_read_back:
  assumes "list_all entry_ok es"
  shows "get_file (tar_archive es) path
      = Ret (map_option entry_file (find (\<lambda>e. map unat (fst e) = path) es))"
    and "tar_iter (tar_archive es) 0 = map entry_file (filter listed es)"
proof -
  let ?pre = "concat (map tar_entry es)"
  have data: "tar_archive es = [] @ ?pre @ replicate 1024 0" by (simp add: tar_archive_def)
  have fin: "tar_archive es = ?pre @ replicate 1024 0" by (simp add: tar_archive_def)
  show "get_file (tar_archive es) path
      = Ret (map_option entry_file (find (\<lambda>e. map unat (fst e) = path) es))"
    using get_file_entries [OF assms data, of path] get_file_end [OF fin, of path]
    by (simp add: get_file_def split: option.split)
  show "tar_iter (tar_archive es) 0 = map entry_file (filter listed es)"
    using tar_iter_entries [OF assms data] tar_next_end [OF fin]
      tar_iter.simps [of "tar_archive es" "length ?pre"]
    by simp
qed

text \<open>
  An archive cut inside the data of its last entry \<open>e\<close>: only the first \<open>k\<close> bytes of the data
  are there.
\<close>

definition tar_cut :: "(u8 list \<times> u8 list) list \<Rightarrow> u8 list \<times> u8 list \<Rightarrow> nat \<Rightarrow> u8 list" where
  "tar_cut es e k = concat (map tar_entry es) @ tar_header (fst e) (length (snd e)) @ take k (snd e)"

lemma tar_cut_tail:
  fixes es :: "(u8 list \<times> u8 list) list"
  assumes "entry_ok e" and "k < length (snd e)"
  defines "pre \<equiv> concat (map tar_entry es)"
  shows "get_file_from (tar_cut es e k) (length pre) (map unat (fst e)) = Panic"
    and "tar_next (tar_cut es e k) (length pre) = None"
proof -
  let ?n = "length (snd e)"
  have ok: "length (fst e) \<le> 124" "?n < 8 ^ 11" using assms(1) by (auto simp: entry_ok_def)
  have header: "take 512 (drop (length pre) (tar_cut es e k)) = tar_header (fst e) ?n"
    using ok(1) by (simp add: tar_cut_def pre_def)
  have len: "length (tar_cut es e k) = length pre + 512 + k"
    using ok(1) assms(2) by (simp add: tar_cut_def pre_def)
  have n: "unat (word_of_nat ?n :: usize) = ?n" using ok(2) by (simp add: unat_of_nat take_bit_eq_mod)
  note h = tar_header_name [OF assms(1), of ?n "[]", simplified] tar_header_size [OF ok, of "[]", simplified]
  show "get_file_from (tar_cut es e k) (length pre) (map unat (fst e)) = Panic"
    using assms(2) n h by (subst get_file_from.simps) (simp add: Let_def header len del: nth_take)
  show "tar_next (tar_cut es e k) (length pre) = None"
    using assms(2) n h by (subst tar_next.simps) (simp add: Let_def header len del: nth_take)
qed

section \<open>No offset overflows\<close>

lemma length_from_utf8: "from_utf8 bs = Some s \<Longrightarrow> length s \<le> length bs"
proof (induction bs arbitrary: s rule: from_utf8.induct)
  case (2 b bs)
  then show ?case
    by (subst (asm) from_utf8.simps) (fastforce split: if_splits list.splits)
qed simp

lemma length_trim: "length (trim s) \<le> length s"
  unfolding trim_def by (metis length_dropWhile_le length_rev order_trans)

lemma entry_size_bound: "unat (entry_size header) < 8 ^ 11"
proof -
  let ?bs = "take 11 (drop 124 header)"
  let ?s = "trim (case from_utf8 ?bs of Some s \<Rightarrow> s | None \<Rightarrow> lit ''0'')"
  have "length ?s \<le> 11"
    using length_from_utf8 [of ?bs] length_trim
    by (fastforce simp: lit_def split: option.split intro: order_trans [OF length_trim])
  then show ?thesis
    using from_octal_bound [of ?s _ 11] by (auto simp: entry_size_def Let_def split: option.split)
qed

lemma tar_no_overflow:
  assumes "length data < 2 ^ 63" and "offset + 512 \<le> length data"
  shows "offset + 512 + unat (entry_size header) < 2 ^ 64"
    and "offset + 512 + unat (padded_size (entry_size header)) < 2 ^ 64"
proof -
  let ?n = "unat (entry_size header)"
  have n: "?n < 8 ^ 11" by (rule entry_size_bound)
  have "padded_size (entry_size header) = padded_size (word_of_nat ?n)" by simp
  then have "unat (padded_size (entry_size header)) = (?n + 511) div 512 * 512"
    by (simp only: unat_padded_size [OF n])
  also have "\<dots> \<le> ?n + 511" by (rule div_times_less_eq_dividend)
  finally have "unat (padded_size (entry_size header)) \<le> ?n + 511" .
  with n assms show "offset + 512 + ?n < 2 ^ 64"
    and "offset + 512 + unat (padded_size (entry_size header)) < 2 ^ 64"
    by simp_all
qed

section \<open>Properties\<close>


text \<open>
  A cut archive stops the kernel. When the archive ends inside the data of an entry,
  iterating returns the complete entries before it, but looking that entry up by name with
  \<open>get_file\<close> indexes past the end and panics.
\<close>

theorem tar_truncated_panics:
  assumes "list_all entry_ok (es @ [e])" and "fst e \<notin> fst ` set es" and "k < length (snd e)"
  shows "get_file (tar_cut es e k) (map unat (fst e)) = Panic
    \<and> tar_iter (tar_cut es e k) 0 = map entry_file (filter listed es)"
proof -
  let ?pre = "concat (map tar_entry es)"
  have ok: "list_all entry_ok es" "entry_ok e" using assms(1) by simp_all
  have data: "tar_cut es e k = [] @ ?pre @ tar_header (fst e) (length (snd e)) @ take k (snd e)"
    by (simp add: tar_cut_def)
  have "inj (unat :: u8 \<Rightarrow> nat)" by (rule injI) (simp only: word_unat_eq_iff)
  then have "find (\<lambda>x. map unat (fst x) = map unat (fst e)) es = None"
    using assms(2) by (auto simp: find_None_iff inj_map_eq_map image_iff)
  with get_file_entries [OF ok(1) data] tar_cut_tail(1) [OF ok(2) assms(3), of es]
  have "get_file (tar_cut es e k) (map unat (fst e)) = Panic" by (simp add: get_file_def)
  moreover have "tar_iter (tar_cut es e k) 0 = map entry_file (filter listed es)"
    using tar_iter_entries [OF ok(1) data] tar_cut_tail(2) [OF ok(2) assms(3), of es]
      tar_iter.simps [of "tar_cut es e k" "length ?pre"]
    by simp
  ultimately show ?thesis ..
qed

section \<open>Witnesses\<close>

definition wit_entry :: "u8 list \<times> u8 list" where
  "wit_entry = ([97], [1, 2, 3])"

lemma wit_entry_ok: "list_all entry_ok [wit_entry]"
  by (simp add: wit_entry_def entry_ok_def)


theorem tar_truncated_panics_witness: "get_file (tar_cut [] wit_entry 2) [97] = Panic"
proof -
  have ok: "list_all entry_ok ([] @ [wit_entry])" using wit_entry_ok by simp
  show ?thesis using tar_truncated_panics [OF ok, of 2] by (simp add: wit_entry_def)
qed

end
