(* ===== verification/Manifest.thy ===== *)
theory Manifest
  imports Sandbox Tar
begin

text \<open>
  Application manifests (\<^verbatim>\<open>kernel/src/rae_manifest.rs\<close>): the parser of \<^verbatim>\<open>RaeManifest.toml\<close>, the
  lookup of a bundle in the boot archive with its signature and hash checks, and the
  assignment of a sandbox level and grants to a task at spawn. The signature check of the
  embedded public key and SHA-256 are arguments. The theory shows what a task needs in
  order to run trusted or to pass a gated call, and what happens to a bundle that was
  tampered with.
\<close>

unbundle bit_operations_syntax

section \<open>Data\<close>

record RaeManifest =
  m_name :: str
  m_version :: str
  m_sandbox :: SandboxLevel
  m_grants :: Grants
  elf_sha256 :: "u8 list option"
  m_verified :: bool

definition manifest_default :: RaeManifest where
  "manifest_default = \<lparr>m_name = [], m_version = [], m_sandbox = AppSandbox, m_grants = grants_default,
     elf_sha256 = None, m_verified = False\<rparr>"

text \<open>The module's counters.\<close>

record ManifestState =
  DISCOVERED :: u64
  SPAWNS_FROM_MANIFEST :: u64
  SPAWNS_FROM_FALLBACK :: u64
  TRUST_CAPS :: u64

section \<open>The parser\<close>

fun comment_from :: "bool \<Rightarrow> str \<Rightarrow> str" where
  "comment_from in_str [] = []"
| "comment_from in_str (c # cs) =
     (if c = 34 then c # comment_from (\<not> in_str) cs
      else if c = 35 \<and> \<not> in_str then []
      else c # comment_from in_str cs)"

definition strip_comment :: "str \<Rightarrow> str" where
  "strip_comment l = comment_from False l"

definition parse_str :: "str \<Rightarrow> string + str" where
  "parse_str val =
     (case Option.bind (str_strip_prefix [34] (trim val)) (str_strip_suffix [34]) of
        None \<Rightarrow> Inl ''expected quoted string''
      | Some inner \<Rightarrow> if 34 \<in> set inner then Inl ''embedded quote in string'' else Inr inner)"

definition parse_bool :: "str \<Rightarrow> string + bool" where
  "parse_bool val =
     (if trim val = lit ''true'' then Inr True
      else if trim val = lit ''false'' then Inr False
      else Inl ''expected true|false'')"

definition hex_nibble :: "u8 \<Rightarrow> u8 option" where
  "hex_nibble b =
     (if 48 \<le> b \<and> b \<le> 57 then Some (b - 48)
      else if 97 \<le> b \<and> b \<le> 102 then Some (b - 97 + 10)
      else if 65 \<le> b \<and> b \<le> 70 then Some (b - 65 + 10)
      else None)"

fun hex_bytes :: "u8 list \<Rightarrow> u8 list option" where
  "hex_bytes (h # l # bs) =
     (case hex_nibble h of
        None \<Rightarrow> None
      | Some hi \<Rightarrow> (case hex_nibble l of
          None \<Rightarrow> None
        | Some lo \<Rightarrow> map_option ((#) (push_bit 4 hi OR lo)) (hex_bytes bs)))"
| "hex_bytes _ = Some []"

definition parse_hex32 :: "str \<Rightarrow> string + u8 list" where
  "parse_hex32 val =
     (case parse_str val of
        Inl e \<Rightarrow> Inl e
      | Inr s \<Rightarrow>
          let bytes = as_bytes s in
          if length bytes \<noteq> 64 then Inl ''elf_sha256 must be 64 hex chars''
          else case hex_bytes bytes of None \<Rightarrow> Inl ''invalid hex in elf_sha256'' | Some out \<Rightarrow> Inr out)"

text \<open>The section names \<^verbatim>\<open>""\<close>, \<^verbatim>\<open>"permissions"\<close> and \<^verbatim>\<open>"*"\<close> of the source.\<close>

datatype Section = TopLevel | Permissions | Unknown

definition parse_level :: "str \<Rightarrow> string + SandboxLevel" where
  "parse_level s =
     (if s = lit ''trusted'' then Inr Trusted
      else if s = lit ''app'' then Inr AppSandbox
      else if s = lit ''strict'' then Inr Strict
      else Inl ''sandbox must be trusted|app|strict'')"

definition put_key :: "Section \<Rightarrow> str \<Rightarrow> str \<Rightarrow> RaeManifest \<Rightarrow> string + RaeManifest" where
  "put_key section key val m =
     (if section = TopLevel \<and> key = lit ''name'' then
        sum_bind (parse_str val) (\<lambda>v. Inr (m\<lparr>m_name := v\<rparr>))
      else if section = TopLevel \<and> key = lit ''version'' then
        sum_bind (parse_str val) (\<lambda>v. Inr (m\<lparr>m_version := v\<rparr>))
      else if section = TopLevel \<and> key = lit ''sandbox'' then
        sum_bind (parse_str val) (\<lambda>v. sum_bind (parse_level v) (\<lambda>l. Inr (m\<lparr>m_sandbox := l\<rparr>)))
      else if section = TopLevel \<and> key = lit ''elf_sha256'' then
        sum_bind (parse_hex32 val) (\<lambda>v. Inr (m\<lparr>elf_sha256 := Some v\<rparr>))
      else if section = Permissions \<and> key = lit ''network'' then
        sum_bind (parse_bool val) (\<lambda>v. Inr (m\<lparr>m_grants := (m_grants m)\<lparr>g_network := v\<rparr>\<rparr>))
      else if section = Permissions \<and> key = lit ''devices'' then
        sum_bind (parse_bool val) (\<lambda>v. Inr (m\<lparr>m_grants := (m_grants m)\<lparr>g_devices := v\<rparr>\<rparr>))
      else if section = Permissions \<and> key = lit ''install'' then
        sum_bind (parse_bool val) (\<lambda>v. Inr (m\<lparr>m_grants := (m_grants m)\<lparr>g_install := v\<rparr>\<rparr>))
      else Inr m)"

fun manifest_lines :: "str list \<Rightarrow> Section \<Rightarrow> bool \<Rightarrow> RaeManifest \<Rightarrow> string + (bool \<times> RaeManifest)" where
  "manifest_lines [] section saw_key m = Inr (saw_key, m)"
| "manifest_lines (raw # ls) section saw_key m =
     (let line = trim (strip_comment raw) in
      if line = [] then manifest_lines ls section saw_key m
      else case str_strip_prefix [91] line of
          Some rest \<Rightarrow>
            (case str_strip_suffix [93] rest of
               None \<Rightarrow> Inl ''malformed [section]''
             | Some name \<Rightarrow>
                 manifest_lines ls (if trim name = lit ''permissions'' then Permissions else Unknown) saw_key m)
        | None \<Rightarrow>
            (case split_once 61 line of
               None \<Rightarrow> Inl ''expected key = value''
             | Some (key, val) \<Rightarrow>
                 sum_bind (put_key section (trim key) val m) (manifest_lines ls section True)))"

definition manifest_parse :: "u8 list \<Rightarrow> string + RaeManifest" where
  "manifest_parse bytes =
     (case from_utf8 bytes of
        None \<Rightarrow> Inl ''not utf-8''
      | Some text \<Rightarrow>
          sum_bind (manifest_lines (str_lines text) TopLevel False manifest_default) (\<lambda>(saw_key, m).
            if \<not> saw_key then Inl ''empty manifest''
            else if m_name m = [] then Inl ''missing name''
            else Inr m))"

section \<open>Bundle lookup\<close>

definition manifest_path :: "str \<Rightarrow> str" where
  "manifest_path app = lit ''apps/'' @ app @ lit ''/RaeManifest.toml''"

definition signature_path :: "str \<Rightarrow> str" where
  "signature_path app = lit ''apps/'' @ app @ lit ''/RaeManifest.sig''"

text \<open>
  \<open>verify msg sig\<close>: the Ed25519 check against the embedded key returned \<^verbatim>\<open>Ok(true)\<close>;
  \<open>sha256\<close>: the kernel's hash.
\<close>

definition manifest_lookup ::
  "(u8 list \<Rightarrow> u8 list \<Rightarrow> bool) \<Rightarrow> (u8 list \<Rightarrow> u8 list) \<Rightarrow> u8 list \<Rightarrow> str \<Rightarrow> RaeManifest option rust" where
  "manifest_lookup verify sha256 initramfs app =
     rust_bind (get_file initramfs (manifest_path app)) (\<lambda>f. case f of
       None \<Rightarrow> Ret None
     | Some file \<Rightarrow>
         (case manifest_parse (tf_data file) of
            Inl e \<Rightarrow> Ret None
          | Inr m \<Rightarrow>
              if m_name m \<noteq> app then Ret None
              else rust_bind (get_file initramfs (signature_path app)) (\<lambda>sf. case sf of
                None \<Rightarrow> Ret (Some m)
              | Some sig_file \<Rightarrow>
                  if length (tf_data sig_file) \<noteq> 64 then Ret None
                  else if \<not> verify (tf_data file) (tf_data sig_file) then Ret None
                  else (case elf_sha256 m of
                      None \<Rightarrow> Ret None
                    | Some expected \<Rightarrow>
                        rust_bind (get_file initramfs app) (\<lambda>e. case e of
                          None \<Rightarrow> Ret None
                        | Some elf \<Rightarrow>
                            if sha256 (tf_data elf) \<noteq> expected then Ret None
                            else Ret (Some (m\<lparr>m_verified := True\<rparr>)))))))"

definition effective_level :: "str \<Rightarrow> SandboxLevel \<Rightarrow> bool \<Rightarrow> ManifestState \<Rightarrow> SandboxLevel \<times> ManifestState" where
  "effective_level app declared verified ms =
     (if declared = Trusted \<and> \<not> verified \<and> level_for_app app \<noteq> Trusted
      then (AppSandbox, ms\<lparr>TRUST_CAPS := TRUST_CAPS ms + 1\<rparr>)
      else (declared, ms))"

definition assign_for_spawn ::
  "(u8 list \<Rightarrow> u8 list \<Rightarrow> bool) \<Rightarrow> (u8 list \<Rightarrow> u8 list) \<Rightarrow> u8 list \<Rightarrow> str \<Rightarrow> u64
     \<Rightarrow> ManifestState \<times> SandboxState \<Rightarrow> ((SandboxLevel \<times> bool) \<times> ManifestState \<times> SandboxState) rust" where
  "assign_for_spawn verify sha256 initramfs app pid st =
     (let (ms, sb) = st in
      rust_bind (manifest_lookup verify sha256 initramfs app) (\<lambda>r. case r of
        Some m \<Rightarrow>
          let (level, ms) = effective_level app (m_sandbox m) (m_verified m) ms;
              sb = set_task_level pid level sb;
              grants = (if level = AppSandbox then m_grants m else grants_default);
              sb = set_task_grants pid grants sb
          in Ret ((level, True), ms\<lparr>SPAWNS_FROM_MANIFEST := SPAWNS_FROM_MANIFEST ms + 1\<rparr>, sb)
      | None \<Rightarrow>
          let level = level_for_app app
          in Ret ((level, False), ms\<lparr>SPAWNS_FROM_FALLBACK := SPAWNS_FROM_FALLBACK ms + 1\<rparr>,
                  set_task_level pid level sb)))"

text \<open>The bundles found at boot.\<close>

definition bundle_of :: "str \<Rightarrow> str option" where
  "bundle_of name =
     Option.bind (str_strip_prefix (lit ''apps/'') name) (\<lambda>rest.
     Option.bind (str_strip_suffix (lit ''/RaeManifest.toml'') rest) (\<lambda>app.
       if app \<noteq> [] \<and> 47 \<notin> set app then Some app else None))"

definition discovered_apps :: "u8 list \<Rightarrow> str list" where
  "discovered_apps initramfs = List.map_filter (\<lambda>f. bundle_of (tf_name f)) (tar_iter initramfs 0)"

definition manifest_init :: "u8 list \<Rightarrow> ManifestState \<Rightarrow> ManifestState" where
  "manifest_init initramfs ms = ms\<lparr>DISCOVERED := word_of_nat (length (discovered_apps initramfs))\<rparr>"

section \<open>What the tables hold after an update\<close>

lemma level_of_set_level:
  "TABLE s \<noteq> None \<Longrightarrow> level_of (set_task_level pid l s) q = (if q = pid then l else level_of s q)"
  by (auto simp: level_of_def set_task_level_def Let_def)

lemma grants_of_set_level [simp]: "grants_of (set_task_level pid l s) = grants_of s"
  by (auto simp: fun_eq_iff grants_of_def set_task_level_def Let_def split: option.split)

lemma level_of_set_grants [simp]: "level_of (set_task_grants pid g s) = level_of s"
  by (auto simp: fun_eq_iff level_of_def set_task_grants_def split: option.split)

lemma grants_of_set_grants:
  "grants_of (set_task_grants pid g s) q = (if q = pid \<and> GRANTS s \<noteq> None then g else grants_of s q)"
  by (cases "GRANTS s") (auto simp: grants_of_def set_task_grants_def)

lemma granted_default [simp]: "\<not> granted grants_default c"
  by (cases c) (simp_all add: grants_default_def)

section \<open>Where a manifest's claims come from\<close>

lemma sum_bind_Inr_iff: "sum_bind r f = Inr y \<longleftrightarrow> (\<exists>x. r = Inr x \<and> f x = Inr y)"
  by (cases r) (auto simp: sum_bind_def)

lemma put_key_unverified: "put_key sec k v m = Inr m' \<Longrightarrow> m_verified m' = m_verified m"
  by (auto simp: put_key_def sum_bind_Inr_iff split: if_splits)

lemma manifest_lines_unverified:
  "manifest_lines ls sec saw m = Inr (saw', m') \<Longrightarrow> m_verified m' = m_verified m"
proof (induction ls sec saw m arbitrary: saw' m' rule: manifest_lines.induct)
  case (2 raw ls sec saw m)
  then show ?case
    by (auto simp: Let_def sum_bind_Inr_iff dest: put_key_unverified split: if_splits option.splits prod.splits)
qed simp

lemma manifest_parse_unverified: "manifest_parse bytes = Inr m \<Longrightarrow> \<not> m_verified m"
  by (auto simp: manifest_parse_def sum_bind_Inr_iff manifest_default_def
      dest: manifest_lines_unverified split: option.splits if_splits)

text \<open>The application's own manifest, unauthenticated; and a bundle that authenticates.\<close>

definition declares :: "u8 list \<Rightarrow> str \<Rightarrow> RaeManifest \<Rightarrow> bool" where
  "declares initramfs app m \<longleftrightarrow> (\<exists>mf. get_file initramfs (manifest_path app) = Ret (Some mf)
     \<and> manifest_parse (tf_data mf) = Inr m \<and> m_name m = app)"

definition verified_bundle ::
  "(u8 list \<Rightarrow> u8 list \<Rightarrow> bool) \<Rightarrow> (u8 list \<Rightarrow> u8 list) \<Rightarrow> u8 list \<Rightarrow> str \<Rightarrow> bool" where
  "verified_bundle verify sha256 initramfs app \<longleftrightarrow> (\<exists>mf sg elf m.
     get_file initramfs (manifest_path app) = Ret (Some mf) \<and> manifest_parse (tf_data mf) = Inr m
     \<and> m_name m = app
     \<and> get_file initramfs (signature_path app) = Ret (Some sg) \<and> verify (tf_data mf) (tf_data sg)
     \<and> get_file initramfs app = Ret (Some elf) \<and> elf_sha256 m = Some (sha256 (tf_data elf)))"

lemma manifest_lookup_cases:
  assumes "manifest_lookup verify sha256 initramfs app = Ret (Some m')"
  obtains (plain) "declares initramfs app m'" "\<not> m_verified m'"
  | (verified) m where "declares initramfs app m" "m' = m\<lparr>m_verified := True\<rparr>"
      "verified_bundle verify sha256 initramfs app"
proof -
  note def = assms [unfolded manifest_lookup_def]
  from def obtain f where "get_file initramfs (manifest_path app) = Ret f"
    by (cases "get_file initramfs (manifest_path app)") simp_all
  with def obtain mf where "get_file initramfs (manifest_path app) = Ret (Some mf)"
    by (cases f) simp_all
  with def obtain m where mf: "get_file initramfs (manifest_path app) = Ret (Some mf)"
    "manifest_parse (tf_data mf) = Inr m" "m_name m = app"
    by (cases "manifest_parse (tf_data mf)") (simp_all split: if_splits)
  then have decl: "declares initramfs app m" by (auto simp: declares_def)
  from def mf obtain sf where sf: "get_file initramfs (signature_path app) = Ret sf"
    by (cases "get_file initramfs (signature_path app)") simp_all
  show thesis
  proof (cases sf)
    case None
    with assms mf sf have "m' = m" by (simp add: manifest_lookup_def)
    with decl manifest_parse_unverified [OF mf(2)] show thesis by (intro plain) simp_all
  next
    case (Some sg)
    with assms mf sf obtain elf where "verify (tf_data mf) (tf_data sg)"
      "get_file initramfs app = Ret (Some elf)" "elf_sha256 m = Some (sha256 (tf_data elf))"
      "m' = m\<lparr>m_verified := True\<rparr>"
      by (auto simp: manifest_lookup_def rust_bind_Ret_iff split: option.splits if_splits)
    with mf sf Some decl show thesis by (intro verified) (auto simp: verified_bundle_def)
  qed
qed

lemma effective_level_fst:
  "fst (effective_level app declared verified ms) =
     (if declared = Trusted \<and> \<not> verified \<and> level_for_app app \<noteq> Trusted then AppSandbox else declared)"
  by (simp add: effective_level_def)

lemma assign_for_spawn_steps:
  assumes "assign_for_spawn verify sha256 initramfs app pid (ms, sb) = Ret ((level, fm), ms', sb')"
  shows "rtranclp sb_step sb sb'"
proof -
  have "rtranclp sb_step sb (set_task_level pid l sb)" for l
    by (rule r_into_rtranclp) (rule sb_step.level)
  moreover have "rtranclp sb_step sb (set_task_grants pid g (set_task_level pid l sb))" for l g
    by (meson sb_step.level sb_step.grants rtranclp.intros)
  ultimately show ?thesis
    using assms by (auto simp: assign_for_spawn_def rust_bind_Ret_iff Let_def case_prod_beta split: option.splits)
qed

text \<open>The two ways a spawn ends, with what the tables hold for the new task.\<close>

lemma assign_for_spawn_cases:
  assumes "assign_for_spawn verify sha256 initramfs app pid (ms, sb) = Ret ((level, fm), ms', sb')"
    and "TABLE sb \<noteq> None" and "grants_of sb pid = grants_default"
  obtains (fallback) "manifest_lookup verify sha256 initramfs app = Ret None"
      "level = level_for_app app" "grants_of sb' pid = grants_default"
  | (declared) m where "manifest_lookup verify sha256 initramfs app = Ret (Some m)"
      "level = fst (effective_level app (m_sandbox m) (m_verified m) ms)"
      "grants_of sb' pid = (if level = AppSandbox \<and> GRANTS sb \<noteq> None then m_grants m else grants_default)"
proof -
  from assms(1) obtain r where r: "manifest_lookup verify sha256 initramfs app = Ret r"
    by (cases "manifest_lookup verify sha256 initramfs app") (simp_all add: assign_for_spawn_def)
  have frame: "GRANTS (set_task_level pid l sb) = GRANTS sb" for l
    by (simp add: set_task_level_def Let_def split: option.split)
  show thesis
  proof (cases r)
    case None
    with assms r show thesis by (intro fallback) (auto simp: assign_for_spawn_def Let_def)
  next
    case (Some m)
    with assms r frame show thesis
      by (intro declared) (auto simp: assign_for_spawn_def Let_def grants_of_set_grants case_prod_beta)
  qed
qed

lemma assign_for_spawn_tables:
  assumes "assign_for_spawn verify sha256 initramfs app pid (ms, sb) = Ret ((level, fm), ms', sb')"
    and "TABLE sb \<noteq> None"
  shows "level_of sb' q = (if q = pid then level else level_of sb q)"
    and "q \<noteq> pid \<Longrightarrow> grants_of sb' q = grants_of sb q"
  using assms
  by (auto simp: assign_for_spawn_def rust_bind_Ret_iff Let_def level_of_set_level grants_of_set_grants
      case_prod_beta split: option.splits)

section \<open>Properties\<close>

text \<open>
  C10. What a spawned application may do. A task runs trusted only when its name ends in one
  of the kernel's first-party names, or its bundle authenticates: the signature verifies
  over the manifest and the manifest's hash is that of the binary. Any other task passes
  a gated call only when the manifest of its own name in the archive grants the call's
  class. No other task's level or grants change. The task id must not carry grants from
  an earlier task, which exit ensures.
\<close>

theorem spawn_confined:
  assumes "assign_for_spawn verify sha256 initramfs app pid (ms, sb) = Ret ((level, fm), ms', sb')"
    and "TABLE sb \<noteq> None" and "grants_of sb pid = grants_default"
  shows "level_of sb' pid = level
    \<and> (level = Trusted \<longrightarrow> after_last 47 app \<in> set TRUSTED_APPS
         \<or> verified_bundle verify sha256 initramfs app)
    \<and> (\<forall>c. level \<noteq> Trusted \<and> may_call sb' pid (Some c) \<longrightarrow>
         (\<exists>m. declares initramfs app m \<and> granted (m_grants m) c))
    \<and> (\<forall>q. q \<noteq> pid \<longrightarrow> level_of sb' q = level_of sb q \<and> grants_of sb' q = grants_of sb q)"
proof -
  note tables = assign_for_spawn_tables [OF assms(1,2)]
  have lev: "level_of sb' pid = level" by (simp add: tables)
  have first: "level_for_app app = Trusted \<longleftrightarrow> after_last 47 app \<in> set TRUSTED_APPS"
    by (simp add: level_for_app_def Let_def)
  have "(level = Trusted \<longrightarrow> after_last 47 app \<in> set TRUSTED_APPS \<or> verified_bundle verify sha256 initramfs app)
    \<and> (\<forall>c. granted (grants_of sb' pid) c \<longrightarrow> (\<exists>m. declares initramfs app m \<and> granted (m_grants m) c))"
    using assms
  proof (cases rule: assign_for_spawn_cases)
    case fallback
    then show ?thesis by (simp add: first [symmetric])
  next
    case (declared m)
    from declared(1) show ?thesis
    proof (cases rule: manifest_lookup_cases)
      case plain
      then show ?thesis
        using declared(2,3) by (auto simp: effective_level_fst first [symmetric] split: if_splits)
    next
      case (verified m0)
      then show ?thesis using declared(3) by (auto split: if_splits)
    qed
  qed
  then show ?thesis
    using lev tables by (auto simp: may_call_def split: SandboxLevel.splits)
qed

text \<open>
  A tampered bundle is treated as if it had no manifest. When a bundle carries a manifest
  and a signature that does not verify, the spawn goes on with the level the name alone
  gives: a first-party name runs trusted, and a manifest that asks for the strict level is
  started at the application level instead.
\<close>

theorem tampered_bundle_falls_back:
  assumes "get_file initramfs (manifest_path app) = Ret (Some mf)" and "manifest_parse (tf_data mf) = Inr m"
    and "m_name m = app" and "get_file initramfs (signature_path app) = Ret (Some sg)"
    and "\<not> verify (tf_data mf) (tf_data sg)" and "TABLE sb \<noteq> None"
  shows "\<exists>ms' sb'. assign_for_spawn verify sha256 initramfs app pid (ms, sb)
      = Ret ((level_for_app app, False), ms', sb') \<and> level_of sb' pid = level_for_app app"
proof -
  have "manifest_lookup verify sha256 initramfs app = Ret None"
    using assms(1-5) by (simp add: manifest_lookup_def)
  then show ?thesis using assms(6) by (simp add: assign_for_spawn_def Let_def level_of_set_level)
qed

section \<open>Witnesses\<close>

definition wit_ms :: ManifestState where
  "wit_ms = \<lparr>DISCOVERED = 0, SPAWNS_FROM_MANIFEST = 0, SPAWNS_FROM_FALLBACK = 0, TRUST_CAPS = 0\<rparr>"

definition wit_sb :: SandboxState where
  "wit_sb = sandbox_init sandbox_static"

definition wit_text :: str where
  "wit_text = lit ''name = '' @ [34] @ lit ''files'' @ [34, 10] @ lit ''sandbox = '' @ [34] @ lit ''strict'' @ [34, 10]"

definition wit_manifest :: "u8 list" where
  "wit_manifest = as_bytes wit_text"

definition wit_bundle :: "(u8 list \<times> u8 list) list" where
  "wit_bundle = [(as_bytes (manifest_path (lit ''files'')), wit_manifest),
     (as_bytes (signature_path (lit ''files'')), replicate 64 1)]"

lemma wit_bundle_ok: "list_all entry_ok wit_bundle"
proof -
  let ?ok = "\<lambda>n :: u8 list. n \<noteq> [] \<and> length n \<le> 100 \<and> list_all (\<lambda>b. 0 < b \<and> b < 0x80) n"
  have "?ok (as_bytes (manifest_path (lit ''files'')))" and "?ok (as_bytes (signature_path (lit ''files'')))"
    and "length wit_manifest \<le> 100"
    by code_simp+
  then show ?thesis by (simp add: wit_bundle_def entry_ok_def)
qed

lemma wit_manifest_parse:
  "manifest_parse wit_manifest = Inr (manifest_default\<lparr>m_name := lit ''files'', m_sandbox := Strict\<rparr>)"
proof -
  have "from_utf8 wit_manifest = Some wit_text" by code_simp
  moreover have "str_lines wit_text = [lit ''name = '' @ [34] @ lit ''files'' @ [34],
      lit ''sandbox = '' @ [34] @ lit ''strict'' @ [34]]"
    by code_simp
  ultimately show ?thesis
    by (simp add: manifest_parse_def lit_def trim_def is_whitespace_def strip_comment_def parse_str_def
        str_strip_prefix_def str_strip_suffix_def split_once_def put_key_def parse_level_def sum_bind_def)
qed

theorem spawn_confined_witness:
  "\<exists>ms' sb'. assign_for_spawn (\<lambda>_ _. False) id (tar_archive []) (lit ''notes'') 9 (wit_ms, wit_sb)
      = Ret ((AppSandbox, False), ms', sb') \<and> \<not> may_call sb' 9 (Some NetworkClass)"
proof -
  have none: "get_file (tar_archive []) p = Ret None" for p
    using tar_read_back(1) [of "[]" p] by simp
  have lev: "level_for_app (lit ''notes'') = AppSandbox" by code_simp
  obtain ms' sb' where a: "assign_for_spawn (\<lambda>_ _. False) id (tar_archive []) (lit ''notes'') 9 (wit_ms, wit_sb)
      = Ret ((AppSandbox, False), ms', sb')"
    by (simp add: assign_for_spawn_def manifest_lookup_def none lev Let_def)
  have t: "TABLE wit_sb \<noteq> None" and g: "grants_of wit_sb 9 = grants_default" by code_simp+
  from spawn_confined [OF a t g] have "\<not> may_call sb' 9 (Some NetworkClass)"
    by (auto simp: declares_def none)
  with a show ?thesis by blast
qed

theorem tampered_bundle_falls_back_witness:
  "\<exists>ms' sb'. assign_for_spawn (\<lambda>_ _. False) id (tar_archive wit_bundle) (lit ''files'') 9 (wit_ms, wit_sb)
      = Ret ((Trusted, False), ms', sb') \<and> level_of sb' 9 = Trusted"
proof -
  note read = tar_read_back(1) [OF wit_bundle_ok]
  have mf: "get_file (tar_archive wit_bundle) (manifest_path (lit ''files''))
      = Ret (Some \<lparr>tf_name = manifest_path (lit ''files''), tf_data = wit_manifest\<rparr>)"
    unfolding read by code_simp
  have sg: "get_file (tar_archive wit_bundle) (signature_path (lit ''files''))
      = Ret (Some \<lparr>tf_name = signature_path (lit ''files''), tf_data = replicate 64 1\<rparr>)"
    unfolding read by code_simp
  have t: "TABLE wit_sb \<noteq> None" and l: "level_for_app (lit ''files'') = Trusted" by code_simp+
  from tampered_bundle_falls_back [OF mf _ _ sg _ t, of _ "\<lambda>_ _. False" id 9 wit_ms] wit_manifest_parse
  show ?thesis by (simp add: l manifest_default_def)
qed

end
