(* ===== verification/Bytes.thy ===== *)
theory Bytes
  imports Prelude
begin

text \<open>
  Integers as bytes: \<^verbatim>\<open>to_le_bytes\<close>, \<^verbatim>\<open>to_be_bytes\<close> and \<^verbatim>\<open>from_le_bytes\<close> of the Rust integer types, with
  the fact that reading inverts writing. The number of bytes is an argument, since a type
  variable for the width does not determine it.
\<close>

unbundle bit_operations_syntax

lemma unat_word_of_nat_small: "n < 2 ^ LENGTH('a) \<Longrightarrow> unat (word_of_nat n :: 'a::len word) = n"
  by (simp add: unat_of_nat take_bit_nat_eq_self)

definition to_le_bytes :: "nat \<Rightarrow> 'a::len word \<Rightarrow> u8 list" where
  "to_le_bytes n w = map (\<lambda>i. ucast (drop_bit (8 * i) w)) [0..<n]"

definition to_be_bytes :: "nat \<Rightarrow> 'a::len word \<Rightarrow> u8 list" where
  "to_be_bytes n w = rev (to_le_bytes n w)"

fun from_le_bytes :: "u8 list \<Rightarrow> 'a::len word" where
  "from_le_bytes [] = 0"
| "from_le_bytes (b # bs) = ucast b OR push_bit 8 (from_le_bytes bs)"

lemma length_to_le_bytes [simp]: "length (to_le_bytes n w) = n"
  by (simp add: to_le_bytes_def)

lemma length_to_be_bytes [simp]: "length (to_be_bytes n w) = n"
  by (simp add: to_be_bytes_def)

lemma bit_to_le_bytes:
  fixes w :: "'a::len word"
  assumes "k < LENGTH('a)" and "LENGTH('a) \<le> 8 * n"
  shows "bit (to_le_bytes n w ! (k div 8)) (k mod 8) = bit w k"
proof -
  have "k div 8 < n" using assms by (simp add: less_mult_imp_div_less mult.commute)
  then show ?thesis by (simp add: to_le_bytes_def bit_simps)
qed

lemma to_le_bytes_inj:
  fixes w w' :: "'a::len word"
  assumes "to_le_bytes n w = to_le_bytes n w'" and "LENGTH('a) \<le> 8 * n"
  shows "w = w'"
proof (rule bit_word_eqI)
  fix k
  assume "k < LENGTH('a)"
  from bit_to_le_bytes [OF this assms(2)] show "bit w k = bit w' k" using assms(1) by metis
qed

lemma bit_from_le_bytes:
  "bit (from_le_bytes bs :: 'a::len word) k \<longleftrightarrow>
     k < LENGTH('a) \<and> k div 8 < length bs \<and> bit (bs ! (k div 8)) (k mod 8)"
proof (induction bs arbitrary: k)
  case (Cons b bs)
  show ?case
  proof (cases "k < 8")
    case True
    then show ?thesis by (auto simp: bit_simps)
  next
    case False
    then have "k div 8 = Suc ((k - 8) div 8)" "k mod 8 = (k - 8) mod 8"
      by (simp_all add: le_div_geq le_mod_geq)
    with False Cons.IH [of "k - 8"] show ?thesis
      by (auto simp: bit_simps dest: bit_imp_le_length)
  qed
qed simp

lemma from_to_le_bytes:
  fixes w :: "'a::len word"
  assumes "LENGTH('a) \<le> 8 * n"
  shows "from_le_bytes (to_le_bytes n w) = w"
proof (rule bit_word_eqI)
  fix k
  assume k: "k < LENGTH('a)"
  then have "k div 8 < n" using assms by (simp add: less_mult_imp_div_less mult.commute)
  with k assms show "bit (from_le_bytes (to_le_bytes n w) :: 'a word) k = bit w k"
    by (simp add: bit_from_le_bytes bit_to_le_bytes)
qed

lemma to_from_le_bytes:
  assumes "length bs = n" and "8 * n \<le> LENGTH('a::len)"
  shows "to_le_bytes n (from_le_bytes bs :: 'a word) = bs"
proof (rule nth_equalityI)
  fix i
  assume "i < length (to_le_bytes n (from_le_bytes bs :: 'a word))"
  then have i: "i < n" by simp
  show "to_le_bytes n (from_le_bytes bs :: 'a word) ! i = bs ! i"
  proof (rule bit_word_eqI)
    fix k
    assume "k < LENGTH(8)"
    then have k: "k < 8" by simp
    have "(8 * i + k) div 8 = i" "(8 * i + k) mod 8 = k" "8 * i + k < LENGTH('a)"
      using k i assms(2) by simp_all
    with i k assms(1) show "bit (to_le_bytes n (from_le_bytes bs :: 'a word) ! i) k = bit (bs ! i) k"
      by (simp add: to_le_bytes_def bit_simps bit_from_le_bytes)
  qed
qed (simp add: assms(1))

end
