(* ===== verification/Shield_Sign.thy ===== *)
theory Shield_Sign
  imports Shield_Policy Rust_Str Bytes
begin

text \<open>
  Code signing in AthGuard (\<^verbatim>\<open>components/athshield/src/lib.rs\<close>): signing identities,
  certificates and their to-be-signed bytes, chains with pinned roots, revocation lists,
  the verification of a signed binary, and the component's SHA-256. Ed25519 is an argument:
  \<open>ed_verify pk msg sig\<close>. Fixed-size byte arrays are lists. The theory shows what a chain and a
  signature that are accepted have to look like, that the signed bytes determine the fields
  they cover, and that acceptance does not tie a chain to the keys of the pinned roots.
\<close>

unbundle bit_operations_syntax

section \<open>SHA-256\<close>

definition sha_H :: "u32 list" where
  "sha_H = [0x6a09e667, 0xbb67ae85, 0x3c6ef372, 0xa54ff53a, 0x510e527f, 0x9b05688c, 0x1f83d9ab,
     0x5be0cd19]"

definition sha_K :: "u32 list" where
  "sha_K = concat [
     [0x428a2f98, 0x71374491, 0xb5c0fbcf, 0xe9b5dba5],
     [0x3956c25b, 0x59f111f1, 0x923f82a4, 0xab1c5ed5],
     [0xd807aa98, 0x12835b01, 0x243185be, 0x550c7dc3],
     [0x72be5d74, 0x80deb1fe, 0x9bdc06a7, 0xc19bf174],
     [0xe49b69c1, 0xefbe4786, 0x0fc19dc6, 0x240ca1cc],
     [0x2de92c6f, 0x4a7484aa, 0x5cb0a9dc, 0x76f988da],
     [0x983e5152, 0xa831c66d, 0xb00327c8, 0xbf597fc7],
     [0xc6e00bf3, 0xd5a79147, 0x06ca6351, 0x14292967],
     [0x27b70a85, 0x2e1b2138, 0x4d2c6dfc, 0x53380d13],
     [0x650a7354, 0x766a0abb, 0x81c2c92e, 0x92722c85],
     [0xa2bfe8a1, 0xa81a664b, 0xc24b8b70, 0xc76c51a3],
     [0xd192e819, 0xd6990624, 0xf40e3585, 0x106aa070],
     [0x19a4c116, 0x1e376c08, 0x2748774c, 0x34b0bcb5],
     [0x391c0cb3, 0x4ed8aa4a, 0x5b9cca4f, 0x682e6ff3],
     [0x748f82ee, 0x78a5636f, 0x84c87814, 0x8cc70208],
     [0x90befffa, 0xa4506ceb, 0xbef9a3f7, 0xc67178f2]]"

definition rotate_right :: "nat \<Rightarrow> u32 \<Rightarrow> u32" where
  "rotate_right n w = drop_bit n w OR push_bit (32 - n) w"

definition from_be :: "u8 list \<Rightarrow> u32" where
  "from_be bs = fold (\<lambda>b acc. push_bit 8 acc OR ucast b) bs 0"

definition schedule_step :: "u32 list \<Rightarrow> u32 list" where
  "schedule_step w =
     (let i = length w;
          s0 = rotate_right 7 (w ! (i - 15)) XOR rotate_right 18 (w ! (i - 15)) XOR drop_bit 3 (w ! (i - 15));
          s1 = rotate_right 17 (w ! (i - 2)) XOR rotate_right 19 (w ! (i - 2)) XOR drop_bit 10 (w ! (i - 2))
      in w @ [w ! (i - 16) + s0 + w ! (i - 7) + s1])"

definition schedule :: "u8 list \<Rightarrow> u32 list" where
  "schedule chunk =
     (schedule_step ^^ 48) (map (\<lambda>i. from_be (take 4 (drop (4 * i) chunk))) [0..<16])"

type_synonym sha_state = "u32 \<times> u32 \<times> u32 \<times> u32 \<times> u32 \<times> u32 \<times> u32 \<times> u32"

definition sha_round :: "u32 \<times> u32 \<Rightarrow> sha_state \<Rightarrow> sha_state" where
  "sha_round kw st =
     (let (a, b, c, d, e, f, g, hh) = st;
          s1 = rotate_right 6 e XOR rotate_right 11 e XOR rotate_right 25 e;
          ch = (e AND f) XOR (NOT e AND g);
          temp1 = hh + s1 + ch + fst kw + snd kw;
          s0 = rotate_right 2 a XOR rotate_right 13 a XOR rotate_right 22 a;
          maj = (a AND b) XOR (a AND c) XOR (b AND c);
          temp2 = s0 + maj
      in (temp1 + temp2, a, b, c, d + temp1, e, f, g))"

definition sha_block :: "u8 list \<Rightarrow> u32 list \<Rightarrow> u32 list" where
  "sha_block chunk h =
     (let (a, b, c, d, e, f, g, hh) =
            fold sha_round (zip sha_K (schedule chunk))
              (h ! 0, h ! 1, h ! 2, h ! 3, h ! 4, h ! 5, h ! 6, h ! 7)
      in [h ! 0 + a, h ! 1 + b, h ! 2 + c, h ! 3 + d, h ! 4 + e, h ! 5 + f, h ! 6 + g, h ! 7 + hh])"

text \<open>The padding loop appends zeros until the length is 56 modulo 64.\<close>

definition sha_pad :: "u8 list \<Rightarrow> u8 list" where
  "sha_pad data =
     (let bit_len = (word_of_nat (length data) :: u64) * 8;
          padded = data @ [0x80]
      in padded @ replicate ((120 - length padded mod 64) mod 64) 0 @ to_be_bytes 8 bit_len)"

function chunks64 :: "u8 list \<Rightarrow> u8 list list" where
  "chunks64 bs = (if length bs < 64 then [] else take 64 bs # chunks64 (drop 64 bs))"
  by pat_completeness auto
termination
  by (relation "measure length") auto

declare chunks64.simps [simp del]

definition simple_sha256 :: "u8 list \<Rightarrow> u8 list" where
  "simple_sha256 data = concat (map (to_be_bytes 4) (fold sha_block (chunks64 (sha_pad data)) sha_H))"

lemma length_sha_block [simp]: "length (sha_block chunk h) = 8"
  by (simp add: sha_block_def split: prod.split)

lemma length_sha_fold: "length h = 8 \<Longrightarrow> length (fold sha_block cs h) = 8"
  by (induction cs arbitrary: h) simp_all

lemma length_simple_sha256 [simp]: "length (simple_sha256 data) = 32"
proof -
  have "length (concat (map (to_be_bytes 4) ws)) = 4 * length ws" for ws :: "u32 list"
    by (induction ws) simp_all
  then show ?thesis
    using length_sha_fold [of sha_H] by (simp add: simple_sha256_def sha_H_def)
qed

section \<open>Identities and certificates\<close>

datatype SigningAlgorithm = Ed25519 | Rsa4096

fun public_key_size :: "SigningAlgorithm \<Rightarrow> nat" where
  "public_key_size Ed25519 = 32"
| "public_key_size Rsa4096 = 512"

fun signature_size :: "SigningAlgorithm \<Rightarrow> nat" where
  "signature_size Ed25519 = 64"
| "signature_size Rsa4096 = 512"

fun algorithm_byte :: "SigningAlgorithm \<Rightarrow> u8" where
  "algorithm_byte Ed25519 = 0"
| "algorithm_byte Rsa4096 = 1"

datatype TrustLevel = Unsigned | SelfSigned | Verified | SystemTrust

primrec trust_rank :: "TrustLevel \<Rightarrow> nat" where
  "trust_rank Unsigned = 0"
| "trust_rank SelfSigned = 1"
| "trust_rank Verified = 2"
| "trust_rank SystemTrust = 3"

instantiation TrustLevel :: linorder
begin

definition less_eq_TrustLevel :: "TrustLevel \<Rightarrow> TrustLevel \<Rightarrow> bool" where
  "less_eq_TrustLevel a b \<longleftrightarrow> trust_rank a \<le> trust_rank b"

definition less_TrustLevel :: "TrustLevel \<Rightarrow> TrustLevel \<Rightarrow> bool" where
  "less_TrustLevel a b \<longleftrightarrow> trust_rank a < trust_rank b"

instance
proof
  fix a b :: TrustLevel
  assume "a \<le> b" and "b \<le> a"
  then show "a = b"
    by (cases a; cases b) (simp_all add: less_eq_TrustLevel_def)
qed (auto simp: less_eq_TrustLevel_def less_TrustLevel_def)

end

record SigningIdentity =
  id_name :: str
  public_key :: "u8 list"
  id_issuer :: str
  serial :: u64
  not_before :: u64
  not_after :: u64
  id_algorithm :: SigningAlgorithm
  id_trust_level :: TrustLevel
  fingerprint :: "u8 list"

definition is_expired :: "SigningIdentity \<Rightarrow> u64 \<Rightarrow> bool" where
  "is_expired i now \<longleftrightarrow> now < not_before i \<or> now > not_after i"

definition is_valid_at :: "SigningIdentity \<Rightarrow> u64 \<Rightarrow> bool" where
  "is_valid_at i now \<longleftrightarrow> now \<ge> not_before i \<and> now \<le> not_after i"

definition compute_fingerprint :: "u8 list \<Rightarrow> u8 list" where
  "compute_fingerprint pk = simple_sha256 pk"

record CodeSignature =
  cs_algorithm :: SigningAlgorithm
  cs_binary_hash :: "u8 list"
  signature_bytes :: "u8 list"
  signer :: SigningIdentity
  cs_timestamp :: u64

record Certificate =
  identity :: SigningIdentity
  issuer_fingerprint :: "u8 list"
  is_ca :: bool
  cert_signature :: "u8 list"

definition is_self_signed :: "Certificate \<Rightarrow> bool" where
  "is_self_signed c \<longleftrightarrow> fingerprint (identity c) = issuer_fingerprint c"

definition field_bytes :: "u8 list \<Rightarrow> u8 list" where
  "field_bytes bs = to_le_bytes 4 (word_of_nat (length bs) :: u32) @ bs"

definition signed_data :: "Certificate \<Rightarrow> u8 list" where
  "signed_data c =
     (let i = identity c in
      field_bytes (as_bytes (id_name i)) @ field_bytes (public_key i) @ field_bytes (as_bytes (id_issuer i)) @
      to_le_bytes 8 (serial i) @ to_le_bytes 8 (not_before i) @ to_le_bytes 8 (not_after i) @
      [algorithm_byte (id_algorithm i)] @ fingerprint i @ issuer_fingerprint c @
      [if is_ca c then 1 else 0])"

text \<open>\<open>ed_sign seed msg\<close> is \<^verbatim>\<open>ath_crypto::ed25519::sign\<close>.\<close>

definition cert_sign :: "(u8 list \<Rightarrow> u8 list \<Rightarrow> u8 list) \<Rightarrow> u8 list \<Rightarrow> Certificate \<Rightarrow> Certificate" where
  "cert_sign ed_sign issuer_seed c = c\<lparr>cert_signature := ed_sign issuer_seed (signed_data c)\<rparr>"

type_synonym ed25519_verify = "u8 list \<Rightarrow> u8 list \<Rightarrow> u8 list \<Rightarrow> bool"

definition signature_valid_under :: "ed25519_verify \<Rightarrow> u8 list \<Rightarrow> Certificate \<Rightarrow> bool" where
  "signature_valid_under ed_verify pk c \<longleftrightarrow>
     length pk = 32 \<and> length (cert_signature c) = 64 \<and> ed_verify pk (signed_data c) (cert_signature c)"

lemma signed_data_excludes_signature [simp]: "signed_data (c\<lparr>cert_signature := s\<rparr>) = signed_data c"
  by (simp add: signed_data_def)

section \<open>Chains\<close>

datatype ChainVerifyResult = ChainValid | EmptyChain | ChainExpired | BrokenChain | NonCaIssuer
  | UntrustedRoot | ChainInvalidSignature

fun check_links :: "ed25519_verify \<Rightarrow> Certificate list \<Rightarrow> ChainVerifyResult option" where
  "check_links ed_verify (child # parent # rest) =
     (if issuer_fingerprint child \<noteq> fingerprint (identity parent) then Some BrokenChain
      else if \<not> is_ca parent then Some NonCaIssuer
      else if \<not> signature_valid_under ed_verify (public_key (identity parent)) child
      then Some ChainInvalidSignature
      else check_links ed_verify (parent # rest))"
| "check_links ed_verify _ = None"

definition verify_chain :: "ed25519_verify \<Rightarrow> Certificate list \<Rightarrow> u64 \<Rightarrow> u8 list list \<Rightarrow> ChainVerifyResult" where
  "verify_chain ed_verify certificates now trusted_anchor_fps =
     (if certificates = [] then EmptyChain
      else if list_ex (\<lambda>c. is_expired (identity c) now) certificates then ChainExpired
      else case check_links ed_verify certificates of
          Some e \<Rightarrow> e
        | None \<Rightarrow>
            let root = last certificates in
            if \<not> is_self_signed root then UntrustedRoot
            else if \<not> signature_valid_under ed_verify (public_key (identity root)) root
            then ChainInvalidSignature
            else if fingerprint (identity root) \<notin> set trusted_anchor_fps then UntrustedRoot
            else ChainValid)"

section \<open>Revocation and verification\<close>

record CertificateRevocationList =
  revoked_serials :: "u64 list"
  revoked_fingerprints :: "u8 list list"
  last_updated :: u64

definition crl_new :: CertificateRevocationList where
  "crl_new = \<lparr>revoked_serials = [], revoked_fingerprints = [], last_updated = 0\<rparr>"

definition revoke_serial :: "u64 \<Rightarrow> CertificateRevocationList \<Rightarrow> CertificateRevocationList" where
  "revoke_serial n crl =
     (if n \<notin> set (revoked_serials crl) then crl\<lparr>revoked_serials := revoked_serials crl @ [n]\<rparr> else crl)"

definition revoke_fingerprint :: "u8 list \<Rightarrow> CertificateRevocationList \<Rightarrow> CertificateRevocationList" where
  "revoke_fingerprint fp crl =
     (if fp \<notin> set (revoked_fingerprints crl)
      then crl\<lparr>revoked_fingerprints := revoked_fingerprints crl @ [fp]\<rparr> else crl)"

definition is_revoked_serial :: "CertificateRevocationList \<Rightarrow> u64 \<Rightarrow> bool" where
  "is_revoked_serial crl n \<longleftrightarrow> n \<in> set (revoked_serials crl)"

definition is_revoked_fingerprint :: "CertificateRevocationList \<Rightarrow> u8 list \<Rightarrow> bool" where
  "is_revoked_fingerprint crl fp \<longleftrightarrow> fp \<in> set (revoked_fingerprints crl)"

definition is_revoked :: "CertificateRevocationList \<Rightarrow> SigningIdentity \<Rightarrow> bool" where
  "is_revoked crl i \<longleftrightarrow> is_revoked_serial crl (serial i) \<or> is_revoked_fingerprint crl (fingerprint i)"

datatype SigningResult = Valid | Expired | Revoked | Tampered | UntrustedSigner | InvalidSignature
  | InvalidChain

definition verify_signature ::
  "ed25519_verify \<Rightarrow> u8 list \<Rightarrow> CodeSignature \<Rightarrow> CertificateRevocationList \<Rightarrow> u64 \<Rightarrow> SigningResult" where
  "verify_signature ed_verify binary_hash s crl now =
     (if cs_binary_hash s \<noteq> binary_hash then Tampered
      else if length (signature_bytes s) \<noteq> signature_size (cs_algorithm s) then InvalidSignature
      else if list_all (\<lambda>b. b = 0) (signature_bytes s) then InvalidSignature
      else if length (public_key (signer s)) \<noteq> public_key_size (cs_algorithm s) then InvalidSignature
      else if is_expired (signer s) now then Expired
      else if is_revoked crl (signer s) then Revoked
      else if id_trust_level (signer s) = Unsigned then UntrustedSigner
      else case cs_algorithm s of
          Ed25519 \<Rightarrow>
            if length (public_key (signer s)) \<noteq> 32 then InvalidSignature
            else if length (signature_bytes s) \<noteq> 64 then InvalidSignature
            else if \<not> ed_verify (public_key (signer s)) binary_hash (signature_bytes s) then InvalidSignature
            else Valid
        | Rsa4096 \<Rightarrow> InvalidSignature)"

definition verify_signature_with_chain ::
  "ed25519_verify \<Rightarrow> u8 list \<Rightarrow> CodeSignature \<Rightarrow> Certificate list \<Rightarrow> CertificateRevocationList
     \<Rightarrow> u8 list list \<Rightarrow> u64 \<Rightarrow> SigningResult" where
  "verify_signature_with_chain ed_verify binary_hash s chain crl trusted_anchor_fps now =
     (let base = verify_signature ed_verify binary_hash s crl now in
      if base \<noteq> Valid then base
      else case verify_chain ed_verify chain now trusted_anchor_fps of
          ChainValid \<Rightarrow> Valid
        | ChainExpired \<Rightarrow> Expired
        | _ \<Rightarrow> InvalidChain)"

section \<open>What is accepted\<close>

lemma is_valid_at_iff: "is_valid_at i now \<longleftrightarrow> \<not> is_expired i now"
  by (auto simp: is_valid_at_def is_expired_def)

text \<open>One link of a chain: the parent is an authority that signed the child.\<close>

definition link_ok :: "ed25519_verify \<Rightarrow> Certificate \<Rightarrow> Certificate \<Rightarrow> bool" where
  "link_ok ed_verify child parent \<longleftrightarrow> issuer_fingerprint child = fingerprint (identity parent)
     \<and> is_ca parent \<and> signature_valid_under ed_verify (public_key (identity parent)) child"

lemma check_links_None_iff:
  "check_links ed_verify cs = None \<longleftrightarrow>
     (\<forall>i. Suc i < length cs \<longrightarrow> link_ok ed_verify (cs ! i) (cs ! Suc i))"
proof (induction ed_verify cs rule: check_links.induct)
  case (1 ed_verify child parent rest)
  let ?P = "\<lambda>cs i. Suc i < length cs \<longrightarrow> link_ok ed_verify (cs ! i) (cs ! Suc i)"
  have "(\<forall>i. ?P (child # parent # rest) i) \<longleftrightarrow>
      ?P (child # parent # rest) 0 \<and> (\<forall>i. ?P (child # parent # rest) (Suc i))"
    by (metis not0_implies_Suc)
  also have "\<dots> \<longleftrightarrow> link_ok ed_verify child parent \<and> (\<forall>i. ?P (parent # rest) i)" by simp
  finally show ?case using 1 by (auto simp: link_ok_def)
qed simp_all

lemma verify_chain_iff:
  "verify_chain ed_verify cs now anchors = ChainValid \<longleftrightarrow>
     cs \<noteq> [] \<and> (\<forall>c\<in>set cs. is_valid_at (identity c) now)
     \<and> (\<forall>i. Suc i < length cs \<longrightarrow> link_ok ed_verify (cs ! i) (cs ! Suc i))
     \<and> is_self_signed (last cs) \<and> signature_valid_under ed_verify (public_key (identity (last cs))) (last cs)
     \<and> fingerprint (identity (last cs)) \<in> set anchors"
proof -
  have "check_links ed_verify cs = Some e \<Longrightarrow> e \<noteq> ChainValid" for e
    by (induction ed_verify cs rule: check_links.induct) (auto split: if_splits)
  then show ?thesis
    by (auto simp: verify_chain_def list_ex_iff is_valid_at_iff check_links_None_iff [symmetric] Let_def
        split: option.splits)
qed

lemma verify_signature_iff:
  "verify_signature ed_verify h s crl now = Valid \<longleftrightarrow>
     cs_binary_hash s = h \<and> cs_algorithm s = Ed25519 \<and> length (signature_bytes s) = 64
     \<and> \<not> list_all (\<lambda>b. b = 0) (signature_bytes s) \<and> length (public_key (signer s)) = 32
     \<and> is_valid_at (signer s) now \<and> \<not> is_revoked crl (signer s) \<and> id_trust_level (signer s) \<noteq> Unsigned
     \<and> ed_verify (public_key (signer s)) h (signature_bytes s)"
  by (auto simp: verify_signature_def is_valid_at_iff split: SigningAlgorithm.splits)

section \<open>The signed bytes determine the fields\<close>

lemma field_bytes_prefix:
  assumes "field_bytes a @ x = field_bytes b @ y" and "length a < 2 ^ 32" and "length b < 2 ^ 32"
  shows "a = b \<and> x = y"
proof -
  let ?l = "\<lambda>xs :: u8 list. word_of_nat (length xs) :: u32"
  from assms(1) have "to_le_bytes 4 (?l a) = to_le_bytes 4 (?l b)" and rest: "a @ x = b @ y"
    by (simp_all add: field_bytes_def)
  then have "?l a = ?l b" by (intro to_le_bytes_inj [of 4]) simp_all
  then have "unat (?l a) = unat (?l b)" by simp
  then have "length a = length b" using assms(2,3) by (simp add: unat_of_nat take_bit_nat_eq_self)
  with rest show ?thesis by simp
qed

definition cert_wf :: "Certificate \<Rightarrow> bool" where
  "cert_wf c \<longleftrightarrow> length (as_bytes (id_name (identity c))) < 2 ^ 32 \<and> length (public_key (identity c)) < 2 ^ 32
     \<and> length (as_bytes (id_issuer (identity c))) < 2 ^ 32 \<and> length (fingerprint (identity c)) = 32
     \<and> length (issuer_fingerprint c) = 32"

lemma signed_data_determines:
  assumes "cert_wf c" and "cert_wf c'" and "signed_data c = signed_data c'"
  shows "as_bytes (id_name (identity c)) = as_bytes (id_name (identity c'))"
    and "public_key (identity c) = public_key (identity c')"
    and "as_bytes (id_issuer (identity c)) = as_bytes (id_issuer (identity c'))"
    and "serial (identity c) = serial (identity c')" and "not_before (identity c) = not_before (identity c')"
    and "not_after (identity c) = not_after (identity c')"
    and "id_algorithm (identity c) = id_algorithm (identity c')"
    and "fingerprint (identity c) = fingerprint (identity c')"
    and "issuer_fingerprint c = issuer_fingerprint c'" and "is_ca c = is_ca c'"
proof -
  note wf = assms(1,2) [unfolded cert_wf_def]
  define rest where "rest x = to_le_bytes 8 (serial (identity x)) @ to_le_bytes 8 (not_before (identity x)) @
      to_le_bytes 8 (not_after (identity x)) @ [algorithm_byte (id_algorithm (identity x))] @
      fingerprint (identity x) @ issuer_fingerprint x @ [if is_ca x then 1 else 0 :: u8]" for x :: Certificate
  from assms(3) have eq: "field_bytes (as_bytes (id_name (identity c))) @ field_bytes (public_key (identity c)) @
        field_bytes (as_bytes (id_issuer (identity c))) @ rest c
      = field_bytes (as_bytes (id_name (identity c'))) @ field_bytes (public_key (identity c')) @
        field_bytes (as_bytes (id_issuer (identity c'))) @ rest c'"
    by (simp add: signed_data_def Let_def rest_def)
  from field_bytes_prefix [OF eq] wf
  have n: "as_bytes (id_name (identity c)) = as_bytes (id_name (identity c'))"
    and eq1: "field_bytes (public_key (identity c)) @ field_bytes (as_bytes (id_issuer (identity c))) @ rest c
      = field_bytes (public_key (identity c')) @ field_bytes (as_bytes (id_issuer (identity c'))) @ rest c'"
    by simp_all
  from field_bytes_prefix [OF eq1] wf
  have k: "public_key (identity c) = public_key (identity c')"
    and eq2: "field_bytes (as_bytes (id_issuer (identity c))) @ rest c
      = field_bytes (as_bytes (id_issuer (identity c'))) @ rest c'"
    by simp_all
  from field_bytes_prefix [OF eq2] wf
  have i: "as_bytes (id_issuer (identity c)) = as_bytes (id_issuer (identity c'))" and r: "rest c = rest c'"
    by simp_all
  show "as_bytes (id_name (identity c)) = as_bytes (id_name (identity c'))"
    and "public_key (identity c) = public_key (identity c')"
    and "as_bytes (id_issuer (identity c)) = as_bytes (id_issuer (identity c'))"
    by fact+
  from r wf have "to_le_bytes 8 (serial (identity c)) = to_le_bytes 8 (serial (identity c'))"
    and "to_le_bytes 8 (not_before (identity c)) = to_le_bytes 8 (not_before (identity c'))"
    and "to_le_bytes 8 (not_after (identity c)) = to_le_bytes 8 (not_after (identity c'))"
    and alg: "algorithm_byte (id_algorithm (identity c)) = algorithm_byte (id_algorithm (identity c'))"
    and tail: "fingerprint (identity c) = fingerprint (identity c')" "issuer_fingerprint c = issuer_fingerprint c'"
      "(if is_ca c then 1 else 0 :: u8) = (if is_ca c' then 1 else 0)"
    by (simp_all add: rest_def)
  then show "serial (identity c) = serial (identity c')" and "not_before (identity c) = not_before (identity c')"
    and "not_after (identity c) = not_after (identity c')"
    by (auto intro!: to_le_bytes_inj [of 8])
  show "id_algorithm (identity c) = id_algorithm (identity c')"
    using alg by (cases "id_algorithm (identity c)"; cases "id_algorithm (identity c')") simp_all
  show "fingerprint (identity c) = fingerprint (identity c')" and "issuer_fingerprint c = issuer_fingerprint c'"
    by fact+
  show "is_ca c = is_ca c'" using tail(3) by (simp split: if_splits)
qed

section \<open>Properties\<close>

text \<open>
  C18. Code signing with a chain. A binary is accepted exactly when its signature is an Ed25519
  signature over its hash that verifies under the signer's key, the signer is in its validity
  period, not revoked and not marked unsigned, and the chain is not empty, is in its validity
  period throughout, has each certificate signed by the next one, which is an authority, and
  ends in a certificate that signed itself and bears the fingerprint of a pinned root. In
  particular an RSA signature is never accepted.
\<close>

theorem code_signing_exact:
  "verify_signature_with_chain ed_verify h s chain crl anchors now = Valid \<longleftrightarrow>
     (cs_binary_hash s = h \<and> cs_algorithm s = Ed25519 \<and> length (signature_bytes s) = 64
      \<and> list_ex (\<lambda>b. b \<noteq> 0) (signature_bytes s) \<and> length (public_key (signer s)) = 32
      \<and> is_valid_at (signer s) now \<and> \<not> is_revoked crl (signer s) \<and> id_trust_level (signer s) \<noteq> Unsigned
      \<and> ed_verify (public_key (signer s)) h (signature_bytes s))
     \<and> (chain \<noteq> [] \<and> list_all (\<lambda>c. is_valid_at (identity c) now) chain
      \<and> list_all (\<lambda>i. link_ok ed_verify (chain ! i) (chain ! Suc i)) [0..<length chain - 1]
      \<and> is_self_signed (last chain)
      \<and> signature_valid_under ed_verify (public_key (identity (last chain))) (last chain)
      \<and> fingerprint (identity (last chain)) \<in> set anchors)"
proof -
  have "verify_signature_with_chain ed_verify h s chain crl anchors now = Valid \<longleftrightarrow>
      verify_signature ed_verify h s crl now = Valid \<and> verify_chain ed_verify chain now anchors = ChainValid"
    by (auto simp: verify_signature_with_chain_def Let_def split: ChainVerifyResult.split)
  also have "(\<forall>i. Suc i < length chain \<longrightarrow> link_ok ed_verify (chain ! i) (chain ! Suc i)) \<longleftrightarrow>
      list_all (\<lambda>i. link_ok ed_verify (chain ! i) (chain ! Suc i)) [0..<length chain - 1]"
    by (auto simp: list_all_iff less_diff_conv)
  then have "verify_signature ed_verify h s crl now = Valid \<and> verify_chain ed_verify chain now anchors = ChainValid
      \<longleftrightarrow> verify_signature ed_verify h s crl now = Valid
        \<and> (chain \<noteq> [] \<and> list_all (\<lambda>c. is_valid_at (identity c) now) chain
        \<and> list_all (\<lambda>i. link_ok ed_verify (chain ! i) (chain ! Suc i)) [0..<length chain - 1]
        \<and> is_self_signed (last chain)
        \<and> signature_valid_under ed_verify (public_key (identity (last chain))) (last chain)
        \<and> fingerprint (identity (last chain)) \<in> set anchors)"
    by (simp add: verify_chain_iff list_all_iff)
  finally have iff: "verify_signature_with_chain ed_verify h s chain crl anchors now = Valid \<longleftrightarrow> \<dots>" .
  have "list_ex (\<lambda>b. b \<noteq> 0) bs \<longleftrightarrow> \<not> list_all (\<lambda>b. b = 0) bs" for bs :: "u8 list"
    by (auto simp: list_ex_iff list_all_iff)
  then show ?thesis unfolding iff verify_signature_iff by (simp only: conj_assoc)
qed

text \<open>
  C19. The pin of the root is not bound to a key. Anybody with a key pair of their own, and with
  no key of any pinned root, can make for any binary a signature and a chain that are
  accepted: the certificate compares the fingerprint field of the root with the pinned ones,
  and that field is whatever the certificate's maker writes.
\<close>

theorem forged_chain_accepted:
  assumes "length pk = 32" and "\<forall>m. length (mysign m) = 64 \<and> ed_verify pk m (mysign m)"
    and "list_ex (\<lambda>b. b \<noteq> 0) (mysign h)"
    and "a \<in> set anchors" and "n \<notin> set (revoked_serials crl)" and "fp \<notin> set (revoked_fingerprints crl)"
  shows "\<exists>s chain. public_key (signer s) = pk \<and> list_all (\<lambda>c. public_key (identity c) = pk) chain
    \<and> verify_signature_with_chain ed_verify h s chain crl anchors now = Valid"
proof -
  let ?i = "\<lparr>id_name = [], public_key = pk, id_issuer = [], serial = n, not_before = 0, not_after = - 1,
      id_algorithm = Ed25519, id_trust_level = Verified, fingerprint = a\<rparr> :: SigningIdentity"
  define c :: Certificate where
    "c = \<lparr>identity = ?i, issuer_fingerprint = a, is_ca = True, cert_signature = []\<rparr>"
  have c: "identity c = ?i" "issuer_fingerprint c = a" by (simp_all add: c_def)
  let ?root = "c\<lparr>cert_signature := mysign (signed_data c)\<rparr>"
  let ?s = "\<lparr>cs_algorithm = Ed25519, cs_binary_hash = h, signature_bytes = mysign h,
      signer = ?i\<lparr>fingerprint := fp\<rparr>, cs_timestamp = now\<rparr> :: CodeSignature"
  have "verify_signature ed_verify h ?s crl now = Valid"
    using assms by (auto simp: verify_signature_iff is_valid_at_def is_revoked_def is_revoked_serial_def
        is_revoked_fingerprint_def list_ex_iff list_all_iff)
  moreover have "verify_chain ed_verify [?root] now anchors = ChainValid"
    using assms(1,2,4)
    by (simp add: verify_chain_iff is_valid_at_def is_self_signed_def signature_valid_under_def c)
  ultimately have "verify_signature_with_chain ed_verify h ?s [?root] crl anchors now = Valid"
    by (simp add: verify_signature_with_chain_def)
  then show ?thesis by (intro exI [of _ ?s] exI [of _ "[?root]"]) (simp add: c)
qed

section \<open>Witnesses\<close>

theorem forged_chain_accepted_witness:
  "\<exists>s chain. public_key (signer s) = replicate 32 7 \<and> list_all (\<lambda>c. public_key (identity c) = replicate 32 7) chain
    \<and> verify_signature_with_chain (\<lambda>pk m sig. sig = replicate 64 1) (replicate 32 2) s chain crl_new [replicate 32 9] 5
      = Valid"
  by (rule forged_chain_accepted [of _ "\<lambda>m. replicate 64 1" _ _ "replicate 32 9" _ 1 _ "replicate 32 3"])
    (simp_all add: crl_new_def list_ex_iff)

end
