(* ===== verification/Shield_Audit.thy ===== *)
theory Shield_Audit
  imports Shield_Policy Rust_Str
begin

text \<open>
  The security audit log of AthGuard (\<^verbatim>\<open>components/athshield/src/lib.rs\<close>): a ring
  buffer of events with its iterator and queries, and the alert rules evaluated over it. The
  contract of a bounded history is stated as a locale and proved of the ring buffer: it
  holds the most recent events, in order, and nothing panics until the 64-bit event counter
  would wrap.
\<close>

section \<open>Events\<close>

datatype AuditEventKind = PolicyViolationEv | CapabilityGrant | CapabilityRevoke | AuthAttempt
  | SignatureCheck | TpmOperation | FileAccess | NetworkAccessEv | ProcessSpawnEv | ProcessExit
  | MacViolation | SandboxCreated | SandboxDestroyed | PermissionRequest | CrlUpdate
  | AttestationRequestEv | AttestationVerified | BruteForceDetected | PrivilegeEscalation

record AuditEvent =
  ev_timestamp :: u64
  event_type :: AuditEventKind
  ev_severity :: AuditSeverity
  subject_pid :: u64
  subject_name :: str
  ev_object :: str
  ev_action :: str
  ev_result :: SecurityDecision
  ev_details :: str

section \<open>The ring buffer\<close>

record AuditLog =
  log_buffer :: "AuditEvent option list"
  log_capacity :: usize
  write_pos :: usize
  total_events :: u64

definition log_new :: "usize \<Rightarrow> AuditLog" where
  "log_new capacity =
     (let cap = (if capacity = 0 then 1024 else capacity)
      in \<lparr>log_buffer = replicate (unat cap) None, log_capacity = cap, write_pos = 0, total_events = 0\<rparr>)"

definition log_default :: AuditLog where
  "log_default = log_new 4096"

definition log_record :: "AuditEvent \<Rightarrow> AuditLog \<Rightarrow> AuditLog rust" where
  "log_record event l =
     (if length (log_buffer l) \<le> unat (write_pos l) then Panic
      else if log_capacity l = 0 then Panic
      else Ret (l\<lparr>log_buffer := (log_buffer l)[unat (write_pos l) := Some event],
                  write_pos := (write_pos l + 1) mod log_capacity l,
                  total_events := total_events l + 1\<rparr>))"

definition simple_event :: "u64 \<Rightarrow> AuditEventKind \<Rightarrow> AuditSeverity \<Rightarrow> u64 \<Rightarrow> SecurityDecision \<Rightarrow> AuditEvent" where
  "simple_event t k sev pid r = \<lparr>ev_timestamp = t, event_type = k, ev_severity = sev, subject_pid = pid,
     subject_name = [], ev_object = [], ev_action = [], ev_result = r, ev_details = []\<rparr>"

definition record_simple ::
  "u64 \<Rightarrow> AuditEventKind \<Rightarrow> AuditSeverity \<Rightarrow> u64 \<Rightarrow> SecurityDecision \<Rightarrow> AuditLog \<Rightarrow> AuditLog rust" where
  "record_simple t k sev pid r l = log_record (simple_event t k sev pid r) l"

definition log_len :: "AuditLog \<Rightarrow> usize" where
  "log_len l = (if total_events l > log_capacity l then log_capacity l else total_events l)"

definition log_is_empty :: "AuditLog \<Rightarrow> bool" where
  "log_is_empty l \<longleftrightarrow> total_events l = 0"

text \<open>The iterator, drained: slots that hold no event are passed over.\<close>

fun iter_from :: "AuditLog \<Rightarrow> usize \<Rightarrow> nat \<Rightarrow> AuditEvent list rust" where
  "iter_from l pos 0 = Ret []"
| "iter_from l pos (Suc remaining) =
     (if log_capacity l = 0 then Panic
      else
        let idx = unat (pos mod log_capacity l) in
        if length (log_buffer l) \<le> idx then Panic
        else rust_bind (iter_from l (pos + 1) remaining) (\<lambda>es.
          Ret (case log_buffer l ! idx of Some e \<Rightarrow> e # es | None \<Rightarrow> es)))"

definition log_iter :: "AuditLog \<Rightarrow> AuditEvent list rust" where
  "log_iter l =
     (let start = (if total_events l > log_capacity l then write_pos l else 0)
      in iter_from l start (unat (log_len l)))"

definition log_filter :: "(AuditEvent \<Rightarrow> bool) \<Rightarrow> AuditLog \<Rightarrow> AuditEvent list rust" where
  "log_filter P l = rust_bind (log_iter l) (\<lambda>es. Ret (filter P es))"

definition query_by_kind :: "AuditEventKind \<Rightarrow> AuditLog \<Rightarrow> AuditEvent list rust" where
  "query_by_kind k l = log_filter (\<lambda>e. event_type e = k) l"

definition query_by_severity :: "AuditSeverity \<Rightarrow> AuditLog \<Rightarrow> AuditEvent list rust" where
  "query_by_severity sev l = log_filter (\<lambda>e. ev_severity e \<ge> sev) l"

definition query_by_pid :: "u64 \<Rightarrow> AuditLog \<Rightarrow> AuditEvent list rust" where
  "query_by_pid pid l = log_filter (\<lambda>e. subject_pid e = pid) l"

definition query_by_time_range :: "u64 \<Rightarrow> u64 \<Rightarrow> AuditLog \<Rightarrow> AuditEvent list rust" where
  "query_by_time_range start e l = log_filter (\<lambda>ev. ev_timestamp ev \<ge> start \<and> ev_timestamp ev \<le> e) l"

definition map_or_True :: "'a option \<Rightarrow> ('a \<Rightarrow> bool) \<Rightarrow> bool" where
  "map_or_True x P = (case x of None \<Rightarrow> True | Some y \<Rightarrow> P y)"

definition log_query ::
  "AuditEventKind option \<Rightarrow> AuditSeverity option \<Rightarrow> u64 option \<Rightarrow> u64 option \<Rightarrow> u64 option
     \<Rightarrow> AuditLog \<Rightarrow> AuditEvent list rust" where
  "log_query kind min_severity pid time_start time_end l =
     log_filter (\<lambda>e. map_or_True kind (\<lambda>k. event_type e = k)
       \<and> map_or_True min_severity (\<lambda>s. ev_severity e \<ge> s)
       \<and> map_or_True pid (\<lambda>p. subject_pid e = p)
       \<and> map_or_True time_start (\<lambda>t. ev_timestamp e \<ge> t)
       \<and> map_or_True time_end (\<lambda>t. ev_timestamp e \<le> t)) l"

section \<open>Alert rules\<close>

record AlertRule =
  rule_name :: str
  event_kind :: AuditEventKind
  min_severity :: AuditSeverity
  threshold_count :: usize
  window_seconds :: u64

record FiredAlert =
  fired_rule :: str
  fired_at :: u64
  event_count :: nat
  fired_pid :: "u64 option"

definition rule_matches :: "u64 \<Rightarrow> AlertRule \<Rightarrow> AuditEvent \<Rightarrow> bool" where
  "rule_matches now rule e \<longleftrightarrow> event_type e = event_kind rule \<and> ev_severity e \<ge> min_severity rule
     \<and> ev_timestamp e \<ge> saturating_sub now (window_seconds rule)"

fun evaluate_alerts :: "AuditLog \<Rightarrow> AlertRule list \<Rightarrow> u64 \<Rightarrow> FiredAlert list rust" where
  "evaluate_alerts l [] now = Ret []"
| "evaluate_alerts l (rule # rules) now =
     rust_bind (log_filter (rule_matches now rule) l) (\<lambda>matching.
     rust_bind (evaluate_alerts l rules now) (\<lambda>fired.
       Ret (if length matching \<ge> unat (threshold_count rule)
            then \<lparr>fired_rule = rule_name rule, fired_at = now, event_count = length matching,
                  fired_pid = (case matching of [] \<Rightarrow> None | e # _ \<Rightarrow> Some (subject_pid e))\<rparr> # fired
            else fired)))"

definition alert_rule_brute_force :: AlertRule where
  "alert_rule_brute_force = \<lparr>rule_name = lit ''brute_force_detection'', event_kind = AuthAttempt,
     min_severity = Warning, threshold_count = 5, window_seconds = 60\<rparr>"

definition alert_rule_privilege_escalation :: AlertRule where
  "alert_rule_privilege_escalation = \<lparr>rule_name = lit ''privilege_escalation_attempt'',
     event_kind = CapabilityGrant, min_severity = Alert, threshold_count = 3, window_seconds = 30\<rparr>"

definition alert_rule_sandbox_flood :: AlertRule where
  "alert_rule_sandbox_flood = \<lparr>rule_name = lit ''sandbox_violation_flood'', event_kind = PolicyViolationEv,
     min_severity = Warning, threshold_count = 10, window_seconds = 120\<rparr>"

section \<open>The contract of a bounded history\<close>

definition last_n :: "nat \<Rightarrow> 'a list \<Rightarrow> 'a list" where
  "last_n n xs = drop (length xs - n) xs"

lemma last_n_last_n: "last_n n (last_n n xs @ ys) = last_n n (xs @ ys)"
  by (cases "n \<le> length xs") (auto simp: last_n_def add.commute)

lemma length_last_n: "length (last_n n xs) = min n (length xs)"
  by (simp add: last_n_def)

fun add_all :: "('e \<Rightarrow> 'l \<Rightarrow> 'l rust) \<Rightarrow> 'e list \<Rightarrow> 'l \<Rightarrow> 'l rust" where
  "add_all add [] l = Ret l"
| "add_all add (e # es) l = rust_bind (add e l) (add_all add es)"

text \<open>\<open>room\<close> is how many more additions the implementation promises to take.\<close>

locale bounded_history =
  fixes add :: "'e \<Rightarrow> 'l \<Rightarrow> 'l rust"
    and content :: "'l \<Rightarrow> 'e list rust"
    and cap :: "'l \<Rightarrow> nat"
    and room :: "'l \<Rightarrow> nat"
    and invar :: "'l \<Rightarrow> bool"
  assumes content_ret: "invar l \<Longrightarrow> \<exists>es. content l = Ret es \<and> length es \<le> cap l"
    and add_ret: "invar l \<Longrightarrow> content l = Ret es \<Longrightarrow> Suc n \<le> room l \<Longrightarrow>
      \<exists>l'. add e l = Ret l' \<and> invar l' \<and> cap l' = cap l \<and> n \<le> room l'
         \<and> content l' = Ret (last_n (cap l) (es @ [e]))"
begin

lemma add_all_content:
  assumes "invar l" and "content l = Ret xs" and "length es \<le> room l"
  shows "\<exists>l'. add_all add es l = Ret l' \<and> invar l' \<and> cap l' = cap l
     \<and> content l' = Ret (last_n (cap l) (xs @ es))"
  using assms
proof (induction es arbitrary: l xs)
  case Nil
  then have "length xs \<le> cap l" using content_ret [of l] by auto
  with Nil show ?case by (simp add: last_n_def)
next
  case (Cons e es)
  from Cons.prems(3) have "Suc (length es) \<le> room l" by simp
  from add_ret [OF Cons.prems(1,2) this, of e] obtain l' where l': "add e l = Ret l'" "invar l'"
    "cap l' = cap l" "length es \<le> room l'" "content l' = Ret (last_n (cap l) (xs @ [e]))"
    by blast
  from Cons.IH [OF l'(2,5,4)] l'(1,3) show ?case
    using last_n_last_n [of "cap l" "xs @ [e]" es] by simp
qed

end

section \<open>The ring buffer is a bounded history\<close>

text \<open>The state after the events \<open>es\<close> were recorded, all of them since the log was made.\<close>

definition log_after :: "AuditEvent list \<Rightarrow> AuditLog \<Rightarrow> bool" where
  "log_after es l \<longleftrightarrow> (let cap = unat (log_capacity l) in
     0 < cap \<and> cap < 2 ^ 63 \<and> length (log_buffer l) = cap
     \<and> unat (total_events l) = length es \<and> unat (write_pos l) = length es mod cap
     \<and> (\<forall>j. j < length es \<and> length es \<le> j + cap \<longrightarrow> log_buffer l ! (j mod cap) = Some (es ! j)))"

definition log_ok :: "AuditLog \<Rightarrow> bool" where
  "log_ok l \<longleftrightarrow> (\<exists>es. log_after es l)"

definition log_room :: "AuditLog \<Rightarrow> nat" where
  "log_room l = 2 ^ 64 - 1 - unat (total_events l)"

lemma log_after_new:
  assumes "unat c < 2 ^ 63"
  shows "log_after [] (log_new c)" and "log_capacity (log_new c) = (if c = 0 then 1024 else c)"
  using assms by (simp_all add: log_after_def log_new_def Let_def unat_gt_0)

lemma mod_eq_close:
  fixes j n cap :: nat
  assumes "j < n" and "n < j + cap"
  shows "j mod cap \<noteq> n mod cap"
proof
  assume "j mod cap = n mod cap"
  then have "cap dvd n - j" using assms(1) mod_eq_dvd_iff_nat [of j n cap] by simp
  with assms show False by (auto dest: dvd_imp_le)
qed

lemma log_record_after:
  assumes "log_after es l" and "length es < 2 ^ 64 - 1"
  shows "\<exists>l'. log_record e l = Ret l' \<and> log_after (es @ [e]) l' \<and> log_capacity l' = log_capacity l"
proof -
  let ?cap = "unat (log_capacity l)" and ?n = "length es"
  have l: "0 < ?cap" "?cap < 2 ^ 63" "length (log_buffer l) = ?cap" "unat (total_events l) = ?n"
    "unat (write_pos l) = ?n mod ?cap"
    and buf: "\<And>j. j < ?n \<Longrightarrow> ?n \<le> j + ?cap \<Longrightarrow> log_buffer l ! (j mod ?cap) = Some (es ! j)"
    using assms(1) by (auto simp: log_after_def Let_def)
  let ?l' = "l\<lparr>log_buffer := (log_buffer l)[unat (write_pos l) := Some e],
      write_pos := (write_pos l + 1) mod log_capacity l, total_events := total_events l + 1\<rparr>"
  have lt: "?n mod ?cap < ?cap" using l(1) by simp
  have pos: "unat ((write_pos l + 1) mod log_capacity l) = Suc ?n mod ?cap"
  proof -
    have "unat (write_pos l + 1) = ?n mod ?cap + 1"
      using l(2,5) lt by (subst unat_plus_no_overflow) simp_all
    then show ?thesis by (simp add: unat_mod mod_Suc_eq)
  qed
  have tot: "unat (total_events l + 1) = Suc ?n"
    using l(4) assms(2) by (subst unat_plus_no_overflow) simp_all
  have new: "(log_buffer l)[?n mod ?cap := Some e] ! (j mod ?cap) = Some ((es @ [e]) ! j)"
    if j: "j < Suc ?n" "Suc ?n \<le> j + ?cap" for j
  proof (cases "j = ?n")
    case True
    then show ?thesis using lt l(3) by simp
  next
    case False
    with j have "j < ?n" "?n < j + ?cap" by simp_all
    with mod_eq_close [OF this] buf [of j] show ?thesis by (simp add: nth_append)
  qed
  have "log_record e l = Ret ?l'" using l lt by (auto simp: log_record_def)
  moreover have "log_after (es @ [e]) ?l'"
    using l(1-3) pos tot new by (simp add: log_after_def Let_def l(5))
  ultimately show ?thesis by (intro exI [of _ ?l']) simp
qed

lemma iter_from_after:
  assumes "log_after es l" and "base + r \<le> length es" and "length es \<le> base + unat (log_capacity l)"
    and "unat pos mod unat (log_capacity l) = base mod unat (log_capacity l)" and "unat pos + r < 2 ^ 64"
  shows "iter_from l pos r = Ret (take r (drop base es))"
  using assms(2-5)
proof (induction r arbitrary: pos base)
  case (Suc r)
  let ?cap = "unat (log_capacity l)"
  have l: "0 < ?cap" "length (log_buffer l) = ?cap"
    and buf: "\<And>j. j < length es \<Longrightarrow> length es \<le> j + ?cap \<Longrightarrow> log_buffer l ! (j mod ?cap) = Some (es ! j)"
    using assms(1) by (auto simp: log_after_def Let_def)
  have idx: "unat (pos mod log_capacity l) = base mod ?cap" using Suc.prems(3) by (simp add: unat_mod)
  have pos: "unat (pos + 1) = Suc (unat pos)"
    using Suc.prems(4) by (subst unat_plus_no_overflow) simp_all
  then have "unat (pos + 1) mod ?cap = Suc base mod ?cap" using Suc.prems(3) by (metis mod_Suc_eq)
  then have "iter_from l (pos + 1) r = Ret (take r (drop (Suc base) es))"
    using Suc.prems pos by (intro Suc.IH) simp_all
  moreover have "log_buffer l ! (base mod ?cap) = Some (es ! base)" using Suc.prems by (intro buf) simp_all
  moreover have "take (Suc r) (drop base es) = es ! base # take r (drop (Suc base) es)"
    using Suc.prems(1) by (simp add: Cons_nth_drop_Suc [symmetric])
  moreover have "\<not> ?cap \<le> base mod ?cap" using l(1) by (simp add: not_le)
  ultimately show ?case using l idx by (auto simp: Let_def)
qed simp

lemma log_iter_after:
  assumes "log_after es l"
  shows "log_iter l = Ret (last_n (unat (log_capacity l)) es)"
proof -
  let ?cap = "unat (log_capacity l)" and ?n = "length es"
  have l: "0 < ?cap" "?cap < 2 ^ 63" "unat (total_events l) = ?n" "unat (write_pos l) = ?n mod ?cap"
    using assms by (auto simp: log_after_def Let_def)
  show ?thesis
  proof (cases "?cap < ?n")
    case True
    have eq: "(?n - ?cap) mod ?cap = ?n mod ?cap" using True by (simp add: mod_if)
    have "iter_from l (write_pos l) ?cap = Ret (take ?cap (drop (?n - ?cap) es))"
    proof (rule iter_from_after [OF assms])
      have "?n mod ?cap < ?cap" using l(1) by simp
      then show "unat (write_pos l) + ?cap < 2 ^ 64" using l(2,4) by simp
    qed (use True l eq in simp_all)
    with True l show ?thesis by (simp add: log_iter_def log_len_def word_less_nat_alt last_n_def)
  next
    case False
    have "iter_from l 0 ?n = Ret (take ?n (drop 0 es))"
      using False l(2) by (intro iter_from_after [OF assms]) simp_all
    with False l show ?thesis by (simp add: log_iter_def log_len_def word_less_nat_alt last_n_def)
  qed
qed

interpretation ring: bounded_history log_record log_iter "\<lambda>l. unat (log_capacity l)" log_room log_ok
proof
  show "\<exists>es. log_iter l = Ret es \<and> length es \<le> unat (log_capacity l)" if "log_ok l" for l
    using that log_iter_after by (auto simp: log_ok_def length_last_n)
next
  fix l es n e
  assume "log_ok l" and it: "log_iter l = Ret es" and room: "Suc n \<le> log_room l"
  then obtain all where all: "log_after all l" by (auto simp: log_ok_def)
  then have tot: "unat (total_events l) = length all" by (simp add: log_after_def Let_def)
  with room have "length all < 2 ^ 64 - 1" by (simp add: log_room_def)
  from log_record_after [OF all this, of e] obtain l' where l': "log_record e l = Ret l'"
    "log_after (all @ [e]) l'" "log_capacity l' = log_capacity l"
    by blast
  then have "unat (total_events l') = Suc (length all)" by (simp add: log_after_def Let_def)
  with room tot have "n \<le> log_room l'" by (simp add: log_room_def)
  moreover have "log_iter l' = Ret (last_n (unat (log_capacity l)) (es @ [e]))"
    using log_iter_after [OF l'(2)] log_iter_after [OF all] it l'(3) by (simp add: last_n_last_n)
  ultimately show "\<exists>l'. log_record e l = Ret l' \<and> log_ok l' \<and> unat (log_capacity l') = unat (log_capacity l)
      \<and> n \<le> log_room l' \<and> log_iter l' = Ret (last_n (unat (log_capacity l)) (es @ [e]))"
    using l' by (auto simp: log_ok_def)
qed

section \<open>Alerts\<close>

lemma log_filter_iter: "log_iter l = Ret es \<Longrightarrow> log_filter P l = Ret (filter P es)"
  by (simp add: log_filter_def)

text \<open>A rule fires exactly when the log holds enough matching events.\<close>

lemma evaluate_alerts_fired:
  assumes "log_iter l = Ret es"
  shows "\<exists>fired. evaluate_alerts l rules now = Ret fired
     \<and> map fired_rule fired = map rule_name (filter (\<lambda>r. unat (threshold_count r)
         \<le> length (filter (rule_matches now r) es)) rules)"
  using assms by (induction l rules now rule: evaluate_alerts.induct) (auto simp: log_filter_iter)

section \<open>Properties\<close>

text \<open>
  C30. The audit log keeps the most recent events. After any sequence of fewer than two to the
  power 64 events, recorded into a new log of capacity \<open>c\<close> (1024 when \<open>c\<close> is zero), nothing
  has panicked, iterating gives the last \<open>c\<close> of them in the order they were recorded, the
  length is their number, and every query gives those of them it asks for.
\<close>

theorem audit_ring:
  fixes c :: usize
  defines "cap \<equiv> (if c = 0 then 1024 else unat c)"
  assumes "unat c < 2 ^ 63" and "length es < 2 ^ 64"
  shows "\<exists>l. add_all log_record es (log_new c) = Ret l
    \<and> log_iter l = Ret (last_n cap es) \<and> unat (log_len l) = min cap (length es)
    \<and> log_filter P l = Ret (filter P (last_n cap es))"
proof -
  note new = log_after_new [OF assms(2)]
  have cap: "unat (log_capacity (log_new c)) = cap" by (simp add: new(2) cap_def)
  have ok: "log_ok (log_new c)" using new(1) by (auto simp: log_ok_def)
  have room: "length es \<le> log_room (log_new c)" using assms(3) by (simp add: log_room_def log_new_def Let_def)
  have "log_iter (log_new c) = Ret []" using log_iter_after [OF new(1)] by (simp add: last_n_def)
  from ring.add_all_content [OF ok this room] obtain l where l: "add_all log_record es (log_new c) = Ret l"
    "log_ok l" "unat (log_capacity l) = cap" "log_iter l = Ret (last_n cap es)"
    by (auto simp: cap)
  from l(2) obtain all where "log_after all l" by (auto simp: log_ok_def)
  then have "unat (log_len l) = length (last_n cap all)" and "log_iter l = Ret (last_n cap all)"
    using log_iter_after [of all l] l(3)
    by (auto simp: log_len_def log_after_def Let_def word_less_nat_alt length_last_n)
  with l show ?thesis by (auto simp: log_filter_iter length_last_n)
qed

section \<open>Witnesses\<close>

theorem audit_ring_witness:
  "\<exists>l. add_all log_record (map (\<lambda>t. simple_event t FileAccess Info 1 Allowed) [1, 2, 3]) (log_new 2) = Ret l
    \<and> log_iter l = Ret (map (\<lambda>t. simple_event t FileAccess Info 1 Allowed) [2, 3])"
  using audit_ring [of 2 "map (\<lambda>t. simple_event t FileAccess Info 1 Allowed) [1, 2, 3]"]
  by (auto simp: last_n_def)

end
