(* ===== verification/Shield_Context.thy ===== *)
theory Shield_Context
  imports Shield_Sign Shield_Audit
begin

text \<open>
  Mandatory access control, per-process security contexts, the security manager and process
  attestation of AthGuard (\<^verbatim>\<open>components/athshield/src/lib.rs\<close>), on top of the policy
  engine, the audit log and code signing. The theory shows that an access is allowed only
  when both the label check and the policy allow it, that every refusal is counted and
  logged, how labels are encoded, and which alerts the manager's own events can raise.
\<close>

unbundle bit_operations_syntax

section \<open>Labels\<close>

fun label_as_u8 :: "MacLabel \<Rightarrow> u8" where
  "label_as_u8 SystemLabel = 0"
| "label_as_u8 UserLabel = 1"
| "label_as_u8 UntrustedLabel = 2"
| "label_as_u8 GameLabel = 3"
| "label_as_u8 NetworkLabel = 4"
| "label_as_u8 (Custom v) = v + 5"

definition label_from_u8 :: "u8 \<Rightarrow> MacLabel" where
  "label_from_u8 v =
     (if v = 0 then SystemLabel else if v = 1 then UserLabel else if v = 2 then UntrustedLabel
      else if v = 3 then GameLabel else if v = 4 then NetworkLabel else Custom (v - 5))"

fun dominance_level :: "MacLabel \<Rightarrow> u8" where
  "dominance_level SystemLabel = 4"
| "dominance_level UserLabel = 3"
| "dominance_level GameLabel = 2"
| "dominance_level NetworkLabel = 1"
| "dominance_level UntrustedLabel = 0"
| "dominance_level (Custom _) = 1"

definition dominates :: "MacLabel \<Rightarrow> MacLabel \<Rightarrow> bool" where
  "dominates a b \<longleftrightarrow> dominance_level a \<ge> dominance_level b"

section \<open>The label policy\<close>

record MacRule =
  subject_label :: MacLabel
  object_label :: MacLabel
  allowed_access :: AccessMode

record MacPolicy =
  mac_rules :: "MacRule list"
  default_deny :: bool

definition mac_new :: "bool \<Rightarrow> MacPolicy" where
  "mac_new d = \<lparr>mac_rules = [], default_deny = d\<rparr>"

definition mac_add_rule :: "MacRule \<Rightarrow> MacPolicy \<Rightarrow> MacPolicy" where
  "mac_add_rule r p = p\<lparr>mac_rules := mac_rules p @ [r]\<rparr>"

definition mac_remove_rules_for :: "MacLabel \<Rightarrow> MacPolicy \<Rightarrow> MacPolicy" where
  "mac_remove_rules_for l p = p\<lparr>mac_rules := filter (\<lambda>r. subject_label r \<noteq> l) (mac_rules p)\<rparr>"

definition mac_default_policy :: MacPolicy where
  "mac_default_policy =
     fold (\<lambda>(s, obj, m). mac_add_rule \<lparr>subject_label = s, object_label = obj, allowed_access = m\<rparr>)
       [(SystemLabel, SystemLabel, ReadWrite), (SystemLabel, UserLabel, ReadWrite),
        (SystemLabel, GameLabel, ReadWrite), (SystemLabel, NetworkLabel, ReadWrite),
        (SystemLabel, UntrustedLabel, ReadWrite),
        (UserLabel, UserLabel, ReadWrite), (UserLabel, GameLabel, ReadOnly), (UserLabel, NetworkLabel, ReadOnly),
        (GameLabel, GameLabel, ReadWrite), (GameLabel, NetworkLabel, ReadWrite),
        (NetworkLabel, NetworkLabel, ReadWrite), (UntrustedLabel, UntrustedLabel, ReadOnly)]
       (mac_new True)"

fun mac_check_rules :: "MacLabel \<Rightarrow> MacLabel \<Rightarrow> bool \<Rightarrow> MacRule list \<Rightarrow> bool" where
  "mac_check_rules s obj write [] = False"
| "mac_check_rules s obj write (r # rs) =
     (if subject_label r = s \<and> object_label r = obj \<and> mode_ok write (allowed_access r) then True
      else mac_check_rules s obj write rs)"

definition mac_check :: "MacPolicy \<Rightarrow> MacLabel \<Rightarrow> MacLabel \<Rightarrow> bool \<Rightarrow> SecurityDecision" where
  "mac_check p s obj write =
     (if mac_check_rules s obj write (mac_rules p) then Allowed
      else if default_deny p then Denied else Allowed)"

definition mac_rule_count :: "MacPolicy \<Rightarrow> nat" where
  "mac_rule_count p = length (mac_rules p)"

section \<open>Labelled objects\<close>

record LabeledObject =
  obj_id :: u64
  obj_label :: MacLabel
  obj_name :: str

type_synonym MacLabelRegistry = "LabeledObject list"

definition reg_register :: "u64 \<Rightarrow> MacLabel \<Rightarrow> str \<Rightarrow> MacLabelRegistry \<Rightarrow> MacLabelRegistry" where
  "reg_register i l n r =
     (if list_ex (\<lambda>x. obj_id x = i) r then r else r @ [\<lparr>obj_id = i, obj_label = l, obj_name = n\<rparr>])"

definition reg_get_label :: "u64 \<Rightarrow> MacLabelRegistry \<Rightarrow> MacLabel option" where
  "reg_get_label i r = map_option obj_label (find (\<lambda>x. obj_id x = i) r)"

fun reg_set_label :: "u64 \<Rightarrow> MacLabel \<Rightarrow> MacLabelRegistry \<Rightarrow> MacLabelRegistry" where
  "reg_set_label i l [] = []"
| "reg_set_label i l (x # xs) =
     (if obj_id x = i then x\<lparr>obj_label := l\<rparr> # xs else x # reg_set_label i l xs)"

definition reg_unregister :: "u64 \<Rightarrow> MacLabelRegistry \<Rightarrow> MacLabelRegistry" where
  "reg_unregister i r = filter (\<lambda>x. obj_id x \<noteq> i) r"

definition reg_objects_with_label :: "MacLabel \<Rightarrow> MacLabelRegistry \<Rightarrow> LabeledObject list" where
  "reg_objects_with_label l r = filter (\<lambda>x. obj_label x = l) r"

section \<open>Runtime permission requests\<close>

datatype PermissionResponse = Granted | DeniedByUser | DeniedByPolicy | AlreadyHeld

definition min_trust :: "Capability \<Rightarrow> TrustLevel" where
  "min_trust c =
     (case c of SystemConfig \<Rightarrow> SystemTrust | HardwareAccess \<Rightarrow> SystemTrust | FullAccess \<Rightarrow> SystemTrust
      | DebugAttach \<Rightarrow> SystemTrust
      | ProcessSpawn \<Rightarrow> Verified | FileWrite \<Rightarrow> Verified | CryptoKeyAccess \<Rightarrow> Verified
      | _ \<Rightarrow> SelfSigned)"

text \<open>Of the request the function reads the capability only.\<close>

definition evaluate_permission_request ::
  "Capability \<Rightarrow> PolicyEnforcer \<Rightarrow> SigningIdentity option \<Rightarrow> PermissionResponse" where
  "evaluate_permission_request cap e ident =
     (if cs_has (capabilities (enf_policy e)) cap then AlreadyHeld
      else
        let trust = (case ident of Some i \<Rightarrow> id_trust_level i | None \<Rightarrow> Unsigned) in
        if trust < min_trust cap then DeniedByPolicy else Granted)"

section \<open>Security contexts\<close>

record SecurityContext =
  ctx_process_id :: u64
  ctx_enforcer :: PolicyEnforcer
  ctx_identity :: "SigningIdentity option"
  ctx_mac_label :: MacLabel
  ctx_audit_log :: AuditLog
  ctx_trust_level :: TrustLevel
  ctx_nonce :: "u8 list option"
  ctx_violation_count :: u64

definition context_new :: "u64 \<Rightarrow> SandboxPolicy \<Rightarrow> SecurityContext" where
  "context_new pid p = \<lparr>ctx_process_id = pid, ctx_enforcer = enforcer_new p Deny, ctx_identity = None,
     ctx_mac_label = policy_label p, ctx_audit_log = log_new 1024, ctx_trust_level = Unsigned,
     ctx_nonce = None, ctx_violation_count = 0\<rparr>"

definition with_identity :: "SigningIdentity \<Rightarrow> SecurityContext \<Rightarrow> SecurityContext" where
  "with_identity i c = c\<lparr>ctx_trust_level := id_trust_level i, ctx_identity := Some i\<rparr>"

fun request_writes :: "SyscallRequest \<Rightarrow> bool" where
  "request_writes (FileOpen _ write) = write"
| "request_writes (DeviceAccess _ write) = write"
| "request_writes _ = False"

definition check_access ::
  "SyscallRequest \<Rightarrow> MacPolicy \<Rightarrow> MacLabel \<Rightarrow> u64 \<Rightarrow> SecurityContext
     \<Rightarrow> (SecurityDecision \<times> SecurityContext) rust" where
  "check_access req mac_policy obj t c =
     (if mac_check mac_policy (ctx_mac_label c) obj (request_writes req) = Denied then
        rust_bind (record_simple t MacViolation Alert (ctx_process_id c) Denied (ctx_audit_log c)) (\<lambda>l.
          Ret (Denied, c\<lparr>ctx_audit_log := l, ctx_violation_count := ctx_violation_count c + 1\<rparr>))
      else
        let (result, e) = enforcer_check req (ctx_process_id c) t (ctx_enforcer c);
            c = c\<lparr>ctx_enforcer := e\<rparr> in
        if result = Denied then
          rust_bind (record_simple t PolicyViolationEv Warning (ctx_process_id c) Denied (ctx_audit_log c)) (\<lambda>l.
            Ret (result, c\<lparr>ctx_audit_log := l, ctx_violation_count := ctx_violation_count c + 1\<rparr>))
        else Ret (result, c))"

definition check_file_access where
  "check_file_access p write mac_policy lbl t c = check_access (FileOpen p write) mac_policy lbl t c"

definition check_network_access where
  "check_network_access port d mac_policy t c =
     check_access (NetworkConnect port d) mac_policy NetworkLabel t c"

definition request_permission ::
  "Capability \<Rightarrow> str \<Rightarrow> u64 \<Rightarrow> SecurityContext \<Rightarrow> (PermissionResponse \<times> SecurityContext) rust" where
  "request_permission cap justification t c =
     (let response = evaluate_permission_request cap (ctx_enforcer c) (ctx_identity c);
          decision = (case response of Granted \<Rightarrow> Allowed | AlreadyHeld \<Rightarrow> Allowed | _ \<Rightarrow> Denied);
          event = (simple_event t PermissionRequest (if decision = Allowed then Info else Warning)
                     (ctx_process_id c) decision)\<lparr>ev_action := justification\<rparr>
      in rust_bind (log_record event (ctx_audit_log c)) (\<lambda>l.
           let c = c\<lparr>ctx_audit_log := l\<rparr>; e = ctx_enforcer c in
           Ret (response,
             if response = Granted
             then c\<lparr>ctx_enforcer := e\<lparr>enf_policy := grant_capability cap (enf_policy e)\<rparr>\<rparr>
             else c)))"

definition should_terminate :: "SecurityContext \<Rightarrow> bool" where
  "should_terminate c \<longleftrightarrow> should_kill (ctx_enforcer c)
     \<or> ctx_trust_level c = Unsigned \<and> ctx_violation_count c > 10"

section \<open>The security manager\<close>

record SecurityManager =
  sm_mac_policy :: MacPolicy
  label_registry :: MacLabelRegistry
  sm_crl :: CertificateRevocationList
  global_audit_log :: AuditLog
  alert_rules :: "AlertRule list"
  trusted_root_cas :: "Certificate list"
  contexts :: "SecurityContext list"

definition manager_new :: SecurityManager where
  "manager_new = \<lparr>sm_mac_policy = mac_default_policy, label_registry = [], sm_crl = crl_new,
     global_audit_log = log_new 8192,
     alert_rules = [alert_rule_brute_force, alert_rule_privilege_escalation, alert_rule_sandbox_flood],
     trusted_root_cas = [], contexts = []\<rparr>"

text \<open>The result is the index of the new context.\<close>

definition create_context ::
  "u64 \<Rightarrow> SandboxPolicy \<Rightarrow> SigningIdentity option \<Rightarrow> SecurityManager \<Rightarrow> (nat \<times> SecurityManager) rust" where
  "create_context pid p ident sm =
     (let ctx = context_new pid p;
          ctx = (case ident of Some i \<Rightarrow> with_identity i ctx | None \<Rightarrow> ctx);
          sm = sm\<lparr>contexts := contexts sm @ [ctx]\<rparr>
      in rust_bind (record_simple 0 SandboxCreated Info pid Allowed (global_audit_log sm)) (\<lambda>l.
           let sm = sm\<lparr>global_audit_log := l,
                       label_registry := reg_register pid (policy_label p) [] (label_registry sm)\<rparr>
           in Ret (length (contexts sm) - 1, sm)))"

definition destroy_context :: "u64 \<Rightarrow> SecurityManager \<Rightarrow> SecurityManager rust" where
  "destroy_context pid sm =
     (let sm = sm\<lparr>contexts := filter (\<lambda>c. ctx_process_id c \<noteq> pid) (contexts sm),
                  label_registry := reg_unregister pid (label_registry sm)\<rparr>
      in rust_bind (record_simple 0 SandboxDestroyed Info pid Allowed (global_audit_log sm)) (\<lambda>l.
           Ret (sm\<lparr>global_audit_log := l\<rparr>)))"

definition get_context :: "u64 \<Rightarrow> SecurityManager \<Rightarrow> SecurityContext option" where
  "get_context pid sm = find (\<lambda>c. ctx_process_id c = pid) (contexts sm)"

text \<open>An update through \<^verbatim>\<open>get_context_mut\<close>: the first context of the process.\<close>

fun update_context :: "u64 \<Rightarrow> SecurityContext \<Rightarrow> SecurityContext list \<Rightarrow> SecurityContext list" where
  "update_context pid c' [] = []"
| "update_context pid c' (c # cs) =
     (if ctx_process_id c = pid then c' # cs else c # update_context pid c' cs)"

definition verify_binary ::
  "ed25519_verify \<Rightarrow> u8 list \<Rightarrow> CodeSignature \<Rightarrow> Certificate list option \<Rightarrow> u64 \<Rightarrow> SecurityManager
     \<Rightarrow> (SigningResult \<times> SecurityManager) rust" where
  "verify_binary ed_verify binary_hash s chain now sm =
     (let result = (case chain of
            Some c \<Rightarrow> verify_signature_with_chain ed_verify binary_hash s c (sm_crl sm)
                        (map (\<lambda>c. fingerprint (identity c)) (trusted_root_cas sm)) now
          | None \<Rightarrow> verify_signature ed_verify binary_hash s (sm_crl sm) now);
          severity = (case result of Valid \<Rightarrow> Info | Tampered \<Rightarrow> Critical | Revoked \<Rightarrow> Critical | _ \<Rightarrow> Warning);
          decision = (if result = Valid then Allowed else Denied);
          event = (simple_event now SignatureCheck severity 0 decision)\<lparr>subject_name := id_name (signer s)\<rparr>
      in rust_bind (log_record event (global_audit_log sm)) (\<lambda>l. Ret (result, sm\<lparr>global_audit_log := l\<rparr>)))"

definition add_root_ca :: "Certificate \<Rightarrow> SecurityManager \<Rightarrow> SecurityManager" where
  "add_root_ca cert sm = sm\<lparr>trusted_root_cas := trusted_root_cas sm @ [cert]\<rparr>"

definition check_alerts :: "u64 \<Rightarrow> SecurityManager \<Rightarrow> FiredAlert list rust" where
  "check_alerts now sm = evaluate_alerts (global_audit_log sm) (alert_rules sm) now"

definition periodic_scan :: "u64 \<Rightarrow> SecurityManager \<Rightarrow> (FiredAlert list \<times> SecurityManager) rust" where
  "periodic_scan now sm =
     (let pids_to_kill = map ctx_process_id (filter should_terminate (contexts sm))
      in rust_bind (add_all (\<lambda>pid. record_simple now PolicyViolationEv Critical pid Denied) pids_to_kill (global_audit_log sm)) (\<lambda>l.
           let sm = sm\<lparr>global_audit_log := l\<rparr> in
           rust_bind (check_alerts now sm) (\<lambda>fired. Ret (fired, sm))))"

section \<open>Attestation\<close>

record AttestationRequest =
  areq_process_id :: u64
  areq_nonce :: "u8 list"
  require_boot_chain :: bool
  require_code_hash :: bool
  require_wx_status :: bool
  require_loaded_modules :: bool
  require_sandbox_policy :: bool

definition attestation_request_new :: "u64 \<Rightarrow> u8 list \<Rightarrow> AttestationRequest" where
  "attestation_request_new pid nonce = \<lparr>areq_process_id = pid, areq_nonce = nonce, require_boot_chain = True,
     require_code_hash = True, require_wx_status = True, require_loaded_modules = True,
     require_sandbox_policy = True\<rparr>"

record LoadedModule =
  lm_name :: str
  lm_base_address :: u64
  lm_size :: u64
  lm_hash :: "u8 list"
  lm_signed :: bool

record AttestationResponse =
  resp_process_id :: u64
  resp_nonce :: "u8 list"
  resp_timestamp :: u64
  resp_binary_hash :: "u8 list"
  boot_chain_measurements :: "u8 list list"
  sandbox_policy_hash :: "u8 list"
  resp_wx_clean :: bool
  resp_loaded_modules :: "LoadedModule list"
  memory_integrity_ok :: bool
  platform_signature :: "u8 list"

definition flag_byte :: "bool \<Rightarrow> u8" where
  "flag_byte b = (if b then 1 else 0)"

definition module_bytes :: "LoadedModule \<Rightarrow> u8 list" where
  "module_bytes m =
     (let name_bytes = as_bytes (lm_name m) in
      to_le_bytes 2 (word_of_nat (length name_bytes) :: u16) @ name_bytes @
      to_le_bytes 8 (lm_base_address m) @ to_le_bytes 8 (lm_size m) @ lm_hash m @ [flag_byte (lm_signed m)])"

definition attestation_to_bytes :: "AttestationResponse \<Rightarrow> u8 list" where
  "attestation_to_bytes r =
     as_bytes (lit ''RAET'') @ to_le_bytes 4 (1 :: u32) @
     to_le_bytes 8 (resp_process_id r) @ resp_nonce r @ to_le_bytes 8 (resp_timestamp r) @ resp_binary_hash r @
     to_le_bytes 4 (word_of_nat (length (boot_chain_measurements r)) :: u32) @ concat (boot_chain_measurements r) @
     sandbox_policy_hash r @ [flag_byte (resp_wx_clean r), flag_byte (memory_integrity_ok r)] @
     to_le_bytes 4 (word_of_nat (length (resp_loaded_modules r)) :: u32) @
     concat (map module_bytes (resp_loaded_modules r)) @ platform_signature r"

definition verify_nonce :: "u8 list \<Rightarrow> AttestationResponse \<Rightarrow> bool" where
  "verify_nonce expected r \<longleftrightarrow> resp_nonce r = expected"

definition hash_sandbox_policy :: "SandboxPolicy \<Rightarrow> u8 list" where
  "hash_sandbox_policy p =
     simple_sha256 (to_le_bytes 4 (capabilities p) @ to_le_bytes 8 (lim_memory (resource_limits p)) @
       [lim_cpu_percent (resource_limits p)] @ to_le_bytes 4 (lim_threads (resource_limits p)) @
       [flag_byte (process_spawn p), flag_byte (ipc p), label_as_u8 (policy_label p)])"

definition sign_attestation ::
  "AttestationRequest \<Rightarrow> u8 list \<Rightarrow> u8 list \<Rightarrow> bool \<Rightarrow> bool \<Rightarrow> u8 list \<Rightarrow> u64 \<Rightarrow> u8 list" where
  "sign_attestation req binary_hash sandbox_hash wx_clean memory_ok platform_key t =
     (let msg = areq_nonce req @ to_le_bytes 8 (areq_process_id req) @ binary_hash @ sandbox_hash @
            [flag_byte wx_clean, flag_byte memory_ok] @ to_le_bytes 8 t @ platform_key;
          hash = simple_sha256 msg;
          hash2 = simple_sha256 (hash @ platform_key)
      in hash @ hash2)"

definition create_attestation ::
  "AttestationRequest \<Rightarrow> u8 list \<Rightarrow> u8 list list \<Rightarrow> LoadedModule list \<Rightarrow> bool \<Rightarrow> bool \<Rightarrow> SandboxPolicy
     \<Rightarrow> u8 list \<Rightarrow> u64 \<Rightarrow> AttestationResponse" where
  "create_attestation req binary_hash boot_measurements loaded_modules wx_clean memory_ok p platform_key t =
     (let sandbox_hash = hash_sandbox_policy p;
          signature = sign_attestation req binary_hash sandbox_hash wx_clean memory_ok platform_key t
      in \<lparr>resp_process_id = areq_process_id req, resp_nonce = areq_nonce req, resp_timestamp = t,
          resp_binary_hash = binary_hash, boot_chain_measurements = boot_measurements,
          sandbox_policy_hash = sandbox_hash, resp_wx_clean = wx_clean, resp_loaded_modules = loaded_modules,
          memory_integrity_ok = memory_ok, platform_signature = signature\<rparr>)"

definition context_attestation ::
  "u8 list \<Rightarrow> u8 list list \<Rightarrow> LoadedModule list \<Rightarrow> bool \<Rightarrow> bool \<Rightarrow> u8 list \<Rightarrow> u64 \<Rightarrow> SecurityContext
     \<Rightarrow> AttestationResponse" where
  "context_attestation nonce boot_measurements loaded_modules wx_clean memory_ok platform_key t c =
     (let binary_hash = (case ctx_identity c of Some i \<Rightarrow> fingerprint i | None \<Rightarrow> replicate 32 0)
      in create_attestation (attestation_request_new (ctx_process_id c) nonce) binary_hash boot_measurements
           loaded_modules wx_clean memory_ok (enf_policy (ctx_enforcer c)) platform_key t)"

text \<open>
  The signature covers neither the boot measurements nor the loaded modules: replacing
  them leaves it valid.
\<close>

lemma attestation_signature_omits:
  "platform_signature (create_attestation req h bm mods wx ok p key t)
     = platform_signature (create_attestation req h bm' mods' wx ok p key t)"
  by (simp add: create_attestation_def Let_def)

section \<open>Labels: encoding and dominance\<close>

lemma label_as_from_u8: "label_as_u8 (label_from_u8 v) = v"
  by (simp add: label_from_u8_def)

text \<open>
  The encoding wraps: the five largest custom labels are read back as the built-in ones, the
  first of them as \<open>SystemLabel\<close>.
\<close>

lemma label_from_as_u8: "label_from_u8 (label_as_u8 l) = l \<longleftrightarrow> l \<notin> Custom ` {251..}"
proof (cases l)
  case (Custom v)
  have "label_from_u8 (v + 5) = Custom v \<longleftrightarrow> v + 5 \<notin> {0, 1, 2, 3, 4}"
    by (auto simp: label_from_u8_def)
  also have "\<dots> \<longleftrightarrow> \<not> 251 \<le> v"
  proof -
    have "v + 5 = 0 \<or> v + 5 = 1 \<or> v + 5 = 2 \<or> v + 5 = 3 \<or> v + 5 = 4 \<longleftrightarrow> 251 \<le> v"
      by (unat_arith; simp; arith)
    then show ?thesis by auto
  qed
  finally show ?thesis using Custom by auto
qed (auto simp: label_from_u8_def)

lemma mac_check_rules_iff:
  "mac_check_rules s obj write rs \<longleftrightarrow>
     (\<exists>r\<in>set rs. subject_label r = s \<and> object_label r = obj \<and> mode_ok write (allowed_access r))"
  by (induction rs) auto

lemma mac_default_dominates:
  assumes "mac_check mac_default_policy s obj write = Allowed"
  shows "dominates s obj" and "write \<Longrightarrow> s \<noteq> UntrustedLabel"
proof -
  from assms have "mac_check_rules s obj write (mac_rules mac_default_policy)"
    by (simp add: mac_check_def mac_default_policy_def mac_new_def mac_add_rule_def split: if_splits)
  then show "dominates s obj" and "write \<Longrightarrow> s \<noteq> UntrustedLabel"
    by (auto simp: mac_check_rules_iff mac_default_policy_def mac_new_def mac_add_rule_def
        dominates_def mode_ok_def allows_write_def)
qed

section \<open>Access decisions\<close>

text \<open>What a refusal puts into the log.\<close>

definition denial_event :: "MacPolicy \<Rightarrow> MacLabel \<Rightarrow> SyscallRequest \<Rightarrow> u64 \<Rightarrow> SecurityContext \<Rightarrow> AuditEvent" where
  "denial_event mp obj req t c =
     (if mac_check mp (ctx_mac_label c) obj (request_writes req) = Denied
      then simple_event t MacViolation Alert (ctx_process_id c) Denied
      else simple_event t PolicyViolationEv Warning (ctx_process_id c) Denied)"

lemma check_access_cases:
  assumes "log_ok (ctx_audit_log c)" and "log_iter (ctx_audit_log c) = Ret es" and "0 < log_room (ctx_audit_log c)"
  shows "\<exists>d c'. check_access req mp obj t c = Ret (d, c')
    \<and> (if mac_check mp (ctx_mac_label c) obj (request_writes req) = Allowed
          \<and> decision_of (ctx_enforcer c) req = Allowed
       then d = Allowed \<and> c' = c
       else d = Denied \<and> ctx_violation_count c' = ctx_violation_count c + 1
         \<and> enf_policy (ctx_enforcer c') = enf_policy (ctx_enforcer c) \<and> log_ok (ctx_audit_log c')
         \<and> log_iter (ctx_audit_log c') = Ret (last_n (unat (log_capacity (ctx_audit_log c)))
               (es @ [denial_event mp obj req t c])))"
proof -
  let ?l = "ctx_audit_log c"
  have rec: "\<exists>l'. record_simple t k sev (ctx_process_id c) Denied ?l = Ret l' \<and> log_ok l'
      \<and> log_iter l' = Ret (last_n (unat (log_capacity ?l)) (es @ [simple_event t k sev (ctx_process_id c) Denied]))"
    for k sev
    using ring.add_ret [OF assms(1,2), of 0] assms(3) by (fastforce simp: record_simple_def)
  consider (mac) "mac_check mp (ctx_mac_label c) obj (request_writes req) = Denied"
    | (policy) "mac_check mp (ctx_mac_label c) obj (request_writes req) = Allowed"
        "decision_of (ctx_enforcer c) req = Denied"
    | (ok) "mac_check mp (ctx_mac_label c) obj (request_writes req) = Allowed"
        "decision_of (ctx_enforcer c) req = Allowed"
    using SecurityDecision.exhaust by metis
  then show ?thesis
  proof cases
    case mac
    with rec [of MacViolation Alert] show ?thesis by (auto simp: check_access_def denial_event_def)
  next
    case policy
    obtain e where e: "enforcer_check req (ctx_process_id c) t (ctx_enforcer c) = (Denied, e)"
      and "enf_policy e = enf_policy (ctx_enforcer c)"
      using policy(2) enforcer_check_fst enforcer_check_policy by (metis prod.collapse)
    with policy rec [of PolicyViolationEv Warning] show ?thesis by (auto simp: check_access_def denial_event_def Let_def)
  next
    case ok
    then have "enforcer_check req (ctx_process_id c) t (ctx_enforcer c) = (Allowed, ctx_enforcer c)"
      by (simp add: enforcer_check_def)
    with ok show ?thesis by (simp add: check_access_def Let_def)
  qed
qed

section \<open>The life of a context\<close>

definition context_start :: "u64 \<Rightarrow> SandboxPolicy \<Rightarrow> SigningIdentity option \<Rightarrow> SecurityContext" where
  "context_start pid p ident =
     (case ident of Some i \<Rightarrow> with_identity i (context_new pid p) | None \<Rightarrow> context_new pid p)"

definition ident_trust :: "SigningIdentity option \<Rightarrow> TrustLevel" where
  "ident_trust ident = (case ident of Some i \<Rightarrow> id_trust_level i | None \<Rightarrow> Unsigned)"

text \<open>Access checks and permission requests, up to the end of the log's event counter.\<close>

inductive ctx_step :: "SecurityContext \<Rightarrow> SecurityContext \<Rightarrow> bool" where
  access: "0 < log_room (ctx_audit_log c) \<Longrightarrow> check_access req mp obj t c = Ret (d, c') \<Longrightarrow> ctx_step c c'"
| permission: "0 < log_room (ctx_audit_log c) \<Longrightarrow> request_permission cap why t c = Ret (r, c') \<Longrightarrow> ctx_step c c'"

definition ctx_inv :: "SandboxPolicy \<Rightarrow> SigningIdentity option \<Rightarrow> SecurityContext \<Rightarrow> bool" where
  "ctx_inv p ident c \<longleftrightarrow> log_ok (ctx_audit_log c) \<and> ctx_identity c = ident
     \<and> (\<forall>cap. cs_has (capabilities (enf_policy (ctx_enforcer c))) cap \<longrightarrow>
          cs_has (capabilities p) cap \<or> min_trust cap \<le> ident_trust ident)"

lemma ctx_inv_start: "ctx_inv p ident (context_start pid p ident)"
proof -
  have "log_ok (log_new 1024)" using log_after_new(1) [of 1024] by (auto simp: log_ok_def)
  then show ?thesis
    by (auto simp: ctx_inv_def context_start_def context_new_def with_identity_def enforcer_new_def
        split: option.split)
qed

lemma log_record_ok:
  assumes "log_ok l" and "0 < log_room l" and "log_record e l = Ret l'"
  shows "log_ok l'"
proof -
  from assms(1) obtain es where "log_iter l = Ret es" using ring.content_ret by blast
  with ring.add_ret [OF assms(1) this, of 0 e] assms(2,3) show ?thesis by auto
qed

lemma check_access_frame:
  assumes "check_access req mp obj t c = Ret (d, c')" and "log_ok (ctx_audit_log c)" and "0 < log_room (ctx_audit_log c)"
  shows "log_ok (ctx_audit_log c')" and "ctx_identity c' = ctx_identity c"
    and "enf_policy (ctx_enforcer c') = enf_policy (ctx_enforcer c)"
proof -
  obtain e where e: "enforcer_check req (ctx_process_id c) t (ctx_enforcer c) = (decision_of (ctx_enforcer c) req, e)"
    and pol: "enf_policy e = enf_policy (ctx_enforcer c)"
    using enforcer_check_fst enforcer_check_policy by (metis prod.collapse)
  show "log_ok (ctx_audit_log c')" and "ctx_identity c' = ctx_identity c"
    and "enf_policy (ctx_enforcer c') = enf_policy (ctx_enforcer c)"
    using assms pol log_record_ok [OF assms(2,3)]
    by (auto simp: check_access_def e Let_def record_simple_def rust_bind_Ret_iff split: if_splits)
qed

lemma request_permission_inv:
  assumes "ctx_inv p ident c" and "0 < log_room (ctx_audit_log c)" and "request_permission cap why t c = Ret (r, c')"
  shows "ctx_inv p ident c'"
proof -
  let ?e = "ctx_enforcer c"
  have inv: "log_ok (ctx_audit_log c)" "ctx_identity c = ident"
    using assms(1) by (simp_all add: ctx_inv_def)
  from assms(3) obtain l ev where l: "log_record ev (ctx_audit_log c) = Ret l"
    and r: "r = evaluate_permission_request cap ?e ident"
    and c': "c' = (if r = Granted
        then c\<lparr>ctx_audit_log := l, ctx_enforcer := ?e\<lparr>enf_policy := grant_capability cap (enf_policy ?e)\<rparr>\<rparr>
        else c\<lparr>ctx_audit_log := l\<rparr>)"
    by (auto simp: request_permission_def Let_def rust_bind_Ret_iff inv(2))
  have "log_ok l" using log_record_ok [OF inv(1) assms(2) l] .
  moreover have "min_trust cap \<le> ident_trust ident" if "r = Granted"
    using that r by (auto simp: evaluate_permission_request_def ident_trust_def Let_def not_less split: if_splits)
  ultimately show ?thesis
    using assms(1) by (auto simp: ctx_inv_def c' grant_capability_def)
qed

interpretation ctx: inductive_invariant "\<lambda>c. c = context_start pid p ident" ctx_step "ctx_inv p ident"
  for pid p ident
proof
  show "c = context_start pid p ident \<Longrightarrow> ctx_inv p ident c" for c by (simp add: ctx_inv_start)
  show "ctx_step c c' \<Longrightarrow> ctx_inv p ident c \<Longrightarrow> ctx_inv p ident c'" for c c'
  proof (induction rule: ctx_step.induct)
    case (access c req mp obj t d c')
    then show ?case using check_access_frame [OF access(2)] by (simp add: ctx_inv_def)
  next
    case (permission c cap why t r c')
    then show ?case by (blast intro: request_permission_inv)
  qed
qed

section \<open>Alerts the manager can raise\<close>

text \<open>
  Events of the manager's own log. What happens inside a context goes into that context's
  log, which the alert rules do not read.
\<close>

definition manager_kinds :: "AuditEventKind set" where
  "manager_kinds = {SandboxCreated, SandboxDestroyed, SignatureCheck, PolicyViolationEv}"

definition log_kinds :: "AuditLog \<Rightarrow> AuditEventKind set" where
  "log_kinds l = {event_type e |e. Some e \<in> set (log_buffer l)}"

inductive sm_step :: "SecurityManager \<Rightarrow> SecurityManager \<Rightarrow> bool" where
  create: "create_context pid p ident sm = Ret (n, sm') \<Longrightarrow> sm_step sm sm'"
| destroy: "destroy_context pid sm = Ret sm' \<Longrightarrow> sm_step sm sm'"
| verify: "verify_binary ed_verify h s chain now sm = Ret (r, sm') \<Longrightarrow> sm_step sm sm'"
| root: "sm_step sm (add_root_ca cert sm)"
| scan: "periodic_scan now sm = Ret (fired, sm') \<Longrightarrow> sm_step sm sm'"
| in_context: "sm_step sm (sm\<lparr>contexts := update_context pid c (contexts sm)\<rparr>)"

definition sm_inv :: "SecurityManager \<Rightarrow> bool" where
  "sm_inv sm \<longleftrightarrow> log_kinds (global_audit_log sm) \<subseteq> manager_kinds
     \<and> alert_rules sm = [alert_rule_brute_force, alert_rule_privilege_escalation, alert_rule_sandbox_flood]"

lemma log_record_kinds:
  assumes "log_record e l = Ret l'" and "log_kinds l \<subseteq> K" and "event_type e \<in> K"
  shows "log_kinds l' \<subseteq> K"
proof
  fix k
  assume "k \<in> log_kinds l'"
  then obtain x where "Some x \<in> set ((log_buffer l)[unat (write_pos l) := Some e])" "k = event_type x"
    using assms(1) by (auto simp: log_kinds_def log_record_def split: if_splits)
  then show "k \<in> K"
    using assms(2,3) set_update_subset_insert [of "log_buffer l" "unat (write_pos l)" "Some e"]
    by (auto simp: log_kinds_def)
qed

lemma record_all_kinds:
  "add_all (\<lambda>pid. record_simple now k sev pid r) pids l = Ret l' \<Longrightarrow> log_kinds l \<subseteq> K \<Longrightarrow> k \<in> K \<Longrightarrow>
     log_kinds l' \<subseteq> K"
proof (induction pids arbitrary: l)
  case (Cons pid pids)
  then show ?case
    by (auto simp: rust_bind_Ret_iff record_simple_def simple_event_def dest!: log_record_kinds [of _ _ _ K])
qed simp

interpretation manager: inductive_invariant "\<lambda>sm. sm = manager_new" sm_step sm_inv
proof
  show "sm = manager_new \<Longrightarrow> sm_inv sm" for sm
    by (auto simp: sm_inv_def manager_new_def log_kinds_def log_new_def)
  show "sm_step sm sm' \<Longrightarrow> sm_inv sm \<Longrightarrow> sm_inv sm'" for sm sm'
  proof (induction rule: sm_step.induct)
    case (create pid p ident sm n sm')
    then show ?case
      by (auto simp: sm_inv_def create_context_def Let_def rust_bind_Ret_iff record_simple_def
          simple_event_def manager_kinds_def dest!: log_record_kinds [of _ _ _ manager_kinds])
  next
    case (destroy pid sm sm')
    then show ?case
      by (auto simp: sm_inv_def destroy_context_def Let_def rust_bind_Ret_iff record_simple_def
          simple_event_def manager_kinds_def dest!: log_record_kinds [of _ _ _ manager_kinds])
  next
    case (verify ed_verify h s chain now sm r sm')
    then show ?case
      by (auto simp: sm_inv_def verify_binary_def Let_def rust_bind_Ret_iff
          simple_event_def manager_kinds_def dest!: log_record_kinds [of _ _ _ manager_kinds])
  next
    case (scan now sm fired sm')
    then show ?case
      by (auto simp: sm_inv_def periodic_scan_def Let_def rust_bind_Ret_iff manager_kinds_def
          dest!: record_all_kinds [of _ _ _ _ _ _ _ manager_kinds])
  qed (simp_all add: sm_inv_def add_root_ca_def)
qed

lemma iter_from_buffer: "iter_from l pos n = Ret es \<Longrightarrow> e \<in> set es \<Longrightarrow> Some e \<in> set (log_buffer l)"
proof (induction n arbitrary: pos es)
  case (Suc n)
  then obtain es' where "iter_from l (pos + 1) n = Ret es'"
    and es: "es = (case log_buffer l ! unat (pos mod log_capacity l) of Some e \<Rightarrow> e # es' | None \<Rightarrow> es')"
    and len: "unat (pos mod log_capacity l) < length (log_buffer l)"
    by (auto simp: Let_def rust_bind_Ret_iff split: if_splits)
  from nth_mem [OF len] show ?case
    using Suc.IH [OF \<open>iter_from l (pos + 1) n = Ret es'\<close>] Suc.prems(2) es by (auto split: option.splits)
qed simp

text \<open>
  Of the three alert rules only the one for sandbox floods can fire: no operation of the
  manager records an authentication attempt or a capability grant.
\<close>

lemma alerts_only_flood:
  assumes "rtranclp sm_step manager_new sm" and "check_alerts now sm = Ret fired"
  shows "set (map fired_rule fired) \<subseteq> {lit ''sandbox_violation_flood''}"
proof -
  have inv: "sm_inv sm" using refl assms(1) by (rule manager.reachable_inv)
  have "\<exists>es. log_iter (global_audit_log sm) = Ret es"
    using assms(2) inv
    by (cases "log_iter (global_audit_log sm)") (auto simp: check_alerts_def sm_inv_def log_filter_def)
  then obtain es where es: "log_iter (global_audit_log sm) = Ret es" ..
  have kinds: "event_type e \<in> manager_kinds" if "e \<in> set es" for e
    using that es inv iter_from_buffer by (fastforce simp: log_iter_def Let_def sm_inv_def log_kinds_def)
  let ?P = "\<lambda>r. unat (threshold_count r) \<le> length (filter (rule_matches now r) es)"
  have none: "\<not> ?P r" if "event_kind r \<notin> manager_kinds" "0 < unat (threshold_count r)" for r
  proof -
    have "filter (rule_matches now r) es = []"
      using that(1) by (auto simp: filter_empty_conv rule_matches_def dest: kinds)
    then show ?thesis using that(2) by simp
  qed
  have "\<not> ?P alert_rule_brute_force" and "\<not> ?P alert_rule_privilege_escalation"
    by (rule none; simp add: alert_rule_brute_force_def alert_rule_privilege_escalation_def manager_kinds_def)+
  then have "set (filter ?P (alert_rules sm)) \<subseteq> {alert_rule_sandbox_flood}"
    using inv by (auto simp: sm_inv_def)
  then have "set (map rule_name (filter ?P (alert_rules sm))) \<subseteq> {lit ''sandbox_violation_flood''}"
    by (auto simp: alert_rule_sandbox_flood_def)
  with evaluate_alerts_fired [OF es, of "alert_rules sm" now] assms(2) show ?thesis
    by (auto simp: check_alerts_def)
qed

section \<open>Properties\<close>

text \<open>
  C17. Access is mediated twice and refusals are recorded. In every state a process's context
  reaches by access checks and permission requests, a check returns; it allows the request
  exactly when the label policy and the sandbox policy both do, and then changes nothing;
  otherwise the refusal is counted and is the newest entry of the audit log. Under the
  default label policy an allowed access goes only to a label the process dominates. The
  process holds no capability beyond its initial policy unless its signing identity has
  the trust level that capability asks for.
\<close>

theorem access_mediated:
  assumes "rtranclp ctx_step (context_start pid p ident) c" and "0 < log_room (ctx_audit_log c)"
  shows "\<exists>d c' es. check_access req mp obj t c = Ret (d, c') \<and> log_iter (ctx_audit_log c) = Ret es
    \<and> (if mac_check mp (ctx_mac_label c) obj (request_writes req) = Allowed
          \<and> decision_of (ctx_enforcer c) req = Allowed
       then d = Allowed \<and> c' = c
       else d = Denied \<and> ctx_violation_count c' = ctx_violation_count c + 1
         \<and> log_iter (ctx_audit_log c') = Ret (last_n (unat (log_capacity (ctx_audit_log c)))
               (es @ [denial_event mp obj req t c])))
    \<and> (mp = mac_default_policy \<and> d = Allowed \<longrightarrow> dominates (ctx_mac_label c) obj)
    \<and> (\<forall>cap. cs_has (capabilities (enf_policy (ctx_enforcer c))) cap \<longrightarrow>
          cs_has (capabilities p) cap \<or> min_trust cap \<le> ident_trust ident)"
proof -
  have inv: "ctx_inv p ident c" using refl assms(1) by (rule ctx.reachable_inv)
  then have ok: "log_ok (ctx_audit_log c)" by (simp add: ctx_inv_def)
  then obtain es where es: "log_iter (ctx_audit_log c) = Ret es" using ring.content_ret by blast
  from check_access_cases [OF ok es assms(2), of req mp obj t] obtain d c' where
    chk: "check_access req mp obj t c = Ret (d, c')" and
    verdict: "if mac_check mp (ctx_mac_label c) obj (request_writes req) = Allowed
          \<and> decision_of (ctx_enforcer c) req = Allowed
       then d = Allowed \<and> c' = c
       else d = Denied \<and> ctx_violation_count c' = ctx_violation_count c + 1
         \<and> enf_policy (ctx_enforcer c') = enf_policy (ctx_enforcer c) \<and> log_ok (ctx_audit_log c')
         \<and> log_iter (ctx_audit_log c') = Ret (last_n (unat (log_capacity (ctx_audit_log c)))
               (es @ [denial_event mp obj req t c]))"
    by blast
  have dom: "dominates (ctx_mac_label c) obj" if "mp = mac_default_policy" "d = Allowed"
    using verdict that mac_default_dominates(1) by (auto split: if_splits)
  show ?thesis
    using chk es verdict dom inv by (intro exI [of _ d] exI [of _ c'] exI [of _ es]) (auto simp: ctx_inv_def)
qed

section \<open>Witnesses\<close>

theorem access_mediated_witness:
  "\<exists>c'. check_access (DeviceAccess NicDev True) mac_default_policy UserLabel 5
      (context_start 3 (from_profile Sandboxed) None) = Ret (Denied, c') \<and> ctx_violation_count c' = 1"
proof -
  define c where "c = context_start 3 (from_profile Sandboxed) None"
  have start: "rtranclp ctx_step (context_start 3 (from_profile Sandboxed) None) c" by (simp add: c_def)
  have room: "0 < log_room (ctx_audit_log c)"
    by (simp add: c_def context_start_def context_new_def log_room_def log_new_def Let_def)
  have cnt: "ctx_violation_count c = 0" by (simp add: c_def context_start_def context_new_def)
  have den: "check_device (ctx_enforcer c) NicDev True = Denied"
    by (simp add: c_def context_start_def context_new_def enforcer_new_def profile_defs builder_defs check_device_def)
  from access_mediated [OF start room, of "DeviceAccess NicDev True" mac_default_policy UserLabel 5]
  show ?thesis unfolding c_def [symmetric] by (auto simp: cnt den)
qed

end
