(* ===== verification/Delta.thy ===== *)
theory Delta
  imports Bytes
begin

text \<open>
  Binary deltas: \<^verbatim>\<open>byte_delta\<close> and \<^verbatim>\<open>apply_delta\<close> of \<^verbatim>\<open>components/ath_diff/src/lib.rs\<close> and the wire
  format of \<^verbatim>\<open>components/athupdate/src/transactional.rs\<close> (\<^verbatim>\<open>serialize_delta\<close>,
  \<^verbatim>\<open>deserialize_delta\<close>). A delta computed from two images, sent and applied to the first
  yields the second; the reader accepts only what the writer writes; and applying a delta
  reads only inside the base image, whatever the delta is. A Rust buffer holds fewer than
  two to the power 63 bytes, which the theorems take as hypotheses on the lists.
\<close>

section \<open>Deltas\<close>

datatype DiffError = BadHunkHeader | BadHunkLine | ContextMismatch | Truncated | DeltaOutOfRange

datatype DeltaOp = Copy usize usize | Data "u8 list"

text \<open>The two loops of \<^verbatim>\<open>byte_delta\<close>: each advances while the bytes at its position agree.\<close>

function prefix_loop :: "u8 list \<Rightarrow> u8 list \<Rightarrow> nat \<Rightarrow> nat" where
  "prefix_loop old new prefix =
     (if prefix < min (length old) (length new) \<and> old ! prefix = new ! prefix
      then prefix_loop old new (Suc prefix) else prefix)"
  by pat_completeness auto
termination
  by (relation "measure (\<lambda>(old, new, prefix). length old - prefix)") auto

declare prefix_loop.simps [simp del]

function suffix_loop :: "u8 list \<Rightarrow> u8 list \<Rightarrow> nat \<Rightarrow> nat \<Rightarrow> nat" where
  "suffix_loop old new max_suf suffix =
     (if suffix < max_suf \<and> old ! (length old - 1 - suffix) = new ! (length new - 1 - suffix)
      then suffix_loop old new max_suf (Suc suffix) else suffix)"
  by pat_completeness auto
termination
  by (relation "measure (\<lambda>(old, new, max_suf, suffix). max_suf - suffix)") auto

declare suffix_loop.simps [simp del]

definition slice :: "nat \<Rightarrow> nat \<Rightarrow> 'a list \<Rightarrow> 'a list" where
  "slice a b xs = take (b - a) (drop a xs)"

definition byte_delta :: "u8 list \<Rightarrow> u8 list \<Rightarrow> DeltaOp list" where
  "byte_delta old new =
     (let prefix = prefix_loop old new 0;
          old_rem = length old - prefix;
          new_rem = length new - prefix;
          suffix = suffix_loop old new (min old_rem new_rem) 0;
          mid_start = prefix;
          mid_end = length new - suffix
      in (if prefix > 0 then [Copy 0 (word_of_nat prefix)] else []) @
         (if mid_end > mid_start then [Data (slice mid_start mid_end new)] else []) @
         (if suffix > 0 then [Copy (word_of_nat (length old - suffix)) (word_of_nat suffix)] else []))"

fun apply_delta_loop :: "u8 list \<Rightarrow> u8 list \<Rightarrow> DeltaOp list \<Rightarrow> DiffError + u8 list" where
  "apply_delta_loop old out [] = Inr out"
| "apply_delta_loop old out (op # delta) =
     (case op of
        Copy src_off len \<Rightarrow>
          (case checked_add src_off len of
             None \<Rightarrow> Inl DeltaOutOfRange
           | Some e \<Rightarrow>
               if unat e > length old then Inl DeltaOutOfRange
               else apply_delta_loop old (out @ slice (unat src_off) (unat e) old) delta)
      | Data bytes \<Rightarrow> apply_delta_loop old (out @ bytes) delta)"

definition apply_delta :: "u8 list \<Rightarrow> DeltaOp list \<Rightarrow> DiffError + u8 list" where
  "apply_delta old delta = apply_delta_loop old [] delta"

section \<open>The wire format\<close>

definition TAG_COPY :: u8 where "TAG_COPY = 0"

definition TAG_DATA :: u8 where "TAG_DATA = 1"

definition op_bytes :: "DeltaOp \<Rightarrow> u8 list" where
  "op_bytes op =
     (case op of
        Copy src_off len \<Rightarrow> TAG_COPY # to_le_bytes 8 src_off @ to_le_bytes 8 len
      | Data bytes \<Rightarrow> TAG_DATA # to_le_bytes 8 (word_of_nat (length bytes) :: u64) @ bytes)"

definition serialize_delta :: "DeltaOp list \<Rightarrow> u8 list" where
  "serialize_delta ops =
     fold (\<lambda>op out. out @ op_bytes op) ops (to_le_bytes 4 (word_of_nat (length ops) :: u32))"

definition read_u32 :: "u8 list \<Rightarrow> usize \<Rightarrow> (u32 \<times> usize) option" where
  "read_u32 buf cur =
     (case checked_add cur 4 of
        None \<Rightarrow> None
      | Some e \<Rightarrow> if unat e > length buf then None
                  else Some (from_le_bytes (slice (unat cur) (unat e) buf), e))"

definition read_u64 :: "u8 list \<Rightarrow> usize \<Rightarrow> (u64 \<times> usize) option" where
  "read_u64 buf cur =
     (case checked_add cur 8 of
        None \<Rightarrow> None
      | Some e \<Rightarrow> if unat e > length buf then None
                  else Some (from_le_bytes (slice (unat cur) (unat e) buf), e))"

definition read_op :: "u8 list \<Rightarrow> usize \<Rightarrow> (DeltaOp \<times> usize) option" where
  "read_op buf cur =
     (if length buf \<le> unat cur then None
      else
        let tag = buf ! unat cur; cur = cur + 1 in
        if tag = TAG_COPY then
          (case read_u64 buf cur of
             None \<Rightarrow> None
           | Some (src_off, cur) \<Rightarrow>
               (case read_u64 buf cur of
                  None \<Rightarrow> None
                | Some (len, cur) \<Rightarrow> Some (Copy src_off len, cur)))
        else if tag = TAG_DATA then
          (case read_u64 buf cur of
             None \<Rightarrow> None
           | Some (len, cur) \<Rightarrow>
               (case checked_add cur len of
                  None \<Rightarrow> None
                | Some e \<Rightarrow> if unat e > length buf then None
                            else Some (Data (slice (unat cur) (unat e) buf), e)))
        else None)"

fun read_ops :: "u8 list \<Rightarrow> nat \<Rightarrow> usize \<Rightarrow> DeltaOp list \<Rightarrow> (DeltaOp list \<times> usize) option" where
  "read_ops buf 0 cur ops = Some (ops, cur)"
| "read_ops buf (Suc n) cur ops =
     (case read_op buf cur of
        None \<Rightarrow> None
      | Some (op, cur) \<Rightarrow> read_ops buf n cur (ops @ [op]))"

definition deserialize_delta :: "u8 list \<Rightarrow> DeltaOp list option" where
  "deserialize_delta buf =
     (case read_u32 buf 0 of
        None \<Rightarrow> None
      | Some (count, cur) \<Rightarrow>
          (case read_ops buf (unat count) cur [] of
             None \<Rightarrow> None
           | Some (ops, cur) \<Rightarrow> if unat cur \<noteq> length buf then None else Some ops))"

section \<open>Applying a computed delta\<close>

lemma prefix_loop_spec:
  "prefix \<le> min (length old) (length new) \<Longrightarrow> take prefix old = take prefix new \<Longrightarrow>
     (let p = prefix_loop old new prefix in
       p \<le> min (length old) (length new) \<and> take p old = take p new)"
proof (induction old new prefix rule: prefix_loop.induct)
  case (1 old new prefix)
  show ?case
  proof (cases "prefix < min (length old) (length new) \<and> old ! prefix = new ! prefix")
    case True
    with "1.prems" have "take (Suc prefix) old = take (Suc prefix) new"
      by (simp add: take_Suc_conv_app_nth)
    with 1 True show ?thesis by (simp add: prefix_loop.simps [of old new prefix])
  next
    case False
    with "1.prems" show ?thesis by (simp only: prefix_loop.simps [of old new prefix] if_False Let_def)
  qed
qed

lemma suffix_loop_spec:
  "suffix \<le> max_suf \<Longrightarrow> max_suf \<le> length old \<Longrightarrow> max_suf \<le> length new \<Longrightarrow>
   drop (length old - suffix) old = drop (length new - suffix) new \<Longrightarrow>
     (let s = suffix_loop old new max_suf suffix in
       s \<le> max_suf \<and> drop (length old - s) old = drop (length new - s) new)"
proof (induction old new max_suf suffix rule: suffix_loop.induct)
  case (1 old new max_suf suffix)
  show ?case
  proof (cases "suffix < max_suf \<and> old ! (length old - 1 - suffix) = new ! (length new - 1 - suffix)")
    case True
    then have o: "length old - Suc suffix < length old" and n: "length new - Suc suffix < length new"
      using "1.prems" by auto
    have "drop (length old - Suc suffix) old = old ! (length old - 1 - suffix) # drop (length old - suffix) old"
      using Cons_nth_drop_Suc [OF o, symmetric] True "1.prems" by (simp add: Suc_diff_Suc)
    moreover have "drop (length new - Suc suffix) new = new ! (length new - 1 - suffix) # drop (length new - suffix) new"
      using Cons_nth_drop_Suc [OF n, symmetric] True "1.prems" by (simp add: Suc_diff_Suc)
    ultimately have "drop (length old - Suc suffix) old = drop (length new - Suc suffix) new"
      using True "1.prems" by simp
    with 1 True show ?thesis by (simp add: suffix_loop.simps [of old new max_suf suffix])
  next
    case False
    with "1.prems" show ?thesis
      by (simp only: suffix_loop.simps [of old new max_suf suffix] if_False Let_def)
  qed
qed

lemma apply_delta_loop_append:
  "apply_delta_loop old out (xs @ ys) =
     (case apply_delta_loop old out xs of Inl e \<Rightarrow> Inl e | Inr out' \<Rightarrow> apply_delta_loop old out' ys)"
  by (induction old out xs rule: apply_delta_loop.induct)
    (auto split: DeltaOp.split option.split)

lemma apply_copy:
  assumes "i + n \<le> length old" and "length old < 2 ^ 64"
  shows "apply_delta_loop old out [Copy (word_of_nat i) (word_of_nat n)] = Inr (out @ take n (drop i old))"
proof -
  have i: "unat (word_of_nat i :: usize) = i" and n: "unat (word_of_nat n :: usize) = n"
    using assms by (simp_all add: unat_word_of_nat_small)
  have "checked_add (word_of_nat i :: usize) (word_of_nat n) = Some (word_of_nat i + word_of_nat n)"
    using assms by (simp add: checked_add_Some_iff i n)
  moreover have "unat (word_of_nat i + word_of_nat n :: usize) = i + n"
    using assms by (subst unat_plus_no_overflow) (simp_all add: i n)
  ultimately show ?thesis using assms by (simp add: i slice_def)
qed

lemma apply_byte_delta:
  assumes "length old < 2 ^ 64" and "length new < 2 ^ 64"
  shows "apply_delta old (byte_delta old new) = Inr new"
proof -
  define p where "p = prefix_loop old new 0"
  define m where "m = min (length old - p) (length new - p)"
  define s where "s = suffix_loop old new m 0"
  have p: "p \<le> length old" "p \<le> length new" "take p old = take p new"
    using prefix_loop_spec [of 0 old new] by (auto simp: p_def Let_def)
  have s: "s \<le> length old - p" "s \<le> length new - p" "drop (length old - s) old = drop (length new - s) new"
    using suffix_loop_spec [of 0 m old new] by (auto simp: s_def m_def Let_def)
  have pre: "apply_delta_loop old [] (if p > 0 then [Copy 0 (word_of_nat p)] else []) = Inr (take p new)"
    using apply_copy [of 0 p old "[]"] p assms by (cases "p = 0") simp_all
  have mid: "apply_delta_loop old (take p new) (if length new - s > p then [Data (slice p (length new - s) new)] else [])
      = Inr (take (length new - s) new)"
  proof (cases "length new - s > p")
    case True
    then have "take (length new - s) new = take p new @ take (length new - s - p) (drop p new)"
      using take_add [of p "length new - s - p" new] by simp
    with True show ?thesis by (simp add: slice_def)
  next
    case False
    then have "length new - s = p" using p s by simp
    then show ?thesis by simp
  qed
  have suf: "apply_delta_loop old (take (length new - s) new)
      (if s > 0 then [Copy (word_of_nat (length old - s)) (word_of_nat s)] else []) = Inr new"
    using apply_copy [of "length old - s" s old "take (length new - s) new"] p s assms
    by (cases "s = 0") (simp_all add: append_take_drop_id)
  show ?thesis
    unfolding apply_delta_def byte_delta_def
    by (simp only: Let_def p_def [symmetric] m_def [symmetric] s_def [symmetric]
        apply_delta_loop_append pre mid suf sum.case)
qed

text \<open>Applying any delta concatenates parts of the base and literals, or fails.\<close>

fun op_ok :: "nat \<Rightarrow> DeltaOp \<Rightarrow> bool" where
  "op_ok n (Copy off len) = (unat off + unat len \<le> n)"
| "op_ok n (Data bs) = True"

fun op_yields :: "u8 list \<Rightarrow> DeltaOp \<Rightarrow> u8 list" where
  "op_yields old (Copy off len) = take (unat len) (drop (unat off) old)"
| "op_yields old (Data bs) = bs"

lemma apply_delta_exact:
  assumes "length old < 2 ^ 64"
  shows "apply_delta old ops =
     (if list_all (op_ok (length old)) ops then Inr (concat (map (op_yields old) ops)) else Inl DeltaOutOfRange)"
proof -
  have "apply_delta_loop old out ops =
     (if list_all (op_ok (length old)) ops then Inr (out @ concat (map (op_yields old) ops)) else Inl DeltaOutOfRange)"
    for out
  proof (induction ops arbitrary: out)
    case (Cons op ops)
    show ?case
    proof (cases op)
      case (Copy off len)
      consider (wraps) "2 ^ 64 \<le> unat off + unat len" | (fits) "unat off + unat len < 2 ^ 64" by linarith
      then show ?thesis
      proof cases
        case wraps
        then have "checked_add off len = None" by (simp add: checked_add_None_iff)
        with wraps Copy assms show ?thesis by simp
      next
        case fits
        then have "checked_add off len = Some (off + len)" "unat (off + len) = unat off + unat len"
          by (simp_all add: checked_add_Some_iff unat_plus_no_overflow)
        with Copy Cons.IH show ?thesis by (simp add: slice_def not_less)
      qed
    qed (simp add: Cons.IH)
  qed simp
  then show ?thesis by (simp add: apply_delta_def)
qed

section \<open>Reading what was written\<close>

lemma serialize_delta_concat:
  "serialize_delta ops = to_le_bytes 4 (word_of_nat (length ops) :: u32) @ concat (map op_bytes ops)"
proof -
  have "fold (\<lambda>op out. out @ op_bytes op) ops acc = acc @ concat (map op_bytes ops)" for acc
    by (induction ops arbitrary: acc) simp_all
  then show ?thesis by (simp add: serialize_delta_def)
qed

lemma byte_delta_length:
  assumes "length new < 2 ^ 32"
  shows "length (serialize_delta (byte_delta old new)) < 2 ^ 64"
proof -
  have copy: "length (concat (map op_bytes (if c then [Copy x y] else []))) \<le> 17" for c x y
    by (simp add: op_bytes_def)
  have data: "length (concat (map op_bytes (if c then [Data (slice a b new)] else []))) \<le> 9 + length new" for c a b
    by (simp add: op_bytes_def slice_def min_le_iff_disj)
  have "length (concat (map op_bytes (byte_delta old new))) \<le> 17 + (9 + length new) + 17"
    unfolding byte_delta_def Let_def map_append concat_append length_append
    by (rule order_trans [OF add_mono [OF copy add_mono [OF data copy]]]) simp
  then show ?thesis using assms by (simp add: serialize_delta_concat)
qed

text \<open>A cursor that stands before \<open>rest\<close> in a buffer.\<close>

definition at :: "u8 list \<Rightarrow> usize \<Rightarrow> u8 list \<Rightarrow> bool" where
  "at buf cur rest \<longleftrightarrow> (\<exists>pre. buf = pre @ rest \<and> unat cur = length pre) \<and> length buf < 2 ^ 64"

lemma at_next:
  assumes "at buf cur (xs @ rest)"
  shows "at buf (cur + word_of_nat (length xs)) rest"
    and "checked_add cur (word_of_nat (length xs)) = Some (cur + word_of_nat (length xs))"
    and "slice (unat cur) (unat (cur + word_of_nat (length xs))) buf = xs"
    and "unat (cur + word_of_nat (length xs)) \<le> length buf"
proof -
  from assms obtain pre where buf: "buf = pre @ xs @ rest" "unat cur = length pre" "length buf < 2 ^ 64"
    by (auto simp: at_def)
  let ?n = "word_of_nat (length xs) :: usize"
  have n: "unat ?n = length xs" using buf by (simp add: unat_word_of_nat_small)
  have sum: "unat cur + unat ?n < 2 ^ LENGTH(64)" using buf n by simp
  then have e: "unat (cur + ?n) = length pre + length xs"
    using unat_plus_no_overflow [of cur ?n] buf n by simp
  show "checked_add cur ?n = Some (cur + ?n)" using sum by (simp add: checked_add_Some_iff)
  show "at buf (cur + ?n) rest"
    unfolding at_def using buf e by (intro conjI exI [of _ "pre @ xs"]) simp_all
  show "slice (unat cur) (unat (cur + ?n)) buf = xs" using buf e by (simp add: slice_def)
  show "unat (cur + ?n) \<le> length buf" using buf e by simp
qed

lemma read_u64_at:
  assumes "at buf cur (to_le_bytes 8 w @ rest)"
  shows "read_u64 buf cur = Some (w, cur + 8) \<and> at buf (cur + 8) rest"
  using at_next [OF assms] by (simp add: read_u64_def from_to_le_bytes)

lemma read_u32_at:
  assumes "at buf cur (to_le_bytes 4 w @ rest)"
  shows "read_u32 buf cur = Some (w, cur + 4) \<and> at buf (cur + 4) rest"
  using at_next [OF assms] by (simp add: read_u32_def from_to_le_bytes)

lemma read_op_at:
  assumes "at buf cur (op_bytes op @ rest)"
  shows "\<exists>cur'. read_op buf cur = Some (op, cur') \<and> at buf cur' rest"
proof -
  obtain tag body where tb: "op_bytes op = tag # body" by (cases op) (auto simp: op_bytes_def)
  have here: "buf ! unat cur = tag" "unat cur < length buf"
    using assms tb by (auto simp: at_def nth_append)
  have next1: "at buf (cur + 1) (body @ rest)"
    using at_next(1) [of buf cur "[tag]" "body @ rest"] assms tb by simp
  show ?thesis
  proof (cases op)
    case (Copy off len)
    then have body: "tag = TAG_COPY" "body = to_le_bytes 8 off @ to_le_bytes 8 len"
      using tb by (simp_all add: op_bytes_def)
    from next1 have "at buf (cur + 1) (to_le_bytes 8 off @ to_le_bytes 8 len @ rest)" by (simp add: body)
    note r1 = read_u64_at [OF this]
    note r2 = read_u64_at [OF conjunct2 [OF r1]]
    show ?thesis using r1 r2 here by (simp add: read_op_def Copy body(1) Let_def)
  next
    case (Data bs)
    then have body: "tag = TAG_DATA" "body = to_le_bytes 8 (word_of_nat (length bs) :: u64) @ bs"
      using tb by (simp_all add: op_bytes_def)
    from next1 have "at buf (cur + 1) (to_le_bytes 8 (word_of_nat (length bs) :: u64) @ bs @ rest)"
      by (simp add: body)
    note r1 = read_u64_at [OF this]
    note r2 = at_next [OF conjunct2 [OF r1]]
    show ?thesis using r1 r2 here by (simp add: read_op_def Data body(1) Let_def TAG_COPY_def TAG_DATA_def)
  qed
qed

lemma read_ops_at:
  assumes "at buf cur (concat (map op_bytes ops))"
  shows "\<exists>cur'. read_ops buf (length ops) cur acc = Some (acc @ ops, cur') \<and> unat cur' = length buf"
  using assms
proof (induction ops arbitrary: cur acc)
  case (Cons op ops)
  then have "at buf cur (op_bytes op @ concat (map op_bytes ops))" by simp
  from read_op_at [OF this] obtain c where c: "read_op buf cur = Some (op, c)"
    "at buf c (concat (map op_bytes ops))" by blast
  from Cons.IH [OF c(2), of "acc @ [op]"] show ?case by (simp add: c(1))
qed (auto simp: at_def)

lemma deserialize_serialize:
  assumes "length ops < 2 ^ 32" and "length (serialize_delta ops) < 2 ^ 64"
  shows "deserialize_delta (serialize_delta ops) = Some ops"
proof -
  let ?buf = "serialize_delta ops"
  let ?n = "word_of_nat (length ops) :: u32"
  have "at ?buf 0 (to_le_bytes 4 ?n @ concat (map op_bytes ops))"
    using assms(2) by (simp add: at_def serialize_delta_concat [symmetric])
  note r = read_u32_at [OF this]
  have n: "unat ?n = length ops" using assms(1) by (simp add: unat_word_of_nat_small)
  from read_ops_at [OF conjunct2 [OF r], of "[]"] show ?thesis
    using r by (auto simp: deserialize_delta_def n)
qed

text \<open>The reader accepts nothing else: a payload has one reading, and is the writing of it.\<close>

lemma at_checked:
  assumes "at buf cur rest" and "checked_add cur n = Some e" and "unat e \<le> length buf"
  shows "slice (unat cur) (unat e) buf = take (unat n) rest" and "at buf e (drop (unat n) rest)"
    and "unat n \<le> length rest"
proof -
  from assms(1) obtain pre where buf: "buf = pre @ rest" "unat cur = length pre" "length buf < 2 ^ 64"
    by (auto simp: at_def)
  from assms(2) have e: "unat e = length pre + unat n"
    using buf by (auto simp: checked_add_Some_iff unat_plus_no_overflow)
  with buf assms(3) show n: "unat n \<le> length rest" by simp
  show "slice (unat cur) (unat e) buf = take (unat n) rest" using buf e by (simp add: slice_def)
  show "at buf e (drop (unat n) rest)"
    unfolding at_def using buf e n by (intro conjI exI [of _ "pre @ take (unat n) rest"]) simp_all
qed

lemma read_u64_inv:
  assumes "at buf cur rest" and "read_u64 buf cur = Some (w, cur')"
  obtains rest' where "rest = to_le_bytes 8 w @ rest'" and "at buf cur' rest'"
proof -
  from assms(2) obtain e where e: "checked_add cur 8 = Some e" "unat e \<le> length buf" "cur' = e"
    "w = from_le_bytes (slice (unat cur) (unat e) buf)"
    by (auto simp: read_u64_def not_less split: option.splits if_splits)
  note a = at_checked [OF assms(1) e(1,2)]
  have "to_le_bytes 8 w = take 8 rest"
    using a(1,3) e(4) to_from_le_bytes [of "take 8 rest" 8, where 'a = 64] by simp
  then have "rest = to_le_bytes 8 w @ drop 8 rest" by simp
  with a(2) e(3) that show ?thesis by simp
qed

lemma read_u32_inv:
  assumes "at buf cur rest" and "read_u32 buf cur = Some (w, cur')"
  obtains rest' where "rest = to_le_bytes 4 w @ rest'" and "at buf cur' rest'"
proof -
  from assms(2) obtain e where e: "checked_add cur 4 = Some e" "unat e \<le> length buf" "cur' = e"
    "w = from_le_bytes (slice (unat cur) (unat e) buf)"
    by (auto simp: read_u32_def not_less split: option.splits if_splits)
  note a = at_checked [OF assms(1) e(1,2)]
  have "to_le_bytes 4 w = take 4 rest"
    using a(1,3) e(4) to_from_le_bytes [of "take 4 rest" 4, where 'a = 32] by simp
  then have "rest = to_le_bytes 4 w @ drop 4 rest" by simp
  with a(2) e(3) that show ?thesis by simp
qed

lemma read_op_inv:
  assumes "at buf cur rest" and "read_op buf cur = Some (op, cur')"
  obtains rest' where "rest = op_bytes op @ rest'" and "at buf cur' rest'"
proof -
  from assms(2) have in_range: "unat cur < length buf" by (simp add: read_op_def split: if_splits)
  from assms(1) obtain pre where buf: "buf = pre @ rest" "unat cur = length pre" by (auto simp: at_def)
  with in_range obtain tag body where rest: "rest = tag # body" by (cases rest) auto
  have tag: "buf ! unat cur = tag" using buf rest by (simp add: nth_append)
  have body: "at buf (cur + 1) body" using at_next(1) [of buf cur "[tag]" body] assms(1) rest by simp
  consider (copy) "tag = TAG_COPY" | (data) "tag \<noteq> TAG_COPY" "tag = TAG_DATA"
    using assms(2) in_range tag by (auto simp: read_op_def Let_def split: if_splits)
  then show ?thesis
  proof cases
    case copy
    from assms(2) in_range tag copy obtain off c len where r: "read_u64 buf (cur + 1) = Some (off, c)"
      "read_u64 buf c = Some (len, cur')" "op = Copy off len"
      by (auto simp: read_op_def Let_def split: option.splits)
    obtain r1 where r1: "body = to_le_bytes 8 off @ r1" "at buf c r1" by (rule read_u64_inv [OF body r(1)])
    obtain r2 where r2: "r1 = to_le_bytes 8 len @ r2" "at buf cur' r2" by (rule read_u64_inv [OF r1(2) r(2)])
    show ?thesis by (rule that [OF _ r2(2)]) (simp add: rest copy r1 r2 r(3) op_bytes_def)
  next
    case data
    from assms(2) in_range tag data obtain len c e where r: "read_u64 buf (cur + 1) = Some (len, c)"
      "checked_add c len = Some e" "unat e \<le> length buf" "cur' = e" "op = Data (slice (unat c) (unat e) buf)"
      by (auto simp: read_op_def Let_def not_less split: option.splits if_splits)
    obtain r1 where r1: "body = to_le_bytes 8 len @ r1" "at buf c r1" by (rule read_u64_inv [OF body r(1)])
    note a = at_checked [OF r1(2) r(2,3)]
    have "rest = op_bytes op @ drop (unat len) r1"
      using a(1,3) by (simp add: rest data r1 r(5) op_bytes_def)
    with a(2) r(4) that show ?thesis by simp
  qed
qed

lemma read_ops_inv:
  assumes "at buf cur rest" and "read_ops buf n cur acc = Some (ops, cur')"
  obtains ops' rest' where "ops = acc @ ops'" and "length ops' = n"
    and "rest = concat (map op_bytes ops') @ rest'" and "at buf cur' rest'"
  using assms
proof (induction n arbitrary: cur acc rest thesis)
  case 0
  then show ?case using "0.prems"(1) [of "[]" rest] by simp
next
  case (Suc n)
  from Suc.prems(3) obtain op c where step: "read_op buf cur = Some (op, c)"
    "read_ops buf n c (acc @ [op]) = Some (ops, cur')" by (auto split: option.splits)
  obtain r where r: "rest = op_bytes op @ r" "at buf c r" by (rule read_op_inv [OF Suc.prems(2) step(1)])
  obtain ops' r' where "ops = (acc @ [op]) @ ops'" "length ops' = n" "r = concat (map op_bytes ops') @ r'"
    "at buf cur' r'" by (rule Suc.IH [OF _ r(2) step(2)])
  then show ?case using Suc.prems(1) [of "op # ops'" r'] r(1) by simp
qed

lemma read_ops_length: "read_ops buf n cur acc = Some (ops, cur') \<Longrightarrow> length ops = length acc + n"
  by (induction buf n cur acc rule: read_ops.induct) (auto split: option.splits)

lemma deserialize_length: "deserialize_delta buf = Some ops \<Longrightarrow> length ops < 2 ^ 32"
  using unat_bound [where 'a = 32] by (auto simp: deserialize_delta_def dest!: read_ops_length split: option.splits if_splits)

lemma serialize_deserialize:
  assumes "deserialize_delta buf = Some ops" and "length buf < 2 ^ 64"
  shows "serialize_delta ops = buf"
proof -
  from assms(1) obtain count c c' where r: "read_u32 buf 0 = Some (count, c)"
    "read_ops buf (unat count) c [] = Some (ops, c')" "unat c' = length buf"
    by (auto simp: deserialize_delta_def split: option.splits if_splits)
  have "at buf 0 buf" using assms(2) by (simp add: at_def)
  then obtain r1 where r1: "buf = to_le_bytes 4 count @ r1" "at buf c r1" by (rule read_u32_inv [OF _ r(1)])
  obtain ops' r2 where r2: "ops = [] @ ops'" "length ops' = unat count" "r1 = concat (map op_bytes ops') @ r2"
    "at buf c' r2" by (rule read_ops_inv [OF r1(2) r(2)])
  from r2(4) r(3) have "r2 = []" by (auto simp: at_def)
  with r1 r2 show ?thesis by (simp add: serialize_delta_concat)
qed

section \<open>Properties\<close>

text \<open>
  C31. The wire format of deltas has one writing for each delta and one reading for each
  writing: \<^verbatim>\<open>deserialize_delta\<close> accepts exactly the outputs of \<^verbatim>\<open>serialize_delta\<close> for deltas of
  fewer than two to the power 32 operations, and returns the delta that was written.
\<close>

theorem delta_wire_exact:
  assumes "length buf < 2 ^ 64"
  shows "deserialize_delta buf = Some ops \<longleftrightarrow> serialize_delta ops = buf \<and> length ops < 2 ^ 32"
proof
  assume acc: "deserialize_delta buf = Some ops"
  then have "length ops < 2 ^ 32" by (rule deserialize_length)
  with serialize_deserialize [OF acc assms] show "serialize_delta ops = buf \<and> length ops < 2 ^ 32" by simp
next
  assume "serialize_delta ops = buf \<and> length ops < 2 ^ 32"
  with deserialize_serialize [of ops] assms show "deserialize_delta buf = Some ops" by auto
qed

theorem delta_wire_exact_witness:
  "deserialize_delta (serialize_delta [Copy 0 2, Data [7]]) = Some [Copy 0 2, Data [7]]"
proof -
  have "length (serialize_delta [Copy 0 2, Data [7]]) < 2 ^ 64"
    by (simp add: serialize_delta_concat op_bytes_def)
  from delta_wire_exact [OF this, of "[Copy 0 2, Data [7]]"] show ?thesis by simp
qed

end
