(* ===== verification/Update_Version.thy ===== *)
theory Update_Version
  imports Prelude
begin

text \<open>
  The core types of the update manager (\<^verbatim>\<open>components/athupdate/src/lib.rs\<close>): errors, identifiers,
  versions with their order, version constraints and the two boot partitions. The
  comparison of the source, five chained comparisons, is shown to be a linear order, so that
  the library's facts on orders apply to versions.
\<close>

section \<open>Errors and identifiers\<close>

datatype UpdateError =
  NotFound | AlreadyInstalled | DependencyConflict | VersionConflict | DownloadFailed
| ChecksumMismatch | SignatureInvalid | ExtractionFailed | ScriptFailed | FileConflict
| InsufficientSpace | TransactionAborted | RollbackFailed | PartitionError | NetworkError
| Unauthorized | CorruptedPackage | UnsatisfiedDependency | CyclicDependency | LowBattery
| MeteredConnection

section \<open>Versions\<close>

text \<open>\<^verbatim>\<open>core::cmp::Ordering\<close> and its \<^verbatim>\<open>then\<close>.\<close>

datatype Ordering = Less | Equal | Greater

fun ordering_then :: "Ordering \<Rightarrow> Ordering \<Rightarrow> Ordering" where
  "ordering_then Equal o2 = o2"
| "ordering_then o1 _ = o1"

definition num_cmp :: "'a::linorder \<Rightarrow> 'a \<Rightarrow> Ordering" where
  "num_cmp a b = (if a < b then Less else if a = b then Equal else Greater)"

datatype Version =
  Version (ver_epoch: u32) (ver_major: u16) (ver_minor: u16) (ver_patch: u16) (ver_release: u16)

definition version_new :: "u16 \<Rightarrow> u16 \<Rightarrow> u16 \<Rightarrow> Version" where
  "version_new major minor patch = Version 0 major minor patch 0"

definition with_epoch :: "u32 \<Rightarrow> u16 \<Rightarrow> u16 \<Rightarrow> u16 \<Rightarrow> u16 \<Rightarrow> Version" where
  "with_epoch epoch major minor patch release = Version epoch major minor patch release"

definition version_cmp :: "Version \<Rightarrow> Version \<Rightarrow> Ordering" where
  "version_cmp v w =
     ordering_then (ordering_then (ordering_then (ordering_then
       (num_cmp (ver_epoch v) (ver_epoch w))
       (num_cmp (ver_major v) (ver_major w)))
       (num_cmp (ver_minor v) (ver_minor w)))
       (num_cmp (ver_patch v) (ver_patch w)))
       (num_cmp (ver_release v) (ver_release w))"

lemma num_cmp_simps [simp]:
  "num_cmp a b = Less \<longleftrightarrow> a < b" "num_cmp a b = Equal \<longleftrightarrow> a = b" "num_cmp a b = Greater \<longleftrightarrow> b < a"
  by (auto simp: num_cmp_def)

lemma ordering_then_iff [simp]:
  "ordering_then p q = Less \<longleftrightarrow> p = Less \<or> p = Equal \<and> q = Less"
  "ordering_then p q = Equal \<longleftrightarrow> p = Equal \<and> q = Equal"
  "ordering_then p q = Greater \<longleftrightarrow> p = Greater \<or> p = Equal \<and> q = Greater"
  by (cases p; simp)+

text \<open>The comparison is the lexicographic one on the five fields.\<close>

definition version_key :: "Version \<Rightarrow> nat list" where
  "version_key v = [unat (ver_epoch v), unat (ver_major v), unat (ver_minor v), unat (ver_patch v), unat (ver_release v)]"

lemma version_key_eq: "version_key v = version_key w \<longleftrightarrow> v = w"
  by (cases v; cases w) (simp add: version_key_def word_unat_eq_iff)

lemma version_cmp_key: "version_cmp v w = num_cmp (version_key v) (version_key w)"
proof -
  have "version_cmp v w = Less \<longleftrightarrow> version_key v < version_key w"
    by (simp add: version_cmp_def version_key_def word_less_nat_alt word_unat_eq_iff)
      (simp only: conj_disj_distribL disj_assoc conj_assoc)
  moreover have "version_cmp v w = Equal \<longleftrightarrow> version_key v = version_key w"
    by (simp add: version_cmp_def version_key_def word_unat_eq_iff)
  ultimately show ?thesis by (cases "version_cmp v w") (auto simp: num_cmp_def)
qed

instantiation Version :: linorder
begin

definition less_eq_Version :: "Version \<Rightarrow> Version \<Rightarrow> bool" where
  "less_eq_Version v w \<longleftrightarrow> version_cmp v w \<noteq> Greater"

definition less_Version :: "Version \<Rightarrow> Version \<Rightarrow> bool" where
  "less_Version v w \<longleftrightarrow> version_cmp v w = Less"

instance
proof
  fix u v w :: Version
  note key = less_eq_Version_def less_Version_def version_cmp_key not_less
  show "u < v \<longleftrightarrow> u \<le> v \<and> \<not> v \<le> u" by (auto simp: key)
  show "u \<le> u" by (simp add: key)
  show "u \<le> w" if "u \<le> v" "v \<le> w" using that by (simp add: key)
  show "u = v" if "u \<le> v" "v \<le> u" using that by (simp add: key flip: version_key_eq)
  show "u \<le> v \<or> v \<le> u" by (simp add: key linear)
qed

end

datatype VersionConstraint =
  Exact Version | GreaterEqual Version | GreaterThan Version | LessEqual Version | LessThan Version
| Range Version Version | AnyVersion

fun satisfies :: "VersionConstraint \<Rightarrow> Version \<Rightarrow> bool" where
  "satisfies (Exact v) w = (w = v)"
| "satisfies (GreaterEqual v) w = (w \<ge> v)"
| "satisfies (GreaterThan v) w = (w > v)"
| "satisfies (LessEqual v) w = (w \<le> v)"
| "satisfies (LessThan v) w = (w < v)"
| "satisfies (Range mn mx) w = (w \<ge> mn \<and> w \<le> mx)"
| "satisfies AnyVersion w = True"

section \<open>Partitions\<close>

datatype PartitionSlot = A | B

fun other_slot :: "PartitionSlot \<Rightarrow> PartitionSlot" where
  "other_slot A = B"
| "other_slot B = A"

lemma other_slot_other [simp]: "other_slot (other_slot s) = s" "other_slot s \<noteq> s" "s \<noteq> other_slot s"
  by (cases s; simp)+

text \<open>A constraint accepts an interval of versions: with two versions it accepts all between them.\<close>

lemma satisfies_convex: "satisfies c u \<Longrightarrow> satisfies c w \<Longrightarrow> u \<le> v \<Longrightarrow> v \<le> w \<Longrightarrow> satisfies c v"
  by (cases c) auto

end
