(* ===== verification/Update_Txn.thy ===== *)
theory Update_Txn
  imports Delta Update_Version
begin

text \<open>
  Transactional updates (\<^verbatim>\<open>components/athupdate/src/transactional.rs\<close>): signed delta payloads,
  their verification and reconstruction, and the update session. SHA-256 and Ed25519
  verification are arguments. A session never touches the slot it runs from, and points the
  boot loader at the other slot only while that slot holds an image made from the running
  one by an authenticated delta. The signature covers the delta alone: the versions and the
  hash of the result that travel with it are not authenticated.
\<close>

unbundle bit_operations_syntax

section \<open>Signed payloads\<close>

type_synonym sha256_fn = "u8 list \<Rightarrow> u8 list"
type_synonym verify_fn = "u8 list \<Rightarrow> u8 list \<Rightarrow> u8 list \<Rightarrow> bool"

record UpdateTrustKey =
  ed25519_public :: "u8 list"

record SignedDeltaPayload =
  sp_from_version :: Version
  sp_to_version :: Version
  payload :: "u8 list"
  payload_sha256 :: "u8 list"
  result_sha256 :: "u8 list"
  signature :: "u8 list"

datatype VerifyError =
  PayloadChecksumMismatch | SignatureInvalid_V | MalformedDelta | DeltaOutOfRange_V | ResultChecksumMismatch

fun update_error_of :: "VerifyError \<Rightarrow> UpdateError" where
  "update_error_of PayloadChecksumMismatch = ChecksumMismatch"
| "update_error_of SignatureInvalid_V = SignatureInvalid"
| "update_error_of MalformedDelta = CorruptedPackage"
| "update_error_of DeltaOutOfRange_V = CorruptedPackage"
| "update_error_of ResultChecksumMismatch = ChecksumMismatch"

definition ct_eq :: "u8 list \<Rightarrow> u8 list \<Rightarrow> bool" where
  "ct_eq a b \<longleftrightarrow> fold (\<lambda>i diff. diff OR (a ! i XOR b ! i)) [0..<32] 0 = 0"

definition payload_verify ::
  "sha256_fn \<Rightarrow> verify_fn \<Rightarrow> UpdateTrustKey \<Rightarrow> SignedDeltaPayload \<Rightarrow> VerifyError + unit" where
  "payload_verify sha256 ed_verify key p =
     (let actual = sha256 (payload p) in
      if \<not> ct_eq actual (payload_sha256 p) then Inl PayloadChecksumMismatch
      else if \<not> ed_verify (ed25519_public key) (payload p) (signature p) then Inl SignatureInvalid_V
      else Inr ())"

definition reconstruct ::
  "sha256_fn \<Rightarrow> verify_fn \<Rightarrow> UpdateTrustKey \<Rightarrow> u8 list \<Rightarrow> SignedDeltaPayload \<Rightarrow> VerifyError + u8 list" where
  "reconstruct sha256 ed_verify key base_image p =
     (case payload_verify sha256 ed_verify key p of
        Inl e \<Rightarrow> Inl e
      | Inr _ \<Rightarrow>
          (case deserialize_delta (payload p) of
             None \<Rightarrow> Inl MalformedDelta
           | Some ops \<Rightarrow>
               (case apply_delta base_image ops of
                  Inl e \<Rightarrow> Inl (if e = DeltaOutOfRange then DeltaOutOfRange_V else MalformedDelta)
                | Inr new_image \<Rightarrow>
                    let result_hash = sha256 new_image in
                    if \<not> ct_eq result_hash (result_sha256 p) then Inl ResultChecksumMismatch
                    else Inr new_image)))"

section \<open>The update session\<close>

datatype TxnState =
  Idle | Verified | Staged | Flipped | Committed | RolledBack | Aborted VerifyError

datatype HealthCheck = Healthy | Unhealthy

record UpdateSession =
  us_state :: TxnState
  active_slot :: PartitionSlot
  target_slot :: PartitionSlot
  us_from_version :: Version
  us_to_version :: Version
  max_boot_attempts :: u32
  boot_attempts :: u32

record StagedImage =
  si_slot :: PartitionSlot
  si_bytes :: "u8 list"
  si_sha256 :: "u8 list"

definition session_new :: "PartitionSlot \<Rightarrow> Version \<Rightarrow> Version \<Rightarrow> UpdateSession" where
  "session_new slot from to =
     \<lparr>us_state = Idle, active_slot = slot, target_slot = other_slot slot, us_from_version = from,
      us_to_version = to, max_boot_attempts = 3, boot_attempts = 0\<rparr>"

definition verify_payload ::
  "sha256_fn \<Rightarrow> verify_fn \<Rightarrow> UpdateTrustKey \<Rightarrow> SignedDeltaPayload \<Rightarrow> UpdateSession
     \<Rightarrow> (VerifyError + unit) \<times> UpdateSession" where
  "verify_payload sha256 ed_verify key p s =
     (if sp_from_version p \<noteq> us_from_version s \<or> sp_to_version p \<noteq> us_to_version s
      then (Inl ResultChecksumMismatch, s\<lparr>us_state := Aborted ResultChecksumMismatch\<rparr>)
      else case payload_verify sha256 ed_verify key p of
          Inr _ \<Rightarrow> (Inr (), s\<lparr>us_state := Verified\<rparr>)
        | Inl e \<Rightarrow> (Inl e, s\<lparr>us_state := Aborted e\<rparr>))"

definition session_stage ::
  "sha256_fn \<Rightarrow> verify_fn \<Rightarrow> UpdateTrustKey \<Rightarrow> u8 list \<Rightarrow> SignedDeltaPayload \<Rightarrow> UpdateSession
     \<Rightarrow> (VerifyError + StagedImage) \<times> UpdateSession" where
  "session_stage sha256 ed_verify key base_image p s =
     (let (checked, s) = (if us_state s \<noteq> Verified then verify_payload sha256 ed_verify key p s else (Inr (), s)) in
      case checked of
        Inl e \<Rightarrow> (Inl e, s)
      | Inr _ \<Rightarrow>
          (case reconstruct sha256 ed_verify key base_image p of
             Inr bytes \<Rightarrow>
               (Inr \<lparr>si_slot = target_slot s, si_bytes = bytes, si_sha256 = result_sha256 p\<rparr>,
                s\<lparr>us_state := Staged\<rparr>)
           | Inl e \<Rightarrow> (Inl e, s\<lparr>us_state := Aborted e\<rparr>)))"

definition flip :: "UpdateSession \<Rightarrow> (UpdateError + PartitionSlot) \<times> UpdateSession" where
  "flip s =
     (if us_state s \<noteq> Staged then (Inl PartitionError, s)
      else (Inr (target_slot s), s\<lparr>us_state := Flipped, boot_attempts := 0\<rparr>))"

definition session_rollback :: "UpdateSession \<Rightarrow> PartitionSlot \<times> UpdateSession" where
  "session_rollback s = (active_slot s, s\<lparr>us_state := RolledBack\<rparr>)"

definition report_health :: "HealthCheck \<Rightarrow> UpdateSession \<Rightarrow> bool \<times> UpdateSession" where
  "report_health health s =
     (if us_state s \<noteq> Flipped then (False, s)
      else case health of
          Healthy \<Rightarrow> (False, s\<lparr>us_state := Committed\<rparr>)
        | Unhealthy \<Rightarrow>
            let s = s\<lparr>boot_attempts := boot_attempts s + 1\<rparr> in
            if boot_attempts s \<ge> max_boot_attempts s then (True, snd (session_rollback s))
            else (False, s))"

definition boot_target :: "UpdateSession \<Rightarrow> PartitionSlot" where
  "boot_target s =
     (case us_state s of Flipped \<Rightarrow> target_slot s | Committed \<Rightarrow> target_slot s | _ \<Rightarrow> active_slot s)"

definition is_recoverable :: "UpdateSession \<Rightarrow> bool" where
  "is_recoverable s =
     (case us_state s of
        Idle \<Rightarrow> True | Verified \<Rightarrow> True | Staged \<Rightarrow> True | RolledBack \<Rightarrow> True | Aborted _ \<Rightarrow> True
      | Flipped \<Rightarrow> True | Committed \<Rightarrow> True)"

section \<open>Verification and reconstruction\<close>

lemma ct_eq_iff:
  assumes "length a = 32" and "length b = 32"
  shows "ct_eq a b \<longleftrightarrow> a = b"
proof -
  have xor: "x XOR y = 0 \<longleftrightarrow> x = y" for x y :: u8
    by (auto simp: bit_eq_iff bit_simps)
  have "fold (\<lambda>i diff. diff OR (a ! i XOR b ! i)) is d = 0 \<longleftrightarrow> d = 0 \<and> (\<forall>i\<in>set is. a ! i = b ! i)"
    for "is" :: "nat list" and d
    by (induction "is" arbitrary: d) (auto simp: or_eq_0_iff xor)
  then show ?thesis using assms by (auto simp: ct_eq_def list_eq_iff_nth_eq)
qed

text \<open>The hash function returns 32 bytes and the digests of a payload are arrays of 32 bytes.\<close>

definition digests_ok :: "sha256_fn \<Rightarrow> SignedDeltaPayload \<Rightarrow> bool" where
  "digests_ok sha256 p \<longleftrightarrow> (\<forall>x. length (sha256 x) = 32) \<and> length (payload_sha256 p) = 32
     \<and> length (result_sha256 p) = 32"

lemma payload_verify_iff:
  assumes "digests_ok sha256 p"
  shows "payload_verify sha256 ed_verify key p = Inr () \<longleftrightarrow>
     sha256 (payload p) = payload_sha256 p \<and> ed_verify (ed25519_public key) (payload p) (signature p)"
  using assms by (simp add: payload_verify_def digests_ok_def ct_eq_iff Let_def)

text \<open>What the payload and its signature make of a base image.\<close>

definition authentic ::
  "sha256_fn \<Rightarrow> verify_fn \<Rightarrow> UpdateTrustKey \<Rightarrow> u8 list \<Rightarrow> u8 list \<Rightarrow> SignedDeltaPayload \<Rightarrow> bool" where
  "authentic sha256 ed_verify key base img p \<longleftrightarrow>
     payload_verify sha256 ed_verify key p = Inr ()
     \<and> (\<exists>ops. deserialize_delta (payload p) = Some ops \<and> apply_delta base ops = Inr img)
     \<and> ct_eq (sha256 img) (result_sha256 p)"

lemma reconstruct_iff:
  "reconstruct sha256 ed_verify key base p = Inr img \<longleftrightarrow> authentic sha256 ed_verify key base img p"
  by (auto simp: reconstruct_def authentic_def Let_def split: sum.splits option.splits if_splits)

lemma session_stage_cases:
  assumes "session_stage sha256 ed_verify key base p s = (r, s')"
  obtains (failed) e where "r = Inl e" "s' = s\<lparr>us_state := Aborted e\<rparr>"
  | (staged) img where "r = Inr \<lparr>si_slot = target_slot s, si_bytes = img, si_sha256 = result_sha256 p\<rparr>"
      "s' = s\<lparr>us_state := Staged\<rparr>" "authentic sha256 ed_verify key base img p"
  using assms
  by (auto simp: session_stage_def verify_payload_def Let_def reconstruct_iff
      split: if_splits sum.splits prod.splits)

section \<open>Sessions with the disk\<close>

text \<open>
  The caller writes a staged image to the slot it names; the base image is what the running
  slot holds. Every operation of the session may be called at any time and with any payload.
\<close>

record Machine =
  session :: UpdateSession
  disk :: "PartitionSlot \<Rightarrow> u8 list"

inductive txn_step :: "sha256_fn \<Rightarrow> verify_fn \<Rightarrow> UpdateTrustKey \<Rightarrow> Machine \<Rightarrow> Machine \<Rightarrow> bool"
  for sha256 ed_verify key where
  check: "verify_payload sha256 ed_verify key p (session m) = (r, s) \<Longrightarrow>
     txn_step sha256 ed_verify key m (m\<lparr>session := s\<rparr>)"
| stage_failed: "session_stage sha256 ed_verify key (disk m (active_slot (session m))) p (session m) = (Inl e, s) \<Longrightarrow>
     txn_step sha256 ed_verify key m (m\<lparr>session := s\<rparr>)"
| staged: "session_stage sha256 ed_verify key (disk m (active_slot (session m))) p (session m) = (Inr img, s) \<Longrightarrow>
     txn_step sha256 ed_verify key m (m\<lparr>session := s, disk := (disk m)(si_slot img := si_bytes img)\<rparr>)"
| flipped: "flip (session m) = (r, s) \<Longrightarrow> txn_step sha256 ed_verify key m (m\<lparr>session := s\<rparr>)"
| reported: "report_health h (session m) = (b, s) \<Longrightarrow> txn_step sha256 ed_verify key m (m\<lparr>session := s\<rparr>)"
| rolled_back: "session_rollback (session m) = (t, s) \<Longrightarrow> txn_step sha256 ed_verify key m (m\<lparr>session := s\<rparr>)"

definition txn_inv ::
  "sha256_fn \<Rightarrow> verify_fn \<Rightarrow> UpdateTrustKey \<Rightarrow> PartitionSlot \<Rightarrow> u8 list \<Rightarrow> Machine \<Rightarrow> bool" where
  "txn_inv sha256 ed_verify key slot base m \<longleftrightarrow>
     active_slot (session m) = slot \<and> target_slot (session m) = other_slot slot \<and> disk m slot = base
     \<and> max_boot_attempts (session m) = 3
     \<and> (us_state (session m) = Flipped \<longrightarrow> unat (boot_attempts (session m)) < 3)
     \<and> (us_state (session m) \<in> {Staged, Flipped, Committed} \<longrightarrow>
          (\<exists>p. authentic sha256 ed_verify key base (disk m (other_slot slot)) p))"

lemma verify_payload_state:
  "verify_payload sha256 ed_verify key p s = (r, s') \<Longrightarrow>
     \<exists>st. s' = s\<lparr>us_state := st\<rparr> \<and> st \<notin> {Staged, Flipped, Committed}"
  by (auto simp: verify_payload_def split: if_splits sum.splits)

lemma txn_inv_step:
  assumes "txn_step sha256 ed_verify key m m'" and "txn_inv sha256 ed_verify key slot base m"
  shows "txn_inv sha256 ed_verify key slot base m'"
  using assms
proof (cases rule: txn_step.cases)
  case (check p r s)
  then show ?thesis using verify_payload_state [of _ _ _ p] assms(2) by (fastforce simp: txn_inv_def)
next
  case (stage_failed p e s)
  then show ?thesis using assms(2) by (auto simp: txn_inv_def elim: session_stage_cases)
next
  case (staged p img s)
  from staged(2) show ?thesis
    using staged(1) assms(2) by (cases rule: session_stage_cases) (auto simp: txn_inv_def)
next
  case (flipped r s)
  then show ?thesis using assms(2) by (auto simp: txn_inv_def flip_def split: if_splits)
next
  case (reported h b s)
  have "unat (boot_attempts (session m) + 1) < 3"
    if "us_state (session m) = Flipped" "\<not> 3 \<le> boot_attempts (session m) + 1"
    using that by (simp add: word_le_nat_alt)
  then show ?thesis
    using reported assms(2)
    by (auto simp: txn_inv_def report_health_def session_rollback_def Let_def split: if_splits HealthCheck.splits)
next
  case (rolled_back t s)
  then show ?thesis using assms(2) by (auto simp: txn_inv_def session_rollback_def)
qed

definition txn_start :: "PartitionSlot \<Rightarrow> Version \<Rightarrow> Version \<Rightarrow> (PartitionSlot \<Rightarrow> u8 list) \<Rightarrow> Machine" where
  "txn_start slot from to images = \<lparr>session = session_new slot from to, disk = images\<rparr>"

interpretation txn: inductive_invariant
  "\<lambda>m. \<exists>from to images. images slot = base \<and> m = txn_start slot from to images"
  "txn_step sha256 ed_verify key" "txn_inv sha256 ed_verify key slot base"
  for sha256 ed_verify key slot base
proof
  show "txn_inv sha256 ed_verify key slot base m"
    if "\<exists>from to images. images slot = base \<and> m = txn_start slot from to images" for m
    using that by (auto simp: txn_inv_def txn_start_def session_new_def)
  show "txn_inv sha256 ed_verify key slot base m'"
    if "txn_step sha256 ed_verify key m m'" and "txn_inv sha256 ed_verify key slot base m" for m m'
    using that by (rule txn_inv_step)
qed

lemma authentic_signed:
  "authentic sha256 ed_verify key base img p \<Longrightarrow>
     ed_verify (ed25519_public key) (payload p) (signature p)
     \<and> (\<exists>ops. deserialize_delta (payload p) = Some ops \<and> apply_delta base ops = Inr img)"
  by (auto simp: authentic_def payload_verify_def Let_def split: if_splits)

lemma boot_target_other: "boot_target s \<noteq> active_slot s \<Longrightarrow> us_state s \<in> {Flipped, Committed} \<and> boot_target s = target_slot s"
  by (cases "us_state s") (simp_all add: boot_target_def)

section \<open>Properties\<close>



text \<open>
  C28. The signature does not bind a payload to anything: a delta that was signed once is
  accepted again by a session for any two versions, on any base image its copies fit, with
  its signature unchanged. The versions and the digest of the result are not signed, and
  whoever delivers the payload chooses them.
\<close>

theorem relabelled_payload_accepted:
  assumes "payload_verify sha256 ed_verify key p = Inr ()" and "\<forall>x. length (sha256 x) = 32"
    and "deserialize_delta (payload p) = Some ops" and "length base < 2 ^ 64"
    and "list_all (op_ok (length base)) ops"
  shows "\<exists>q. payload q = payload p \<and> signature q = signature p \<and>
    fst (session_stage sha256 ed_verify key base q (session_new slot from to))
      = Inr \<lparr>si_slot = other_slot slot, si_bytes = concat (map (op_yields base) ops), si_sha256 = result_sha256 q\<rparr>"
proof -
  let ?img = "concat (map (op_yields base) ops)"
  let ?q = "p\<lparr>sp_from_version := from, sp_to_version := to, result_sha256 := sha256 ?img\<rparr>"
  have ver: "payload_verify sha256 ed_verify key ?q = Inr ()"
    using assms(1) by (simp add: payload_verify_def Let_def split: if_splits)
  have "apply_delta base ops = Inr ?img" using assms(4,5) by (simp add: apply_delta_exact)
  then have "authentic sha256 ed_verify key base ?img ?q"
    using ver assms(2,3) by (auto simp: authentic_def ct_eq_iff)
  then have rec: "reconstruct sha256 ed_verify key base ?q = Inr ?img" by (simp add: reconstruct_iff)
  show ?thesis
    by (rule exI [of _ ?q]) (use ver rec in \<open>simp add: session_stage_def verify_payload_def session_new_def Let_def\<close>)
qed

text \<open>
  After a flip, reports of a slot that does not come up lead back to the old slot at the
  third one and not before.
\<close>

fun unhealthy_boots :: "nat \<Rightarrow> UpdateSession \<Rightarrow> UpdateSession" where
  "unhealthy_boots 0 s = s"
| "unhealthy_boots (Suc n) s = unhealthy_boots n (snd (report_health Unhealthy s))"

lemma unhealthy_boots_last: "unhealthy_boots (Suc n) s = snd (report_health Unhealthy (unhealthy_boots n s))"
  by (induction n arbitrary: s) simp_all

lemma unhealthy_boots_flipped:
  assumes "us_state s = Flipped" and "max_boot_attempts s = 3" and "boot_attempts s = 0"
  shows "unhealthy_boots n s =
     (if n < 3 then s\<lparr>boot_attempts := word_of_nat n\<rparr> else s\<lparr>boot_attempts := 3, us_state := RolledBack\<rparr>)"
proof (induction n)
  case (Suc n)
  consider "n = 0" | "n = 1" | "n = 2" | "3 \<le> n" by linarith
  then show ?case
    unfolding unhealthy_boots_last Suc.IH
    using assms by cases (simp_all add: report_health_def session_rollback_def Let_def word_le_nat_alt)
qed (simp add: assms(3) [symmetric])

theorem watchdog_rolls_back:
  assumes "us_state s = Staged" and "max_boot_attempts s = 3"
  shows "boot_target (unhealthy_boots n (snd (flip s))) = (if n < 3 then target_slot s else active_slot s)"
  using unhealthy_boots_flipped [of "snd (flip s)" n] assms by (simp add: flip_def boot_target_def)

section \<open>Witnesses\<close>

definition wit_sha :: sha256_fn where
  "wit_sha x = replicate 32 (fold (+) x 0)"

definition wit_verify :: verify_fn where
  "wit_verify pk msg sig = (sig = [])"

definition wit_key :: UpdateTrustKey where
  "wit_key = \<lparr>ed25519_public = []\<rparr>"

definition wit_payload :: SignedDeltaPayload where
  "wit_payload = (let d = serialize_delta (byte_delta [1, 2, 9] [1, 3, 9]) in
     \<lparr>sp_from_version = version_new 1 0 0, sp_to_version = version_new 1 1 0, payload = d,
      payload_sha256 = wit_sha d, result_sha256 = wit_sha [1, 3, 9], signature = []\<rparr>)"

lemma wit_sha_length: "\<forall>x. length (wit_sha x) = 32"
  by (simp add: wit_sha_def)



theorem relabelled_payload_accepted_witness:
  "\<exists>q. signature q = signature wit_payload \<and>
    fst (session_stage wit_sha wit_verify wit_key [7, 7, 7, 7] q (session_new A (version_new 9 0 0) (version_new 2 0 0)))
      = Inr \<lparr>si_slot = B, si_bytes = [7, 3, 7], si_sha256 = result_sha256 q\<rparr>"
proof -
  have ver: "payload_verify wit_sha wit_verify wit_key wit_payload = Inr ()" by code_simp
  have ops: "deserialize_delta (payload wit_payload) = Some [Copy 0 1, Data [3], Copy 2 1]" by code_simp
  show ?thesis
    using relabelled_payload_accepted [OF ver wit_sha_length ops, of "[7, 7, 7, 7]" A] by auto
qed

end
