(* ===== verification/Update_Resolve.thy ===== *)
theory Update_Resolve
  imports Update_Version Rust_Str
begin

text \<open>
  Packages and the dependency resolver of the update manager
  (\<^verbatim>\<open>components/athupdate/src/lib.rs\<close>). The two recursive searches of \<^verbatim>\<open>compute_install_order\<close>
  are written over the list of names still to visit, so that the loop over the dependencies
  and the recursive call are one function; both are proved to end. The order that is
  returned is topological: every package once, after the packages it depends on; the only
  errors are a name without a candidate and a cycle.
\<close>

section \<open>Packages\<close>

datatype Architecture = X86_64 | Aarch64 | Riscv64 | AnyArch

datatype CompressionType = NoCompression | Zstd | Lz4 | Xz | Gzip

record Dependency =
  dep_package_name :: str
  constraint :: VersionConstraint

record PackageHeader =
  pkg_id :: u64
  pkg_name :: str
  pkg_version :: Version
  arch :: Architecture
  description :: str
  dependencies :: "Dependency list"
  conflicts :: "str list"
  provides :: "str list"
  replaces :: "str list"
  suggests :: "str list"
  recommends :: "str list"
  installed_size :: u64
  download_size :: u64
  pkg_sha256 :: "u8 list"
  pkg_sha512 :: "u8 list"
  gpg_signature :: "u8 list"
  compression :: CompressionType
  pre_install_script :: "str option"
  post_install_script :: "str option"
  pre_remove_script :: "str option"
  post_remove_script :: "str option"
  repo_id :: u32
  source_url :: str

datatype PackageState =
  Available | PkgDownloading | Downloaded | Installing | Installed | Upgrading | Removing | Removed
| Broken | OnHold

record InstalledPackage =
  header :: PackageHeader
  pkg_state :: PackageState
  install_path :: str
  installed_at :: u64
  updated_at :: u64
  auto_installed :: bool
  config_files :: "str list"
  installed_files :: "str list"

section \<open>The resolver\<close>

record DepNode =
  node_name :: str
  node_version :: Version
  deps :: "str list"
  visited :: bool
  in_stack :: bool
  order :: u32

record DependencyResolver =
  available :: "(str, PackageHeader list) btree"
  installed :: "(str, InstalledPackage) btree"
  virtual_packages :: "(str, str) btree"

definition resolver_new :: DependencyResolver where
  "resolver_new = \<lparr>available = bt_empty, installed = bt_empty, virtual_packages = bt_empty\<rparr>"

definition add_available :: "PackageHeader \<Rightarrow> DependencyResolver \<Rightarrow> DependencyResolver" where
  "add_available h r =
     r\<lparr>available := bt_insert (pkg_name h)
         ((case bt_get (available r) (pkg_name h) of Some hs \<Rightarrow> hs | None \<Rightarrow> []) @ [h]) (available r)\<rparr>"

definition register_installed :: "InstalledPackage \<Rightarrow> DependencyResolver \<Rightarrow> DependencyResolver" where
  "register_installed pkg r =
     (let r = r\<lparr>virtual_packages :=
            fold (\<lambda>provided m. bt_insert provided (pkg_name (header pkg)) m) (provides (header pkg)) (virtual_packages r)\<rparr>
      in r\<lparr>installed := bt_insert (pkg_name (header pkg)) pkg (installed r)\<rparr>)"

definition resolve_name :: "DependencyResolver \<Rightarrow> str \<Rightarrow> str" where
  "resolve_name r name = (case bt_get (virtual_packages r) name of Some s \<Rightarrow> s | None \<Rightarrow> name)"

text \<open>\<^verbatim>\<open>Iterator::max_by\<close>: of several greatest elements, the last.\<close>

fun max_by :: "('a \<Rightarrow> 'a \<Rightarrow> Ordering) \<Rightarrow> 'a list \<Rightarrow> 'a option" where
  "max_by cmp [] = None"
| "max_by cmp (x # xs) = Some (fold (\<lambda>y best. if cmp best y = Greater then best else y) xs x)"

definition header_cmp :: "PackageHeader \<Rightarrow> PackageHeader \<Rightarrow> Ordering" where
  "header_cmp a b = version_cmp (pkg_version a) (pkg_version b)"

definition best_candidate :: "DependencyResolver \<Rightarrow> str \<Rightarrow> PackageHeader option" where
  "best_candidate r name =
     (let real_name = resolve_name r name in
      case bt_get (available r) real_name of
        None \<Rightarrow> None
      | Some versions \<Rightarrow> max_by header_cmp versions)"

definition find_version :: "DependencyResolver \<Rightarrow> str \<Rightarrow> VersionConstraint \<Rightarrow> PackageHeader option" where
  "find_version r name c =
     (let real_name = resolve_name r name in
      case bt_get (available r) real_name of
        None \<Rightarrow> None
      | Some versions \<Rightarrow> max_by header_cmp (filter (\<lambda>h. satisfies c (pkg_version h)) versions))"

definition check_conflicts :: "DependencyResolver \<Rightarrow> str \<Rightarrow> str list" where
  "check_conflicts r name =
     (case best_candidate r name of
        None \<Rightarrow> []
      | Some h \<Rightarrow> filter (\<lambda>c. bt_get (installed r) c \<noteq> None) (conflicts h))"

definition is_satisfied :: "DependencyResolver \<Rightarrow> Dependency \<Rightarrow> bool" where
  "is_satisfied r d =
     (let real_name = resolve_name r (dep_package_name d) in
      case bt_get (installed r) real_name of
        None \<Rightarrow> False
      | Some pkg \<Rightarrow> satisfies (constraint d) (pkg_version (header pkg)))"

definition dep_names :: "DependencyResolver \<Rightarrow> PackageHeader \<Rightarrow> str list" where
  "dep_names r h = map (\<lambda>d. resolve_name r (dep_package_name d)) (dependencies h)"

definition dep_node :: "DependencyResolver \<Rightarrow> str \<Rightarrow> PackageHeader \<Rightarrow> DepNode" where
  "dep_node r real_name h =
     \<lparr>node_name = real_name, node_version = pkg_version h, deps = dep_names r h, visited = False,
      in_stack = False, order = 0\<rparr>"

type_synonym nodes = "(str, DepNode) btree"

text \<open>\<^verbatim>\<open>collect_deps\<close> for each of a list of names.\<close>

function collect_deps :: "DependencyResolver \<Rightarrow> str list \<Rightarrow> nodes \<Rightarrow> UpdateError + nodes" where
  "collect_deps r [] nodes = Inr nodes"
| "collect_deps r (name # names) nodes =
     (let real_name = resolve_name r name in
      if bt_get nodes real_name \<noteq> None then collect_deps r names nodes
      else case best_candidate r real_name of
          None \<Rightarrow> Inl NotFound
        | Some h \<Rightarrow>
            (case collect_deps r (filter (\<lambda>d. bt_get (installed r) d = None) (dep_names r h))
                    (bt_insert real_name (dep_node r real_name h) nodes) of
               Inl e \<Rightarrow> Inl e
             | Inr nodes \<Rightarrow> collect_deps r names nodes))"
  by pat_completeness auto

text \<open>The names the search can meet: those asked for and those some package depends on.\<close>

definition all_deps :: "DependencyResolver \<Rightarrow> str list" where
  "all_deps r = concat (map (\<lambda>e. concat (map (dep_names r) (snd e))) (available r))"

definition open_names :: "DependencyResolver \<Rightarrow> str list \<Rightarrow> nodes \<Rightarrow> str set" where
  "open_names r names nodes = resolve_name r ` (set names \<union> set (all_deps r)) - set (bt_keys nodes)"

lemma finite_open_names [simp]: "finite (open_names r names nodes)"
  by (simp add: open_names_def)

lemma max_by_mem: "max_by cmp xs = Some x \<Longrightarrow> x \<in> set xs"
proof -
  have "fold (\<lambda>y best. if cmp best y = Greater then best else y) ys a \<in> insert a (set ys)" for ys a
  proof (induction ys arbitrary: a)
    case (Cons y ys)
    from Cons.IH [of "if cmp a y = Greater then a else y"] show ?case by (auto split: if_splits)
  qed simp
  then show "max_by cmp xs = Some x \<Longrightarrow> x \<in> set xs" by (cases xs) auto
qed

lemma best_candidate_deps: "best_candidate r name = Some h \<Longrightarrow> set (dep_names r h) \<subseteq> set (all_deps r)"
  by (force simp: best_candidate_def all_deps_def Let_def split: option.splits dest: max_by_mem bt_get_mem)

text \<open>One step of the search: the name is known, unknown to the repositories, or new.\<close>

definition visit_deps :: "DependencyResolver \<Rightarrow> PackageHeader \<Rightarrow> str list" where
  "visit_deps r h = filter (\<lambda>d. bt_get (installed r) d = None) (dep_names r h)"

lemma collect_step:
  assumes "collect_deps_dom (r, name # names, nodes)" and "collect_deps r (name # names) nodes = Inr nodes'"
  obtains (known) "bt_get nodes (resolve_name r name) \<noteq> None" "collect_deps r names nodes = Inr nodes'"
  | (new) h nodes1 where "bt_get nodes (resolve_name r name) = None"
      "best_candidate r (resolve_name r name) = Some h"
      "collect_deps r (visit_deps r h)
         (bt_insert (resolve_name r name) (dep_node r (resolve_name r name) h) nodes) = Inr nodes1"
      "collect_deps r names nodes1 = Inr nodes'"
  using assms(2)
  by (auto simp: collect_deps.psimps(2) [OF assms(1)] visit_deps_def Let_def
      split: if_splits option.splits sum.splits)

lemma collect_deps_keys_dom:
  assumes "collect_deps_dom (r, names, nodes)" and "collect_deps r names nodes = Inr nodes'"
  shows "set (bt_keys nodes) \<subseteq> set (bt_keys nodes')"
  using assms
proof (induction r names nodes arbitrary: nodes' rule: collect_deps.pinduct)
  case (1 r nodes)
  then show ?case by (simp add: collect_deps.psimps)
next
  case (2 r name names nodes)
  from 2(1) "2.prems" show ?case
  proof (cases rule: collect_step)
    case known
    with 2(2) show ?thesis by auto
  next
    case (new h nodes1)
    then have "set (bt_keys (bt_insert (resolve_name r name) (dep_node r (resolve_name r name) h) nodes)) \<subseteq> set (bt_keys nodes1)"
      using 2(3) by (auto simp: visit_deps_def)
    moreover have "set (bt_keys nodes1) \<subseteq> set (bt_keys nodes')"
      using 2(4) new by (auto simp: visit_deps_def)
    ultimately show ?thesis by (auto simp: bt_keys_insert_set)
  qed
qed

lemma open_names_le:
  assumes "set names' \<subseteq> set names \<union> set (all_deps r)" and "set (bt_keys nodes) \<subseteq> set (bt_keys nodes')"
  shows "card (open_names r names' nodes') \<le> card (open_names r names nodes)"
  by (rule card_mono) (use assms in \<open>auto simp: open_names_def\<close>)

lemma open_names_less:
  assumes "set names' \<subseteq> set names \<union> set (all_deps r)" and "set (bt_keys nodes) \<subseteq> set (bt_keys nodes')"
    and "name \<in> set names" and "bt_get nodes (resolve_name r name) = None"
    and "resolve_name r name \<in> set (bt_keys nodes')"
  shows "card (open_names r names' nodes') < card (open_names r names nodes)"
proof (rule psubset_card_mono)
  have "resolve_name r name \<in> open_names r names nodes"
    using assms(3,4) bt_get_keys [of nodes "resolve_name r name"] by (auto simp: open_names_def)
  moreover have "resolve_name r name \<notin> open_names r names' nodes'"
    using assms(5) by (simp add: open_names_def)
  moreover have "open_names r names' nodes' \<subseteq> open_names r names nodes"
    using assms(1,2) by (auto simp: open_names_def)
  ultimately show "open_names r names' nodes' \<subset> open_names r names nodes" by blast
qed simp

lemma collect_deps_total: "All collect_deps_dom"
proof (rule "collect_deps.termination"
      [of "measures [\<lambda>(r, names, nodes). card (open_names r names nodes), \<lambda>(r, names, nodes). length names]"],
    goal_cases)
  case (2 r name names nodes real_name)
  have "card (open_names r names nodes) \<le> card (open_names r (name # names) nodes)"
    by (rule open_names_le) auto
  then show ?case by (simp add: le_less)
next
  case (3 r name names nodes real_name h)
  then have "card (open_names r (filter (\<lambda>d. bt_get (installed r) d = None) (dep_names r h))
      (bt_insert real_name (dep_node r real_name h) nodes)) < card (open_names r (name # names) nodes)"
    by (intro open_names_less [of _ _ _ _ _ name])
      (auto simp: bt_keys_insert_set dest: subsetD [OF best_candidate_deps])
  then show ?case by simp
next
  case (4 r name names nodes real_name h nodes1)
  then have "set (bt_keys (bt_insert real_name (dep_node r real_name h) nodes)) \<subseteq> set (bt_keys nodes1)"
    by (intro collect_deps_keys_dom) simp_all
  with 4 have "card (open_names r names nodes1) < card (open_names r (name # names) nodes)"
    by (intro open_names_less [of _ _ _ _ _ name]) (auto simp: bt_keys_insert_set)
  then show ?case by simp
qed simp

termination collect_deps
  by (rule collect_deps_total)

declare collect_deps.simps(2) [simp del]

text \<open>\<^verbatim>\<open>topo_visit\<close> for each of a list of names, over the state its callers pass along.\<close>

record TopoState =
  topo_nodes :: nodes
  result :: "str list"
  counter :: u32

definition enter_node :: "str \<Rightarrow> TopoState \<Rightarrow> TopoState" where
  "enter_node name st = st\<lparr>topo_nodes := bt_modify name (\<lambda>n. n\<lparr>in_stack := True\<rparr>) (topo_nodes st)\<rparr>"

definition finish_node :: "str \<Rightarrow> TopoState \<Rightarrow> TopoState" where
  "finish_node name st =
     st\<lparr>topo_nodes := bt_modify name (\<lambda>n. n\<lparr>in_stack := False, visited := True, order := counter st\<rparr>) (topo_nodes st),
        counter := counter st + 1, result := result st @ [name]\<rparr>"

function topo_visit :: "str list \<Rightarrow> TopoState \<Rightarrow> UpdateError + TopoState" where
  "topo_visit [] st = Inr st"
| "topo_visit (name # names) st =
     (case bt_get (topo_nodes st) name of
        None \<Rightarrow> topo_visit names st
      | Some node \<Rightarrow>
          if in_stack node then Inl CyclicDependency
          else if visited node then topo_visit names st
          else (case topo_visit (deps node) (enter_node name st) of
                  Inl e \<Rightarrow> Inl e
                | Inr st \<Rightarrow> topo_visit names (finish_node name st)))"
  by pat_completeness auto

definition nodes_where :: "(DepNode \<Rightarrow> bool) \<Rightarrow> TopoState \<Rightarrow> str set" where
  "nodes_where P st = {n. \<exists>v. bt_get (topo_nodes st) n = Some v \<and> P v}"

abbreviation fresh_nodes :: "TopoState \<Rightarrow> str set" where
  "fresh_nodes \<equiv> nodes_where (\<lambda>v. \<not> visited v \<and> \<not> in_stack v)"

lemma finite_nodes_where [simp]: "finite (nodes_where P st)"
proof (rule finite_subset)
  show "nodes_where P st \<subseteq> set (bt_keys (topo_nodes st))"
    using bt_get_keys [of "topo_nodes st"] by (fastforce simp: nodes_where_def)
qed simp

lemma fresh_enter: "fresh_nodes (enter_node name st) = fresh_nodes st - {name}"
  by (auto simp: nodes_where_def enter_node_def bt_get_modify split: if_splits)

lemma fresh_finish: "fresh_nodes (finish_node name st) = fresh_nodes st - {name}"
  by (auto simp: nodes_where_def finish_node_def bt_get_modify split: if_splits)

lemma topo_step:
  assumes "topo_visit_dom (name # names, st)" and "topo_visit (name # names) st = Inr st'"
  obtains (skip) "bt_get (topo_nodes st) name = None \<or> (\<exists>v. bt_get (topo_nodes st) name = Some v \<and> visited v \<and> \<not> in_stack v)"
      "topo_visit names st = Inr st'"
  | (enter) v st1 where "bt_get (topo_nodes st) name = Some v" "\<not> visited v" "\<not> in_stack v"
      "topo_visit (deps v) (enter_node name st) = Inr st1" "topo_visit names (finish_node name st1) = Inr st'"
  using assms(2)
  by (auto simp: topo_visit.psimps(2) [OF assms(1)] split: if_splits option.splits sum.splits)

lemma topo_visit_fresh_dom:
  assumes "topo_visit_dom (names, st)" and "topo_visit names st = Inr st'"
  shows "fresh_nodes st' \<subseteq> fresh_nodes st"
  using assms
proof (induction names st arbitrary: st' rule: topo_visit.pinduct)
  case (1 st)
  then show ?case by (simp add: topo_visit.psimps)
next
  case (2 name names st)
  from 2(1) "2.prems" show ?case
  proof (cases rule: topo_step)
    case skip
    with 2(2,3) show ?thesis by auto
  next
    case (enter v st1)
    then have "fresh_nodes st1 \<subseteq> fresh_nodes (enter_node name st)" and "fresh_nodes st' \<subseteq> fresh_nodes (finish_node name st1)"
      using 2(4,5) by auto
    then show ?thesis by (auto simp: fresh_enter fresh_finish)
  qed
qed

lemma topo_visit_total: "All topo_visit_dom"
proof (rule "topo_visit.termination" [of "measures [\<lambda>(names, st). card (fresh_nodes st), \<lambda>(names, st). length names]"],
    goal_cases)
  case (4 name names st v)
  then have "name \<in> fresh_nodes st" by (simp add: nodes_where_def)
  then have "card (fresh_nodes (enter_node name st)) < card (fresh_nodes st)"
    unfolding fresh_enter by (intro psubset_card_mono) auto
  then show ?case by simp
next
  case (5 name names st v st1)
  then have "fresh_nodes st1 \<subseteq> fresh_nodes (enter_node name st)" by (intro topo_visit_fresh_dom) simp_all
  moreover have "name \<in> fresh_nodes st" using 5 by (simp add: nodes_where_def)
  ultimately have "fresh_nodes (finish_node name st1) \<subset> fresh_nodes st" by (auto simp: fresh_enter fresh_finish)
  then have "card (fresh_nodes (finish_node name st1)) < card (fresh_nodes st)" by (intro psubset_card_mono) auto
  then show ?case by simp
qed simp_all

termination topo_visit
  by (rule topo_visit_total)

declare topo_visit.simps(2) [simp del]

definition compute_install_order :: "DependencyResolver \<Rightarrow> str list \<Rightarrow> UpdateError + str list" where
  "compute_install_order r names =
     (case collect_deps r names bt_empty of
        Inl e \<Rightarrow> Inl e
      | Inr nodes \<Rightarrow>
          (case topo_visit (bt_keys nodes) \<lparr>topo_nodes = nodes, result = [], counter = 0\<rparr> of
             Inl e \<Rightarrow> Inl e
           | Inr st \<Rightarrow> Inr (result st)))"

definition find_unused :: "DependencyResolver \<Rightarrow> str list" where
  "find_unused r =
     (let need = (\<lambda>needed pkg.
            if auto_installed pkg then needed
            else fold (\<lambda>d needed. let real = resolve_name r (dep_package_name d) in
                         if real \<in> set needed then needed else needed @ [real])
                   (dependencies (header pkg)) (needed @ [pkg_name (header pkg)]));
          needed = fold (\<lambda>e needed. need needed (snd e)) (installed r) []
      in filter (\<lambda>name. (case bt_get (installed r) name of None \<Rightarrow> False | Some p \<Rightarrow> auto_installed p)
                        \<and> name \<notin> set needed) (bt_keys (installed r)))"

section \<open>What the search collects\<close>

text \<open>The packages an installation needs: those asked for, and what they depend on and is not installed.\<close>

inductive_set needed :: "DependencyResolver \<Rightarrow> str list \<Rightarrow> str set"
  for r :: DependencyResolver and names :: "str list" where
  asked: "n \<in> set names \<Longrightarrow> resolve_name r n \<in> needed r names"
| dep: "p \<in> needed r names \<Longrightarrow> best_candidate r p = Some h \<Longrightarrow> d \<in> set (visit_deps r h) \<Longrightarrow>
     resolve_name r d \<in> needed r names"

lemma needed_mono:
  assumes "set ms \<subseteq> set names \<union> D" and "\<And>d. d \<in> D \<Longrightarrow> resolve_name r d \<in> needed r names"
    and "p \<in> needed r ms"
  shows "p \<in> needed r names"
  using assms(3)
proof induction
  case (asked n)
  then show ?case using assms(1,2) by (auto intro: needed.asked)
next
  case (dep p h d)
  then show ?case by (blast intro: needed.dep)
qed

lemmas collect_cases [consumes 1, case_names known new] = collect_step [OF spec [OF collect_deps_total]]

lemma collect_deps_keys: "collect_deps r names nodes = Inr nodes' \<Longrightarrow> set (bt_keys nodes) \<subseteq> set (bt_keys nodes')"
  by (rule collect_deps_keys_dom [OF spec [OF collect_deps_total]])

definition node_of :: "DependencyResolver \<Rightarrow> str \<Rightarrow> DepNode \<Rightarrow> bool" where
  "node_of r k v \<longleftrightarrow> (\<exists>h. best_candidate r k = Some h \<and> v = dep_node r k h)"

lemma needed_new:
  assumes "best_candidate r (resolve_name r name) = Some h" and "k \<in> needed r (visit_deps r h)"
  shows "k \<in> needed r (name # names)"
proof (rule needed_mono [of _ _ "set (visit_deps r h)"])
  fix d
  assume "d \<in> set (visit_deps r h)"
  then show "resolve_name r d \<in> needed r (name # names)"
    by (intro needed.dep [OF needed.asked assms(1)]) simp_all
qed (use assms(2) in auto)

lemma needed_tail: "k \<in> needed r names \<Longrightarrow> k \<in> needed r (name # names)"
  by (rule needed_mono [of names _ "{}"]) auto

lemma collect_deps_sound:
  "collect_deps r names nodes = Inr nodes' \<Longrightarrow> bt_get nodes' k = Some v \<Longrightarrow>
     bt_get nodes k = Some v \<or> k \<in> needed r names \<and> node_of r k v"
proof (induction r names nodes arbitrary: nodes' rule: collect_deps.induct)
  case (2 r name names nodes)
  from "2.prems"(1) show ?case
  proof (cases rule: collect_cases)
    case known
    with 2(1) [OF refl _ known(2) "2.prems"(2)] show ?thesis by (auto intro: needed_tail)
  next
    case (new h nodes1)
    let ?k = "resolve_name r name"
    from new 2(3) [OF refl _ new(2) new(3) [unfolded visit_deps_def] new(4) "2.prems"(2)]
    consider "bt_get nodes1 k = Some v" | "k \<in> needed r names" "node_of r k v" by auto
    then show ?thesis
    proof cases
      case 1
      from new 2(2) [OF refl _ new(2) new(3) [unfolded visit_deps_def] 1]
      have "bt_get (bt_insert ?k (dep_node r ?k h) nodes) k = Some v \<or> k \<in> needed r (visit_deps r h) \<and> node_of r k v"
        by (auto simp: visit_deps_def)
      then show ?thesis
        using new(2) needed_new [OF new(2)] by (auto simp: node_of_def intro: needed.asked split: if_splits)
    qed (auto intro: needed_tail)
  qed
qed simp

lemma collect_deps_complete:
  "collect_deps r names nodes = Inr nodes' \<Longrightarrow>
     (\<forall>n\<in>set names. resolve_name r n \<in> set (bt_keys nodes'))
     \<and> (\<forall>k\<in>set (bt_keys nodes') - set (bt_keys nodes). \<forall>h. best_candidate r k = Some h \<longrightarrow>
          (\<forall>d\<in>set (visit_deps r h). resolve_name r d \<in> set (bt_keys nodes')))"
proof (induction r names nodes arbitrary: nodes' rule: collect_deps.induct)
  case (2 r name names nodes)
  from "2.prems"(1) show ?case
  proof (cases rule: collect_cases)
    case known
    have "resolve_name r name \<in> set (bt_keys nodes')"
      using known(1) bt_get_keys [of nodes "resolve_name r name"] collect_deps_keys [OF known(2)] by auto
    with 2(1) [OF refl _ known(2)] known(1) show ?thesis by simp
  next
    case (new h nodes1)
    let ?k = "resolve_name r name"
    note inner = 2(2) [OF refl _ new(2) new(3) [unfolded visit_deps_def], folded visit_deps_def]
    note outer = 2(3) [OF refl _ new(2) new(3) [unfolded visit_deps_def] new(4)]
    have mono: "set (bt_keys nodes1) \<subseteq> set (bt_keys nodes')" by (rule collect_deps_keys [OF new(4)])
    have k: "?k \<in> set (bt_keys nodes1)" using collect_deps_keys [OF new(3)] by (auto simp: bt_keys_insert_set)
    have closed: "resolve_name r d \<in> set (bt_keys nodes')"
      if "x \<in> set (bt_keys nodes') - set (bt_keys nodes)" "best_candidate r x = Some hx" "d \<in> set (visit_deps r hx)" for x hx d
    proof -
      consider "x = ?k" | "x \<notin> set (bt_keys nodes1)" | "x \<in> set (bt_keys nodes1)" "x \<noteq> ?k" by blast
      then show ?thesis
      proof cases
        case 1
        with that new have "hx = h" by simp
        with that inner new mono show ?thesis by auto
      next
        case 2
        with that outer new show ?thesis by auto
      next
        case 3
        with that inner new mono show ?thesis by (auto simp: bt_keys_insert_set)
      qed
    qed
    with outer new k mono show ?thesis by auto
  qed
qed simp

lemma collect_deps_error:
  "collect_deps r names nodes = Inl e \<Longrightarrow> e = NotFound \<and> (\<exists>p\<in>needed r names. best_candidate r p = None)"
proof (induction r names nodes rule: collect_deps.induct)
  case (2 r name names nodes)
  let ?k = "resolve_name r name"
  have here: "?k \<in> needed r (name # names)" by (simp add: needed.asked)
  from "2.prems" consider
    (known) "bt_get nodes ?k \<noteq> None" "collect_deps r names nodes = Inl e"
  | (absent) "best_candidate r ?k = None" "e = NotFound"
  | (inner) h where "bt_get nodes ?k = None" "best_candidate r ?k = Some h"
      "collect_deps r (visit_deps r h) (bt_insert ?k (dep_node r ?k h) nodes) = Inl e"
  | (outer) h nodes1 where "bt_get nodes ?k = None" "best_candidate r ?k = Some h"
      "collect_deps r (visit_deps r h) (bt_insert ?k (dep_node r ?k h) nodes) = Inr nodes1"
      "collect_deps r names nodes1 = Inl e"
    by (auto simp: collect_deps.simps(2) visit_deps_def Let_def split: if_splits option.splits sum.splits)
  then show ?case
  proof cases
    case known
    with 2(1) [OF refl] show ?thesis by (auto intro: needed_tail)
  next
    case absent
    with here show ?thesis by auto
  next
    case inner
    with 2(2) [OF refl _ inner(2)] show ?thesis by (auto simp: visit_deps_def [symmetric] dest: needed_new)
  next
    case outer
    with 2(3) [OF refl _ outer(2)] show ?thesis by (auto simp: visit_deps_def [symmetric] intro: needed_tail)
  qed
qed simp

section \<open>The order is topological\<close>

definition dep_of :: "TopoState \<Rightarrow> str \<Rightarrow> str list option" where
  "dep_of st n = map_option deps (bt_get (topo_nodes st) n)"

abbreviation done_nodes :: "TopoState \<Rightarrow> str set" where
  "done_nodes \<equiv> nodes_where visited"

abbreviation stack_nodes :: "TopoState \<Rightarrow> str set" where
  "stack_nodes \<equiv> nodes_where in_stack"

definition topo_ok :: "TopoState \<Rightarrow> bool" where
  "topo_ok st \<longleftrightarrow> distinct (result st) \<and> set (result st) = done_nodes st \<and> done_nodes st \<inter> stack_nodes st = {}
     \<and> (\<forall>xs p ys ds d. result st = xs @ p # ys \<longrightarrow> dep_of st p = Some ds \<longrightarrow> d \<in> set ds \<longrightarrow> dep_of st d \<noteq> None
          \<longrightarrow> d \<in> set xs)"

lemma enter_node_sets:
  assumes "bt_get (topo_nodes st) name = Some v" and "\<not> visited v" and "\<not> in_stack v"
  shows "dep_of (enter_node name st) = dep_of st" and "result (enter_node name st) = result st"
    and "done_nodes (enter_node name st) = done_nodes st"
    and "stack_nodes (enter_node name st) = insert name (stack_nodes st)" and "name \<notin> done_nodes st"
    and "name \<notin> stack_nodes st"
  using assms
  by (auto simp: enter_node_def dep_of_def nodes_where_def bt_get_modify fun_eq_iff split: if_splits option.splits)

lemma finish_node_sets:
  assumes "dep_of st name \<noteq> None"
  shows "dep_of (finish_node name st) = dep_of st" and "result (finish_node name st) = result st @ [name]"
    and "done_nodes (finish_node name st) = insert name (done_nodes st)"
    and "stack_nodes (finish_node name st) = stack_nodes st - {name}"
  using assms
  by (auto simp: finish_node_def dep_of_def nodes_where_def bt_get_modify fun_eq_iff split: if_splits option.splits)

lemma finish_node_ok:
  assumes "topo_ok st" and "dep_of st name = Some ds" and "name \<in> stack_nodes st"
    and "\<forall>d\<in>set ds. dep_of st d \<noteq> None \<longrightarrow> d \<in> done_nodes st"
  shows "topo_ok (finish_node name st)"
proof -
  have some: "dep_of st name \<noteq> None" using assms(2) by simp
  note sets = finish_node_sets [OF some]
  have new: "name \<notin> done_nodes st" using assms(1,3) by (auto simp: topo_ok_def)
  have "d \<in> set xs" if "result st @ [name] = xs @ p # ys" "dep_of st p = Some es" "d \<in> set es" "dep_of st d \<noteq> None"
    for xs p ys es d
  proof (cases ys rule: rev_cases)
    case Nil
    with that(1) have "xs = result st" "p = name" by simp_all
    with that assms(1,2,4) show ?thesis by (auto simp: topo_ok_def)
  next
    case (snoc zs z)
    with that(1) have "result st = xs @ p # zs" by simp
    with that(2-4) assms(1) show ?thesis unfolding topo_ok_def by blast
  qed
  moreover have "distinct (result st @ [name])" using assms(1) new by (auto simp: topo_ok_def)
  ultimately show ?thesis
    using assms(1) unfolding topo_ok_def sets by auto
qed

lemmas topo_cases [consumes 1, case_names skip enter] = topo_step [OF spec [OF topo_visit_total]]

lemma topo_visit_ok:
  "topo_visit names st = Inr st' \<Longrightarrow> topo_ok st \<Longrightarrow>
     topo_ok st' \<and> dep_of st' = dep_of st \<and> stack_nodes st' = stack_nodes st \<and> done_nodes st \<subseteq> done_nodes st'
     \<and> (\<forall>n\<in>set names. dep_of st n \<noteq> None \<longrightarrow> n \<in> done_nodes st')"
proof (induction names st arbitrary: st' rule: topo_visit.induct)
  case (2 name names st)
  from "2.prems"(1) show ?case
  proof (cases rule: topo_cases)
    case skip
    from skip(1) have "dep_of st name \<noteq> None \<longrightarrow> name \<in> done_nodes st"
      by (auto simp: dep_of_def nodes_where_def)
    with skip 2(1,2) "2.prems"(2) show ?thesis by fastforce
  next
    case (enter v st1)
    note sets = enter_node_sets [OF enter(1-3)]
    have "topo_ok (enter_node name st)" using "2.prems"(2) sets by (auto simp: topo_ok_def)
    from 2(3) [OF enter(1) enter(3,2) enter(4) this] have
      ok1: "topo_ok st1" and dep1: "dep_of st1 = dep_of st" and stack1: "stack_nodes st1 = insert name (stack_nodes st)"
      and done1: "done_nodes st \<subseteq> done_nodes st1" "\<forall>d\<in>set (deps v). dep_of st d \<noteq> None \<longrightarrow> d \<in> done_nodes st1"
      by (auto simp: sets)
    have v: "dep_of st1 name = Some (deps v)" using enter(1) by (simp add: dep1 dep_of_def)
    then have some: "dep_of st1 name \<noteq> None" by simp
    note fin = finish_node_sets [OF some]
    have "topo_ok (finish_node name st1)"
      by (rule finish_node_ok [OF ok1 v]) (use stack1 done1 in \<open>auto simp: dep1\<close>)
    from 2(4) [OF enter(1) enter(3,2) enter(4,5) this] show ?thesis
      using stack1 done1 sets(6) by (auto simp: fin dep1)
  qed
qed simp

definition edges :: "TopoState \<Rightarrow> (str \<times> str) set" where
  "edges st = {(p, d). \<exists>ds. dep_of st p = Some ds \<and> d \<in> set ds}"

lemma topo_visit_cycle:
  "topo_visit names st = Inl e \<Longrightarrow> topo_ok st \<Longrightarrow> (\<forall>x\<in>stack_nodes st. \<forall>n\<in>set names. (x, n) \<in> (edges st)\<^sup>+) \<Longrightarrow>
     e = CyclicDependency \<and> (\<exists>x. (x, x) \<in> (edges st)\<^sup>+)"
proof (induction names st rule: topo_visit.induct)
  case (2 name names st)
  from "2.prems"(1) consider
    (skip) "bt_get (topo_nodes st) name = None \<or> (\<exists>v. bt_get (topo_nodes st) name = Some v \<and> visited v \<and> \<not> in_stack v)"
      "topo_visit names st = Inl e"
  | (cycle) v where "bt_get (topo_nodes st) name = Some v" "in_stack v" "e = CyclicDependency"
  | (inner) v where "bt_get (topo_nodes st) name = Some v" "\<not> visited v" "\<not> in_stack v"
      "topo_visit (deps v) (enter_node name st) = Inl e"
  | (outer) v st1 where "bt_get (topo_nodes st) name = Some v" "\<not> visited v" "\<not> in_stack v"
      "topo_visit (deps v) (enter_node name st) = Inr st1" "topo_visit names (finish_node name st1) = Inl e"
    by (auto simp: topo_visit.simps(2) split: if_splits option.splits sum.splits)
  then show ?case
  proof cases
    case skip
    with 2(1,2) "2.prems"(2,3) show ?thesis by fastforce
  next
    case cycle
    then have "name \<in> stack_nodes st" by (simp add: nodes_where_def)
    with "2.prems"(3) cycle(3) show ?thesis by auto
  next
    case inner
    note sets = enter_node_sets [OF inner(1-3)]
    have ok: "topo_ok (enter_node name st)" using "2.prems"(2) sets by (auto simp: topo_ok_def)
    have E: "edges (enter_node name st) = edges st" by (simp add: edges_def sets)
    have "(name, d) \<in> edges st" if "d \<in> set (deps v)" for d
      using that inner(1) by (auto simp: edges_def dep_of_def)
    then have "\<forall>x\<in>stack_nodes (enter_node name st). \<forall>d\<in>set (deps v). (x, d) \<in> (edges st)\<^sup>+"
      using "2.prems"(3) by (auto simp: sets intro: trancl_into_trancl)
    with 2(3) [OF inner(1) inner(3,2) inner(4) ok] show ?thesis by (simp add: E)
  next
    case outer
    note sets = enter_node_sets [OF outer(1-3)]
    have "topo_ok (enter_node name st)" using "2.prems"(2) sets by (auto simp: topo_ok_def)
    note ok1 = topo_visit_ok [OF outer(4) this]
    have v: "dep_of st1 name = Some (deps v)" using ok1 outer(1) by (simp add: sets dep_of_def)
    then have some: "dep_of st1 name \<noteq> None" by simp
    note fin = finish_node_sets [OF some]
    have ok2: "topo_ok (finish_node name st1)"
      by (rule finish_node_ok [OF _ v]) (use ok1 in \<open>auto simp: sets\<close>)
    have E: "edges (finish_node name st1) = edges st" using ok1 by (simp add: edges_def fin sets)
    have S: "stack_nodes (finish_node name st1) = stack_nodes st" using ok1 sets(6) by (auto simp: fin sets)
    from 2(4) [OF outer(1) outer(3,2) outer(4,5) ok2] "2.prems"(3) show ?thesis by (simp add: E S)
  qed
qed simp

section \<open>Resolvers in use\<close>

inductive resolver_step :: "DependencyResolver \<Rightarrow> DependencyResolver \<Rightarrow> bool" where
  offer: "resolver_step r (add_available h r)"
| install: "resolver_step r (register_installed pkg r)"

text \<open>A virtual name stands for an installed package.\<close>

definition resolver_ok :: "DependencyResolver \<Rightarrow> bool" where
  "resolver_ok r \<longleftrightarrow> (\<forall>n p. bt_get (virtual_packages r) n = Some p \<longrightarrow> bt_get (installed r) p \<noteq> None)"

lemma bt_get_provide:
  "bt_get (fold (\<lambda>n m. bt_insert n p m) ns m) k = (if k \<in> set ns then Some p else bt_get m k)"
  by (induction ns arbitrary: m) auto

interpretation resolver: inductive_invariant "\<lambda>r. r = resolver_new" resolver_step resolver_ok
proof
  show "resolver_ok r" if "r = resolver_new" for r
    using that by (simp add: resolver_ok_def resolver_new_def)
  show "resolver_ok r'" if "resolver_step r r'" and "resolver_ok r" for r r'
    using that by cases
      (auto simp: resolver_ok_def add_available_def register_installed_def bt_get_provide Let_def split: if_splits)
qed

lemma not_installed_real:
  assumes "resolver_ok r" and "d \<in> set (dep_names r h)" and "bt_get (installed r) d = None"
  shows "resolve_name r d = d" and "d \<in> set (visit_deps r h)"
proof -
  from assms(2) obtain n where n: "d = resolve_name r n" by (auto simp: dep_names_def)
  have "bt_get (virtual_packages r) n = None"
  proof (rule ccontr)
    assume "bt_get (virtual_packages r) n \<noteq> None"
    then have "bt_get (virtual_packages r) n = Some d" using n by (auto simp: resolve_name_def)
    with assms(1) have "bt_get (installed r) d \<noteq> None" unfolding resolver_ok_def by blast
    with assms(3) show False by simp
  qed
  with n show "resolve_name r d = d" by (simp add: resolve_name_def)
  show "d \<in> set (visit_deps r h)" using assms(2,3) by (simp add: visit_deps_def)
qed

definition depends :: "DependencyResolver \<Rightarrow> str list \<Rightarrow> (str \<times> str) set" where
  "depends r names = {(p, d). p \<in> needed r names \<and> (\<exists>h. best_candidate r p = Some h \<and> d \<in> set (dep_names r h))}"

text \<open>The two searches of an installation, put together.\<close>

lemma collected:
  assumes "collect_deps r names bt_empty = Inr nodes"
  shows "set (bt_keys nodes) = needed r names"
    and "bt_get nodes p = Some v \<Longrightarrow> \<exists>h. best_candidate r p = Some h \<and> v = dep_node r p h"
proof -
  have snd: "p \<in> needed r names \<and> node_of r p v" if "bt_get nodes p = Some v" for p v
    using collect_deps_sound [OF assms that] by simp
  then show "bt_get nodes p = Some v \<Longrightarrow> \<exists>h. best_candidate r p = Some h \<and> v = dep_node r p h"
    by (simp add: node_of_def)
  have "p \<in> set (bt_keys nodes)" if "p \<in> needed r names" for p
    using that
  proof induction
    case (asked n)
    then show ?case using collect_deps_complete [OF assms] by simp
  next
    case (dep p h d)
    then show ?case using collect_deps_complete [OF assms] by (auto simp: bt_keys_def bt_empty_def)
  qed
  moreover have "p \<in> needed r names" if "p \<in> set (bt_keys nodes)" for p
    using that bt_get_keys [of nodes p] snd by auto
  ultimately show "set (bt_keys nodes) = needed r names" by auto
qed

definition topo_start :: "nodes \<Rightarrow> TopoState" where
  "topo_start nodes = \<lparr>topo_nodes = nodes, result = [], counter = 0\<rparr>"

lemma topo_start:
  assumes "collect_deps r names bt_empty = Inr nodes"
  shows "topo_ok (topo_start nodes)" and "stack_nodes (topo_start nodes) = {}"
    and "dep_of (topo_start nodes) p =
      (if p \<in> needed r names then map_option (dep_names r) (best_candidate r p) else None)"
    and "p \<in> needed r names \<Longrightarrow> best_candidate r p \<noteq> None"
    and "edges (topo_start nodes) = depends r names"
proof -
  note c = collected [OF assms]
  show "stack_nodes (topo_start nodes) = {}"
    by (auto simp: nodes_where_def topo_start_def dep_node_def dest!: c(2))
  moreover have "done_nodes (topo_start nodes) = {}"
    by (auto simp: nodes_where_def topo_start_def dep_node_def dest!: c(2))
  ultimately show "topo_ok (topo_start nodes)" by (simp add: topo_ok_def topo_start_def)
  show dep: "dep_of (topo_start nodes) p =
      (if p \<in> needed r names then map_option (dep_names r) (best_candidate r p) else None)" for p
  proof (cases "bt_get nodes p")
    case None
    then show ?thesis using c(1) bt_get_keys [of nodes p] by (simp add: dep_of_def topo_start_def)
  next
    case (Some v)
    with c(2) obtain h where "best_candidate r p = Some h" "v = dep_node r p h" by blast
    moreover have "p \<in> needed r names" using c(1) bt_get_keys [of nodes p] Some by simp
    ultimately show ?thesis by (simp add: dep_of_def topo_start_def Some dep_node_def)
  qed
  show "best_candidate r p \<noteq> None" if "p \<in> needed r names"
    using that c(1) bt_get_keys [of nodes p] by (auto dest!: c(2))
  show "edges (topo_start nodes) = depends r names"
    by (auto simp: edges_def depends_def dep split: if_splits)
qed

section \<open>Properties\<close>

text \<open>
  C11. Installing in the computed order is safe. For every resolver the update manager can
  build and every list of requested names, \<^verbatim>\<open>compute_install_order\<close> returns. A result lists
  exactly the packages the request needs, each once, and every dependency of a package is
  installed already or comes before it; an error is a needed name without a candidate, or a
  cycle of dependencies.
\<close>

theorem install_order_topological:
  assumes "rtranclp resolver_step resolver_new r"
  shows "case compute_install_order r names of
      Inr ord \<Rightarrow> distinct ord \<and> set ord = needed r names
        \<and> (\<forall>xs p ys h d. ord = xs @ p # ys \<and> best_candidate r p = Some h \<and> d \<in> set (dep_names r h)
             \<longrightarrow> bt_get (installed r) d \<noteq> None \<or> d \<in> set xs)
    | Inl e \<Rightarrow> e = NotFound \<and> (\<exists>p\<in>needed r names. best_candidate r p = None)
        \<or> e = CyclicDependency \<and> (\<exists>p. (p, p) \<in> (depends r names)\<^sup>+)"
proof (cases "collect_deps r names bt_empty")
  case (Inl e)
  then show ?thesis using collect_deps_error [OF Inl] by (simp add: compute_install_order_def)
next
  case nodes: (Inr nodes)
  note start = topo_start [OF nodes]
  have run: "compute_install_order r names =
      (case topo_visit (bt_keys nodes) (topo_start nodes) of Inl e \<Rightarrow> Inl e | Inr st \<Rightarrow> Inr (result st))"
    by (simp add: compute_install_order_def nodes topo_start_def)
  show ?thesis
  proof (cases "topo_visit (bt_keys nodes) (topo_start nodes)")
    case (Inl e)
    from topo_visit_cycle [OF Inl start(1)] show ?thesis by (simp add: run Inl start(2,5))
  next
    case (Inr st)
    note ok = topo_visit_ok [OF Inr start(1)]
    have dep_st: "dep_of st p = (if p \<in> needed r names then map_option (dep_names r) (best_candidate r p) else None)" for p
      using ok by (simp add: start(3))
    have "done_nodes st \<subseteq> needed r names"
      using dep_st by (force simp: nodes_where_def dep_of_def split: if_splits)
    moreover have "needed r names \<subseteq> done_nodes st"
      using ok collected(1) [OF nodes] start(3,4) by auto
    ultimately have set_ord: "set (result st) = needed r names" using ok by (auto simp: topo_ok_def)
    have before: "bt_get (installed r) d \<noteq> None \<or> d \<in> set xs"
      if split: "result st = xs @ p # ys" and h: "best_candidate r p = Some h" and d: "d \<in> set (dep_names r h)" for xs p ys h d
    proof (rule disjCI)
      assume "\<not> d \<in> set xs"
      have p: "p \<in> needed r names" using set_ord split by auto
      then have "dep_of st p = Some (dep_names r h)" by (simp add: dep_st h)
      with ok split d \<open>\<not> d \<in> set xs\<close> have out: "dep_of st d = None" unfolding topo_ok_def by blast
      show "bt_get (installed r) d \<noteq> None"
      proof
        assume "bt_get (installed r) d = None"
        note real = not_installed_real [OF resolver.reachable_inv [OF refl assms] d this]
        from needed.dep [OF p h real(2)] real(1) have "d \<in> needed r names" by simp
        with out start(4) show False by (simp add: dep_st)
      qed
    qed
    show ?thesis using ok set_ord before by (auto simp: run Inr topo_ok_def)
  qed
qed

definition wit_header :: "string \<Rightarrow> string list \<Rightarrow> PackageHeader" where
  "wit_header name ds =
     \<lparr>pkg_id = 0, pkg_name = lit name, pkg_version = version_new 1 0 0, arch = AnyArch, description = [],
      dependencies = map (\<lambda>d. \<lparr>dep_package_name = lit d, constraint = AnyVersion\<rparr>) ds, conflicts = [], provides = [],
      replaces = [], suggests = [], recommends = [], installed_size = 0, download_size = 0, pkg_sha256 = [],
      pkg_sha512 = [], gpg_signature = [], compression = NoCompression, pre_install_script = None,
      post_install_script = None, pre_remove_script = None, post_remove_script = None, repo_id = 0, source_url = []\<rparr>"

definition wit_installed :: "bool \<Rightarrow> PackageHeader \<Rightarrow> InstalledPackage" where
  "wit_installed auto h =
     \<lparr>header = h, pkg_state = Installed, install_path = [], installed_at = 0, updated_at = 0, auto_installed = auto,
      config_files = [], installed_files = []\<rparr>"

definition wit_used :: DependencyResolver where
  "wit_used = register_installed (wit_installed True (wit_header ''c'' []))
     (register_installed (wit_installed True (wit_header ''b'' [''c'']))
       (register_installed (wit_installed False (wit_header ''a'' [''b''])) resolver_new))"

text \<open>
  \<^verbatim>\<open>find_unused\<close> looks one level deep: a package installed for a dependency of a
  dependency is reported as unused although an installed package that is itself in use
  depends on it.
\<close>

theorem find_unused_breaks_dependency:
  "\<exists>r pkg d. rtranclp resolver_step resolver_new r \<and> bt_get (installed r) (pkg_name (header pkg)) = Some pkg
     \<and> pkg_name (header pkg) \<notin> set (find_unused r) \<and> d \<in> set (dependencies (header pkg)) \<and> is_satisfied r d
     \<and> resolve_name r (dep_package_name d) \<in> set (find_unused r)"
proof -
  let ?pkg = "wit_installed True (wit_header ''b'' [''c''])"
  let ?d = "\<lparr>dep_package_name = lit ''c'', constraint = AnyVersion\<rparr>"
  have "rtranclp resolver_step resolver_new wit_used"
    unfolding wit_used_def by (meson resolver_step.install rtranclp.rtrancl_into_rtrancl rtranclp.rtrancl_refl)
  moreover have "bt_get (installed wit_used) (pkg_name (header ?pkg)) = Some ?pkg"
    "pkg_name (header ?pkg) \<notin> set (find_unused wit_used)" "?d \<in> set (dependencies (header ?pkg))"
    "is_satisfied wit_used ?d" "resolve_name wit_used (dep_package_name ?d) \<in> set (find_unused wit_used)"
    by code_simp+
  ultimately show ?thesis by blast
qed

section \<open>Witnesses\<close>

definition wit_offered :: DependencyResolver where
  "wit_offered = add_available (wit_header ''a'' [''b'']) (add_available (wit_header ''b'' []) resolver_new)"

theorem install_order_topological_witness:
  "compute_install_order wit_offered [lit ''a''] = Inr [lit ''b'', lit ''a''] \<and> needed wit_offered [lit ''a''] = {lit ''b'', lit ''a''}"
proof -
  have "rtranclp resolver_step resolver_new wit_offered"
    unfolding wit_offered_def by (meson resolver_step.offer rtranclp.rtrancl_into_rtrancl rtranclp.rtrancl_refl)
  note all = install_order_topological [OF this, of "[lit ''a'']"]
  have "compute_install_order wit_offered [lit ''a''] = Inr [lit ''b'', lit ''a'']" by code_simp
  with all show ?thesis by simp
qed

end
