(* ===== verification/Update_Manager.thy ===== *)
theory Update_Manager
  imports Update_Txn Update_Resolve Shield_Audit
begin

text \<open>
  The update manager of \<^verbatim>\<open>components/athupdate/src/lib.rs\<close> around the resolver and the
  transactional core: repositories, transactions and their log, downloads, the installation
  engine, snapshots, the two partitions, the automatic-update policy, notifications, kernels,
  delta packages, system upgrades and the manager that owns them. An \<^verbatim>\<open>i64\<close> is a word, read with
  its sign. The search for a chain of deltas can run for ever, so it is a partial function.
\<close>

section \<open>Repositories\<close>

datatype RepoType = Official | Community | ThirdParty | Local

record Repository =
  r_id :: u32
  r_name :: str
  r_url :: str
  repo_type :: RepoType
  gpg_key_fingerprint :: "u8 list"
  priority :: u32
  r_enabled :: bool
  last_refreshed :: u64
  package_count :: u64

definition repository_new :: "u32 \<Rightarrow> str \<Rightarrow> str \<Rightarrow> RepoType \<Rightarrow> Repository" where
  "repository_new i name url t =
     \<lparr>r_id = i, r_name = name, r_url = url, repo_type = t, gpg_key_fingerprint = replicate 20 0, priority = 100,
      r_enabled = True, last_refreshed = 0, package_count = 0\<rparr>"

record RepoManager =
  repos :: "(u32, Repository) btree"
  repo_next_id :: u32

definition repos_new :: RepoManager where
  "repos_new = \<lparr>repos = bt_empty, repo_next_id = 1\<rparr>"

definition add_repo :: "str \<Rightarrow> str \<Rightarrow> RepoType \<Rightarrow> RepoManager \<Rightarrow> u32 \<times> RepoManager" where
  "add_repo name url t m =
     (let i = repo_next_id m;
          m = m\<lparr>repo_next_id := repo_next_id m + 1\<rparr>
      in (i, m\<lparr>repos := bt_insert i (repository_new i name url t) (repos m)\<rparr>))"

definition remove_repo :: "u32 \<Rightarrow> RepoManager \<Rightarrow> bool \<times> RepoManager" where
  "remove_repo i m = (bt_get (repos m) i \<noteq> None, m\<lparr>repos := bt_remove i (repos m)\<rparr>)"

definition modify_repo :: "u32 \<Rightarrow> (Repository \<Rightarrow> Repository) \<Rightarrow> RepoManager \<Rightarrow> bool \<times> RepoManager" where
  "modify_repo i f m = (bt_get (repos m) i \<noteq> None, m\<lparr>repos := bt_modify i f (repos m)\<rparr>)"

definition enable_repo :: "u32 \<Rightarrow> RepoManager \<Rightarrow> bool \<times> RepoManager" where
  "enable_repo i m = modify_repo i (\<lambda>r. r\<lparr>r_enabled := True\<rparr>) m"

definition disable_repo :: "u32 \<Rightarrow> RepoManager \<Rightarrow> bool \<times> RepoManager" where
  "disable_repo i m = modify_repo i (\<lambda>r. r\<lparr>r_enabled := False\<rparr>) m"

definition set_priority :: "u32 \<Rightarrow> u32 \<Rightarrow> RepoManager \<Rightarrow> bool \<times> RepoManager" where
  "set_priority i p m = modify_repo i (\<lambda>r. r\<lparr>priority := p\<rparr>) m"

definition set_gpg_key :: "u32 \<Rightarrow> u8 list \<Rightarrow> RepoManager \<Rightarrow> bool \<times> RepoManager" where
  "set_gpg_key i fp m = modify_repo i (\<lambda>r. r\<lparr>gpg_key_fingerprint := fp\<rparr>) m"

definition enabled_repos :: "RepoManager \<Rightarrow> Repository list" where
  "enabled_repos m = sort_key priority (filter r_enabled (map snd (repos m)))"

definition mark_refreshed :: "u32 \<Rightarrow> u64 \<Rightarrow> u64 \<Rightarrow> RepoManager \<Rightarrow> RepoManager" where
  "mark_refreshed i now n m = snd (modify_repo i (\<lambda>r. r\<lparr>last_refreshed := now, package_count := n\<rparr>) m)"

section \<open>Delta packages\<close>

record DeltaPackage =
  d_from_version :: Version
  d_to_version :: Version
  d_package_name :: str
  delta_size :: u64
  full_size :: u64
  d_sha256 :: "u8 list"
  patch_data :: "u8 list"

definition savings_percent :: "DeltaPackage \<Rightarrow> u8" where
  "savings_percent d =
     (if full_size d = 0 then 0
      else word_of_nat (unat (saturating_sub (full_size d) (delta_size d)) * 100 div unat (full_size d)))"

record DeltaEngine =
  available_deltas :: "DeltaPackage list"
  min_savings_percent :: u8

definition delta_engine_new :: DeltaEngine where
  "delta_engine_new = \<lparr>available_deltas = [], min_savings_percent = 20\<rparr>"

definition add_delta :: "DeltaPackage \<Rightarrow> DeltaEngine \<Rightarrow> DeltaEngine" where
  "add_delta d e = e\<lparr>available_deltas := available_deltas e @ [d]\<rparr>"

definition find_delta :: "str \<Rightarrow> Version \<Rightarrow> Version \<Rightarrow> DeltaEngine \<Rightarrow> DeltaPackage option" where
  "find_delta package from to e =
     List.find (\<lambda>d. d_package_name d = package \<and> d_from_version d = from \<and> d_to_version d = to
                  \<and> savings_percent d \<ge> min_savings_percent e) (available_deltas e)"

definition next_delta :: "DeltaEngine \<Rightarrow> str \<Rightarrow> Version \<Rightarrow> Version \<Rightarrow> DeltaPackage option" where
  "next_delta e package current to =
     max_by (\<lambda>a b. version_cmp (d_to_version a) (d_to_version b))
       (filter (\<lambda>d. d_package_name d = package \<and> d_from_version d = current \<and> d_to_version d \<le> to)
         (available_deltas e))"

text \<open>The loop of \<^verbatim>\<open>best_delta_chain\<close>, which returns the version it stopped at and the chain.\<close>

partial_function (option) delta_chain_loop ::
  "DeltaEngine \<Rightarrow> str \<Rightarrow> Version \<Rightarrow> Version \<Rightarrow> DeltaPackage list \<Rightarrow> (Version \<times> DeltaPackage list) option" where
  "delta_chain_loop e package to current chain =
     (if current < to then
        (case next_delta e package current to of
           Some d \<Rightarrow> delta_chain_loop e package to (d_to_version d) (chain @ [d])
         | None \<Rightarrow> Some (current, chain))
      else Some (current, chain))"

definition best_delta_chain :: "str \<Rightarrow> Version \<Rightarrow> Version \<Rightarrow> DeltaEngine \<Rightarrow> DeltaPackage list option" where
  "best_delta_chain package from to e =
     map_option (\<lambda>(current, chain). if current = to then chain else []) (delta_chain_loop e package to from [])"

definition apply_patch :: "sha256_fn \<Rightarrow> u8 list \<Rightarrow> DeltaPackage \<Rightarrow> UpdateError + u8 list" where
  "apply_patch sha256 base_data d =
     (if patch_data d = [] then Inl CorruptedPackage
      else case deserialize_delta (patch_data d) of
          None \<Rightarrow> Inl CorruptedPackage
        | Some ops \<Rightarrow>
            (case apply_delta base_data ops of
               Inl _ \<Rightarrow> Inl CorruptedPackage
             | Inr new_image \<Rightarrow>
                 if sha256 new_image \<noteq> d_sha256 d then Inl ChecksumMismatch else Inr new_image))"

definition total_savings :: "DeltaEngine \<Rightarrow> u64" where
  "total_savings e = sum_list (map (\<lambda>d. saturating_sub (full_size d) (delta_size d)) (available_deltas e))"

section \<open>Transactions\<close>

datatype TransactionOp = Install | Upgrade | Downgrade | Remove | Reinstall | AutoRemove

record TransactionStep =
  ts_op :: TransactionOp
  ts_package_name :: str
  ts_from_version :: "Version option"
  ts_to_version :: "Version option"
  ts_download_size :: u64
  installed_size_delta :: "64 word"

datatype TransactionState = Planning | Downloading | Applying | Completed | Failed | TxRolledBack

record Transaction =
  tx_id :: u64
  steps :: "TransactionStep list"
  tx_state :: TransactionState
  created :: u64
  started :: u64
  completed :: u64
  snapshot_id :: "u64 option"
  tx_error :: "UpdateError option"
  current_step :: usize

definition transaction_new :: "u64 \<Rightarrow> u64 \<Rightarrow> Transaction" where
  "transaction_new i now =
     \<lparr>tx_id = i, steps = [], tx_state = Planning, created = now, started = 0, completed = 0, snapshot_id = None,
      tx_error = None, current_step = 0\<rparr>"

definition add_step :: "TransactionStep \<Rightarrow> Transaction \<Rightarrow> Transaction" where
  "add_step s t = t\<lparr>steps := steps t @ [s]\<rparr>"

definition total_download_size :: "Transaction \<Rightarrow> u64" where
  "total_download_size t = sum_list (map ts_download_size (steps t))"

definition total_size_delta :: "Transaction \<Rightarrow> 64 word" where
  "total_size_delta t = sum_list (map installed_size_delta (steps t))"

definition step_count :: "Transaction \<Rightarrow> nat" where
  "step_count t = length (steps t)"

text \<open>
  Percentages: the transaction and the upgrade cast to \<^verbatim>\<open>u32\<close>, where the product wraps, the
  downloads to \<^verbatim>\<open>u128\<close>; all of them keep the low eight bits of the quotient.
\<close>

definition percent_u32 :: "nat \<Rightarrow> nat \<Rightarrow> u8 rust" where
  "percent_u32 n d =
     (let n = of_nat n :: u32; d = of_nat d :: u32 in
      if d = 0 then Panic else Ret (ucast (n * 100 div d)))"

definition percent_u128 :: "u64 \<Rightarrow> u64 \<Rightarrow> u8" where
  "percent_u128 n d = ucast ((ucast n :: 128 word) * 100 div ucast d)"

definition tx_progress_percent :: "Transaction \<Rightarrow> u8 rust" where
  "tx_progress_percent t =
     (if steps t = [] then Ret 100 else percent_u32 (unat (current_step t)) (length (steps t)))"

definition is_terminal :: "Transaction \<Rightarrow> bool" where
  "is_terminal t \<longleftrightarrow> tx_state t \<in> {Completed, Failed, TxRolledBack}"

definition advance :: "Transaction \<Rightarrow> bool \<times> Transaction" where
  "advance t =
     (if unat (current_step t) < length (steps t) then (True, t\<lparr>current_step := current_step t + 1\<rparr>)
      else (False, t))"

record TransactionLog =
  transactions :: "Transaction list"
  max_history :: nat

definition tlog_new :: "nat \<Rightarrow> TransactionLog" where
  "tlog_new n = \<lparr>transactions = [], max_history = n\<rparr>"

definition tlog_record :: "Transaction \<Rightarrow> TransactionLog \<Rightarrow> TransactionLog" where
  "tlog_record t l =
     (let l = l\<lparr>transactions := transactions l @ [t]\<rparr> in
      if length (transactions l) > max_history l then l\<lparr>transactions := tl (transactions l)\<rparr> else l)"

definition tlog_last_n :: "nat \<Rightarrow> TransactionLog \<Rightarrow> Transaction list" where
  "tlog_last_n n l = drop (length (transactions l) - n) (transactions l)"

definition tlog_find :: "u64 \<Rightarrow> TransactionLog \<Rightarrow> Transaction option" where
  "tlog_find i l = List.find (\<lambda>t. tx_id t = i) (transactions l)"

definition failed_transactions :: "TransactionLog \<Rightarrow> Transaction list" where
  "failed_transactions l = filter (\<lambda>t. tx_state t = Failed) (transactions l)"

text \<open>\<^verbatim>\<open>iter_mut().find(P)\<close> followed by a change of what was found.\<close>

fun modify_first :: "('a \<Rightarrow> bool) \<Rightarrow> ('a \<Rightarrow> 'a) \<Rightarrow> 'a list \<Rightarrow> 'a list" where
  "modify_first P f [] = []"
| "modify_first P f (x # xs) = (if P x then f x # xs else x # modify_first P f xs)"

section \<open>Downloads\<close>

datatype DownloadState = Queued | Active | Paused | DlCompleted | DlFailed | Verifying

record DownloadItem =
  dl_package_name :: str
  dl_url :: str
  mirror_urls :: "str list"
  total_bytes :: u64
  downloaded_bytes :: u64
  dl_state :: DownloadState
  sha256_expected :: "u8 list"
  sha512_expected :: "u8 list"
  sha256_computed :: "u8 list"
  retries :: u32
  max_retries :: u32
  current_mirror :: usize

definition dl_progress_percent :: "DownloadItem \<Rightarrow> u8" where
  "dl_progress_percent i =
     (if total_bytes i = 0 then 100 else percent_u128 (downloaded_bytes i) (total_bytes i))"

definition verify_checksum :: "DownloadItem \<Rightarrow> bool" where
  "verify_checksum i \<longleftrightarrow> sha256_computed i = sha256_expected i"

definition next_mirror :: "DownloadItem \<Rightarrow> bool \<times> DownloadItem" where
  "next_mirror i =
     (if unat (current_mirror i) + 1 < length (mirror_urls i)
      then (True, i\<lparr>current_mirror := current_mirror i + 1\<rparr>) else (False, i))"

definition can_retry :: "DownloadItem \<Rightarrow> bool" where
  "can_retry i \<longleftrightarrow> retries i < max_retries i"

record DownloadManager =
  queue :: "DownloadItem list"
  max_parallel :: nat
  total_downloaded :: u64

definition downloads_new :: "nat \<Rightarrow> DownloadManager" where
  "downloads_new n = \<lparr>queue = [], max_parallel = n, total_downloaded = 0\<rparr>"

definition enqueue ::
  "str \<Rightarrow> str \<Rightarrow> str list \<Rightarrow> u64 \<Rightarrow> u8 list \<Rightarrow> u8 list \<Rightarrow> DownloadManager \<Rightarrow> DownloadManager" where
  "enqueue name url mirrors size_bytes sha256 sha512 m =
     m\<lparr>queue := queue m @ [\<lparr>dl_package_name = name, dl_url = url, mirror_urls = mirrors, total_bytes = size_bytes,
         downloaded_bytes = 0, dl_state = Queued, sha256_expected = sha256, sha512_expected = sha512,
         sha256_computed = replicate 32 0, retries = 0, max_retries = 3, current_mirror = 0\<rparr>]\<rparr>"

definition active_count :: "DownloadManager \<Rightarrow> nat" where
  "active_count m = length (filter (\<lambda>d. dl_state d = Active) (queue m))"

definition start_next :: "DownloadManager \<Rightarrow> str option \<times> DownloadManager" where
  "start_next m =
     (if active_count m \<ge> max_parallel m then (None, m)
      else (map_option dl_package_name (List.find (\<lambda>d. dl_state d = Queued) (queue m)),
            m\<lparr>queue := modify_first (\<lambda>d. dl_state d = Queued) (\<lambda>d. d\<lparr>dl_state := Active\<rparr>) (queue m)\<rparr>))"

definition report_progress :: "str \<Rightarrow> u64 \<Rightarrow> DownloadManager \<Rightarrow> DownloadManager" where
  "report_progress name bytes m =
     m\<lparr>queue := modify_first (\<lambda>d. dl_package_name d = name) (\<lambda>d. d\<lparr>downloaded_bytes := bytes\<rparr>) (queue m)\<rparr>"

definition complete_download :: "str \<Rightarrow> u8 list \<Rightarrow> DownloadManager \<Rightarrow> (UpdateError + unit) \<times> DownloadManager" where
  "complete_download name computed m =
     (case List.find (\<lambda>d. dl_package_name d = name) (queue m) of
        None \<Rightarrow> (Inl NotFound, m)
      | Some item \<Rightarrow>
          let item = item\<lparr>sha256_computed := computed, dl_state := Verifying\<rparr> in
          if verify_checksum item then
            (Inr (), m\<lparr>queue := modify_first (\<lambda>d. dl_package_name d = name)
                         (\<lambda>_. item\<lparr>dl_state := DlCompleted\<rparr>) (queue m),
                       total_downloaded := total_downloaded m + total_bytes item\<rparr>)
          else
            (Inl ChecksumMismatch, m\<lparr>queue := modify_first (\<lambda>d. dl_package_name d = name)
                                       (\<lambda>_. item\<lparr>dl_state := DlFailed\<rparr>) (queue m)\<rparr>))"

definition retry_item :: "DownloadItem \<Rightarrow> DownloadItem" where
  "retry_item i =
     (snd (next_mirror (i\<lparr>retries := retries i + 1, downloaded_bytes := 0\<rparr>)))\<lparr>dl_state := Queued\<rparr>"

definition retry_failed :: "str \<Rightarrow> DownloadManager \<Rightarrow> bool \<times> DownloadManager" where
  "retry_failed name m =
     (let failed = (\<lambda>d. dl_package_name d = name \<and> dl_state d = DlFailed) in
      case List.find failed (queue m) of
        None \<Rightarrow> (False, m)
      | Some item \<Rightarrow>
          if can_retry item then (True, m\<lparr>queue := modify_first failed retry_item (queue m)\<rparr>)
          else (False, m))"

definition overall_progress :: "DownloadManager \<Rightarrow> u8" where
  "overall_progress m =
     (let total = sum_list (map total_bytes (queue m)); d = sum_list (map downloaded_bytes (queue m)) in
      if total = 0 then 100 else percent_u128 d total)"

definition pending_count :: "DownloadManager \<Rightarrow> nat" where
  "pending_count m = length (filter (\<lambda>d. dl_state d \<notin> {DlCompleted, DlFailed}) (queue m))"

section \<open>Installation engine\<close>

datatype ConfigPolicy = KeepOld | ReplaceWithNew | MergePreferOld | MergePreferNew | PromptUser

datatype HookPhase = PreInstall | PostInstall | PreRemove | PostRemove | PreUpgrade | PostUpgrade | Trigger

record HookResult =
  hook_phase :: HookPhase
  hook_package :: str
  exit_code :: "32 word"
  hook_output :: str
  hook_timestamp :: u64

record InstallEngine =
  config_policy :: ConfigPolicy
  hook_results :: "HookResult list"
  pending_triggers :: "str list"
  file_conflicts :: "(str \<times> str \<times> str) list"
  protected_paths :: "str list"

definition engine_new :: InstallEngine where
  "engine_new = \<lparr>config_policy = MergePreferOld, hook_results = [], pending_triggers = [], file_conflicts = [],
     protected_paths = []\<rparr>"

definition run_hook :: "HookPhase \<Rightarrow> str \<Rightarrow> str \<Rightarrow> u64 \<Rightarrow> InstallEngine \<Rightarrow> (UpdateError + unit) \<times> InstallEngine" where
  "run_hook phase package script now e =
     (let res = \<lparr>hook_phase = phase, hook_package = package, exit_code = 0, hook_output = [], hook_timestamp = now\<rparr>;
          success = (exit_code res = 0);
          e = e\<lparr>hook_results := hook_results e @ [res]\<rparr>
      in if success then (Inr (), e) else (Inl ScriptFailed, e))"

definition file_owners :: "str \<Rightarrow> str \<Rightarrow> (str, InstalledPackage) btree \<Rightarrow> str list" where
  "file_owners package f inst =
     map fst (filter (\<lambda>(other_name, other_pkg). other_name \<noteq> package \<and> f \<in> set (installed_files other_pkg)) inst)"

definition check_file_conflicts ::
  "str \<Rightarrow> str list \<Rightarrow> (str, InstalledPackage) btree \<Rightarrow> InstallEngine \<Rightarrow> str list \<times> InstallEngine" where
  "check_file_conflicts package files inst e =
     (concat (map (\<lambda>f. map (\<lambda>_. f) (file_owners package f inst)) files),
      e\<lparr>file_conflicts := file_conflicts e
          @ concat (map (\<lambda>f. map (\<lambda>other_name. (f, package, other_name)) (file_owners package f inst)) files)\<rparr>)"

definition handle_config_file :: "bool \<Rightarrow> bool \<Rightarrow> InstallEngine \<Rightarrow> ConfigPolicy" where
  "handle_config_file existing_modified new_differs e =
     (if \<not> existing_modified then ReplaceWithNew
      else if \<not> new_differs then KeepOld
      else config_policy e)"

definition add_trigger :: "str \<Rightarrow> InstallEngine \<Rightarrow> InstallEngine" where
  "add_trigger t e =
     (if t \<in> set (pending_triggers e) then e else e\<lparr>pending_triggers := pending_triggers e @ [t]\<rparr>)"

definition process_triggers :: "u64 \<Rightarrow> InstallEngine \<Rightarrow> HookResult list \<times> InstallEngine" where
  "process_triggers now e =
     (map (\<lambda>t. \<lparr>hook_phase = Trigger, hook_package = t, exit_code = 0, hook_output = [], hook_timestamp = now\<rparr>)
        (pending_triggers e),
      e\<lparr>pending_triggers := []\<rparr>)"

definition add_protected_path :: "str \<Rightarrow> InstallEngine \<Rightarrow> InstallEngine" where
  "add_protected_path p e =
     (if p \<in> set (protected_paths e) then e else e\<lparr>protected_paths := protected_paths e @ [p]\<rparr>)"

definition is_protected :: "str \<Rightarrow> InstallEngine \<Rightarrow> bool" where
  "is_protected path e = list_ex (\<lambda>p. str_strip_prefix p path \<noteq> None) (protected_paths e)"

definition last_hook_results :: "nat \<Rightarrow> InstallEngine \<Rightarrow> HookResult list" where
  "last_hook_results n e = drop (length (hook_results e) - n) (hook_results e)"

section \<open>Snapshots\<close>

record Snapshot =
  sn_id :: u64
  transaction_id :: u64
  sn_timestamp :: u64
  sn_description :: str
  package_states :: "(str, Version) btree"
  size_bytes :: u64
  sn_bootable :: bool

record SnapshotManager =
  snapshots :: "Snapshot list"
  max_snapshots :: nat
  sn_next_id :: u64

definition snapshots_new :: "nat \<Rightarrow> SnapshotManager" where
  "snapshots_new n = \<lparr>snapshots = [], max_snapshots = n, sn_next_id = 1\<rparr>"

definition create_snapshot ::
  "u64 \<Rightarrow> (str, InstalledPackage) btree \<Rightarrow> str \<Rightarrow> u64 \<Rightarrow> SnapshotManager \<Rightarrow> u64 \<times> SnapshotManager" where
  "create_snapshot txn inst desc now m =
     (let i = sn_next_id m;
          states = bt_map (\<lambda>pkg. pkg_version (header pkg)) inst;
          m = m\<lparr>sn_next_id := sn_next_id m + 1,
                snapshots := snapshots m @ [\<lparr>sn_id = i, transaction_id = txn, sn_timestamp = now, sn_description = desc,
                  package_states = states, size_bytes = 0, sn_bootable = True\<rparr>]\<rparr>;
          m = (if length (snapshots m) > max_snapshots m then m\<lparr>snapshots := tl (snapshots m)\<rparr> else m)
      in (i, m))"

definition get_snapshot :: "u64 \<Rightarrow> SnapshotManager \<Rightarrow> Snapshot option" where
  "get_snapshot i m = List.find (\<lambda>s. sn_id s = i) (snapshots m)"

definition latest :: "SnapshotManager \<Rightarrow> Snapshot option" where
  "latest m = (if snapshots m = [] then None else Some (last (snapshots m)))"

definition diff_packages :: "u64 \<Rightarrow> u64 \<Rightarrow> SnapshotManager \<Rightarrow> (str \<times> Version option \<times> Version option) list" where
  "diff_packages from to m =
     (case (get_snapshot from m, get_snapshot to m) of
        (Some f, Some t) \<Rightarrow>
          let from_pkgs = package_states f; to_pkgs = package_states t in
          concat (map (\<lambda>(name, from_ver).
            (case bt_get to_pkgs name of
               Some to_ver \<Rightarrow> if to_ver \<noteq> from_ver then [(name, Some from_ver, Some to_ver)] else []
             | None \<Rightarrow> [(name, Some from_ver, None)])) from_pkgs)
          @ map (\<lambda>(name, to_ver). (name, None, Some to_ver)) (filter (\<lambda>(name, _). bt_get from_pkgs name = None) to_pkgs)
      | _ \<Rightarrow> [])"

definition delete_snapshot :: "u64 \<Rightarrow> SnapshotManager \<Rightarrow> bool \<times> SnapshotManager" where
  "delete_snapshot i m =
     (let m' = m\<lparr>snapshots := filter (\<lambda>s. sn_id s \<noteq> i) (snapshots m)\<rparr>
      in (length (snapshots m') \<noteq> length (snapshots m), m'))"

section \<open>Partitions\<close>

record PartitionInfo =
  slot :: PartitionSlot
  pi_version :: Version
  bootable :: bool
  successful :: bool
  boot_count :: u32
  max_boot_retries :: u32
  last_updated :: u64

record AbPartitionManager =
  ab_active :: PartitionSlot
  slot_a :: PartitionInfo
  slot_b :: PartitionInfo
  update_in_progress :: bool

definition partitions_new :: AbPartitionManager where
  "partitions_new =
     (let v = version_new 0 0 1 in
      \<lparr>ab_active = A,
       slot_a = \<lparr>slot = A, pi_version = v, bootable = True, successful = True, boot_count = 0, max_boot_retries = 3,
         last_updated = 0\<rparr>,
       slot_b = \<lparr>slot = B, pi_version = v, bootable = False, successful = False, boot_count = 0, max_boot_retries = 3,
         last_updated = 0\<rparr>,
       update_in_progress = False\<rparr>)"

definition slot_info :: "PartitionSlot \<Rightarrow> AbPartitionManager \<Rightarrow> PartitionInfo" where
  "slot_info s m = (case s of A \<Rightarrow> slot_a m | B \<Rightarrow> slot_b m)"

definition modify_slot :: "PartitionSlot \<Rightarrow> (PartitionInfo \<Rightarrow> PartitionInfo) \<Rightarrow> AbPartitionManager \<Rightarrow> AbPartitionManager" where
  "modify_slot s f m = (case s of A \<Rightarrow> m\<lparr>slot_a := f (slot_a m)\<rparr> | B \<Rightarrow> m\<lparr>slot_b := f (slot_b m)\<rparr>)"

definition ab_active_slot :: "AbPartitionManager \<Rightarrow> PartitionInfo" where
  "ab_active_slot m = slot_info (ab_active m) m"

definition standby_slot :: "AbPartitionManager \<Rightarrow> PartitionInfo" where
  "standby_slot m = slot_info (other_slot (ab_active m)) m"

definition stage_update :: "Version \<Rightarrow> u64 \<Rightarrow> AbPartitionManager \<Rightarrow> (UpdateError + unit) \<times> AbPartitionManager" where
  "stage_update v now m =
     (if update_in_progress m then (Inl TransactionAborted, m)
      else (Inr (), (modify_slot (other_slot (ab_active m))
              (\<lambda>i. i\<lparr>pi_version := v, bootable := True, successful := False, boot_count := 0, last_updated := now\<rparr>) m)
              \<lparr>update_in_progress := True\<rparr>))"

definition ab_switch_active :: "AbPartitionManager \<Rightarrow> (UpdateError + unit) \<times> AbPartitionManager" where
  "ab_switch_active m =
     (if \<not> update_in_progress m then (Inl PartitionError, m)
      else (Inr (), m\<lparr>ab_active := other_slot (ab_active m), update_in_progress := False\<rparr>))"

definition ab_mark_successful :: "AbPartitionManager \<Rightarrow> AbPartitionManager" where
  "ab_mark_successful m = modify_slot (ab_active m) (\<lambda>i. i\<lparr>successful := True\<rparr>) m"

definition check_boot_fallback :: "AbPartitionManager \<Rightarrow> bool \<times> AbPartitionManager" where
  "check_boot_fallback m =
     (let m = modify_slot (ab_active m) (\<lambda>i. i\<lparr>boot_count := boot_count i + 1\<rparr>) m;
          active = slot_info (ab_active m) m
      in if \<not> successful active \<and> boot_count active > max_boot_retries active
         then (True, m\<lparr>ab_active := other_slot (ab_active m)\<rparr>) else (False, m))"

definition ab_rollback :: "AbPartitionManager \<Rightarrow> (UpdateError + unit) \<times> AbPartitionManager" where
  "ab_rollback m =
     (let other_info = slot_info (other_slot (ab_active m)) m in
      if \<not> bootable other_info \<or> \<not> successful other_info then (Inl RollbackFailed, m)
      else (Inr (), m\<lparr>ab_active := other_slot (ab_active m)\<rparr>))"

section \<open>Automatic updates and notifications\<close>

datatype UpdateChannel = Stable | Beta | Nightly

fun channel_rank :: "UpdateChannel \<Rightarrow> nat" where
  "channel_rank Stable = 0"
| "channel_rank Beta = 1"
| "channel_rank Nightly = 2"

definition accepts :: "UpdateChannel \<Rightarrow> UpdateChannel \<Rightarrow> bool" where
  "accepts self update \<longleftrightarrow> channel_rank update \<le> channel_rank self"

datatype AutoUpdatePolicy = Disabled | SecurityOnly | AllUpdates

datatype UpdateSeverity = SevCritical | SevSecurity | SevImportant | SevNormal | SevOptional

record AutoUpdateConfig =
  policy :: AutoUpdatePolicy
  check_interval_hours :: u32
  install_hour :: u8
  install_day :: "u8 option"
  allow_metered :: bool
  min_battery_percent :: u8
  auto_reboot :: bool
  reboot_delay_minutes :: u32
  defer_count :: u32
  max_defer :: u32
  channel :: UpdateChannel

definition auto_default_config :: AutoUpdateConfig where
  "auto_default_config = \<lparr>policy = SecurityOnly, check_interval_hours = 12, install_hour = 3, install_day = None,
     allow_metered = False, min_battery_percent = 30, auto_reboot = False, reboot_delay_minutes = 15,
     defer_count = 0, max_defer = 5, channel = Stable\<rparr>"

definition can_defer :: "AutoUpdateConfig \<Rightarrow> bool" where
  "can_defer c \<longleftrightarrow> defer_count c < max_defer c"

definition should_install :: "UpdateSeverity \<Rightarrow> AutoUpdateConfig \<Rightarrow> bool" where
  "should_install sev c =
     (case policy c of
        Disabled \<Rightarrow> False
      | SecurityOnly \<Rightarrow> sev \<in> {SevCritical, SevSecurity}
      | AllUpdates \<Rightarrow> True)"

record UpdateNotification =
  n_package_name :: str
  n_from_version :: Version
  n_to_version :: Version
  severity :: UpdateSeverity
  changelog :: str
  n_download_size :: u64
  n_timestamp :: u64
  seen :: bool

type_synonym NotificationManager = "UpdateNotification list"

definition notif_add :: "UpdateNotification \<Rightarrow> NotificationManager \<Rightarrow> NotificationManager" where
  "notif_add n m = m @ [n]"

definition unseen_count :: "NotificationManager \<Rightarrow> nat" where
  "unseen_count m = length (filter (\<lambda>n. \<not> seen n) m)"

definition security_count :: "NotificationManager \<Rightarrow> nat" where
  "security_count m = length (filter (\<lambda>n. severity n \<in> {SevCritical, SevSecurity}) m)"

definition mark_seen :: "str \<Rightarrow> NotificationManager \<Rightarrow> NotificationManager" where
  "mark_seen package m = map (\<lambda>n. if n_package_name n = package then n\<lparr>seen := True\<rparr> else n) m"

definition mark_all_seen :: "NotificationManager \<Rightarrow> NotificationManager" where
  "mark_all_seen m = map (\<lambda>n. n\<lparr>seen := True\<rparr>) m"

definition by_severity :: "UpdateSeverity \<Rightarrow> NotificationManager \<Rightarrow> UpdateNotification list" where
  "by_severity s m = filter (\<lambda>n. severity n = s) m"

definition notif_clear :: "NotificationManager \<Rightarrow> NotificationManager" where
  "notif_clear m = []"

definition notif_total_download_size :: "NotificationManager \<Rightarrow> u64" where
  "notif_total_download_size m = sum_list (map n_download_size m)"

section \<open>Kernels\<close>

record KernelVersion =
  k_version :: Version
  k_install_path :: str
  initrd_path :: str
  bootloader_entry :: str
  k_installed_at :: u64
  is_running :: bool
  is_default :: bool

record KernelManager =
  installed_kernels :: "KernelVersion list"
  max_kernels :: nat

definition kernels_new :: "nat \<Rightarrow> KernelManager" where
  "kernels_new n = \<lparr>installed_kernels = [], max_kernels = n\<rparr>"

text \<open>\<^verbatim>\<open>sort_by(|a, b| b.version.cmp(&a.version))\<close>, the stable sort of the standard library: newest first.\<close>

fun insort_desc :: "KernelVersion \<Rightarrow> KernelVersion list \<Rightarrow> KernelVersion list" where
  "insort_desc k [] = [k]"
| "insort_desc k (k' # ks) = (if k_version k' \<le> k_version k then k # k' # ks else k' # insort_desc k ks)"

definition sort_desc :: "KernelVersion list \<Rightarrow> KernelVersion list" where
  "sort_desc ks = foldr insort_desc ks []"

text \<open>\<^verbatim>\<open>rposition\<close> of a kernel that may go, and its removal.\<close>

fun remove_last :: "('a \<Rightarrow> bool) \<Rightarrow> 'a list \<Rightarrow> 'a list option" where
  "remove_last P [] = None"
| "remove_last P (x # xs) =
     (case remove_last P xs of
        Some ys \<Rightarrow> Some (x # ys)
      | None \<Rightarrow> if P x then Some xs else None)"

lemma remove_last_length: "remove_last P xs = Some ys \<Longrightarrow> length xs = Suc (length ys)"
  by (induction xs arbitrary: ys) (auto split: option.splits if_splits)

function prune_kernels :: "nat \<Rightarrow> KernelVersion list \<Rightarrow> KernelVersion list" where
  "prune_kernels mx ks =
     (if length ks > mx then
        (case remove_last (\<lambda>k. \<not> is_running k \<and> \<not> is_default k) ks of
           Some ks' \<Rightarrow> prune_kernels mx ks'
         | None \<Rightarrow> ks)
      else ks)"
  by pat_completeness auto
termination
  by (relation "measure (\<lambda>(mx, ks). length ks)") (auto dest: remove_last_length)

declare prune_kernels.simps [simp del]

definition install_kernel ::
  "Version \<Rightarrow> str \<Rightarrow> str \<Rightarrow> str \<Rightarrow> u64 \<Rightarrow> KernelManager \<Rightarrow> KernelManager" where
  "install_kernel v path initrd entry now m =
     (let ks = installed_kernels m @ [\<lparr>k_version = v, k_install_path = path, initrd_path = initrd,
            bootloader_entry = entry, k_installed_at = now, is_running = False, is_default = False\<rparr>]
      in m\<lparr>installed_kernels := prune_kernels (max_kernels m) (sort_desc ks)\<rparr>)"

definition set_default :: "Version \<Rightarrow> KernelManager \<Rightarrow> bool \<times> KernelManager" where
  "set_default v m =
     (let ks = map (\<lambda>k. k\<lparr>is_default := (k_version k = v)\<rparr>) (installed_kernels m)
      in (list_ex is_default ks, m\<lparr>installed_kernels := ks\<rparr>))"

definition running_kernel :: "KernelManager \<Rightarrow> KernelVersion option" where
  "running_kernel m = List.find is_running (installed_kernels m)"

definition default_kernel :: "KernelManager \<Rightarrow> KernelVersion option" where
  "default_kernel m = List.find is_default (installed_kernels m)"

fun remove_first :: "('a \<Rightarrow> bool) \<Rightarrow> 'a list \<Rightarrow> 'a list" where
  "remove_first P [] = []"
| "remove_first P (x # xs) = (if P x then xs else x # remove_first P xs)"

definition remove_kernel :: "Version \<Rightarrow> KernelManager \<Rightarrow> (UpdateError + unit) \<times> KernelManager" where
  "remove_kernel v m =
     (case List.find (\<lambda>k. k_version k = v) (installed_kernels m) of
        None \<Rightarrow> (Inl NotFound, m)
      | Some k \<Rightarrow>
          if is_running k then (Inl TransactionAborted, m)
          else (Inr (), m\<lparr>installed_kernels := remove_first (\<lambda>k. k_version k = v) (installed_kernels m)\<rparr>))"

section \<open>System upgrades\<close>

datatype UpgradePhase =
  CompatibilityCheck | BackupConfig | DownloadPackages | ApplyUpdates | MigrateConfig | VerifySystem
| UpCompleted | UpFailed

record SystemUpgrade =
  from_release :: Version
  to_release :: Version
  phase :: UpgradePhase
  packages_to_update :: nat
  packages_updated :: nat
  compatibility_issues :: "str list"
  up_started :: u64

definition upgrade_new :: "Version \<Rightarrow> Version \<Rightarrow> u64 \<Rightarrow> SystemUpgrade" where
  "upgrade_new from to now = \<lparr>from_release = from, to_release = to, phase = CompatibilityCheck,
     packages_to_update = 0, packages_updated = 0, compatibility_issues = [], up_started = now\<rparr>"

definition add_compat_issue :: "str \<Rightarrow> SystemUpgrade \<Rightarrow> SystemUpgrade" where
  "add_compat_issue i u = u\<lparr>compatibility_issues := compatibility_issues u @ [i]\<rparr>"

definition can_proceed :: "SystemUpgrade \<Rightarrow> bool" where
  "can_proceed u \<longleftrightarrow> compatibility_issues u = []"

fun next_phase :: "UpgradePhase \<Rightarrow> UpgradePhase option" where
  "next_phase CompatibilityCheck = Some BackupConfig"
| "next_phase BackupConfig = Some DownloadPackages"
| "next_phase DownloadPackages = Some ApplyUpdates"
| "next_phase ApplyUpdates = Some MigrateConfig"
| "next_phase MigrateConfig = Some VerifySystem"
| "next_phase VerifySystem = Some UpCompleted"
| "next_phase UpCompleted = None"
| "next_phase UpFailed = None"

definition advance_phase :: "SystemUpgrade \<Rightarrow> bool \<times> SystemUpgrade" where
  "advance_phase u =
     (case next_phase (phase u) of None \<Rightarrow> (False, u) | Some p \<Rightarrow> (True, u\<lparr>phase := p\<rparr>))"

definition up_progress_percent :: "SystemUpgrade \<Rightarrow> u8 rust" where
  "up_progress_percent u =
     (if packages_to_update u = 0 then Ret 0 else percent_u32 (packages_updated u) (packages_to_update u))"

section \<open>The manager\<close>

record UpdateManager =
  repo_manager :: RepoManager
  resolver :: DependencyResolver
  download_manager :: DownloadManager
  install_engine :: InstallEngine
  snapshot_manager :: SnapshotManager
  ab_partitions :: AbPartitionManager
  transaction_log :: TransactionLog
  auto_config :: AutoUpdateConfig
  notifications :: NotificationManager
  kernel_manager :: KernelManager
  delta_engine :: DeltaEngine
  current_upgrade :: "SystemUpgrade option"
  next_txn_id :: u64
  initialized :: bool

definition um_new :: UpdateManager where
  "um_new = \<lparr>repo_manager = repos_new, resolver = resolver_new, download_manager = downloads_new 4,
     install_engine = engine_new, snapshot_manager = snapshots_new 10, ab_partitions = partitions_new,
     transaction_log = tlog_new 100, auto_config = auto_default_config, notifications = [],
     kernel_manager = kernels_new 3, delta_engine = delta_engine_new, current_upgrade = None, next_txn_id = 1,
     initialized = False\<rparr>"

definition begin_transaction :: "u64 \<Rightarrow> UpdateManager \<Rightarrow> u64 \<times> UpdateManager" where
  "begin_transaction now m =
     (let i = next_txn_id m;
          m = m\<lparr>next_txn_id := next_txn_id m + 1\<rparr>
      in (i, m\<lparr>transaction_log := tlog_record (transaction_new i now) (transaction_log m)\<rparr>))"

text \<open>The step goes to the first transaction of that number in the log, if there is one.\<close>

definition push_step :: "u64 \<Rightarrow> TransactionStep \<Rightarrow> UpdateManager \<Rightarrow> UpdateManager" where
  "push_step txn s m =
     m\<lparr>transaction_log := (transaction_log m)\<lparr>transactions :=
         modify_first (\<lambda>t. tx_id t = txn) (add_step s) (transactions (transaction_log m))\<rparr>\<rparr>"

definition add_install :: "u64 \<Rightarrow> str \<Rightarrow> UpdateManager \<Rightarrow> (UpdateError + unit) \<times> UpdateManager" where
  "add_install txn name m =
     (case best_candidate (resolver m) name of
        None \<Rightarrow> (Inl NotFound, m)
      | Some h \<Rightarrow>
          if check_conflicts (resolver m) name \<noteq> [] then (Inl DependencyConflict, m)
          else (Inr (), push_step txn
                  \<lparr>ts_op = Install, ts_package_name = name, ts_from_version = None, ts_to_version = Some (pkg_version h),
                   ts_download_size = download_size h, installed_size_delta = installed_size h\<rparr> m))"

definition add_upgrade :: "u64 \<Rightarrow> str \<Rightarrow> UpdateManager \<Rightarrow> (UpdateError + unit) \<times> UpdateManager" where
  "add_upgrade txn name m =
     (case bt_get (installed (resolver m)) name of
        None \<Rightarrow> (Inl NotFound, m)
      | Some inst \<Rightarrow>
          (case best_candidate (resolver m) name of
             None \<Rightarrow> (Inl NotFound, m)
           | Some candidate \<Rightarrow>
               let from = pkg_version (header inst) in
               if pkg_version candidate \<le> from then (Inl AlreadyInstalled, m)
               else (Inr (), push_step txn
                       \<lparr>ts_op = Upgrade, ts_package_name = name, ts_from_version = Some from,
                        ts_to_version = Some (pkg_version candidate), ts_download_size = download_size candidate,
                        installed_size_delta = installed_size candidate - installed_size (header inst)\<rparr> m)))"

definition add_remove :: "u64 \<Rightarrow> str \<Rightarrow> UpdateManager \<Rightarrow> (UpdateError + unit) \<times> UpdateManager" where
  "add_remove txn name m =
     (case bt_get (installed (resolver m)) name of
        None \<Rightarrow> (Inl NotFound, m)
      | Some inst \<Rightarrow>
          (Inr (), push_step txn
             \<lparr>ts_op = Remove, ts_package_name = name, ts_from_version = Some (pkg_version (header inst)),
              ts_to_version = None, ts_download_size = 0, installed_size_delta = - installed_size (header inst)\<rparr> m))"

definition check_updates :: "UpdateManager \<Rightarrow> (str \<times> Version \<times> Version) list" where
  "check_updates m =
     concat (map (\<lambda>(name, inst).
       (case best_candidate (resolver m) name of
          Some candidate \<Rightarrow>
            if pkg_version candidate > pkg_version (header inst)
            then [(name, pkg_version (header inst), pkg_version candidate)] else []
        | None \<Rightarrow> [])) (installed (resolver m)))"

definition available_update_count :: "UpdateManager \<Rightarrow> nat" where
  "available_update_count m = length (check_updates m)"

definition security_update_count :: "UpdateManager \<Rightarrow> nat" where
  "security_update_count m = security_count (notifications m)"

definition begin_system_upgrade :: "Version \<Rightarrow> u64 \<Rightarrow> UpdateManager \<Rightarrow> (UpdateError + unit) \<times> UpdateManager" where
  "begin_system_upgrade to now m =
     (if current_upgrade m \<noteq> None then (Inl TransactionAborted, m)
      else (Inr (), m\<lparr>current_upgrade := Some (upgrade_new (pi_version (ab_active_slot (ab_partitions m))) to now)\<rparr>))"

definition update_init :: UpdateManager where
  "update_init = um_new\<lparr>initialized := True\<rparr>"

end
