(* ===== verification/Update_Props.thy ===== *)
theory Update_Props
  imports Update_Manager
begin

text \<open>
  Properties of the update manager (\<open>Update_Manager\<close>): chains of deltas connect the versions
  asked for when every delta goes forward, and are searched for ever when one does not;
  finished downloads have the hash that was expected; the transaction log is a bounded
  history, so that a transaction can leave it while steps are still added; pruning keeps the
  kernels that are in use; the partitions keep a slot that has booted.
\<close>

section \<open>Chains of deltas\<close>

fun links :: "Version \<Rightarrow> DeltaPackage list \<Rightarrow> Version \<Rightarrow> bool" where
  "links v [] w = (v = w)"
| "links v (d # ds) w = (d_from_version d = v \<and> links (d_to_version d) ds w)"

lemma links_snoc: "links v (ds @ [d]) w \<longleftrightarrow> links v ds (d_from_version d) \<and> d_to_version d = w"
  by (induction ds arbitrary: v) auto

lemma next_delta_mem:
  assumes "next_delta e package current to = Some d"
  shows "d \<in> set (available_deltas e)" "d_package_name d = package" "d_from_version d = current" "d_to_version d \<le> to"
  using max_by_mem [OF assms [unfolded next_delta_def]] by auto

definition later_targets :: "DeltaEngine \<Rightarrow> Version \<Rightarrow> Version set" where
  "later_targets e v = {d_to_version d | d. d \<in> set (available_deltas e) \<and> v < d_to_version d}"

lemma finite_later_targets [simp]: "finite (later_targets e v)"
proof -
  have "later_targets e v \<subseteq> d_to_version ` set (available_deltas e)" by (auto simp: later_targets_def)
  then show ?thesis by (rule finite_subset) simp
qed

lemma delta_chain_loop_returns:
  assumes "\<And>d. d \<in> set (available_deltas e) \<Longrightarrow> d_package_name d = package \<Longrightarrow> d_from_version d < d_to_version d"
    and "links from chain current" and "set chain \<subseteq> {d \<in> set (available_deltas e). d_package_name d = package}"
  shows "\<exists>v ds. delta_chain_loop e package to current chain = Some (v, ds) \<and> links from ds v
    \<and> set ds \<subseteq> {d \<in> set (available_deltas e). d_package_name d = package}"
  using assms(2,3)
proof (induction "card (later_targets e current)" arbitrary: current chain rule: less_induct)
  case less
  show ?case
  proof (cases "current < to")
    case False
    then show ?thesis using less.prems by (simp add: delta_chain_loop.simps)
  next
    case True
    show ?thesis
    proof (cases "next_delta e package current to")
      case None
      then show ?thesis using less.prems True by (simp add: delta_chain_loop.simps)
    next
      case (Some d)
      note d = next_delta_mem [OF Some]
      have fwd: "current < d_to_version d" using assms(1) [OF d(1,2)] d(3) by simp
      then have "later_targets e (d_to_version d) \<subseteq> later_targets e current"
        by (auto simp: later_targets_def)
      moreover have "d_to_version d \<in> later_targets e current" "d_to_version d \<notin> later_targets e (d_to_version d)"
        using fwd d(1) by (auto simp: later_targets_def)
      ultimately have "card (later_targets e (d_to_version d)) < card (later_targets e current)"
        by (intro psubset_card_mono) auto
      moreover have "links from (chain @ [d]) (d_to_version d)" using less.prems(1) d(3) by (simp add: links_snoc)
      moreover have "set (chain @ [d]) \<subseteq> {d \<in> set (available_deltas e). d_package_name d = package}"
        using less.prems(2) d by simp
      ultimately have "\<exists>v ds. delta_chain_loop e package to (d_to_version d) (chain @ [d]) = Some (v, ds)
          \<and> links from ds v \<and> set ds \<subseteq> {d \<in> set (available_deltas e). d_package_name d = package}"
        by (rule less.hyps)
      then show ?thesis by (simp add: delta_chain_loop.simps [of e package to current] True Some)
    qed
  qed
qed


lemma delta_chain_loop_stuck:
  assumes "current < to" and "next_delta e package current to = Some d" and "d_to_version d = current"
  shows "delta_chain_loop e package to current chain = None"
proof -
  define stuck where
    "stuck e package to current \<longleftrightarrow> current < to \<and> next_delta e package current to = Some d \<and> d_to_version d = current"
    for e package to current
  have "\<not> stuck e package to current" if "delta_chain_loop e package to current chain = Some y" for y
    by (rule delta_chain_loop.raw_induct [where P = "\<lambda>e package to current chain y. \<not> stuck e package to current",
          OF _ that]) (fastforce simp: stuck_def split: if_splits)
  with assms show ?thesis by (cases "delta_chain_loop e package to current chain") (auto simp: stuck_def)
qed

text \<open>
  One delta that leads from a version to itself is enough for the search never to end:
  if it is what \<^verbatim>\<open>best_delta_chain\<close> picks at the installed version, the loop picks it again
  for ever, adding to the chain each time.
\<close>

theorem delta_chain_diverges:
  assumes "from < to" and "next_delta e package from to = Some d" and "d_to_version d = from"
  shows "best_delta_chain package from to e = None"
  using delta_chain_loop_stuck [OF assms] by (simp add: best_delta_chain_def)

section \<open>Downloads\<close>

inductive download_step :: "DownloadManager \<Rightarrow> DownloadManager \<Rightarrow> bool" where
  "download_step m (enqueue name url mirrors n sha256 sha512 m)"
| "download_step m (snd (start_next m))"
| "download_step m (report_progress name bytes m)"
| "download_step m (snd (complete_download name computed m))"
| "download_step m (snd (retry_failed name m))"

definition item_ok :: "DownloadItem \<Rightarrow> bool" where
  "item_ok i \<longleftrightarrow> (dl_state i = DlCompleted \<longrightarrow> sha256_computed i = sha256_expected i)
     \<and> retries i \<le> max_retries i \<and> max_retries i = 3
     \<and> (current_mirror i = 0 \<or> unat (current_mirror i) < length (mirror_urls i))"

definition downloads_ok :: "nat \<Rightarrow> DownloadManager \<Rightarrow> bool" where
  "downloads_ok n m \<longleftrightarrow> list_all item_ok (queue m) \<and> max_parallel m = n \<and> active_count m \<le> n"

definition is_active :: "DownloadItem \<Rightarrow> bool" where
  "is_active i \<longleftrightarrow> dl_state i = Active"

definition weight :: "DownloadItem \<Rightarrow> nat" where
  "weight i = (if is_active i then 1 else 0)"

lemma modify_first_all:
  "list_all Q xs \<Longrightarrow> (\<And>x. x \<in> set xs \<Longrightarrow> P x \<Longrightarrow> Q x \<Longrightarrow> Q (f x)) \<Longrightarrow> list_all Q (modify_first P f xs)"
  by (induction xs) auto

lemma modify_first_find:
  "List.find P xs = Some x \<Longrightarrow> list_all Q xs \<Longrightarrow> Q y \<Longrightarrow> list_all Q (modify_first P (\<lambda>_. y) xs)"
  by (induction xs) (auto split: if_splits)

lemma modify_first_const: "List.find P xs = Some x \<Longrightarrow> modify_first P f xs = modify_first P (\<lambda>_. f x) xs"
  by (induction xs) auto

lemma modify_first_weight:
  "sum_list (map weight (modify_first P f xs)) \<le> sum_list (map weight xs) + 1"
  by (induction xs) (auto simp: weight_def)

lemma modify_first_weight_le:
  "(\<And>x. x \<in> set xs \<Longrightarrow> P x \<Longrightarrow> weight (f x) \<le> weight x) \<Longrightarrow>
     sum_list (map weight (modify_first P f xs)) \<le> sum_list (map weight xs)"
  by (induction xs) auto

lemma modify_first_const_le:
  "weight y = 0 \<Longrightarrow> sum_list (map weight (modify_first P (\<lambda>_. y) xs)) \<le> sum_list (map weight xs)"
  by (induction xs) auto

lemma active_count_weight: "active_count m = sum_list (map weight (queue m))"
proof -
  have "length (filter (\<lambda>d. dl_state d = Active) xs) = sum_list (map weight xs)" for xs
    by (induction xs) (auto simp: weight_def is_active_def)
  then show ?thesis by (simp add: active_count_def)
qed

lemma retry_item_ok:
  assumes "item_ok i" and "can_retry i"
  shows "item_ok (retry_item i)" and "weight (retry_item i) = 0"
proof -
  have "unat (current_mirror i + 1) = unat (current_mirror i) + 1" if "unat (current_mirror i) + 1 < length (mirror_urls i)"
    "current_mirror i + 1 \<noteq> 0"
    using that by (metis Suc_eq_plus1 unatSuc add.commute)
  moreover have "retries i + 1 \<le> max_retries i"
    using assms(2) by (simp add: can_retry_def inc_le)
  ultimately show "item_ok (retry_item i)"
    using assms(1) by (cases "current_mirror i + 1 = 0") (auto simp: item_ok_def retry_item_def next_mirror_def)
  show "weight (retry_item i) = 0" by (simp add: weight_def is_active_def retry_item_def)
qed

lemma find_mem: "List.find P xs = Some x \<Longrightarrow> x \<in> set xs \<and> P x"
  by (induction xs) (auto split: if_splits)

lemma downloads_ok_step:
  assumes "download_step m m'" and "downloads_ok n m"
  shows "downloads_ok n m'"
  using assms(1)
proof cases
  case (1 name url mirrors k sha256 sha512)
  then show ?thesis
    using assms(2) by (simp add: downloads_ok_def enqueue_def active_count_def item_ok_def)
next
  case 2
  have "list_all item_ok (modify_first (\<lambda>d. dl_state d = Queued) (\<lambda>d. d\<lparr>dl_state := Active\<rparr>) (queue m))"
    using assms(2) by (intro modify_first_all) (auto simp: downloads_ok_def item_ok_def)
  moreover have "sum_list (map weight (modify_first (\<lambda>d. dl_state d = Queued) (\<lambda>d. d\<lparr>dl_state := Active\<rparr>) (queue m)))
      \<le> active_count m + 1"
    unfolding active_count_weight by (rule modify_first_weight)
  ultimately show ?thesis
    using assms(2) 2 by (auto simp: downloads_ok_def start_next_def active_count_weight)
next
  case (3 name bytes)
  have "list_all item_ok (modify_first (\<lambda>d. dl_package_name d = name) (\<lambda>d. d\<lparr>downloaded_bytes := bytes\<rparr>) (queue m))"
    using assms(2) by (intro modify_first_all) (auto simp: downloads_ok_def item_ok_def)
  moreover have "sum_list (map weight (modify_first (\<lambda>d. dl_package_name d = name) (\<lambda>d. d\<lparr>downloaded_bytes := bytes\<rparr>) (queue m)))
      \<le> active_count m"
    unfolding active_count_weight by (rule modify_first_weight_le) (simp add: weight_def is_active_def)
  ultimately show ?thesis
    using assms(2) 3 by (auto simp: downloads_ok_def report_progress_def active_count_weight)
next
  case (4 name computed)
  show ?thesis
  proof (cases "List.find (\<lambda>d. dl_package_name d = name) (queue m)")
    case None
    then show ?thesis using assms(2) 4 by (simp add: complete_download_def)
  next
    case (Some i)
    have i: "item_ok i" using find_mem [OF Some] assms(2) by (auto simp: downloads_ok_def list_all_iff)
    define fin where "fin = i\<lparr>sha256_computed := computed, dl_state := if computed = sha256_expected i then DlCompleted else DlFailed\<rparr>"
    have "queue m' = modify_first (\<lambda>d. dl_package_name d = name) (\<lambda>_. fin) (queue m)" "max_parallel m' = max_parallel m"
      using 4 Some by (auto simp: complete_download_def verify_checksum_def fin_def Let_def)
    moreover have "item_ok fin" "weight fin = 0"
      using i by (auto simp: fin_def item_ok_def weight_def is_active_def)
    ultimately show ?thesis
      using assms(2) modify_first_find [OF Some, of item_ok fin]
        modify_first_const_le [of fin "\<lambda>d. dl_package_name d = name" "queue m"]
      by (auto simp: downloads_ok_def active_count_weight)
  qed
next
  case (5 name)
  let ?P = "\<lambda>d. dl_package_name d = name \<and> dl_state d = DlFailed"
  show ?thesis
  proof (cases "List.find ?P (queue m)")
    case None
    then show ?thesis using assms(2) 5 by (simp add: retry_failed_def)
  next
    case (Some i)
    show ?thesis
    proof (cases "can_retry i")
      case False
      then show ?thesis using assms(2) 5 Some by (simp add: retry_failed_def)
    next
      case True
      have i: "item_ok i" using find_mem [OF Some] assms(2) by (auto simp: downloads_ok_def list_all_iff)
      have "modify_first ?P retry_item (queue m) = modify_first ?P (\<lambda>_. retry_item i) (queue m)"
        by (rule modify_first_const [OF Some])
      then have "queue m' = modify_first ?P (\<lambda>_. retry_item i) (queue m)" "max_parallel m' = max_parallel m"
        using 5 Some True by (simp_all add: retry_failed_def)
      then show ?thesis
        using assms(2) modify_first_find [OF Some, of item_ok "retry_item i"] retry_item_ok [OF i True]
          modify_first_const_le [of "retry_item i" ?P "queue m"]
        by (auto simp: downloads_ok_def active_count_weight)
    qed
  qed
qed

interpretation downloads: inductive_invariant "\<lambda>m. m = downloads_new n" download_step "downloads_ok n" for n
proof
  show "downloads_ok n m" if "m = downloads_new n" for m
    using that by (simp add: downloads_ok_def downloads_new_def active_count_def)
  show "downloads_ok n m'" if "download_step m m'" and "downloads_ok n m" for m m'
    using that by (rule downloads_ok_step)
qed

text \<open>
  In every state the download manager reaches, a download that counts as completed has
  the SHA-256 that was expected of it, no more downloads run at once than the limit, and no
  download is retried more than three times or beyond its last mirror.
\<close>

theorem downloads_verified:
  assumes "rtranclp download_step (downloads_new n) m"
  shows "active_count m \<le> n
    \<and> (\<forall>i\<in>set (queue m). (dl_state i = DlCompleted \<longrightarrow> sha256_computed i = sha256_expected i)
         \<and> unat (retries i) \<le> 3 \<and> (current_mirror i = 0 \<or> unat (current_mirror i) < length (mirror_urls i)))"
  using downloads.reachable_inv [OF refl assms]
  by (auto simp: downloads_ok_def item_ok_def list_all_iff word_le_nat_alt)

section \<open>The transaction log\<close>

lemma push_bounded:
  "length xs \<le> n \<Longrightarrow> (if length (xs @ [x]) > n then tl (xs @ [x]) else xs @ [x]) = last_n n (xs @ [x])"
proof (cases "length xs = n")
  case True
  then have "last_n n (xs @ [x]) = drop 1 (xs @ [x])" by (simp add: last_n_def)
  with True show ?thesis by (simp only: drop_Suc One_nat_def) simp
qed (simp add: last_n_def)

interpretation tlog: bounded_history "\<lambda>t l. Ret (tlog_record t l)" "\<lambda>l. Ret (transactions l)" max_history "\<lambda>_. n"
  "\<lambda>l. length (transactions l) \<le> max_history l" for n
proof
  show "\<exists>es. Ret (transactions l) = Ret es \<and> length es \<le> max_history l" if "length (transactions l) \<le> max_history l" for l
    using that by blast
  show "\<exists>l'. Ret (tlog_record t l) = Ret l' \<and> length (transactions l') \<le> max_history l' \<and> max_history l' = max_history l
      \<and> k \<le> n \<and> Ret (transactions l') = Ret (last_n (max_history l) (es @ [t]))"
    if "length (transactions l) \<le> max_history l" "Ret (transactions l) = Ret es" "Suc k \<le> n" for l es k t
    using that push_bounded [of es "max_history l" t] by (auto simp: tlog_record_def last_n_def Let_def)
qed

lemma add_all_tlog: "add_all (\<lambda>t l. Ret (tlog_record t l)) ts l = Ret (fold tlog_record ts l)"
  by (induction ts arbitrary: l) simp_all

lemma tlog_fold:
  assumes "length (transactions l) \<le> max_history l"
  shows "transactions (fold tlog_record ts l) = last_n (max_history l) (transactions l @ ts)"
  using tlog.add_all_content [of l "transactions l" ts "length ts"] assms by (simp add: add_all_tlog)

text \<open>Transactions begun one after another.\<close>

fun begin_all :: "u64 list \<Rightarrow> UpdateManager \<Rightarrow> UpdateManager" where
  "begin_all [] m = m"
| "begin_all (now # nows) m = begin_all nows (snd (begin_transaction now m))"

fun begun :: "u64 \<Rightarrow> u64 list \<Rightarrow> Transaction list" where
  "begun i [] = []"
| "begun i (now # nows) = transaction_new i now # begun (i + 1) nows"

lemma length_begun [simp]: "length (begun i nows) = length nows"
  by (induction nows arbitrary: i) simp_all

lemma begun_id: "t \<in> set (begun i nows) \<Longrightarrow> \<exists>k<length nows. tx_id t = i + word_of_nat k"
proof (induction nows arbitrary: i)
  case (Cons now nows)
  show ?case
  proof (cases "t = transaction_new i now")
    case True
    then show ?thesis by (intro exI [of _ 0]) (simp add: transaction_new_def)
  next
    case False
    with Cons.prems have "t \<in> set (begun (i + 1) nows)" by simp
    from Cons.IH [OF this] obtain k where "k < length nows" "tx_id t = i + 1 + word_of_nat k" by blast
    then show ?thesis by (intro exI [of _ "Suc k"]) (simp add: ac_simps)
  qed
qed simp

lemma begin_all_log:
  "transaction_log (begin_all nows m) = fold tlog_record (begun (next_txn_id m) nows) (transaction_log m)
   \<and> resolver (begin_all nows m) = resolver m"
  by (induction nows arbitrary: m) (simp_all add: begin_transaction_def Let_def)

lemma modify_first_absent: "\<forall>x\<in>set xs. \<not> P x \<Longrightarrow> modify_first P f xs = xs"
  by (induction xs) auto

text \<open>
  A transaction that a hundred later ones have pushed out of the log is lost without an
  error: a step added to it is accepted and recorded nowhere.
\<close>

theorem step_lost:
  assumes "begin_transaction now m = (txn, m1)" and "max_history (transaction_log m) = 100"
    and "length (transactions (transaction_log m)) \<le> 100" and "length nows = 100"
    and "best_candidate (resolver m) name = Some h" and "check_conflicts (resolver m) name = []"
  shows "add_install txn name (begin_all nows m1) = (Inr (), begin_all nows m1)"
proof -
  let ?m2 = "begin_all nows m1"
  have m1: "next_txn_id m1 = txn + 1" "resolver m1 = resolver m" "max_history (transaction_log m1) = 100"
    "length (transactions (transaction_log m1)) \<le> 100"
    using assms(1-3) by (auto simp: begin_transaction_def tlog_record_def Let_def)
  have "transactions (transaction_log ?m2) = last_n 100 (transactions (transaction_log m1) @ begun (txn + 1) nows)"
    using begin_all_log [of nows m1] tlog_fold [of "transaction_log m1" "begun (txn + 1) nows"] m1 by simp
  also have "\<dots> = begun (txn + 1) nows" using assms(4) by (simp add: last_n_def)
  finally have log: "transactions (transaction_log ?m2) = begun (txn + 1) nows" .
  have "txn + 1 + word_of_nat k \<noteq> txn" if "k < 100" for k
  proof -
    have "unat (word_of_nat (Suc k) :: u64) = Suc k" using that by (intro unat_word_of_nat_small) simp
    then have "(word_of_nat (Suc k) :: u64) \<noteq> 0" by (metis nat.distinct(1) unat_0)
    then show ?thesis by (simp add: add.assoc)
  qed
  then have "\<forall>t\<in>set (transactions (transaction_log ?m2)). tx_id t \<noteq> txn"
    using assms(4) begun_id [of _ "txn + 1" nows] by (fastforce simp: log)
  then have same: "push_step txn st ?m2 = ?m2" for st by (simp add: push_step_def modify_first_absent)
  show ?thesis
    using assms(5,6) begin_all_log [of nows m1] m1(2) by (simp add: add_install_def same)
qed

section \<open>Kernels\<close>

lemma remove_last_spec:
  "remove_last P xs = Some ys \<Longrightarrow> \<exists>as x bs. xs = as @ x # bs \<and> ys = as @ bs \<and> P x"
  "remove_last P xs = None \<longleftrightarrow> (\<forall>x\<in>set xs. \<not> P x)"
proof -
  show "remove_last P xs = Some ys \<Longrightarrow> \<exists>as x bs. xs = as @ x # bs \<and> ys = as @ bs \<and> P x"
  proof (induction xs arbitrary: ys)
    case (Cons x xs)
    show ?case
    proof (cases "remove_last P xs")
      case None
      with Cons.prems show ?thesis by (auto split: if_splits intro: exI [of _ "[]"])
    next
      case (Some zs)
      from Cons.IH [OF this] obtain as y bs where "xs = as @ y # bs" "zs = as @ bs" "P y" by blast
      with Cons.prems Some show ?thesis by (intro exI [of _ "x # as"]) auto
    qed
  qed simp
  show "remove_last P xs = None \<longleftrightarrow> (\<forall>x\<in>set xs. \<not> P x)"
    by (induction xs) (auto split: option.splits if_splits)
qed

definition in_use :: "KernelVersion \<Rightarrow> bool" where
  "in_use k \<longleftrightarrow> is_running k \<or> is_default k"

definition newest_first :: "KernelVersion list \<Rightarrow> bool" where
  "newest_first ks \<longleftrightarrow> sorted_wrt (\<lambda>a b. k_version b \<le> k_version a) ks"

lemma prune_kernels_spec:
  "let ks' = prune_kernels mx ks in
     filter in_use ks' = filter in_use ks \<and> set ks' \<subseteq> set ks \<and> (newest_first ks \<longrightarrow> newest_first ks')
     \<and> (length ks' \<le> mx \<or> list_all in_use ks')"
proof (induction mx ks rule: prune_kernels.induct)
  case (1 mx ks)
  let ?P = "\<lambda>k. \<not> is_running k \<and> \<not> is_default k"
  show ?case
  proof (cases "length ks > mx")
    case False
    then show ?thesis by (simp add: prune_kernels.simps [of mx ks])
  next
    case big: True
    show ?thesis
    proof (cases "remove_last ?P ks")
      case None
      then have "list_all in_use ks" by (auto simp: remove_last_spec(2) list_all_iff in_use_def)
      with None show ?thesis using big by (simp add: prune_kernels.simps [of mx ks])
    next
      case (Some ks')
      from remove_last_spec(1) [OF this] obtain as k bs where ks: "ks = as @ k # bs" "ks' = as @ bs" "?P k" by blast
      have "filter in_use ks' = filter in_use ks" "set ks' \<subseteq> set ks" "newest_first ks \<longrightarrow> newest_first ks'"
        using ks by (auto simp: in_use_def newest_first_def sorted_wrt_append)
      with "1.IH" [OF big Some] show ?thesis
        by (simp add: prune_kernels.simps [of mx ks] big Some Let_def) blast
    qed
  qed
qed

lemma insort_desc_spec:
  "set (insort_desc k ks) = insert k (set ks)" "newest_first ks \<Longrightarrow> newest_first (insort_desc k ks)"
  "\<not> in_use k \<Longrightarrow> filter in_use (insort_desc k ks) = filter in_use ks"
proof -
  show set: "set (insort_desc k ks) = insert k (set ks)" for k ks by (induction ks) auto
  show "newest_first ks \<Longrightarrow> newest_first (insort_desc k ks)"
    by (induction ks) (auto simp: newest_first_def set)
  show "\<not> in_use k \<Longrightarrow> filter in_use (insort_desc k ks) = filter in_use ks" by (induction ks) auto
qed

lemma sort_desc_spec: "set (sort_desc ks) = set ks" "newest_first (sort_desc ks)"
  by (induction ks) (simp_all add: sort_desc_def insort_desc_spec, simp add: newest_first_def)

text \<open>
  Installing a kernel never removes one that is running or is the boot default: those
  stay, the list is newest first, and it is within the limit unless every kernel left is in
  use.
\<close>

theorem install_kernel_keeps_used:
  "let m' = install_kernel v path initrd entry now m in
     {k \<in> set (installed_kernels m'). in_use k} = {k \<in> set (installed_kernels m). in_use k}
     \<and> newest_first (installed_kernels m')
     \<and> (length (installed_kernels m') \<le> max_kernels m \<or> list_all in_use (installed_kernels m'))"
proof -
  define k where "k = \<lparr>k_version = v, k_install_path = path, initrd_path = initrd, bootloader_entry = entry,
    k_installed_at = now, is_running = False, is_default = False\<rparr>"
  define ks where "ks = prune_kernels (max_kernels m) (sort_desc (installed_kernels m @ [k]))"
  have new: "\<not> in_use k" by (simp add: k_def in_use_def)
  have inst: "installed_kernels (install_kernel v path initrd entry now m) = ks"
    by (simp add: install_kernel_def ks_def k_def Let_def)
  note p = prune_kernels_spec [of "max_kernels m" "sort_desc (installed_kernels m @ [k])", folded ks_def]
  have "set (filter in_use ks) = set (filter in_use (sort_desc (installed_kernels m @ [k])))"
    using p by (simp add: Let_def)
  then have "{k \<in> set ks. in_use k} = {k \<in> set (installed_kernels m). in_use k}"
    using new by (auto simp: sort_desc_spec)
  with p show ?thesis by (simp add: inst sort_desc_spec Let_def)
qed

text \<open>
  \<^verbatim>\<open>set_default\<close> with a version that is not installed reports the failure and has by then
  cleared the default of every kernel.
\<close>

theorem set_default_unknown_clears:
  assumes "\<forall>k\<in>set (installed_kernels m). k_version k \<noteq> v"
  shows "fst (set_default v m) = False \<and> default_kernel (snd (set_default v m)) = None"
proof -
  have "list_ex is_default (map (\<lambda>k. k\<lparr>is_default := k_version k = v\<rparr>) ks) = False
    \<and> List.find is_default (map (\<lambda>k. k\<lparr>is_default := k_version k = v\<rparr>) ks) = None"
    if "\<forall>k\<in>set ks. k_version k \<noteq> v" for ks
    using that by (induction ks) auto
  from this [OF assms] show ?thesis by (simp add: set_default_def default_kernel_def Let_def)
qed

section \<open>Partitions\<close>

text \<open>The manager's operations, where a new image is staged only once the running slot has booted.\<close>

inductive ab_step :: "AbPartitionManager \<Rightarrow> AbPartitionManager \<Rightarrow> bool" where
  "successful (ab_active_slot m) \<Longrightarrow> ab_step m (snd (stage_update v now m))"
| "ab_step m (snd (ab_switch_active m))"
| "ab_step m (ab_mark_successful m)"
| "ab_step m (snd (check_boot_fallback m))"
| "ab_step m (snd (ab_rollback m))"

definition ab_inv :: "AbPartitionManager \<Rightarrow> bool" where
  "ab_inv m \<longleftrightarrow> bootable (ab_active_slot m)
     \<and> (update_in_progress m \<longrightarrow> successful (ab_active_slot m) \<and> bootable (standby_slot m))
     \<and> (successful (ab_active_slot m) \<or> bootable (standby_slot m) \<and> successful (standby_slot m))"

lemmas ab_defs = ab_active_slot_def standby_slot_def slot_info_def modify_slot_def

interpretation ab: inductive_invariant "\<lambda>m. m = partitions_new" ab_step ab_inv
proof
  show "ab_inv m" if "m = partitions_new" for m
    using that by (simp add: ab_inv_def ab_defs partitions_new_def Let_def)
  show "ab_inv m'" if "ab_step m m'" and "ab_inv m" for m m'
    using that
    by cases (cases "ab_active m"; auto simp: ab_inv_def ab_defs stage_update_def ab_switch_active_def
        ab_mark_successful_def check_boot_fallback_def ab_rollback_def Let_def)+
qed

theorem ab_keeps_good:
  assumes "rtranclp ab_step partitions_new m"
  shows "bootable (ab_active_slot m)
    \<and> (successful (ab_active_slot m) \<or> bootable (standby_slot m) \<and> successful (standby_slot m))
    \<and> (fst (check_boot_fallback m) \<longrightarrow> successful (ab_active_slot (snd (check_boot_fallback m))))"
  using ab.reachable_inv [OF refl assms]
  by (cases "ab_active m") (auto simp: ab_inv_def ab_defs check_boot_fallback_def Let_def)

section \<open>Witnesses\<close>

definition wit_delta :: "Version \<Rightarrow> Version \<Rightarrow> DeltaPackage" where
  "wit_delta v w = \<lparr>d_from_version = v, d_to_version = w, d_package_name = lit ''a'', delta_size = 1, full_size = 10,
     d_sha256 = [], patch_data = []\<rparr>"

definition wit_engine :: DeltaEngine where
  "wit_engine = add_delta (wit_delta (version_new 1 1 0) (version_new 2 0 0))
     (add_delta (wit_delta (version_new 1 0 0) (version_new 1 1 0)) delta_engine_new)"


theorem delta_chain_diverges_witness:
  "best_delta_chain (lit ''a'') (version_new 1 0 0) (version_new 2 0 0)
     (add_delta (wit_delta (version_new 1 0 0) (version_new 1 0 0)) delta_engine_new) = None"
proof -
  have lt: "version_new 1 0 0 < version_new 2 0 0" by code_simp
  have "next_delta (add_delta (wit_delta (version_new 1 0 0) (version_new 1 0 0)) delta_engine_new) (lit ''a'')
      (version_new 1 0 0) (version_new 2 0 0) = Some (wit_delta (version_new 1 0 0) (version_new 1 0 0))"
    by code_simp
  from delta_chain_diverges [OF lt this] show ?thesis by (simp add: wit_delta_def)
qed

theorem downloads_verified_witness:
  "active_count (snd (start_next (enqueue [] [] [] 5 [] [] (downloads_new 1)))) \<le> 1"
proof -
  have "rtranclp download_step (downloads_new 1) (snd (start_next (enqueue [] [] [] 5 [] [] (downloads_new 1))))"
    by (meson download_step.intros(1,2) rtranclp.rtrancl_into_rtrancl rtranclp.rtrancl_refl)
  from downloads_verified [OF this] show ?thesis by simp
qed

end
