(* ===== verification/Diff_Lines.thy ===== *)
theory Diff_Lines
  imports Delta Rust_Str
begin

text \<open>
  The line diff of \<^verbatim>\<open>components/ath_diff/src/lib.rs\<close>: \<^verbatim>\<open>split_lines\<close>, the greedy search of Myers
  with its recorded trace, the walk back through the trace, and the application of an edit
  script. An index into a vector is checked, so that the absence of panics is proved and not
  assumed; an \<^verbatim>\<open>isize\<close> is an integer. The theory shows that the search ends within the bound of its
  loop, at the corner of the edit graph and nowhere else, and that applying the script to
  the old text gives the new one.
\<close>

section \<open>Lines\<close>

fun split_lines_from :: "str \<Rightarrow> str \<Rightarrow> str list" where
  "split_lines_from cur [] = (if cur = [] then [] else [cur])"
| "split_lines_from cur (c # cs) =
     (if c = 10 then (cur @ [c]) # split_lines_from [] cs else split_lines_from (cur @ [c]) cs)"

definition split_lines :: "str \<Rightarrow> str list" where
  "split_lines s = split_lines_from [] s"

lemma concat_split_lines [simp]: "concat (split_lines s) = s"
proof -
  have "concat (split_lines_from cur s) = cur @ s" for cur
    by (induction cur s rule: split_lines_from.induct) simp_all
  then show ?thesis by (simp add: split_lines_def)
qed

lemma length_split_lines: "length (split_lines s) \<le> length s"
proof -
  have "length (split_lines_from cur s) \<le> (if cur = [] then 0 else 1) + length s" for cur
    by (induction cur s rule: split_lines_from.induct) (auto split: if_splits)
  from this [of "[]"] show ?thesis by (simp add: split_lines_def)
qed

section \<open>The search\<close>

datatype DiffOp = Equal nat nat | Delete nat nat | Insert "str list"

text \<open>\<^verbatim>\<open>i as usize\<close> for an \<^verbatim>\<open>isize\<close>, and an index into a vector with it.\<close>

definition as_usize :: "int \<Rightarrow> nat" where
  "as_usize i = (if 0 \<le> i then nat i else nat (i + 2 ^ 64))"

definition index :: "'a list \<Rightarrow> int \<Rightarrow> 'a rust" where
  "index xs i = (if as_usize i < length xs then Ret (xs ! as_usize i) else Panic)"

lemma index_Ret: "0 \<le> i \<Longrightarrow> nat i < length xs \<Longrightarrow> index xs i = Ret (xs ! nat i)"
  by (simp add: index_def as_usize_def)

text \<open>The choice between going down and going right.\<close>

definition go_down :: "int list \<Rightarrow> int \<Rightarrow> int \<Rightarrow> int \<Rightarrow> bool rust" where
  "go_down v off d k =
     (if k = - d then Ret True
      else if k = d then Ret False
      else rust_bind (index v (k - 1 + off)) (\<lambda>l. rust_bind (index v (k + 1 + off)) (\<lambda>r. Ret (l < r))))"

function follow :: "'a list \<Rightarrow> 'a list \<Rightarrow> int \<Rightarrow> int \<Rightarrow> (int \<times> int) rust" where
  "follow a b x y =
     (if x < int (length a) \<and> y < int (length b) then
        rust_bind (index a x) (\<lambda>l. rust_bind (index b y) (\<lambda>r.
          if l = r then follow a b (x + 1) (y + 1) else Ret (x, y)))
      else Ret (x, y))"
  by pat_completeness auto
termination
  by (relation "measure (\<lambda>(a, b, x, y). nat (int (length a) - x))") auto

declare follow.simps [simp del]

text \<open>The loop over the diagonals of one edit distance: whether the corner was reached, and the vector.\<close>

function diagonals :: "'a list \<Rightarrow> 'a list \<Rightarrow> int \<Rightarrow> int \<Rightarrow> int \<Rightarrow> int list \<Rightarrow> (bool \<times> int list) rust" where
  "diagonals a b off d k v =
     (if k \<le> d then
        rust_bind (go_down v off d k) (\<lambda>down.
        rust_bind (if down then index v (k + 1 + off) else rust_bind (index v (k - 1 + off)) (\<lambda>x. Ret (x + 1))) (\<lambda>x.
        rust_bind (follow a b x (x - k)) (\<lambda>(x, y).
          if as_usize (k + off) < length v then
            (let v = v[as_usize (k + off) := x] in
             if x \<ge> int (length a) \<and> y \<ge> int (length b) then Ret (True, v)
             else diagonals a b off d (k + 2) v)
          else Panic)))
      else Ret (False, v))"
  by pat_completeness auto
termination
  by (relation "measure (\<lambda>(a, b, off, d, k, v). nat (d + 1 - k))") auto

declare diagonals.simps [simp del]

function distances :: "'a list \<Rightarrow> 'a list \<Rightarrow> int \<Rightarrow> int \<Rightarrow> int \<Rightarrow> int list \<Rightarrow> int list list \<Rightarrow> int list list rust" where
  "distances a b mx off d v trace =
     (if d \<le> mx then
        (let trace = trace @ [v] in
         rust_bind (diagonals a b off d (- d) v) (\<lambda>(found, v).
           if found then Ret trace else distances a b mx off (d + 1) v trace))
      else Ret trace)"
  by pat_completeness auto
termination
  by (relation "measure (\<lambda>(a, b, mx, off, d, v, trace). nat (mx + 1 - d))") auto

declare distances.simps [simp del]

definition myers_trace :: "'a list \<Rightarrow> 'a list \<Rightarrow> int list list rust" where
  "myers_trace a b =
     (let n = int (length a); m = int (length b); mx = n + m; off = mx + 1;
          v = replicate (nat (2 * (mx + 1) + 1)) 0
      in distances a b mx off 0 v [])"

section \<open>The walk back\<close>

datatype Step = Eq nat | Del nat | Ins nat

function walk_diagonal :: "int \<Rightarrow> int \<Rightarrow> int \<Rightarrow> int \<Rightarrow> Step list \<Rightarrow> int \<times> int \<times> Step list" where
  "walk_diagonal px py x y steps =
     (if x > px \<and> y > py then walk_diagonal px py (x - 1) (y - 1) (steps @ [Eq (as_usize (x - 1))])
      else (x, y, steps))"
  by pat_completeness auto
termination
  by (relation "measure (\<lambda>(px, py, x, y, steps). nat (x - px))") auto

declare walk_diagonal.simps [simp del]

fun walk_back :: "int list list \<Rightarrow> int \<Rightarrow> nat \<Rightarrow> int \<Rightarrow> int \<Rightarrow> Step list \<Rightarrow> (int \<times> int \<times> Step list) rust" where
  "walk_back trace off 0 x y steps = Ret (x, y, steps)"
| "walk_back trace off (Suc d) x y steps =
     rust_bind (index trace (int (Suc d))) (\<lambda>v.
       let k = x - y in
       rust_bind (go_down v off (int (Suc d)) k) (\<lambda>down.
         let prev_k = (if down then k + 1 else k - 1) in
         rust_bind (index v (prev_k + off)) (\<lambda>prev_x.
           let prev_y = prev_x - prev_k;
               (x, y, steps) = walk_diagonal prev_x prev_y x y steps;
               steps = (if down then (if y > 0 then steps @ [Ins (as_usize (y - 1))] else steps)
                        else (if x > 0 then steps @ [Del (as_usize (x - 1))] else steps))
           in walk_back trace off d prev_x prev_y steps)))"

function rest_ins :: "int \<Rightarrow> Step list \<Rightarrow> Step list" where
  "rest_ins y steps = (if y > 0 then rest_ins (y - 1) (steps @ [Ins (as_usize (y - 1))]) else steps)"
  by pat_completeness auto
termination
  by (relation "measure (\<lambda>(y, steps). nat y)") auto

function rest_del :: "int \<Rightarrow> Step list \<Rightarrow> Step list" where
  "rest_del x steps = (if x > 0 then rest_del (x - 1) (steps @ [Del (as_usize (x - 1))]) else steps)"
  by pat_completeness auto
termination
  by (relation "measure (\<lambda>(x, steps). nat x)") auto

declare rest_ins.simps [simp del] rest_del.simps [simp del]

text \<open>One step of the script, merged with the operation before it where they are adjacent.\<close>

definition last_op :: "DiffOp list \<Rightarrow> DiffOp option" where
  "last_op ops = (if ops = [] then None else Some (last ops))"

definition coalesce :: "str list \<Rightarrow> Step \<Rightarrow> DiffOp list \<Rightarrow> DiffOp list rust" where
  "coalesce b step ops =
     (case step of
        Eq i \<Rightarrow> Ret (case last_op ops of
                      Some (Equal start len) \<Rightarrow>
                        if start + len = i then butlast ops @ [Equal start (len + 1)] else ops @ [Equal i 1]
                    | _ \<Rightarrow> ops @ [Equal i 1])
      | Del i \<Rightarrow> Ret (case last_op ops of
                      Some (Delete start len) \<Rightarrow>
                        if start + len = i then butlast ops @ [Delete start (len + 1)] else ops @ [Delete i 1]
                    | _ \<Rightarrow> ops @ [Delete i 1])
      | Ins j \<Rightarrow>
          if j < length b then
            Ret (case last_op ops of
                   Some (Insert lines) \<Rightarrow> butlast ops @ [Insert (lines @ [b ! j])]
                 | _ \<Rightarrow> ops @ [Insert [b ! j]])
          else Panic)"

fun coalesce_all :: "str list \<Rightarrow> Step list \<Rightarrow> DiffOp list \<Rightarrow> DiffOp list rust" where
  "coalesce_all b [] ops = Ret ops"
| "coalesce_all b (s # steps) ops = rust_bind (coalesce b s ops) (coalesce_all b steps)"

text \<open>The loop at distance zero pushes the equal lines that remain.\<close>

definition backtrack_to_ops :: "str list \<Rightarrow> str list \<Rightarrow> int list list \<Rightarrow> DiffOp list rust" where
  "backtrack_to_ops a b trace =
     (let n = int (length a); m = int (length b); mx = n + m; off = mx + 1 in
      rust_bind (walk_back trace off (length trace - 1) n m []) (\<lambda>(x, y, steps).
        let (x, y, steps) = walk_diagonal 0 0 x y steps;
            steps = rest_del x (rest_ins y steps)
        in coalesce_all b (rev steps) []))"

definition diff_lines :: "str \<Rightarrow> str \<Rightarrow> DiffOp list rust" where
  "diff_lines old new =
     (let a = split_lines old; b = split_lines new in
      rust_bind (myers_trace a b) (\<lambda>trace. backtrack_to_ops a b trace))"

definition checked_add_usize :: "nat \<Rightarrow> nat \<Rightarrow> nat option" where
  "checked_add_usize x y = (if x + y < 2 ^ 64 then Some (x + y) else None)"

fun apply_ops_loop :: "str list \<Rightarrow> str \<Rightarrow> DiffOp list \<Rightarrow> DiffError + str" where
  "apply_ops_loop a out [] = Inr out"
| "apply_ops_loop a out (op # ops) =
     (case op of
        Equal start len \<Rightarrow>
          (case checked_add_usize start len of
             None \<Rightarrow> Inl Truncated
           | Some e \<Rightarrow> if e > length a then Inl ContextMismatch
                       else apply_ops_loop a (out @ concat (slice start e a)) ops)
      | Delete start len \<Rightarrow>
          (case checked_add_usize start len of
             None \<Rightarrow> Inl Truncated
           | Some e \<Rightarrow> if e > length a then Inl ContextMismatch else apply_ops_loop a out ops)
      | Insert lines \<Rightarrow> apply_ops_loop a (out @ concat lines) ops)"

definition apply_line_ops :: "str \<Rightarrow> DiffOp list \<Rightarrow> DiffError + str" where
  "apply_line_ops old ops = apply_ops_loop (split_lines old) [] ops"

section \<open>The furthest points of a distance\<close>

text \<open>
  The vector after distance \<open>d\<close> holds, for the diagonals of that distance, the furthest
  column reached. The value on diagonal \<open>k\<close> is where the common run that starts at
  \<open>start_x\<close> ends.
\<close>

definition at_k :: "int list \<Rightarrow> int \<Rightarrow> int \<Rightarrow> int" where
  "at_k v off k = v ! nat (k + off)"

definition diag_of :: "int \<Rightarrow> int \<Rightarrow> bool" where
  "diag_of d k \<longleftrightarrow> - d \<le> k \<and> k \<le> d \<and> even (d - k)"

definition start_x :: "int list \<Rightarrow> int \<Rightarrow> int \<Rightarrow> int \<Rightarrow> int" where
  "start_x v off d k =
     (if k = - d \<or> k \<noteq> d \<and> at_k v off (k - 1) < at_k v off (k + 1) then at_k v off (k + 1)
      else at_k v off (k - 1) + 1)"

definition common_run :: "'a list \<Rightarrow> 'a list \<Rightarrow> int \<Rightarrow> int \<Rightarrow> int \<Rightarrow> bool" where
  "common_run a b k s x \<longleftrightarrow> s \<le> x \<and>
     (\<forall>i. s \<le> i \<and> i < x \<longrightarrow> 0 \<le> i \<and> i < int (length a) \<and> 0 \<le> i - k \<and> i - k < int (length b) \<and> a ! nat i = b ! nat (i - k))"

definition furthest :: "'a list \<Rightarrow> 'a list \<Rightarrow> int \<Rightarrow> int list \<Rightarrow> int \<Rightarrow> int \<Rightarrow> int \<Rightarrow> bool" where
  "furthest a b off v d k x \<longleftrightarrow> common_run a b k (start_x v off d k) x"

lemma common_run_refl [simp]: "common_run a b k s s"
  by (auto simp: common_run_def)

lemma follow_run:
  assumes "0 \<le> x" and "0 \<le> x - k"
  shows "\<exists>x'. follow a b x (x - k) = Ret (x', x' - k) \<and> common_run a b k x x'"
  using assms
proof (induction "nat (int (length a) - x)" arbitrary: x rule: less_induct)
  case less
  show ?case
  proof (cases "x < int (length a) \<and> x - k < int (length b)")
    case False
    then show ?thesis by (intro exI [of _ x]) (auto simp: follow.simps [of a b x])
  next
    case True
    then have ia: "index a x = Ret (a ! nat x)" and ib: "index b (x - k) = Ret (b ! nat (x - k))"
      using less.prems by (auto intro!: index_Ret)
    show ?thesis
    proof (cases "a ! nat x = b ! nat (x - k)")
      case False
      then show ?thesis
        using True by (intro exI [of _ x]) (simp add: follow.simps [of a b x] ia ib)
    next
      case eq: True
      have "nat (int (length a) - (x + 1)) < nat (int (length a) - x)" using True by simp
      from less.hyps [OF this] less.prems obtain x' where
        x': "follow a b (x + 1) (x + 1 - k) = Ret (x', x' - k)" "common_run a b k (x + 1) x'" by auto
      have "common_run a b k x x'"
        unfolding common_run_def
      proof (intro conjI allI impI)
        show "x \<le> x'" using x'(2) by (simp add: common_run_def)
      next
        fix i
        assume i: "x \<le> i \<and> i < x'"
        show "0 \<le> i" "i < int (length a)" "0 \<le> i - k" "i - k < int (length b)" "a ! nat i = b ! nat (i - k)"
          using i x'(2) True eq less.prems by (cases "i = x"; simp add: common_run_def)+
      qed
      moreover have "follow a b (x + 1) (x - k + 1) = Ret (x', x' - k)"
        using x'(1) by (simp add: algebra_simps)
      ultimately show ?thesis
        by (intro exI [of _ x']) (simp add: follow.simps [of a b x] True ia ib eq)
    qed
  qed
qed

lemma common_run_end: "common_run a b k s x \<Longrightarrow> s < x \<Longrightarrow> x \<le> int (length a) \<and> x - k \<le> int (length b)"
  unfolding common_run_def by (elim conjE allE [of _ "x - 1"]) auto

text \<open>
  The state after distance \<open>d\<close>: points are inside the quadrant and at least \<open>d\<close> moves away from
  the origin, none is at or beyond the corner, and for a point beyond an edge of the graph
  there is a point on another diagonal that is as far along the other edge.
\<close>

definition level :: "int \<Rightarrow> int \<Rightarrow> int \<Rightarrow> int \<Rightarrow> int list \<Rightarrow> bool" where
  "level n m off d v \<longleftrightarrow> (\<forall>k. diag_of d k \<longrightarrow>
     (let x = at_k v off k; y = x - k in
        0 \<le> x \<and> 0 \<le> y \<and> d \<le> x + y \<and> \<not> (n \<le> x \<and> m \<le> y)
        \<and> (n < x \<longrightarrow> diag_of d (2 * n - x - y) \<and> n \<le> at_k v off (2 * n - x - y))
        \<and> (m < y \<longrightarrow> diag_of d (x + y - 2 * m) \<and> x + y - m \<le> at_k v off (x + y - 2 * m))))"

definition before :: "int \<Rightarrow> int \<Rightarrow> int \<Rightarrow> int \<Rightarrow> int list \<Rightarrow> bool" where
  "before n m off d v \<longleftrightarrow> (if d = 0 then at_k v off 1 = 0 else 0 < d \<and> level n m off (d - 1) v)"

lemma level_at:
  assumes "level n m off d v" and "diag_of d k"
  shows "0 \<le> at_k v off k" "k \<le> at_k v off k" "d \<le> 2 * at_k v off k - k"
    "\<not> (n \<le> at_k v off k \<and> m \<le> at_k v off k - k)"
    "n < at_k v off k \<Longrightarrow> diag_of d (2 * n - 2 * at_k v off k + k) \<and> n \<le> at_k v off (2 * n - 2 * at_k v off k + k)"
    "m < at_k v off k - k \<Longrightarrow> diag_of d (2 * at_k v off k - k - 2 * m)
       \<and> 2 * at_k v off k - k - m \<le> at_k v off (2 * at_k v off k - k - 2 * m)"
  using assms(1) [unfolded level_def, rule_format, OF assms(2)] by (simp_all add: Let_def algebra_simps)

text \<open>Where a run starts, and that it starts no earlier than its neighbours reached.\<close>

lemma start_cases:
  assumes "diag_of d k" and "0 < d"
  obtains (down) "diag_of (d - 1) (k + 1)" "start_x v off d k = at_k v off (k + 1)"
  | (right) "diag_of (d - 1) (k - 1)" "start_x v off d k = at_k v off (k - 1) + 1"
proof (cases "k = - d \<or> k \<noteq> d \<and> at_k v off (k - 1) < at_k v off (k + 1)")
  case True
  then have "k \<noteq> d" using assms(2) by auto
  then have "k + 1 \<le> d - 1" using assms(1) unfolding diag_of_def by presburger
  with True assms that(1) show ?thesis by (auto simp: diag_of_def start_x_def)
next
  case False
  then have "- d + 1 \<le> k - 1" using assms(1) unfolding diag_of_def by presburger
  with False assms that(2) show ?thesis by (auto simp: diag_of_def start_x_def)
qed

lemma start_mono:
  assumes "diag_of (d - 1) j" and "0 < d"
  shows "diag_of d (j - 1) \<and> at_k v off j \<le> start_x v off d (j - 1)"
    and "diag_of d (j + 1) \<and> at_k v off j + 1 \<le> start_x v off d (j + 1)"
  using assms by (auto simp: diag_of_def start_x_def)

lemma diag_of_0 [simp]: "diag_of 0 k \<longleftrightarrow> k = 0"
  by (auto simp: diag_of_def)

lemma start_pos:
  assumes "before n m off d v" and "0 \<le> d" and "diag_of d k"
  shows "0 \<le> start_x v off d k" "k \<le> start_x v off d k" "d \<le> 2 * start_x v off d k - k"
proof -
  have "0 \<le> start_x v off d k \<and> k \<le> start_x v off d k \<and> d \<le> 2 * start_x v off d k - k"
  proof (cases "d = 0")
    case True
    then show ?thesis using assms by (simp add: before_def start_x_def)
  next
    case False
    then have d: "0 < d" "level n m off (d - 1) v" using assms(1,2) by (auto simp: before_def)
    from assms(3) d(1) show ?thesis
    proof (cases rule: start_cases [of d k v off])
      case down
      then show ?thesis using level_at(1-3) [OF d(2) down(1)] by auto
    next
      case right
      then show ?thesis using level_at(1-3) [OF d(2) right(1)] by auto
    qed
  qed
  then show "0 \<le> start_x v off d k" "k \<le> start_x v off d k" "d \<le> 2 * start_x v off d k - k" by auto
qed

lemma furthest_corner:
  assumes "before (int (length a)) (int (length b)) off d v" and "0 \<le> d" and "diag_of d k"
    and "furthest a b off v d k x" and "int (length a) \<le> x" and "int (length b) \<le> x - k"
  shows "x = int (length a) \<and> x - k = int (length b)"
proof (cases "start_x v off d k < x")
  case True
  then show ?thesis using common_run_end [OF assms(4) [unfolded furthest_def]] assms(5,6) by auto
next
  case False
  let ?n = "int (length a)" and ?m = "int (length b)"
  have x: "x = start_x v off d k" using False assms(4) by (simp add: furthest_def common_run_def)
  show ?thesis
  proof (cases "d = 0")
    case True
    then show ?thesis using assms x by (simp add: before_def start_x_def)
  next
    case False
    then have d: "0 < d" "level ?n ?m off (d - 1) v" using assms(1,2) by (auto simp: before_def)
    from assms(3) d(1) show ?thesis
    proof (cases rule: start_cases [of d k v off])
      case down
      note l = level_at [OF d(2) down(1)]
      have y: "x - k = ?m" using l(4) down(2) x assms(5,6) by auto
      have "\<not> ?n < x"
      proof
        assume "?n < x"
        then have j: "diag_of (d - 1) (2 * ?n - 2 * x + (k + 1))" "?n \<le> at_k v off (2 * ?n - 2 * x + (k + 1))"
          using l(5) down(2) x by auto
        from level_at(4) [OF d(2) j(1)] j(2) y \<open>?n < x\<close> show False by auto
      qed
      with y assms(5) show ?thesis by simp
    next
      case right
      note l = level_at [OF d(2) right(1)]
      have n: "x = ?n" using l(4) right(2) x assms(5,6) by auto
      have "\<not> ?m < x - k"
      proof
        assume "?m < x - k"
        then have j: "diag_of (d - 1) (2 * (x - 1) - (k - 1) - 2 * ?m)"
          "2 * (x - 1) - (k - 1) - ?m \<le> at_k v off (2 * (x - 1) - (k - 1) - 2 * ?m)"
          using l(6) right(2) x by auto
        from level_at(4) [OF d(2) j(1)] j(2) n \<open>?m < x - k\<close> show False by auto
      qed
      with n assms(6) show ?thesis by simp
    qed
  qed
qed

lemma level_next:
  assumes "before (int (length a)) (int (length b)) off d v" and "0 \<le> d"
    and far: "\<And>k. diag_of d k \<Longrightarrow> furthest a b off v d k (at_k v' off k)"
    and out: "\<And>k. diag_of d k \<Longrightarrow> \<not> (int (length a) \<le> at_k v' off k \<and> int (length b) \<le> at_k v' off k - k)"
  shows "level (int (length a)) (int (length b)) off d v'"
  unfolding level_def Let_def
proof (intro allI impI)
  fix k
  assume k: "diag_of d k"
  let ?n = "int (length a)" and ?m = "int (length b)"
  let ?x = "at_k v' off k"
  have s: "start_x v off d k \<le> ?x" using far [OF k] by (simp add: furthest_def common_run_def)
  have reach: "start_x v off d j \<le> at_k v' off j" if "diag_of d j" for j
    using far [OF that] by (simp add: furthest_def common_run_def)
  have past: "?x = start_x v off d k" if "?n < ?x \<or> ?m < ?x - k"
    using that common_run_end [OF far [OF k, unfolded furthest_def]] s by fastforce
  have right_edge: "diag_of d (2 * ?n - 2 * ?x + k) \<and> ?n \<le> at_k v' off (2 * ?n - 2 * ?x + k)" if "?n < ?x"
  proof -
    have x: "?x = start_x v off d k" using past that by simp
    have "d \<noteq> 0" using assms(1) k x that by (auto simp: before_def diag_of_def start_x_def)
    then have d: "0 < d" "level ?n ?m off (d - 1) v" using assms(1,2) by (auto simp: before_def)
    have "\<exists>j. j - 1 = 2 * ?n - 2 * ?x + k \<and> diag_of (d - 1) j \<and> ?n \<le> at_k v off j"
      using k d(1)
    proof (cases rule: start_cases [of d k v off])
      case down
      then show ?thesis
        using level_at(5) [OF d(2) down(1)] x that by (intro exI [of _ "2 * ?n - 2 * ?x + (k + 1)"]) auto
    next
      case right
      show ?thesis
      proof (cases "?x - 1 = ?n")
        case True
        then show ?thesis using right x by (intro exI [of _ "k - 1"]) auto
      next
        case False
        then show ?thesis
          using level_at(5) [OF d(2) right(1)] right(2) x that
          by (intro exI [of _ "2 * ?n - 2 * (?x - 1) + (k - 1)"]) auto
      qed
    qed
    then obtain j where j: "j - 1 = 2 * ?n - 2 * ?x + k" "diag_of (d - 1) j" "?n \<le> at_k v off j" by blast
    from start_mono(1) [OF j(2) d(1), of v off] j(3) reach [of "j - 1"] show ?thesis by (auto simp: j(1))
  qed
  have lower_edge: "diag_of d (2 * ?x - k - 2 * ?m) \<and> 2 * ?x - k - ?m \<le> at_k v' off (2 * ?x - k - 2 * ?m)"
    if "?m < ?x - k"
  proof -
    have x: "?x = start_x v off d k" using past that by simp
    have "d \<noteq> 0" using assms(1) k x that by (auto simp: before_def diag_of_def start_x_def)
    then have d: "0 < d" "level ?n ?m off (d - 1) v" using assms(1,2) by (auto simp: before_def)
    have "\<exists>j. j + 1 = 2 * ?x - k - 2 * ?m \<and> diag_of (d - 1) j \<and> 2 * ?x - k - 1 - ?m \<le> at_k v off j"
      using k d(1)
    proof (cases rule: start_cases [of d k v off])
      case down
      show ?thesis
      proof (cases "?x - k - 1 = ?m")
        case True
        then show ?thesis using down x by (intro exI [of _ "k + 1"]) auto
      next
        case False
        then show ?thesis
          using level_at(6) [OF d(2) down(1)] down(2) x that
          by (intro exI [of _ "2 * ?x - (k + 1) - 2 * ?m"]) auto
      qed
    next
      case right
      then show ?thesis
        using level_at(6) [OF d(2) right(1)] x that
        by (intro exI [of _ "2 * (?x - 1) - (k - 1) - 2 * ?m"]) auto
    qed
    then obtain j where j: "j + 1 = 2 * ?x - k - 2 * ?m" "diag_of (d - 1) j" "2 * ?x - k - 1 - ?m \<le> at_k v off j" by blast
    from start_mono(2) [OF j(2) d(1), of v off] j(3) reach [of "j + 1"] show ?thesis by (auto simp: j(1))
  qed
  have e: "2 * ?n - ?x - (?x - k) = 2 * ?n - 2 * ?x + k" "?x + (?x - k) - 2 * ?m = 2 * ?x - k - 2 * ?m"
    "?x + (?x - k) - ?m = 2 * ?x - k - ?m" by simp_all
  show "0 \<le> ?x \<and> 0 \<le> ?x - k \<and> d \<le> ?x + (?x - k) \<and> \<not> (?n \<le> ?x \<and> ?m \<le> ?x - k)
      \<and> (?n < ?x \<longrightarrow> diag_of d (2 * ?n - ?x - (?x - k)) \<and> ?n \<le> at_k v' off (2 * ?n - ?x - (?x - k)))
      \<and> (?m < ?x - k \<longrightarrow> diag_of d (?x + (?x - k) - 2 * ?m) \<and> ?x + (?x - k) - ?m \<le> at_k v' off (?x + (?x - k) - 2 * ?m))"
    unfolding e
    using start_pos [OF assms(1,2) k] s out [OF k] right_edge lower_edge
    by (intro conjI impI) auto
qed

section \<open>The loops of the search\<close>

lemma at_k_update:
  assumes "- off \<le> j" and "- off \<le> k" and "nat (k + off) < length v"
  shows "at_k (v[nat (k + off) := x]) off j = (if j = k then x else at_k v off j)"
  using assms by (auto simp: at_k_def nth_list_update eq_nat_nat_iff)

lemma go_down_Ret:
  assumes "- off < k" and "k < off" and "length v = nat (2 * off + 1)"
  shows "go_down v off d k = Ret (k = - d \<or> k \<noteq> d \<and> at_k v off (k - 1) < at_k v off (k + 1))"
proof -
  have "index v (k - 1 + off) = Ret (at_k v off (k - 1))" "index v (k + 1 + off) = Ret (at_k v off (k + 1))"
    using assms by (simp_all add: index_Ret at_k_def)
  then show ?thesis by (simp add: go_down_def)
qed

lemma start_Ret:
  assumes "- off < k" and "k < off" and "length v = nat (2 * off + 1)"
  shows "rust_bind (go_down v off d k) (\<lambda>down.
      rust_bind (if down then index v (k + 1 + off) else rust_bind (index v (k - 1 + off)) (\<lambda>x. Ret (x + 1))) f)
    = f (start_x v off d k)"
proof -
  have "index v (k - 1 + off) = Ret (at_k v off (k - 1))" "index v (k + 1 + off) = Ret (at_k v off (k + 1))"
    using assms by (simp_all add: index_Ret at_k_def)
  then show ?thesis by (simp add: go_down_Ret [OF assms] start_x_def)
qed

definition reached :: "'a list \<Rightarrow> 'a list \<Rightarrow> int \<Rightarrow> int \<Rightarrow> bool" where
  "reached a b k x \<longleftrightarrow> int (length a) \<le> x \<and> int (length b) \<le> x - k"

lemma diagonals_run:
  assumes "before (int (length a)) (int (length b)) off d v0" and "0 \<le> d" and "d < off"
    and "length v0 = nat (2 * off + 1)" and "length v = length v0"
    and "\<forall>j. - off \<le> j \<and> j \<le> off \<and> odd (d - j) \<longrightarrow> at_k v off j = at_k v0 off j"
    and "\<forall>j. diag_of d j \<and> j < k \<longrightarrow> furthest a b off v0 d j (at_k v off j) \<and> \<not> reached a b j (at_k v off j)"
    and "- d \<le> k" and "even (d - k)"
  shows "\<exists>found v'. diagonals a b off d k v = Ret (found, v') \<and> length v' = length v0 \<and>
    (if found then \<exists>j x. diag_of d j \<and> furthest a b off v0 d j x \<and> reached a b j x
     else \<forall>j. diag_of d j \<longrightarrow> furthest a b off v0 d j (at_k v' off j) \<and> \<not> reached a b j (at_k v' off j))"
  using assms(5-)
proof (induction "nat (d + 1 - k)" arbitrary: k v rule: less_induct)
  case less
  show ?case
  proof (cases "k \<le> d")
    case False
    then have "\<forall>j. diag_of d j \<longrightarrow> j < k" by (auto simp: diag_of_def)
    with False less.prems show ?thesis
      by (intro exI [of _ False] exI [of _ v]) (simp add: diagonals.simps [of a b off d k v])
  next
    case True
    have k: "diag_of d k" "- off < k" "k < off" using True less.prems assms(3) by (auto simp: diag_of_def)
    have len: "length v = nat (2 * off + 1)" using less.prems assms(4) by simp
    have nb: "at_k v off (k - 1) = at_k v0 off (k - 1)" "at_k v off (k + 1) = at_k v0 off (k + 1)"
      using less.prems(2,5) k(2,3) by auto
    have start: "start_x v off d k = start_x v0 off d k" by (simp add: start_x_def nb)
    from follow_run [of "start_x v0 off d k" k a b] start_pos [OF assms(1,2) k(1)] obtain x where
      x: "follow a b (start_x v0 off d k) (start_x v0 off d k - k) = Ret (x, x - k)" "furthest a b off v0 d k x"
      by (auto simp: furthest_def)
    have idx: "as_usize (k + off) = nat (k + off)" "nat (k + off) < length v"
      using k len by (simp_all add: as_usize_def)
    let ?v = "v[nat (k + off) := x]"
    have step: "diagonals a b off d k v = (if reached a b k x then Ret (True, ?v) else diagonals a b off d (k + 2) ?v)"
      unfolding diagonals.simps [of a b off d k v]
      by (simp add: True start_Ret [OF k(2,3) len] start x(1) idx reached_def Let_def)
    show ?thesis
    proof (cases "reached a b k x")
      case True
      with step x(2) k(1) less.prems(1) show ?thesis by auto
    next
      case False
      have upd: "at_k ?v off j = (if j = k then x else at_k v off j)" if "- off \<le> j" for j
        using that k idx by (intro at_k_update) auto
      have "nat (d + 1 - (k + 2)) < nat (d + 1 - k)" using True by simp
      moreover have "length ?v = length v0" using less.prems(1) by simp
      moreover have "\<forall>j. - off \<le> j \<and> j \<le> off \<and> odd (d - j) \<longrightarrow> at_k ?v off j = at_k v0 off j"
        using less.prems(2,5) by (auto simp: upd)
      moreover have "\<forall>j. diag_of d j \<and> j < k + 2 \<longrightarrow> furthest a b off v0 d j (at_k ?v off j) \<and> \<not> reached a b j (at_k ?v off j)"
      proof (intro allI impI)
        fix j
        assume j: "diag_of d j \<and> j < k + 2"
        then have "- off \<le> j" using assms(3) by (auto simp: diag_of_def)
        moreover have "j = k \<or> j < k" using j less.prems(5) unfolding diag_of_def by presburger
        ultimately show "furthest a b off v0 d j (at_k ?v off j) \<and> \<not> reached a b j (at_k ?v off j)"
          using j x(2) False less.prems(3) by (auto simp: upd)
      qed
      moreover have "- d \<le> k + 2" "even (d - (k + 2))" using less.prems(4,5) by simp_all
      ultimately have "\<exists>found v'. diagonals a b off d (k + 2) ?v = Ret (found, v') \<and> length v' = length v0 \<and>
        (if found then \<exists>j x. diag_of d j \<and> furthest a b off v0 d j x \<and> reached a b j x
         else \<forall>j. diag_of d j \<longrightarrow> furthest a b off v0 d j (at_k v' off j) \<and> \<not> reached a b j (at_k v' off j))"
        by (rule less.hyps)
      then show ?thesis by (simp add: step False)
    qed
  qed
qed

text \<open>
  A recorded trace: the vector before distance zero is zero at diagonal one, and each later one
  holds the furthest points of the distance before it, computed from the vector before it.
\<close>

definition trace_ok :: "'a list \<Rightarrow> 'a list \<Rightarrow> int \<Rightarrow> int list list \<Rightarrow> bool" where
  "trace_ok a b off tr \<longleftrightarrow> (\<forall>e<length tr. length (tr ! e) = nat (2 * off + 1)
     \<and> before (int (length a)) (int (length b)) off (int e) (tr ! e)
     \<and> (0 < e \<longrightarrow> (\<forall>k. diag_of (int e - 1) k \<longrightarrow>
          furthest a b off (tr ! (e - 1)) (int e - 1) k (at_k (tr ! e) off k))))"

lemma trace_ok_snoc:
  assumes "trace_ok a b off tr" and "length v = nat (2 * off + 1)"
    and "before (int (length a)) (int (length b)) off (int (length tr)) v"
    and "tr \<noteq> [] \<Longrightarrow> \<forall>k. diag_of (int (length tr) - 1) k \<longrightarrow>
          furthest a b off (last tr) (int (length tr) - 1) k (at_k v off k)"
  shows "trace_ok a b off (tr @ [v])"
  unfolding trace_ok_def
proof (intro allI impI)
  fix e
  assume e: "e < length (tr @ [v])"
  show "length ((tr @ [v]) ! e) = nat (2 * off + 1)
     \<and> before (int (length a)) (int (length b)) off (int e) ((tr @ [v]) ! e)
     \<and> (0 < e \<longrightarrow> (\<forall>k. diag_of (int e - 1) k \<longrightarrow>
          furthest a b off ((tr @ [v]) ! (e - 1)) (int e - 1) k (at_k ((tr @ [v]) ! e) off k)))"
  proof (cases "e = length tr")
    case True
    have prev: "(tr @ [v]) ! (e - 1) = last tr" if "0 < e"
      using that True by (simp add: nth_append last_conv_nth)
    have here: "(tr @ [v]) ! e = v" using True by simp
    show ?thesis
    proof (cases "e = 0")
      case zero: True
      then show ?thesis unfolding here using assms(2,3) True by simp
    next
      case False
      then have "tr \<noteq> []" using True by auto
      with False show ?thesis unfolding here using assms(2-4) prev True by simp
    qed
  next
    case False
    with e have "e < length tr" by simp
    with assms(1) show ?thesis by (auto simp: trace_ok_def nth_append)
  qed
qed

lemma distances_run:
  assumes "off = int (length a) + int (length b) + 1" and "trace_ok a b off (tr @ [v])" and "d = int (length tr)" and "d < off"
  shows "\<exists>tr'. distances a b (off - 1) off d v tr = Ret tr' \<and> trace_ok a b off tr' \<and> tr' \<noteq> [] \<and> int (length tr') - 1 < off
    \<and> diag_of (int (length tr') - 1) (int (length a) - int (length b))
    \<and> furthest a b off (last tr') (int (length tr') - 1) (int (length a) - int (length b)) (int (length a))"
  using assms(2-)
proof (induction "nat (off - d)" arbitrary: d v tr rule: less_induct)
  case less
  let ?n = "int (length a)" and ?m = "int (length b)"
  have v: "length v = nat (2 * off + 1)" "before ?n ?m off d v" and d: "0 \<le> d"
    using less.prems(1) [unfolded trace_ok_def, rule_format, of "length tr"] less.prems(2) by simp_all
  have "\<forall>j. diag_of d j \<and> j < - d \<longrightarrow> furthest a b off v d j (at_k v off j) \<and> \<not> reached a b j (at_k v off j)"
    by (auto simp: diag_of_def)
  from diagonals_run [OF v(2) d less.prems(3) v(1) refl _ this] obtain found v' where
    run: "diagonals a b off d (- d) v = Ret (found, v')" and len: "length v' = length v" and
    res: "if found then \<exists>j x. diag_of d j \<and> furthest a b off v d j x \<and> reached a b j x
      else \<forall>j. diag_of d j \<longrightarrow> furthest a b off v d j (at_k v' off j) \<and> \<not> reached a b j (at_k v' off j)"
    by auto
  show ?case
  proof (cases found)
    case True
    with res obtain j x where j: "diag_of d j" "furthest a b off v d j x" "reached a b j x" by auto
    from furthest_corner [OF v(2) d j(1,2)] j(3) have "x = ?n" "j = ?n - ?m" by (auto simp: reached_def)
    moreover have "distances a b (off - 1) off d v tr = Ret (tr @ [v])"
      using run True less.prems(3) by (simp add: distances.simps [of a b "off - 1"] Let_def)
    ultimately show ?thesis using less.prems j by simp
  next
    case False
    with res have far: "\<And>j. diag_of d j \<Longrightarrow> furthest a b off v d j (at_k v' off j)"
      and out: "\<And>j. diag_of d j \<Longrightarrow> \<not> reached a b j (at_k v' off j)" by auto
    have lev: "level ?n ?m off d v'"
      by (rule level_next [OF v(2) d far]) (use out in \<open>auto simp: reached_def\<close>)
    have "d + 1 < off"
    proof (rule ccontr)
      assume "\<not> d + 1 < off"
      then have e: "d = ?n + ?m" using less.prems(3) assms(1) by simp
      then have c: "diag_of d (?n - ?m)" by (simp add: diag_of_def)
      from level_at(3) [OF lev c] e out [OF c] show False by (auto simp: reached_def)
    qed
    have ok: "trace_ok a b off ((tr @ [v]) @ [v'])"
    proof (rule trace_ok_snoc [OF less.prems(1)])
      show "length v' = nat (2 * off + 1)" using len v(1) by simp
      show "before ?n ?m off (int (length (tr @ [v]))) v'" using lev less.prems(2) by (simp add: before_def)
      show "\<forall>k. diag_of (int (length (tr @ [v])) - 1) k \<longrightarrow>
          furthest a b off (last (tr @ [v])) (int (length (tr @ [v])) - 1) k (at_k v' off k)"
        using far less.prems(2) by simp
    qed
    have "nat (off - (d + 1)) < nat (off - d)" using \<open>d + 1 < off\<close> by simp
    from less.hyps [OF this ok _ \<open>d + 1 < off\<close>] less.prems(2) obtain tr' where
      tr': "distances a b (off - 1) off (d + 1) v' (tr @ [v]) = Ret tr'" "trace_ok a b off tr'" "tr' \<noteq> []" "int (length tr') - 1 < off"
      "diag_of (int (length tr') - 1) (?n - ?m)" "furthest a b off (last tr') (int (length tr') - 1) (?n - ?m) ?n"
      by auto
    have "distances a b (off - 1) off d v tr = distances a b (off - 1) off (d + 1) v' (tr @ [v])"
      using run False less.prems(3) by (simp add: distances.simps [of a b "off - 1" off d v] Let_def)
    with tr' show ?thesis by auto
  qed
qed

lemma myers_trace_ok:
  fixes a b :: "'a list"
  defines "off \<equiv> int (length a) + int (length b) + 1"
  shows "\<exists>tr. myers_trace a b = Ret tr \<and> trace_ok a b off tr \<and> tr \<noteq> [] \<and> int (length tr) - 1 < off
    \<and> diag_of (int (length tr) - 1) (int (length a) - int (length b))
    \<and> furthest a b off (last tr) (int (length tr) - 1) (int (length a) - int (length b)) (int (length a))"
proof -
  let ?v = "replicate (nat (2 * off + 1)) (0 :: int)"
  have "at_k ?v off 1 = 0" by (simp add: at_k_def off_def)
  then have "trace_ok a b off ([] @ [?v])" by (intro trace_ok_snoc) (simp_all add: trace_ok_def before_def)
  then have "\<exists>tr. distances a b (off - 1) off 0 ?v [] = Ret tr \<and> trace_ok a b off tr \<and> tr \<noteq> [] \<and> int (length tr) - 1 < off
    \<and> diag_of (int (length tr) - 1) (int (length a) - int (length b))
    \<and> furthest a b off (last tr) (int (length tr) - 1) (int (length a) - int (length b)) (int (length a))"
    by (intro distances_run) (simp_all add: off_def)
  moreover have "myers_trace a b = distances a b (off - 1) off 0 ?v []"
    by (simp add: myers_trace_def off_def Let_def algebra_simps)
  ultimately show ?thesis by simp
qed

section \<open>The edit script\<close>

text \<open>A script that leads from line \<open>i\<close> of the old and line \<open>j\<close> of the new text to the end of both.\<close>

fun script :: "'a list \<Rightarrow> 'a list \<Rightarrow> nat \<Rightarrow> nat \<Rightarrow> Step list \<Rightarrow> bool" where
  "script a b i j [] = (i = length a \<and> j = length b)"
| "script a b i j (Eq i' # ss) = (i' = i \<and> i < length a \<and> j < length b \<and> a ! i = b ! j \<and> script a b (Suc i) (Suc j) ss)"
| "script a b i j (Del i' # ss) = (i' = i \<and> i < length a \<and> script a b (Suc i) j ss)"
| "script a b i j (Ins j' # ss) = (j' = j \<and> j < length b \<and> script a b i (Suc j) ss)"

lemma walk_diagonal_run:
  assumes "common_run a b k s x" and "s = max px (py + k)" and "script a b (nat x) (nat (x - k)) (rev steps)"
  shows "\<exists>steps'. walk_diagonal px py x (x - k) steps = (s, s - k, steps') \<and> script a b (nat s) (nat (s - k)) (rev steps')"
  using assms(1,3)
proof (induction "nat (x - s)" arbitrary: x steps rule: less_induct)
  case less
  show ?case
  proof (cases "x = s")
    case True
    then have "\<not> (x > px \<and> x - k > py)" using assms(2) by auto
    then have "walk_diagonal px py x (x - k) steps = (x, x - k, steps)"
      by (subst walk_diagonal.simps) (simp only: if_False)
    with True less.prems(2) show ?thesis by simp
  next
    case False
    then have x: "s < x" using less.prems(1) by (simp add: common_run_def)
    then have eq: "0 \<le> x - 1" "x - 1 < int (length a)" "0 \<le> x - 1 - k" "x - 1 - k < int (length b)"
      "a ! nat (x - 1) = b ! nat (x - 1 - k)"
      using less.prems(1) [unfolded common_run_def, THEN conjunct2, rule_format, of "x - 1"] by auto
    have "common_run a b k s (x - 1)" using less.prems(1) x by (auto simp: common_run_def)
    moreover have "script a b (nat (x - 1)) (nat (x - 1 - k)) (rev (steps @ [Eq (nat (x - 1))]))"
    proof -
      have "Suc (nat (x - 1)) = nat x" "Suc (nat (x - 1 - k)) = nat (x - k)" "nat (x - 1) < length a"
        "nat (x - 1 - k) < length b" using eq by linarith+
      with eq less.prems(2) show ?thesis by simp
    qed
    moreover have "nat (x - 1 - s) < nat (x - s)" using x by simp
    ultimately obtain steps' where "walk_diagonal px py (x - 1) (x - 1 - k) (steps @ [Eq (nat (x - 1))]) = (s, s - k, steps')"
      "script a b (nat s) (nat (s - k)) (rev steps')"
      using less.hyps [of "x - 1"] by blast
    moreover have "px < x \<and> py < x - k" using x assms(2) by auto
    moreover have "walk_diagonal px py x (x - k) steps = walk_diagonal px py (x - 1) (x - 1 - k) (steps @ [Eq (nat (x - 1))])"
      if "px < x \<and> py < x - k"
      using that eq(1) by (subst walk_diagonal.simps) (simp add: as_usize_def algebra_simps)
    ultimately show ?thesis by auto
  qed
qed

lemma walk_back_run:
  fixes a b :: "'a list"
  defines "off \<equiv> int (length a) + int (length b) + 1"
  assumes "trace_ok a b off tr" and "d < length tr" and "diag_of (int d) (x - y)" and "int d < off"
    and "furthest a b off (tr ! d) (int d) (x - y) x" and "x \<le> int (length a)" and "y \<le> int (length b)"
    and "script a b (nat x) (nat y) (rev steps)"
  shows "\<exists>x' steps'. walk_back tr off d x y steps = Ret (x', x', steps') \<and> common_run a b 0 0 x'
    \<and> script a b (nat x') (nat x') (rev steps')"
  using assms(3-)
proof (induction d arbitrary: x y steps)
  case 0
  then have v: "before (int (length a)) (int (length b)) off 0 (tr ! 0)"
    using assms(2) by (auto simp: trace_ok_def)
  have "x = y" using "0.prems" by simp
  moreover from this "0.prems" v have "common_run a b 0 0 x"
    by (simp add: furthest_def start_x_def before_def)
  ultimately show ?case using "0.prems" by simp
next
  case (Suc d)
  let ?n = "int (length a)" and ?m = "int (length b)"
  let ?v = "tr ! Suc d" and ?k = "x - y" and ?d = "int (Suc d)"
  have v: "length ?v = nat (2 * off + 1)" "before ?n ?m off ?d ?v"
    and prev: "\<And>k. diag_of (int d) k \<Longrightarrow> furthest a b off (tr ! d) (int d) k (at_k ?v off k)"
    using assms(2) Suc.prems(1) by (auto simp: trace_ok_def)
  then have lev: "level ?n ?m off (int d) ?v" by (simp add: before_def)
  have k: "- off < ?k" "?k < off" using Suc.prems(2,3) by (auto simp: diag_of_def)
  define sx where "sx = start_x ?v off ?d ?k"
  have s: "sx \<le> x" using Suc.prems(4) by (simp add: furthest_def common_run_def sx_def)
  define down where "down \<longleftrightarrow> ?k = - ?d \<or> ?k \<noteq> ?d \<and> at_k ?v off (?k - 1) < at_k ?v off (?k + 1)"
  define pk where "pk = (if down then ?k + 1 else ?k - 1)"
  define px where "px = at_k ?v off pk"
  have start: "px = (if down then sx else sx - 1)" by (simp add: sx_def start_x_def down_def pk_def px_def)
  have pk: "diag_of (int d) pk"
    using Suc.prems(2) down_def unfolding diag_of_def pk_def by (cases down) (auto, presburger+)
  have l: "0 \<le> px" "pk \<le> px" using level_at(1,2) [OF lev pk] by (simp_all add: px_def)
  have "index tr ?d = Ret (tr ! nat ?d)" using Suc.prems(1) by (intro index_Ret) simp_all
  moreover have "nat ?d = Suc d" by simp
  ultimately have read: "index tr ?d = Ret ?v" by (simp only:)
  have reads: "go_down ?v off ?d ?k = Ret down" "index ?v (pk + off) = Ret px"
    using go_down_Ret [OF k v(1), of ?d] k v(1) pk Suc.prems(3)
    by (auto simp: index_Ret down_def px_def at_k_def diag_of_def)
  have "\<exists>steps'. walk_diagonal px (px - pk) x (x - ?k) steps = (sx, sx - ?k, steps')
      \<and> script a b (nat sx) (nat (sx - ?k)) (rev steps')"
    by (rule walk_diagonal_run) (use Suc.prems start in \<open>auto simp: furthest_def pk_def sx_def\<close>)
  then obtain st where st: "walk_diagonal px (px - pk) x y steps = (sx, sx - ?k, st)"
    "script a b (nat sx) (nat (sx - ?k)) (rev st)" by auto
  define st' where "st' = st @ [if down then Ins (nat (sx - ?k - 1)) else Del (nat (sx - 1))]"
  have point: "px = (if down then sx else sx - 1)" "px - pk = (if down then sx - ?k - 1 else sx - ?k)"
    by (simp_all add: start pk_def)
  have scr: "script a b (nat px) (nat (px - pk)) (rev st')"
  proof (cases down)
    case True
    then have "Suc (nat (sx - ?k - 1)) = nat (sx - ?k)" "nat (sx - ?k - 1) < length b"
      using l s Suc.prems(6) point by (auto simp: nat_less_iff Suc_nat_eq_nat_zadd1)
    with True st(2) show ?thesis unfolding point(2) unfolding point(1) by (simp add: st'_def)
  next
    case False
    then have "Suc (nat (sx - 1)) = nat sx" "nat (sx - 1) < length a"
      using l s Suc.prems(5) point by (auto simp: nat_less_iff Suc_nat_eq_nat_zadd1)
    with False st(2) show ?thesis unfolding point(2) unfolding point(1) by (simp add: st'_def)
  qed
  have cont: "walk_back tr off (Suc d) x y steps = walk_back tr off d px (px - pk) st'"
  proof (cases down)
    case True
    then have "sx - ?k > 0" "as_usize (sx - ?k - 1) = nat (sx - ?k - 1)"
      using l point by (auto simp: as_usize_def)
    with True read reads st(1) show ?thesis by (simp add: pk_def st'_def Let_def)
  next
    case False
    then have "sx > 0" "as_usize (sx - 1) = nat (sx - 1)"
      using l point by (auto simp: as_usize_def)
    with False read reads st(1) show ?thesis by (simp add: pk_def st'_def Let_def)
  qed
  have "px \<le> ?n" "px - pk \<le> ?m" using point s Suc.prems(5,6) by (auto split: if_splits)
  moreover have "px - (px - pk) = pk" by simp
  ultimately show ?case
    unfolding cont using Suc.IH [of px "px - pk" st'] Suc.prems(1,3) pk prev [OF pk] scr by (simp add: px_def)
qed

section \<open>Operations\<close>

fun line_op_ok :: "nat \<Rightarrow> DiffOp \<Rightarrow> bool" where
  "line_op_ok n (Equal i len) = (i + len \<le> n)"
| "line_op_ok n (Delete i len) = (i + len \<le> n)"
| "line_op_ok n (Insert ls) = True"

text \<open>The lines an operation leaves in the new text.\<close>

fun op_lines :: "str list \<Rightarrow> DiffOp \<Rightarrow> str list" where
  "op_lines a (Equal i len) = slice i (i + len) a"
| "op_lines a (Delete i len) = []"
| "op_lines a (Insert ls) = ls"

definition ops_lines :: "str list \<Rightarrow> DiffOp list \<Rightarrow> str list" where
  "ops_lines a ops = concat (map (op_lines a) ops)"

text \<open>The lines of the old text an operation passes over.\<close>

fun op_old :: "str list \<Rightarrow> DiffOp \<Rightarrow> str list" where
  "op_old a (Equal i len) = slice i (i + len) a"
| "op_old a (Delete i len) = slice i (i + len) a"
| "op_old a (Insert ls) = []"

definition ops_old :: "str list \<Rightarrow> DiffOp list \<Rightarrow> str list" where
  "ops_old a ops = concat (map (op_old a) ops)"

lemma ops_lines_append [simp]: "ops_lines a (xs @ ys) = ops_lines a xs @ ops_lines a ys"
  by (simp add: ops_lines_def)

lemma apply_line_ops_exact:
  assumes "list_all (line_op_ok (length (split_lines old))) ops" and "length (split_lines old) < 2 ^ 64"
  shows "apply_line_ops old ops = Inr (concat (ops_lines (split_lines old) ops))"
proof -
  have "apply_ops_loop (split_lines old) out ops = Inr (out @ concat (ops_lines (split_lines old) ops))" for out
    using assms(1)
  proof (induction ops arbitrary: out)
    case (Cons op ops)
    then show ?case
      using assms(2) by (cases op) (auto simp: ops_lines_def checked_add_usize_def)
  qed (simp add: ops_lines_def)
  then show ?thesis by (simp add: apply_line_ops_def)
qed

text \<open>The lines a step leaves, and what merging it into the operations does.\<close>

fun step_lines :: "str list \<Rightarrow> str list \<Rightarrow> Step \<Rightarrow> str list" where
  "step_lines a b (Eq i) = [a ! i]"
| "step_lines a b (Del i) = []"
| "step_lines a b (Ins j) = [b ! j]"

fun step_old :: "str list \<Rightarrow> Step \<Rightarrow> str list" where
  "step_old a (Eq i) = [a ! i]"
| "step_old a (Del i) = [a ! i]"
| "step_old a (Ins j) = []"

fun step_ok :: "nat \<Rightarrow> nat \<Rightarrow> Step \<Rightarrow> bool" where
  "step_ok n m (Eq i) = (i < n)"
| "step_ok n m (Del i) = (i < n)"
| "step_ok n m (Ins j) = (j < m)"

lemma slice_snoc: "i + len < length a \<Longrightarrow> slice i (Suc (i + len)) a = slice i (i + len) a @ [a ! (i + len)]"
proof -
  assume "i + len < length a"
  then have "take (Suc len) (drop i a) = take len (drop i a) @ [drop i a ! len]"
    by (intro take_Suc_conv_app_nth) simp
  with \<open>i + len < length a\<close> show ?thesis by (simp add: slice_def Suc_diff_le)
qed

lemma last_op_cases: "last_op ops = None \<and> ops = [] \<or> (\<exists>os op. ops = os @ [op] \<and> last_op ops = Some op)"
  by (cases ops rule: rev_cases) (simp_all add: last_op_def)

lemma coalesce_run:
  assumes "list_all (line_op_ok (length a)) ops" and "step_ok (length a) (length b) st"
  shows "\<exists>ops'. coalesce b st ops = Ret ops' \<and> list_all (line_op_ok (length a)) ops'
    \<and> ops_lines a ops' = ops_lines a ops @ step_lines a b st \<and> ops_old a ops' = ops_old a ops @ step_old a st"
  using last_op_cases [of ops]
proof (elim disjE conjE exE)
  assume "last_op ops = None" "ops = []"
  then show ?thesis
    using assms by (cases st) (simp_all add: coalesce_def ops_lines_def ops_old_def slice_def take_Suc hd_drop_conv_nth)
next
  fix os op
  assume op: "ops = os @ [op]" "last_op ops = Some op"
  have one: "slice i (Suc i) a = [a ! i]" if "i < length a" for i
    using slice_snoc [of i 0 a] that by (simp add: slice_def)
  show ?thesis
  proof (cases st)
    case (Eq i)
    then show ?thesis
      using assms op one [of i] by (cases op) (auto simp: coalesce_def ops_lines_def ops_old_def slice_snoc)
  next
    case (Del i)
    then show ?thesis
      using assms op one [of i] by (cases op) (auto simp: coalesce_def ops_lines_def ops_old_def slice_snoc)
  next
    case (Ins j)
    then show ?thesis
      using assms op by (cases op) (auto simp: coalesce_def ops_lines_def ops_old_def)
  qed
qed

lemma coalesce_all_run:
  assumes "list_all (line_op_ok (length a)) ops" and "script a b i j ss"
  shows "\<exists>ops'. coalesce_all b ss ops = Ret ops' \<and> list_all (line_op_ok (length a)) ops'
    \<and> ops_lines a ops' = ops_lines a ops @ drop j b \<and> ops_old a ops' = ops_old a ops @ drop i a"
  using assms
proof (induction ss arbitrary: ops i j)
  case (Cons s ss)
  have "step_ok (length a) (length b) s" using Cons.prems(2) by (cases s) auto
  from coalesce_run [OF Cons.prems(1) this] obtain ops1 where ops1: "coalesce b s ops = Ret ops1"
    "list_all (line_op_ok (length a)) ops1" "ops_lines a ops1 = ops_lines a ops @ step_lines a b s"
    "ops_old a ops1 = ops_old a ops @ step_old a s" by blast
  obtain i' j' where "script a b i' j' ss" "step_lines a b s @ drop j' b = drop j b" "step_old a s @ drop i' a = drop i a"
    using Cons.prems(2) Cons_nth_drop_Suc [of i a] Cons_nth_drop_Suc [of j b] by (cases s) auto
  with Cons.IH [OF ops1(2)] ops1 show ?case by fastforce
qed auto

lemma rest_none: "rest_ins 0 steps = steps" "rest_del 0 steps = steps"
  by (simp_all add: rest_ins.simps rest_del.simps)

lemma diff_lines_run:
  "\<exists>ops. diff_lines old new = Ret ops \<and> list_all (line_op_ok (length (split_lines old))) ops
     \<and> ops_lines (split_lines old) ops = split_lines new \<and> ops_old (split_lines old) ops = split_lines old"
proof -
  let ?a = "split_lines old" and ?b = "split_lines new"
  let ?n = "int (length ?a)" and ?m = "int (length ?b)"
  let ?off = "?n + ?m + 1"
  from myers_trace_ok [of ?a ?b] obtain tr where tr: "myers_trace ?a ?b = Ret tr" "trace_ok ?a ?b ?off tr" "tr \<noteq> []"
    "int (length tr) - 1 < ?off" "diag_of (int (length tr) - 1) (?n - ?m)"
    "furthest ?a ?b ?off (last tr) (int (length tr) - 1) (?n - ?m) ?n" by blast
  from tr(3) obtain d where d: "length tr = Suc d" by (cases tr) auto
  with tr have last: "last tr = tr ! d" "int (length tr) - 1 = int d" by (simp_all add: last_conv_nth)
  have "\<exists>x steps. walk_back tr ?off d ?n ?m [] = Ret (x, x, steps) \<and> common_run ?a ?b 0 0 x
      \<and> script ?a ?b (nat x) (nat x) (rev steps)"
    by (rule walk_back_run) (use tr d last in simp_all)
  then obtain x steps where walk: "walk_back tr ?off d ?n ?m [] = Ret (x, x, steps)" "common_run ?a ?b 0 0 x"
    "script ?a ?b (nat x) (nat (x - 0)) (rev steps)" by auto
  from walk_diagonal_run [OF walk(2) _ walk(3), of 0 0] obtain steps' where
    rest: "walk_diagonal 0 0 x x steps = (0, 0, steps')" "script ?a ?b 0 0 (rev steps')" by auto
  from coalesce_all_run [OF _ rest(2), of "[]"] obtain ops where
    "coalesce_all ?b (rev steps') [] = Ret ops" "list_all (line_op_ok (length ?a)) ops" "ops_lines ?a ops = ?b"
    "ops_old ?a ops = ?a" by (auto simp: ops_lines_def ops_old_def)
  then show ?thesis
    using tr(1) walk(1) rest(1) d by (simp add: diff_lines_def backtrack_to_ops_def rest_none Let_def)
qed

section \<open>Properties\<close>

text \<open>
  C13. The line diff is correct and total: for any two texts the search, with every index
  checked, returns an edit script without a panic, and applying the script to the old text
  yields the new text exactly.
\<close>

theorem diff_lines_correct:
  assumes "length old < 2 ^ 63"
  shows "\<exists>ops. diff_lines old new = Ret ops \<and> apply_line_ops old ops = Inr new"
proof -
  obtain ops where ops: "diff_lines old new = Ret ops" "list_all (line_op_ok (length (split_lines old))) ops"
    "ops_lines (split_lines old) ops = split_lines new" using diff_lines_run by blast
  have "length (split_lines old) < 2 ^ 64"
    using assms length_split_lines [of old] by simp
  from apply_line_ops_exact [OF ops(2) this] ops show ?thesis by simp
qed

theorem diff_lines_correct_witness:
  "\<exists>ops. diff_lines (lit ''ab'') (lit ''b'') = Ret ops \<and> apply_line_ops (lit ''ab'') ops = Inr (lit ''b'')"
  by (rule diff_lines_correct) (simp add: lit_def)

end
