(* ===== verification/Diff_Unified.thy ===== *)
theory Diff_Unified
  imports Diff_Lines
begin

text \<open>
  The unified text format of \<^verbatim>\<open>components/ath_diff/src/lib.rs\<close>: grouping the edit script into
  hunks with context, printing them, parsing a patch and applying it. Positions and counts
  are naturals; the two places where the number of context lines takes part in arithmetic
  wrap at 64 bits as in the source. The outer loop of the printer may then not advance, so it
  is a partial function: \<open>None\<close> stands for a call that does not return.
\<close>

section \<open>Strings\<close>

definition trim_end_nl :: "str \<Rightarrow> str" where
  "trim_end_nl s = rev (dropWhile (\<lambda>c. c = 10) (rev s))"

text \<open>\<^verbatim>\<open>split_inclusive\<close> at line feeds cuts where \<^verbatim>\<open>split_lines\<close> does and yields no empty last piece.\<close>

definition split_inclusive_nl :: "str \<Rightarrow> str list" where
  "split_inclusive_nl s = split_lines s"

fun str_split_from :: "nat \<Rightarrow> str \<Rightarrow> str \<Rightarrow> str list" where
  "str_split_from sep cur [] = [cur]"
| "str_split_from sep cur (c # cs) =
     (if c = sep then cur # str_split_from sep [] cs else str_split_from sep (cur @ [c]) cs)"

definition str_split :: "nat \<Rightarrow> str \<Rightarrow> str list" where
  "str_split sep s = str_split_from sep [] s"

text \<open>\<^verbatim>\<open>find\<close> of a string and the slice before what was found.\<close>

fun before_str :: "str \<Rightarrow> str \<Rightarrow> str option" where
  "before_str pat [] = (if pat = [] then Some [] else None)"
| "before_str pat (c # cs) =
     (if take (length pat) (c # cs) = pat then Some [] else map_option ((#) c) (before_str pat cs))"

section \<open>Hunks\<close>

datatype Tag = Context | Removed | Added

record Hunk =
  old_start :: nat
  old_len :: nat
  new_start :: nat
  new_len :: nat
  hunk_lines :: "(Tag \<times> str) list"

record Patch =
  hunks :: "Hunk list"

datatype Tagged = TCtx str | TDel str | TIns str

fun is_change :: "Tagged \<Rightarrow> bool" where
  "is_change (TCtx l) = False"
| "is_change (TDel l) = True"
| "is_change (TIns l) = True"

text \<open>The edit script as one entry per line; \<open>ni\<close> counts lines of the new text.\<close>

definition tag_op :: "str list \<Rightarrow> str list \<Rightarrow> DiffOp \<Rightarrow> nat \<Rightarrow> Tagged list \<times> nat" where
  "tag_op a b op ni =
     (case op of
        Equal start len \<Rightarrow>
          (concat (map (\<lambda>i. if i < length a then [TCtx (a ! i)] else []) [start..<start + len]), ni + len)
      | Delete start len \<Rightarrow>
          (concat (map (\<lambda>i. if i < length a then [TDel (a ! i)] else []) [start..<start + len]), ni)
      | Insert ls \<Rightarrow>
          (concat (map (\<lambda>i. if i < length b then [TIns (b ! i)] else []) [ni..<ni + length ls]), ni + length ls))"

fun tag_ops :: "str list \<Rightarrow> str list \<Rightarrow> DiffOp list \<Rightarrow> nat \<Rightarrow> Tagged list" where
  "tag_ops a b [] ni = []"
| "tag_ops a b (op # ops) ni = (let (ts, ni) = tag_op a b op ni in ts @ tag_ops a b ops ni)"

text \<open>The end of a hunk: changes that at most twice the context apart are merged.\<close>

function skip_context :: "Tagged list \<Rightarrow> nat \<Rightarrow> nat" where
  "skip_context ts k = (if k < length ts \<and> \<not> is_change (ts ! k) then skip_context ts (k + 1) else k)"
  by pat_completeness auto
termination
  by (relation "measure (\<lambda>(ts, k). length ts - k)") auto

declare skip_context.simps [simp del]

lemma skip_context_le: "k \<le> skip_context ts k"
proof (induction ts k rule: skip_context.induct)
  case (1 ts k)
  then show ?case by (subst skip_context.simps) (auto dest: Suc_leD)
qed

function grow_hunk :: "nat \<Rightarrow> Tagged list \<Rightarrow> nat \<Rightarrow> nat \<Rightarrow> nat" where
  "grow_hunk context_lines ts hunk_end j =
     (if j < length ts then
        if is_change (ts ! j) then grow_hunk context_lines ts j (j + 1)
        else let k = skip_context ts j; gap = k - j in
          if k < length ts \<and> gap \<le> context_lines * 2 mod 2 ^ 64 then grow_hunk context_lines ts hunk_end k
          else hunk_end
      else hunk_end)"
  by pat_completeness auto
termination
proof (relation "measure (\<lambda>(c, ts, e, j). length ts - j)", goal_cases)
  case (3 c ts e j k gap)
  then have "skip_context ts j = skip_context ts (j + 1)" by (subst skip_context.simps) simp
  with 3 skip_context_le [of "j + 1" ts] have "j < k" "k < length ts" by simp_all
  then show ?case by simp
qed simp_all

declare grow_hunk.simps [simp del]

section \<open>Printing\<close>

text \<open>The decimal digits of a number, written from the end of a buffer of twenty bytes.\<close>

fun usize_digits :: "nat \<Rightarrow> nat \<Rightarrow> str \<Rightarrow> str rust" where
  "usize_digits i v buf =
     (if v = 0 then Ret buf
      else case i of 0 \<Rightarrow> Panic | Suc i \<Rightarrow> usize_digits i (v div 10) ((48 + v mod 10) # buf))"

declare usize_digits.simps [simp del]

definition push_usize :: "str \<Rightarrow> nat \<Rightarrow> str rust" where
  "push_usize out v =
     (if v = 0 then Ret (out @ [48]) else rust_bind (usize_digits 20 v []) (\<lambda>ds. Ret (out @ ds)))"

definition no_newline :: str where
  "no_newline = 92 # lit '' No newline at end of file'' @ [10]"

definition push_body_line :: "str \<Rightarrow> nat \<Rightarrow> str \<Rightarrow> str" where
  "push_body_line out marker content =
     (let out = out @ [marker] @ content in
      if content \<noteq> [] \<and> last content = 10 then out else out @ [10] @ no_newline)"

fun push_tagged :: "str \<Rightarrow> Tagged \<Rightarrow> str" where
  "push_tagged body (TCtx l) = push_body_line body 32 l"
| "push_tagged body (TDel l) = push_body_line body 45 l"
| "push_tagged body (TIns l) = push_body_line body 43 l"

definition old_count :: "Tagged list \<Rightarrow> nat" where
  "old_count ts = length (filter (\<lambda>t. case t of TIns l \<Rightarrow> False | _ \<Rightarrow> True) ts)"

definition new_count :: "Tagged list \<Rightarrow> nat" where
  "new_count ts = length (filter (\<lambda>t. case t of TDel l \<Rightarrow> False | _ \<Rightarrow> True) ts)"

definition push_hunk :: "Tagged list \<Rightarrow> nat \<Rightarrow> nat \<Rightarrow> str \<Rightarrow> str rust" where
  "push_hunk ts hunk_start hunk_tail out =
     (if hunk_start > length ts \<or> hunk_start > hunk_tail \<or> hunk_tail > length ts then Panic
      else
        let prior = take hunk_start ts; inner = slice hunk_start hunk_tail ts;
            body = foldl push_tagged [] inner;
            old_st = (if old_count inner = 0 then old_count prior else old_count prior + 1);
            new_st = (if new_count inner = 0 then new_count prior else new_count prior + 1)
        in rust_bind (push_usize (out @ lit ''@@ -'') old_st) (\<lambda>out.
           rust_bind (push_usize (out @ lit '','') (old_count inner)) (\<lambda>out.
           rust_bind (push_usize (out @ lit '' +'') new_st) (\<lambda>out.
           rust_bind (push_usize (out @ lit '','') (new_count inner)) (\<lambda>out.
           Ret (out @ lit '' @@'' @ [10] @ body))))))"

partial_function (option) unified_loop :: "nat \<Rightarrow> Tagged list \<Rightarrow> nat \<Rightarrow> str \<Rightarrow> str rust option" where
  "unified_loop context_lines ts idx out =
     (if idx < length ts then
        if \<not> is_change (ts ! idx) then unified_loop context_lines ts (idx + 1) out
        else
          let hunk_start = idx - context_lines;
              hunk_end = grow_hunk context_lines ts idx idx;
              hunk_tail = min ((hunk_end + 1 + context_lines) mod 2 ^ 64) (length ts)
          in case push_hunk ts hunk_start hunk_tail out of
               Ret out \<Rightarrow> unified_loop context_lines ts hunk_tail out
             | Panic \<Rightarrow> Some Panic
      else Some (Ret out))"

declare unified_loop.simps [code]

definition unified_diff :: "str \<Rightarrow> str \<Rightarrow> nat \<Rightarrow> str rust option" where
  "unified_diff old new context_lines =
     (let a = split_lines old; b = split_lines new in
      case diff_lines old new of
        Panic \<Rightarrow> Some Panic
      | Ret ops \<Rightarrow>
          let tagged = tag_ops a b ops 0 in
          if \<not> list_ex is_change tagged then Some (Ret []) else unified_loop context_lines tagged 0 [])"

section \<open>Parsing\<close>

fun decimal_value :: "nat \<Rightarrow> str \<Rightarrow> DiffError + nat" where
  "decimal_value v [] = Inr v"
| "decimal_value v (c # cs) =
     (if \<not> (48 \<le> c \<and> c \<le> 57) then Inl BadHunkHeader
      else if v * 10 \<ge> 2 ^ 64 \<or> v * 10 + (c - 48) \<ge> 2 ^ 64 then Inl BadHunkHeader
      else decimal_value (v * 10 + (c - 48)) cs)"

definition parse_usize :: "str \<Rightarrow> DiffError + nat" where
  "parse_usize s = (if s = [] then Inl BadHunkHeader else decimal_value 0 s)"

definition parse_range :: "str \<Rightarrow> DiffError + nat \<times> nat" where
  "parse_range s =
     (case split_once 44 s of
        Some (a, b) \<Rightarrow> sum_bind (parse_usize a) (\<lambda>start. sum_bind (parse_usize b) (\<lambda>len. Inr (start, len)))
      | None \<Rightarrow> sum_bind (parse_usize s) (\<lambda>start. Inr (start, 1)))"

definition parse_hunk_header :: "str \<Rightarrow> DiffError + Hunk" where
  "parse_hunk_header line =
     (case str_strip_prefix (lit ''@@ '') (trim_end_nl line) of
        None \<Rightarrow> Inl BadHunkHeader
      | Some rest \<Rightarrow>
          (case before_str (lit '' @@'') rest of
             None \<Rightarrow> Inl BadHunkHeader
           | Some spec \<Rightarrow>
               (case str_split 32 spec of
                  [old_part, new_part] \<Rightarrow>
                    (case (str_strip_prefix (lit ''-'') old_part, str_strip_prefix (lit ''+'') new_part) of
                       (Some old, Some new) \<Rightarrow>
                         sum_bind (parse_range old) (\<lambda>(os, ol).
                         sum_bind (parse_range new) (\<lambda>(ns, nl).
                         Inr \<lparr>old_start = os, old_len = ol, new_start = ns, new_len = nl, hunk_lines = []\<rparr>))
                     | _ \<Rightarrow> Inl BadHunkHeader)
                | _ \<Rightarrow> Inl BadHunkHeader)))"

record ParseState =
  ps_hunks :: "Hunk list"
  ps_cur :: "Hunk option"
  seen_old :: nat
  seen_new :: nat

definition finish_hunk :: "ParseState \<Rightarrow> DiffError + ParseState" where
  "finish_hunk s =
     (case ps_cur s of
        None \<Rightarrow> Inr s
      | Some h \<Rightarrow>
          if seen_old s \<noteq> old_len h \<or> seen_new s \<noteq> new_len h then Inl Truncated
          else Inr (s\<lparr>ps_hunks := ps_hunks s @ [h], ps_cur := None\<rparr>))"

text \<open>\<^verbatim>\<open>if prev.ends_with('\n')\<close> then \<^verbatim>\<open>prev.pop()\<close> on the last line of the hunk.\<close>

definition strip_last_nl :: "(Tag \<times> str) list \<Rightarrow> (Tag \<times> str) list" where
  "strip_last_nl ls =
     (if ls = [] then ls
      else let (t, prev) = last ls in
        if prev \<noteq> [] \<and> last prev = 10 then butlast ls @ [(t, butlast prev)] else ls)"

definition parse_line :: "str \<Rightarrow> ParseState \<Rightarrow> DiffError + ParseState" where
  "parse_line line s =
     (if take 2 line = lit ''@@'' then
        sum_bind (finish_hunk s) (\<lambda>s.
        sum_bind (parse_hunk_header line) (\<lambda>h.
        Inr (s\<lparr>ps_cur := Some h, seen_old := 0, seen_new := 0\<rparr>)))
      else case ps_cur s of
        None \<Rightarrow> Inr s
      | Some h \<Rightarrow>
          (case line of
             [] \<Rightarrow> Inr s
           | marker # content \<Rightarrow>
               if marker = 32 then
                 Inr (s\<lparr>ps_cur := Some (h\<lparr>hunk_lines := hunk_lines h @ [(Context, content)]\<rparr>),
                        seen_old := seen_old s + 1, seen_new := seen_new s + 1\<rparr>)
               else if marker = 45 then
                 Inr (s\<lparr>ps_cur := Some (h\<lparr>hunk_lines := hunk_lines h @ [(Removed, content)]\<rparr>),
                        seen_old := seen_old s + 1\<rparr>)
               else if marker = 43 then
                 Inr (s\<lparr>ps_cur := Some (h\<lparr>hunk_lines := hunk_lines h @ [(Added, content)]\<rparr>),
                        seen_new := seen_new s + 1\<rparr>)
               else if marker = 92 then
                 Inr (s\<lparr>ps_cur := Some (h\<lparr>hunk_lines := strip_last_nl (hunk_lines h)\<rparr>)\<rparr>)
               else Inl BadHunkLine))"

fun parse_all :: "str list \<Rightarrow> ParseState \<Rightarrow> DiffError + ParseState" where
  "parse_all [] s = Inr s"
| "parse_all (l # ls) s = sum_bind (parse_line l s) (parse_all ls)"

definition parse_unified :: "str \<Rightarrow> DiffError + Patch" where
  "parse_unified s =
     sum_bind (parse_all (split_inclusive_nl s) \<lparr>ps_hunks = [], ps_cur = None, seen_old = 0, seen_new = 0\<rparr>) (\<lambda>st.
     sum_bind (finish_hunk st) (\<lambda>st. Inr \<lparr>hunks = ps_hunks st\<rparr>))"

section \<open>Applying\<close>

definition lines_match :: "str \<Rightarrow> str \<Rightarrow> bool" where
  "lines_match old_line content \<longleftrightarrow> trim_end_nl old_line = trim_end_nl content"

fun apply_body :: "str list \<Rightarrow> (Tag \<times> str) list \<Rightarrow> nat \<Rightarrow> str \<Rightarrow> DiffError + nat \<times> str" where
  "apply_body a [] cursor out = Inr (cursor, out)"
| "apply_body a ((tag, content) # ls) cursor out =
     (if tag = Added then apply_body a ls cursor (out @ content)
      else if cursor \<ge> length a then Inl ContextMismatch
      else if \<not> lines_match (a ! cursor) content then Inl ContextMismatch
      else apply_body a ls (cursor + 1) (if tag = Context then out @ a ! cursor else out))"

fun apply_hunks :: "str list \<Rightarrow> Hunk list \<Rightarrow> nat \<Rightarrow> str \<Rightarrow> DiffError + nat \<times> str" where
  "apply_hunks a [] cursor out = Inr (cursor, out)"
| "apply_hunks a (h # hs) cursor out =
     (if old_len h \<noteq> 0 \<and> old_start h = 0 then Inl BadHunkHeader
      else let target = (if old_len h = 0 then old_start h else old_start h - 1) in
        if target > length a \<or> target < cursor then Inl ContextMismatch
        else sum_bind (apply_body a (hunk_lines h) target (out @ concat (slice cursor target a)))
               (\<lambda>(cursor, out). apply_hunks a hs cursor out))"

definition apply_unified :: "str \<Rightarrow> Patch \<Rightarrow> DiffError + str" where
  "apply_unified old patch =
     (let a = split_lines old in
      sum_bind (apply_hunks a (hunks patch) 0 []) (\<lambda>(cursor, out).
        if cursor > length a then Inl ContextMismatch else Inr (out @ concat (drop cursor a))))"

section \<open>The two sides of a tagged script\<close>

fun tag_old :: "Tagged \<Rightarrow> str list" where
  "tag_old (TCtx l) = [l]"
| "tag_old (TDel l) = [l]"
| "tag_old (TIns l) = []"

fun tag_new :: "Tagged \<Rightarrow> str list" where
  "tag_new (TCtx l) = [l]"
| "tag_new (TDel l) = []"
| "tag_new (TIns l) = [l]"

definition old_of :: "Tagged list \<Rightarrow> str list" where
  "old_of ts = concat (map tag_old ts)"

definition new_of :: "Tagged list \<Rightarrow> str list" where
  "new_of ts = concat (map tag_new ts)"

lemma old_of_simps [simp]: "old_of [] = []" "old_of (t # ts) = tag_old t @ old_of ts" "old_of (xs @ ys) = old_of xs @ old_of ys"
  by (simp_all add: old_of_def)

lemma new_of_simps [simp]: "new_of [] = []" "new_of (t # ts) = tag_new t @ new_of ts" "new_of (xs @ ys) = new_of xs @ new_of ys"
  by (simp_all add: new_of_def)

lemma old_count: "old_count ts = length (old_of ts)"
  by (induction ts) (auto simp: old_count_def split: Tagged.splits)

lemma new_count: "new_count ts = length (new_of ts)"
  by (induction ts) (auto simp: new_count_def split: Tagged.splits)

lemma sides_of_context: "list_all (\<lambda>t. \<not> is_change t) ts \<Longrightarrow> new_of ts = old_of ts"
proof (induction ts)
  case (Cons t ts)
  then show ?case by (cases t) auto
qed simp

lemma old_of_map [simp]: "old_of (map TCtx ls) = ls" "old_of (map TDel ls) = ls" "old_of (map TIns ls) = []"
  by (induction ls) auto

lemma new_of_map [simp]: "new_of (map TCtx ls) = ls" "new_of (map TDel ls) = []" "new_of (map TIns ls) = ls"
  by (induction ls) auto

lemma tag_range:
  assumes "s + len \<le> length xs"
  shows "concat (map (\<lambda>i. if i < length xs then [f (xs ! i)] else []) [s..<s + len]) = map f (slice s (s + len) xs)"
proof -
  have "slice s (s + len) xs = map ((!) xs) [s..<s + len]"
    using assms by (intro nth_equalityI) (auto simp: slice_def)
  moreover have "concat (map (\<lambda>i. if i < length xs then [f (xs ! i)] else []) [s..<s + len])
      = concat (map (\<lambda>i. [f (xs ! i)]) [s..<s + len])"
    using assms by (intro arg_cong [where f = concat] map_cong) auto
  ultimately show ?thesis by simp
qed

lemma tag_ops_sides:
  assumes "list_all (line_op_ok (length a)) ops" and "b = take ni b @ ops_lines a ops" and "ni \<le> length b"
  shows "old_of (tag_ops a b ops ni) = ops_old a ops \<and> new_of (tag_ops a b ops ni) = ops_lines a ops"
  using assms
proof (induction ops arbitrary: ni)
  case (Cons op ops)
  have split: "drop ni b = op_lines a op @ ops_lines a ops"
    using Cons.prems(2,3) append_take_drop_id [of ni b] by (metis append_eq_append_conv concat.simps(2) list.simps(9) ops_lines_def)
  then have rest: "drop (ni + length (op_lines a op)) b = ops_lines a ops"
    by (metis add.commute append_eq_conv_conj drop_drop)
  have len: "ni + length (op_lines a op) \<le> length b"
    using arg_cong [OF split, of length] Cons.prems(3) by simp
  from Cons.IH [of "ni + length (op_lines a op)"] Cons.prems(1) rest len
  have IH: "old_of (tag_ops a b ops (ni + length (op_lines a op))) = ops_old a ops
      \<and> new_of (tag_ops a b ops (ni + length (op_lines a op))) = ops_lines a ops"
    by (simp add: append_take_drop_id [symmetric] del: append_take_drop_id) (metis append_take_drop_id)
  show ?case
  proof (cases op)
    case (Equal start k)
    with Cons.prems(1) have "length (op_lines a op) = k" by (auto simp: slice_def min_def)
    with Equal Cons.prems(1) IH show ?thesis
      by (simp add: tag_op_def tag_range ops_lines_def ops_old_def)
  next
    case (Delete start k)
    with Cons.prems(1) IH show ?thesis
      by (simp add: tag_op_def tag_range ops_lines_def ops_old_def)
  next
    case (Insert ls)
    then have "slice ni (ni + length ls) b = ls"
      using split by (simp add: slice_def)
    with Insert IH len show ?thesis
      by (simp add: tag_op_def tag_range ops_lines_def ops_old_def)
  qed
qed (simp add: ops_lines_def ops_old_def)

section \<open>Numbers\<close>

fun dec :: "nat \<Rightarrow> str" where
  "dec v = (if v = 0 then [] else dec (v div 10) @ [48 + v mod 10])"

declare dec.simps [simp del]

definition number :: "nat \<Rightarrow> str" where
  "number v = (if v = 0 then [48] else dec v)"

lemma usize_digits_dec: "v < 10 ^ i \<Longrightarrow> usize_digits i v buf = Ret (dec v @ buf)"
proof (induction i v buf rule: usize_digits.induct)
  case (1 i v buf)
  show ?case
  proof (cases "v = 0")
    case False
    then obtain i' where i': "i = Suc i'" using "1.prems" by (cases i) auto
    then have "v div 10 < 10 ^ i'" using "1.prems" by (simp add: less_mult_imp_div_less mult.commute)
    with "1.IH" [OF False i'] False i' show ?thesis
      by (subst usize_digits.simps) (simp add: dec.simps [of v])
  qed (simp add: usize_digits.simps dec.simps)
qed

lemma push_usize_number: "v < 2 ^ 64 \<Longrightarrow> push_usize out v = Ret (out @ number v)"
  using usize_digits_dec [of v 20 "[]"] by (simp add: push_usize_def number_def)

lemma decimal_dec: "v < 2 ^ 64 \<Longrightarrow> decimal_value 0 (dec v @ cs) = decimal_value v cs"
proof (induction v arbitrary: cs rule: dec.induct)
  case (1 v)
  show ?case
  proof (cases "v = 0")
    case False
    have v: "v div 10 * 10 + v mod 10 = v" "v mod 10 \<le> 9" "v div 10 * 10 \<le> v" "v div 10 \<le> v"
      using mod_less_divisor [of 10 v] by simp_all
    then have "decimal_value (v div 10) ((48 + v mod 10) # cs) = decimal_value v cs"
      using "1.prems" by (simp only: decimal_value.simps) auto
    with "1.IH" [OF False] "1.prems" False v(4) show ?thesis by (subst dec.simps) simp
  qed (simp add: dec.simps)
qed

lemma dec_digits: "c \<in> set (dec v) \<Longrightarrow> 48 \<le> c \<and> c \<le> 57"
proof (induction v rule: dec.induct)
  case (1 v)
  then show ?case by (subst (asm) (2) dec.simps) (auto split: if_splits)
qed

lemma number_digits: "c \<in> set (number v) \<Longrightarrow> 48 \<le> c \<and> c \<le> 57"
  by (auto simp: number_def dec_digits split: if_splits)

lemma parse_number: "v < 2 ^ 64 \<Longrightarrow> parse_usize (number v) = Inr v"
  using decimal_dec [of v "[]"] by (auto simp: parse_usize_def number_def dec.simps [of v])

lemma parse_range_numbers:
  assumes "v < 2 ^ 64" and "w < 2 ^ 64"
  shows "parse_range (number v @ 44 # number w) = Inr (v, w)"
proof -
  have "44 \<notin> set (number v)" using number_digits by fastforce
  then show ?thesis using assms by (simp add: parse_range_def split_once_key parse_number sum_bind_def)
qed

section \<open>The text of a hunk\<close>

lemma lits [simp]:
  "lit ''@@ -'' = [64, 64, 32, 45]" "lit '','' = [44]" "lit '' +'' = [32, 43]" "lit '' @@'' = [32, 64, 64]"
  "lit ''@@ '' = [64, 64, 32]" "lit ''@@'' = [64, 64]" "lit ''-'' = [45]" "lit ''+'' = [43]"
  by (simp_all add: lit_def)

fun tag_line :: "Tagged \<Rightarrow> str" where
  "tag_line (TCtx l) = l"
| "tag_line (TDel l) = l"
| "tag_line (TIns l) = l"

fun tag_marker :: "Tagged \<Rightarrow> nat" where
  "tag_marker (TCtx l) = 32"
| "tag_marker (TDel l) = 45"
| "tag_marker (TIns l) = 43"

fun tag_entry :: "Tagged \<Rightarrow> Tag \<times> str" where
  "tag_entry (TCtx l) = (Context, l)"
| "tag_entry (TDel l) = (Removed, l)"
| "tag_entry (TIns l) = (Added, l)"

definition body_lines :: "Tagged \<Rightarrow> str list" where
  "body_lines t =
     (if tag_line t \<noteq> [] \<and> last (tag_line t) = 10 then [tag_marker t # tag_line t]
      else [tag_marker t # tag_line t @ [10], no_newline])"

lemma push_tagged_lines: "push_tagged body t = body @ concat (body_lines t)"
  by (cases t) (simp_all add: push_body_line_def body_lines_def Let_def)

lemma push_tagged_body: "foldl push_tagged body ts = body @ concat (concat (map body_lines ts))"
  by (induction ts arbitrary: body) (simp_all add: push_tagged_lines)

definition hunk_of :: "Tagged list \<Rightarrow> nat \<times> nat \<Rightarrow> Hunk" where
  "hunk_of ts r =
     (let prior = take (fst r) ts; inner = slice (fst r) (snd r) ts in
      \<lparr>old_start = old_count prior + (if old_count inner = 0 then 0 else 1), old_len = old_count inner,
       new_start = new_count prior + (if new_count inner = 0 then 0 else 1), new_len = new_count inner,
       hunk_lines = map tag_entry inner\<rparr>)"

definition header_line :: "Hunk \<Rightarrow> str" where
  "header_line h =
     [64, 64, 32] @ (45 # number (old_start h) @ 44 # number (old_len h)) @ 32 # (43 # number (new_start h) @ 44 # number (new_len h))
       @ [32, 64, 64] @ [10]"

definition hunk_text :: "Tagged list \<Rightarrow> nat \<times> nat \<Rightarrow> str list" where
  "hunk_text ts r = header_line (hunk_of ts r) # concat (map body_lines (slice (fst r) (snd r) ts))"

lemma push_hunk_text:
  assumes "s \<le> e" and "e \<le> length ts" and "length ts < 2 ^ 63"
  shows "push_hunk ts s e out = Ret (out @ concat (hunk_text ts (s, e)))"
proof -
  have le: "old_count xs \<le> length xs" "new_count xs \<le> length xs" for xs
    by (simp_all add: old_count_def new_count_def)
  have "old_count (take s ts) < 2 ^ 63" "new_count (take s ts) < 2 ^ 63"
    using le [of "take s ts"] assms by auto
  moreover have "old_count (slice s e ts) < 2 ^ 63" "new_count (slice s e ts) < 2 ^ 63"
    using le [of "slice s e ts"] assms by (auto simp: slice_def)
  ultimately show ?thesis
    using assms(1,2)
    by (simp add: push_hunk_def push_usize_number push_tagged_body hunk_text_def header_line_def hunk_of_def Let_def)
qed

text \<open>A text of complete lines is split into these lines.\<close>

definition complete_line :: "str \<Rightarrow> bool" where
  "complete_line l \<longleftrightarrow> l \<noteq> [] \<and> last l = 10 \<and> 10 \<notin> set (butlast l)"

lemma split_lines_complete:
  assumes "complete_line l"
  shows "split_lines (l @ rest) = l # split_lines rest"
proof -
  have "split_lines_from cur (c @ 10 # rest) = (cur @ c @ [10]) # split_lines_from [] rest" if "10 \<notin> set c" for cur c
    using that by (induction c arbitrary: cur) auto
  from this [of "butlast l" "[]"] assms have "split_lines (butlast l @ 10 # rest) = (butlast l @ [10]) # split_lines rest"
    by (simp add: complete_line_def split_lines_def)
  moreover have "butlast l @ [10] = l" using assms append_butlast_last_id [of l] by (simp add: complete_line_def)
  ultimately show ?thesis by (metis append.assoc append_Cons append_Nil)
qed

lemma split_lines_concat: "list_all complete_line ls \<Longrightarrow> split_lines (concat ls) = ls"
  by (induction ls) (simp_all add: split_lines_complete, simp add: split_lines_def)

lemma complete_snoc: "10 \<notin> set l \<Longrightarrow> complete_line (l @ [10])"
  by (simp add: complete_line_def)

lemma number_no: "10 \<notin> set (number v)" "32 \<notin> set (number v)" "64 \<notin> set (number v)"
  using number_digits [of _ v] by fastforce+

lemma header_line_complete: "complete_line (header_line h)"
  by (simp add: header_line_def complete_line_def butlast_append number_no)

text \<open>The lines of a text hold a line feed at most at their end.\<close>

definition proper_line :: "str \<Rightarrow> bool" where
  "proper_line l \<longleftrightarrow> 10 \<notin> set (butlast l)"

lemma split_lines_proper: "list_all proper_line (split_lines s)"
proof -
  have "10 \<notin> set cur \<Longrightarrow> list_all proper_line (split_lines_from cur s)" for cur
    by (induction cur s rule: split_lines_from.induct) (auto simp: proper_line_def dest: in_set_butlastD)
  then show ?thesis by (simp add: split_lines_def)
qed

lemma body_lines_complete:
  assumes "proper_line (tag_line t)"
  shows "list_all complete_line (body_lines t)"
proof (cases "tag_line t \<noteq> [] \<and> last (tag_line t) = 10")
  case True
  with assms show ?thesis by (cases t) (auto simp: body_lines_def complete_line_def proper_line_def)
next
  case False
  then have "10 \<notin> set (tag_line t)"
    using assms by (cases "tag_line t" rule: rev_cases) (auto simp: proper_line_def)
  moreover have "complete_line no_newline"
    by (simp add: no_newline_def complete_line_def lit_def)
  ultimately show ?thesis
    using False complete_snoc [of "tag_marker t # tag_line t"] by (cases t) (auto simp: body_lines_def)
qed

lemma hunk_text_complete:
  assumes "list_all proper_line (map tag_line ts)"
  shows "list_all complete_line (hunk_text ts r)"
proof -
  have "list_all complete_line (body_lines t)" if "t \<in> set (slice (fst r) (snd r) ts)" for t
  proof -
    have "t \<in> set ts" using that by (auto simp: slice_def dest: in_set_takeD in_set_dropD)
    with assms show ?thesis by (intro body_lines_complete) (simp add: list_all_iff)
  qed
  then show ?thesis using header_line_complete by (auto simp: hunk_text_def list_all_iff)
qed

section \<open>Reading a hunk back\<close>

lemma trim_end_nl_last: "s \<noteq> [] \<Longrightarrow> last s \<noteq> 10 \<Longrightarrow> trim_end_nl (s @ [10]) = s"
  by (cases s rule: rev_cases) (simp_all add: trim_end_nl_def)

lemma before_str_close: "64 \<notin> set xs \<Longrightarrow> before_str [32, 64, 64] (xs @ [32, 64, 64]) = Some xs"
proof (induction xs)
  case (Cons x xs)
  then have "take 3 (x # xs @ [32, 64, 64]) \<noteq> [32, 64, 64]" by (cases xs) (auto simp: numeral_3_eq_3)
  with Cons show ?case by (simp add: numeral_3_eq_3)
qed simp

lemma str_split_from_sep:
  "sep \<notin> set xs \<Longrightarrow> str_split_from sep cur (xs @ sep # ys) = (cur @ xs) # str_split_from sep [] ys"
  "sep \<notin> set xs \<Longrightarrow> str_split_from sep cur xs = [cur @ xs]"
  by (induction xs arbitrary: cur) auto

lemma parse_header_line:
  assumes "old_start h < 2 ^ 64" "old_len h < 2 ^ 64" "new_start h < 2 ^ 64" "new_len h < 2 ^ 64"
  shows "parse_hunk_header (header_line h) = Inr (h\<lparr>hunk_lines := []\<rparr>)"
proof -
  let ?o = "number (old_start h) @ 44 # number (old_len h)" and ?n = "number (new_start h) @ 44 # number (new_len h)"
  let ?spec = "(45 # ?o) @ 32 # 43 # ?n"
  have "trim_end_nl (header_line h) = [64, 64, 32] @ ?spec @ [32, 64, 64]"
    using trim_end_nl_last [of "[64, 64, 32] @ ?spec @ [32, 64, 64]"] by (simp add: header_line_def)
  moreover have "str_strip_prefix (lit ''@@ '') ([64, 64, 32] @ ?spec @ [32, 64, 64]) = Some (?spec @ [32, 64, 64])"
    by (simp add: str_strip_prefix_def)
  moreover have "before_str (lit '' @@'') (?spec @ [32, 64, 64]) = Some ?spec"
    unfolding lits by (rule before_str_close) (simp add: number_no)
  moreover have "str_split 32 ?spec = [45 # ?o, 43 # ?n]"
    unfolding str_split_def by (subst str_split_from_sep) (simp_all add: number_no str_split_from_sep)
  moreover have "str_strip_prefix (lit ''-'') (45 # ?o) = Some ?o" "str_strip_prefix (lit ''+'') (43 # ?n) = Some ?n"
    by (simp_all add: str_strip_prefix_def)
  ultimately show ?thesis
    using assms by (simp add: parse_hunk_header_def parse_range_numbers sum_bind_def)
qed

lemma parse_body_line:
  assumes "ps_cur s = Some h"
  shows "parse_all (body_lines t @ rest) s = parse_all rest
    (s\<lparr>ps_cur := Some (h\<lparr>hunk_lines := hunk_lines h @ [tag_entry t]\<rparr>),
       seen_old := seen_old s + old_count [t], seen_new := seen_new s + new_count [t]\<rparr>)"
proof (cases "tag_line t \<noteq> [] \<and> last (tag_line t) = 10")
  case True
  with assms show ?thesis
    by (cases s; cases t) (simp_all add: body_lines_def parse_line_def sum_bind_def old_count_def new_count_def)
next
  case False
  with assms show ?thesis
    by (cases s; cases t) (simp_all add: body_lines_def parse_line_def sum_bind_def old_count_def new_count_def
        no_newline_def strip_last_nl_def)
qed

lemma parse_body:
  assumes "ps_cur s = Some h"
  shows "parse_all (concat (map body_lines ts) @ rest) s = parse_all rest
    (s\<lparr>ps_cur := Some (h\<lparr>hunk_lines := hunk_lines h @ map tag_entry ts\<rparr>),
       seen_old := seen_old s + old_count ts, seen_new := seen_new s + new_count ts\<rparr>)"
  using assms
proof (induction ts arbitrary: s h)
  case Nil
  then show ?case by (cases s) (simp add: old_count_def new_count_def)
next
  case (Cons t ts)
  then show ?case
    by (simp add: parse_body_line old_count new_count add.assoc)
qed

definition sized :: "Hunk \<Rightarrow> bool" where
  "sized h \<longleftrightarrow> old_start h < 2 ^ 64 \<and> old_len h < 2 ^ 64 \<and> new_start h < 2 ^ 64 \<and> new_len h < 2 ^ 64"

lemma parse_hunk_text:
  assumes "finish_hunk s = Inr s0" and "sized (hunk_of ts r)"
  shows "\<exists>s' s''. parse_all (hunk_text ts r @ rest) s = parse_all rest s'
    \<and> finish_hunk s' = Inr s'' \<and> ps_hunks s'' = ps_hunks s0 @ [hunk_of ts r]"
proof -
  let ?h = "hunk_of ts r" and ?inner = "slice (fst r) (snd r) ts"
  let ?s1 = "s0\<lparr>ps_cur := Some (?h\<lparr>hunk_lines := []\<rparr>), seen_old := 0, seen_new := 0\<rparr>"
  have head: "take 2 (header_line ?h) = [64, 64]" by (simp add: header_line_def numeral_2_eq_2)
  have line: "parse_line (header_line ?h) s = Inr ?s1"
    using assms parse_header_line [of ?h] by (simp add: parse_line_def head sum_bind_def sized_def)
  have "parse_all (hunk_text ts r @ rest) s = parse_all (concat (map body_lines ?inner) @ rest) ?s1"
    by (simp add: hunk_text_def line sum_bind_def)
  also have "\<dots> = parse_all rest (?s1\<lparr>ps_cur := Some (?h\<lparr>hunk_lines := map tag_entry ?inner\<rparr>),
      seen_old := old_count ?inner, seen_new := new_count ?inner\<rparr>)"
    using parse_body [of ?s1 "?h\<lparr>hunk_lines := []\<rparr>" ?inner rest] by simp
  also have "?h\<lparr>hunk_lines := map tag_entry ?inner\<rparr> = ?h" by (simp add: hunk_of_def Let_def)
  finally have "parse_all (hunk_text ts r @ rest) s
      = parse_all rest (?s1\<lparr>ps_cur := Some ?h, seen_old := old_len ?h, seen_new := new_len ?h\<rparr>)"
    by (simp add: hunk_of_def Let_def)
  moreover have "finish_hunk (?s1\<lparr>ps_cur := Some ?h, seen_old := old_len ?h, seen_new := new_len ?h\<rparr>)
      = Inr (?s1\<lparr>ps_hunks := ps_hunks s0 @ [?h], ps_cur := None, seen_old := old_len ?h, seen_new := new_len ?h\<rparr>)"
    (is "_ = Inr ?s2") by (simp add: finish_hunk_def)
  moreover have "ps_hunks ?s2 = ps_hunks s0 @ [?h]" by simp
  ultimately show ?thesis by blast
qed

lemma parse_hunks:
  assumes "finish_hunk s = Inr s0" and "list_all sized (map (hunk_of ts) rs)"
  shows "\<exists>s' s''. parse_all (concat (map (hunk_text ts) rs)) s = Inr s' \<and> finish_hunk s' = Inr s''
    \<and> ps_hunks s'' = ps_hunks s0 @ map (hunk_of ts) rs"
  using assms
proof (induction rs arbitrary: s s0)
  case (Cons r rs)
  from parse_hunk_text [OF Cons.prems(1), of ts r "concat (map (hunk_text ts) rs)"] Cons.prems(2) obtain s1 s2 where
    s1: "parse_all (hunk_text ts r @ concat (map (hunk_text ts) rs)) s = parse_all (concat (map (hunk_text ts) rs)) s1"
      "finish_hunk s1 = Inr s2" "ps_hunks s2 = ps_hunks s0 @ [hunk_of ts r]" by auto
  from Cons.IH [OF s1(2)] Cons.prems(2) s1(1,3) show ?case by auto
qed auto

section \<open>Grouping\<close>

text \<open>Ranges that are in order and disjoint and leave out context only, from position \<open>pos\<close> on.\<close>

fun cover :: "Tagged list \<Rightarrow> nat \<Rightarrow> (nat \<times> nat) list \<Rightarrow> bool" where
  "cover ts pos [] = (\<forall>i. pos \<le> i \<and> i < length ts \<longrightarrow> \<not> is_change (ts ! i))"
| "cover ts pos ((s, e) # rs) =
     (pos \<le> s \<and> s < e \<and> e \<le> length ts \<and> (\<forall>i. pos \<le> i \<and> i < s \<longrightarrow> \<not> is_change (ts ! i)) \<and> cover ts e rs)"

lemma skip_context_skips: "k \<le> i \<Longrightarrow> i < skip_context ts k \<Longrightarrow> \<not> is_change (ts ! i)"
proof (induction ts k rule: skip_context.induct)
  case (1 ts k)
  have "k < length ts \<and> \<not> is_change (ts ! k)" "i < skip_context ts (k + 1)" if "i \<noteq> k"
    using "1.prems" that by (subst (asm) skip_context.simps, simp split: if_splits)+
  moreover have "\<not> is_change (ts ! i)" if "i = k"
    using "1.prems"(2) that by (subst (asm) skip_context.simps) (simp split: if_splits)
  ultimately show ?case using "1.IH" "1.prems"(1) by (cases "i = k") auto
qed

lemma skip_context_stops: "skip_context ts k < length ts \<Longrightarrow> is_change (ts ! skip_context ts k)"
proof (induction ts k rule: skip_context.induct)
  case (1 ts k)
  show ?case
  proof (cases "k < length ts \<and> \<not> is_change (ts ! k)")
    case True
    then have "skip_context ts k = skip_context ts (k + 1)" by (subst skip_context.simps) simp
    with 1 True show ?thesis by simp
  next
    case False
    then have "skip_context ts k = k" by (subst skip_context.simps) (simp only: if_False)
    with "1.prems" False show ?thesis by simp
  qed
qed

lemma grow_hunk_run:
  assumes "is_change (ts ! e)" and "e < j" and "j \<le> length ts" and "c < 2 ^ 63"
    and "\<forall>i. e < i \<and> i < j \<longrightarrow> \<not> is_change (ts ! i)"
  shows "e \<le> grow_hunk c ts e j \<and> grow_hunk c ts e j < length ts
    \<and> (\<forall>i. grow_hunk c ts e j < i \<and> i < length ts \<and> is_change (ts ! i) \<longrightarrow> grow_hunk c ts e j + 1 + 2 * c < i)"
  using assms
proof (induction c ts e j rule: grow_hunk.induct)
  case (1 c ts e j)
  let ?k = "skip_context ts j"
  have dbl: "c * 2 mod 2 ^ 64 = 2 * c" using "1.prems"(4) by simp
  note unfold = grow_hunk.simps [of c ts e j, unfolded Let_def dbl]
  have between: "\<forall>i. e < i \<and> i < ?k \<longrightarrow> \<not> is_change (ts ! i)"
    using "1.prems"(5) skip_context_skips [of j _ ts] by (metis not_le)
  consider (change) "j < length ts" "is_change (ts ! j)"
    | (bridge) "j < length ts" "\<not> is_change (ts ! j)" "?k < length ts" "?k - j \<le> 2 * c"
    | (stop) "j < length ts" "\<not> is_change (ts ! j)" "?k < length ts \<longrightarrow> 2 * c < ?k - j"
    | (last) "j = length ts"
    using "1.prems"(3) by linarith
  then show ?case
  proof cases
    case change
    have "j \<le> grow_hunk c ts j (j + 1) \<and> grow_hunk c ts j (j + 1) < length ts
        \<and> (\<forall>i. grow_hunk c ts j (j + 1) < i \<and> i < length ts \<and> is_change (ts ! i) \<longrightarrow> grow_hunk c ts j (j + 1) + 1 + 2 * c < i)"
      by (rule "1.IH"(1) [OF change]) (use change "1.prems"(4) in auto)
    moreover have "grow_hunk c ts e j = grow_hunk c ts j (j + 1)" using change by (simp add: unfold)
    ultimately show ?thesis using "1.prems"(2) by auto
  next
    case bridge
    then show ?thesis
      using "1.IH"(2) [OF bridge(1,2) refl refl] "1.prems"(1,2,4) between skip_context_le [of j ts]
      by (simp add: unfold dbl)
  next
    case stop
    have "e + 1 + 2 * c < i" if "e < i" "i < length ts" "is_change (ts ! i)" for i
    proof -
      have "?k \<le> i" using between that by (metis not_le)
      with that stop(3) "1.prems"(2) show ?thesis by linarith
    qed
    moreover have "grow_hunk c ts e j = e" using stop by (auto simp: unfold)
    ultimately show ?thesis using "1.prems"(2,3) by simp
  next
    case last
    then have "grow_hunk c ts e j = e" unfolding unfold by simp
    with "1.prems"(2,3,5) last show ?thesis by auto
  qed
qed

lemma grow_hunk_start:
  assumes "is_change (ts ! j)" and "j < length ts" and "c < 2 ^ 63"
  shows "j \<le> grow_hunk c ts j j" and "grow_hunk c ts j j < length ts"
    and "grow_hunk c ts j j < i \<Longrightarrow> i < length ts \<Longrightarrow> is_change (ts ! i) \<Longrightarrow> grow_hunk c ts j j + 1 + 2 * c < i"
proof -
  have "j \<le> grow_hunk c ts j (j + 1) \<and> grow_hunk c ts j (j + 1) < length ts
      \<and> (\<forall>i. grow_hunk c ts j (j + 1) < i \<and> i < length ts \<and> is_change (ts ! i) \<longrightarrow> grow_hunk c ts j (j + 1) + 1 + 2 * c < i)"
    by (rule grow_hunk_run) (use assms in auto)
  moreover have "grow_hunk c ts j j = grow_hunk c ts j (j + 1)"
    using assms by (subst grow_hunk.simps) simp
  ultimately show "j \<le> grow_hunk c ts j j" "grow_hunk c ts j j < length ts"
    "grow_hunk c ts j j < i \<Longrightarrow> i < length ts \<Longrightarrow> is_change (ts ! i) \<Longrightarrow> grow_hunk c ts j j + 1 + 2 * c < i"
    by auto
qed

text \<open>
  The loop prints ranges that cover the changes. Between the end of the last hunk and the
  current position there is only context, and the context before the next change does not
  reach back into that hunk.
\<close>

lemma unified_loop_run:
  assumes "length ts < 2 ^ 62" and "c < 2 ^ 62" and "pos \<le> idx" and "idx \<le> length ts"
    and "\<forall>i. pos \<le> i \<and> i < idx \<longrightarrow> \<not> is_change (ts ! i)"
    and "\<forall>i. idx \<le> i \<and> i < length ts \<and> is_change (ts ! i) \<longrightarrow> pos \<le> i - c"
  shows "\<exists>rs. unified_loop c ts idx out = Some (Ret (out @ concat (concat (map (hunk_text ts) rs)))) \<and> cover ts pos rs"
  using assms(3-)
proof (induction "length ts - idx" arbitrary: pos idx out rule: less_induct)
  case less
  consider (last) "idx = length ts" | (ctx) "idx < length ts" "\<not> is_change (ts ! idx)" | (change) "idx < length ts" "is_change (ts ! idx)"
    using less.prems(2) by linarith
  then show ?case
  proof cases
    case last
    then show ?thesis using less.prems(3) by (intro exI [of _ "[]"]) (simp add: unified_loop.simps)
  next
    case ctx
    have "\<exists>rs. unified_loop c ts (idx + 1) out = Some (Ret (out @ concat (concat (map (hunk_text ts) rs)))) \<and> cover ts pos rs"
      using ctx less.prems by (intro less.hyps) (auto simp: less_Suc_eq)
    with ctx show ?thesis by (subst unified_loop.simps) simp
  next
    case change
    define e where "e = grow_hunk c ts idx idx"
    have e: "idx \<le> e" "e < length ts" "\<And>i. e < i \<Longrightarrow> i < length ts \<Longrightarrow> is_change (ts ! i) \<Longrightarrow> e + 1 + 2 * c < i"
      using grow_hunk_start [OF change(2,1), of c] assms(2) by (simp_all add: e_def)
    define t where "t = min (e + 1 + c) (length ts)"
    have wrap: "min ((e + 1 + c) mod 2 ^ 64) (length ts) = t"
      using e(2) assms(1,2) by (simp add: t_def)
    have t: "e < t" "t \<le> length ts" using e(2) by (auto simp: t_def)
    have "idx - c \<le> t" using t(1) e(1) by simp
    then have hunk: "push_hunk ts (idx - c) t out = Ret (out @ concat (hunk_text ts (idx - c, t)))"
      using t(2) assms(1) by (intro push_hunk_text) simp_all
    have "\<exists>rs. unified_loop c ts t (out @ concat (hunk_text ts (idx - c, t)))
        = Some (Ret ((out @ concat (hunk_text ts (idx - c, t))) @ concat (concat (map (hunk_text ts) rs)))) \<and> cover ts t rs"
    proof (rule less.hyps)
      show "length ts - t < length ts - idx" using t e(1) by linarith
      show "\<forall>i. t \<le> i \<and> i < length ts \<and> is_change (ts ! i) \<longrightarrow> t \<le> i - c"
      proof (intro allI impI, elim conjE)
        fix i
        assume "t \<le> i" "i < length ts" "is_change (ts ! i)"
        with e(3) [of i] t(1) show "t \<le> i - c" by (simp add: t_def)
      qed
    qed (use t in auto)
    then obtain rs where rs: "unified_loop c ts t (out @ concat (hunk_text ts (idx - c, t)))
        = Some (Ret ((out @ concat (hunk_text ts (idx - c, t))) @ concat (concat (map (hunk_text ts) rs))))" "cover ts t rs" by blast
    have "unified_loop c ts idx out = Some (Ret (out @ concat (concat (map (hunk_text ts) ((idx - c, t) # rs)))))"
      unfolding unified_loop.simps [of c ts idx] Let_def e_def [symmetric] wrap hunk using change rs(1) by simp
    moreover have "cover ts pos ((idx - c, t) # rs)"
      using less.prems t e(1) change rs(2) by auto
    ultimately show ?thesis by blast
  qed
qed

section \<open>Applying what was printed\<close>

lemma apply_body_run:
  assumes "a = pre @ old_of ts @ post"
  shows "apply_body a (map tag_entry ts) (length pre) out = Inr (length (pre @ old_of ts), out @ concat (new_of ts))"
  using assms
proof (induction ts arbitrary: pre out)
  case (Cons t ts)
  then show ?case
    using Cons.IH [of "pre @ tag_old t"] by (cases t) (simp_all add: lines_match_def)
qed simp

lemma take_slice: "s \<le> e \<Longrightarrow> take e xs = take s xs @ slice s e xs"
  using take_add [of s "e - s" xs] by (simp add: slice_def)

lemma drop_slice: "s \<le> e \<Longrightarrow> drop s xs = slice s e xs @ drop e xs"
  using append_take_drop_id [of "e - s" "drop s xs"] by (simp add: slice_def)

lemma old_of_take: "s \<le> e \<Longrightarrow> old_of (take e ts) = old_of (take s ts) @ old_of (slice s e ts)"
  by (simp add: take_slice [of s e])

lemma old_of_split: "old_of ts = old_of (take p ts) @ old_of (drop p ts)"
  by (metis append_take_drop_id old_of_simps(3))

lemma context_between:
  assumes "\<forall>i. pos \<le> i \<and> i < s \<longrightarrow> \<not> is_change (ts ! i)" and "s \<le> length ts"
  shows "new_of (slice pos s ts) = old_of (slice pos s ts)"
  using assms by (intro sides_of_context) (auto simp: list_all_length slice_def)

lemma apply_hunk_run:
  assumes "pos \<le> s" and "s \<le> e"
  shows "apply_hunks (old_of ts) (hunk_of ts (s, e) # hs) (length (old_of (take pos ts))) out
    = apply_hunks (old_of ts) hs (length (old_of (take e ts)))
        (out @ concat (old_of (slice pos s ts)) @ concat (new_of (slice s e ts)))"
proof -
  let ?h = "hunk_of ts (s, e)" and ?target = "length (old_of (take s ts))"
  have whole: "old_of ts = old_of (take s ts) @ old_of (slice s e ts) @ old_of (drop e ts)"
    using old_of_split [of ts e] old_of_take [OF assms(2), of ts] by simp
  have target: "\<not> (old_len ?h \<noteq> 0 \<and> old_start ?h = 0)" "(if old_len ?h = 0 then old_start ?h else old_start ?h - 1) = ?target"
    by (simp_all add: hunk_of_def Let_def old_count)
  have "slice (length (old_of (take pos ts))) ?target (old_of ts) = old_of (slice pos s ts)"
    unfolding whole old_of_take [OF assms(1), of ts] by (simp add: slice_def)
  moreover have "apply_body (old_of ts) (hunk_lines ?h) ?target out' = Inr (length (old_of (take e ts)), out' @ concat (new_of (slice s e ts)))" for out'
    using apply_body_run [OF whole, of out'] old_of_take [OF assms(2), of ts] by (simp add: hunk_of_def Let_def)
  moreover have "?target \<le> length (old_of ts)" "length (old_of (take pos ts)) \<le> ?target"
    by (subst whole, simp) (simp add: old_of_take [OF assms(1)])
  ultimately show ?thesis
    unfolding apply_hunks.simps if_not_P [OF target(1)] Let_def target(2) by (simp add: sum_bind_def)
qed

lemma apply_hunks_run:
  assumes "cover ts pos rs" and "pos \<le> length ts"
  shows "\<exists>cursor out'. apply_hunks (old_of ts) (map (hunk_of ts) rs) (length (old_of (take pos ts))) out = Inr (cursor, out')
    \<and> cursor \<le> length (old_of ts) \<and> out' @ concat (drop cursor (old_of ts)) = out @ concat (new_of (drop pos ts))"
  using assms
proof (induction rs arbitrary: pos out)
  case Nil
  then have "new_of (slice pos (length ts) ts) = old_of (slice pos (length ts) ts)" by (intro context_between) auto
  then have "new_of (drop pos ts) = old_of (drop pos ts)" by (simp add: slice_def)
  moreover have "drop (length (old_of (take pos ts))) (old_of ts) = old_of (drop pos ts)"
    "length (old_of (take pos ts)) \<le> length (old_of ts)"
    by (simp_all add: old_of_split [of ts pos])
  ultimately show ?case by simp
next
  case (Cons r rs)
  obtain s e where r: "r = (s, e)" by (cases r)
  with Cons.prems have c: "pos \<le> s" "s \<le> e" "e \<le> length ts" "cover ts e rs" and
    ctx: "new_of (slice pos s ts) = old_of (slice pos s ts)"
    by (auto intro: context_between)
  have "new_of (drop pos ts) = old_of (slice pos s ts) @ new_of (slice s e ts) @ new_of (drop e ts)"
    using drop_slice [OF c(1), of ts] drop_slice [OF c(2), of ts] ctx by simp
  with Cons.IH [OF c(4,3), of "out @ concat (old_of (slice pos s ts)) @ concat (new_of (slice s e ts))"]
  show ?case unfolding r list.map apply_hunk_run [OF c(1,2)] by simp
qed

section \<open>Properties\<close>

section \<open>Properties\<close>

lemma tag_line_sides: "t \<in> set ts \<Longrightarrow> tag_line t \<in> set (old_of ts) \<union> set (new_of ts)"
proof (induction ts)
  case (Cons u ts)
  then show ?case by (cases u) auto
qed simp

lemma length_sides: "length ts \<le> length (old_of ts) + length (new_of ts)"
proof (induction ts)
  case (Cons t ts)
  then show ?case by (cases t) auto
qed simp

lemma sized_hunk:
  assumes "length ts < 2 ^ 62"
  shows "sized (hunk_of ts r)"
proof -
  have le: "old_count xs \<le> length xs" "new_count xs \<le> length xs" for xs
    by (simp_all add: old_count_def new_count_def)
  let ?prior = "take (fst r) ts" and ?inner = "slice (fst r) (snd r) ts"
  have "length ?prior < 2 ^ 62" "length ?inner < 2 ^ 62" using assms by (simp_all add: slice_def)
  then have "old_count ?prior < 2 ^ 62" "new_count ?prior < 2 ^ 62" "old_count ?inner < 2 ^ 62" "new_count ?inner < 2 ^ 62"
    by (meson le le_less_trans)+
  then show ?thesis by (simp add: sized_def hunk_of_def Let_def)
qed

lemma diff_tags:
  obtains ops where "diff_lines old new = Ret ops"
    "old_of (tag_ops (split_lines old) (split_lines new) ops 0) = split_lines old"
    "new_of (tag_ops (split_lines old) (split_lines new) ops 0) = split_lines new"
proof -
  obtain ops where ops: "diff_lines old new = Ret ops" "list_all (line_op_ok (length (split_lines old))) ops"
    "ops_lines (split_lines old) ops = split_lines new" "ops_old (split_lines old) ops = split_lines old"
    using diff_lines_run by blast
  from tag_ops_sides [OF ops(2), of "split_lines new" 0] ops that show ?thesis by simp
qed

lemma parse_printed:
  assumes "list_all proper_line (map tag_line ts)" and "length ts < 2 ^ 62"
  shows "parse_unified (concat (concat (map (hunk_text ts) rs))) = Inr \<lparr>hunks = map (hunk_of ts) rs\<rparr>"
proof -
  let ?s = "\<lparr>ps_hunks = [], ps_cur = None, seen_old = 0, seen_new = 0\<rparr>"
  have "list_all complete_line (concat (map (hunk_text ts) rs))"
    using hunk_text_complete [OF assms(1)] by (auto simp: list_all_iff)
  then have lines: "split_inclusive_nl (concat (concat (map (hunk_text ts) rs))) = concat (map (hunk_text ts) rs)"
    by (simp add: split_inclusive_nl_def split_lines_concat)
  have "finish_hunk ?s = Inr ?s" "list_all sized (map (hunk_of ts) rs)"
    using sized_hunk [OF assms(2)] by (simp_all add: finish_hunk_def list_all_iff)
  from parse_hunks [OF this] obtain s' s'' where
    "parse_all (concat (map (hunk_text ts) rs)) ?s = Inr s'" "finish_hunk s' = Inr s''" "ps_hunks s'' = map (hunk_of ts) rs"
    by auto
  with lines show ?thesis by (simp add: parse_unified_def sum_bind_def)
qed

text \<open>
  C12. Patches survive the text format: for any two texts and any number of context lines below
  two to the power 62, \<^verbatim>\<open>unified_diff\<close> returns a text, \<^verbatim>\<open>parse_unified\<close> accepts it, and applying
  the parsed patch to the old text yields the new text exactly, final newlines included.
\<close>

theorem unified_roundtrip:
  assumes "length old + length new < 2 ^ 62" and "context_lines < 2 ^ 62"
  shows "\<exists>text patch. unified_diff old new context_lines = Some (Ret text)
    \<and> parse_unified text = Inr patch \<and> apply_unified old patch = Inr new"
proof -
  obtain ops where ops: "diff_lines old new = Ret ops" by (rule diff_tags)
  define ts where "ts = tag_ops (split_lines old) (split_lines new) ops 0"
  have sides: "old_of ts = split_lines old" "new_of ts = split_lines new"
    using diff_tags [of old new] ops by (auto simp: ts_def)
  have size: "length ts < 2 ^ 62"
    using length_sides [of ts] length_split_lines [of old] length_split_lines [of new] sides assms(1) by simp
  have proper: "list_all proper_line (map tag_line ts)"
    using tag_line_sides [of _ ts] split_lines_proper [of old] split_lines_proper [of new] sides
    by (fastforce simp: list_all_iff)
  show ?thesis
  proof (cases "list_ex is_change ts")
    case False
    then have "split_lines new = split_lines old"
      using sides_of_context [of ts] sides by (simp add: list_all_iff list_ex_iff)
    then have "new = old" by (metis concat_split_lines)
    moreover have "unified_diff old new context_lines = Some (Ret [])"
      using False ops by (simp add: unified_diff_def ts_def)
    moreover have "apply_unified old \<lparr>hunks = []\<rparr> = Inr old" by (simp add: apply_unified_def sum_bind_def)
    ultimately show ?thesis using parse_printed [OF proper size, of "[]"] by auto
  next
    case True
    from unified_loop_run [OF size assms(2), of 0 0 "[]"] obtain rs where
      rs: "unified_loop context_lines ts 0 [] = Some (Ret (concat (concat (map (hunk_text ts) rs))))" "cover ts 0 rs"
      by auto
    from apply_hunks_run [OF rs(2), of "[]"] sides have "apply_unified old \<lparr>hunks = map (hunk_of ts) rs\<rparr> = Inr new"
      by (auto simp: apply_unified_def sum_bind_def)
    with True ops rs(1) parse_printed [OF proper size, of rs] show ?thesis
      by (simp add: unified_diff_def ts_def)
  qed
qed

theorem unified_roundtrip_witness:
  "\<exists>text patch. unified_diff (lit ''ab'') (lit ''b'') 3 = Some (Ret text)
    \<and> parse_unified text = Inr patch \<and> apply_unified (lit ''ab'') patch = Inr (lit ''b'')"
  by (rule unified_roundtrip) (simp_all add: lit_def)

text \<open>
  With the largest number of context lines the end of a hunk wraps to its start: the loop
  prints the same hunk for ever.
\<close>

lemma unified_loop_stuck:
  assumes "ts = [TIns l]" and "idx = 0" and "c = 2 ^ 64 - 1"
  shows "unified_loop c ts idx out = None"
proof -
  define stuck where "stuck c ts idx \<longleftrightarrow> c = 2 ^ 64 - 1 \<and> ts = [TIns l] \<and> idx = 0" for c :: nat and ts and idx :: nat
  have grow: "grow_hunk 18446744073709551615 [TIns l] 0 0 = 0" by (simp add: grow_hunk.simps)
  have push: "push_hunk [TIns l] 0 0 out = Ret (out @ concat (hunk_text [TIns l] (0, 0)))" for out
    by (rule push_hunk_text) simp_all
  have "\<not> stuck c ts idx" if "unified_loop c ts idx out = Some y" for y
    by (rule unified_loop.raw_induct [where P = "\<lambda>c ts idx out y. \<not> stuck c ts idx", OF _ that])
      (fastforce simp: stuck_def grow push Let_def split: if_splits)
  with assms show ?thesis by (cases "unified_loop c ts idx out") (auto simp: stuck_def)
qed

theorem unified_context_overflow:
  assumes "split_lines new = [l]"
  shows "unified_diff [] new (2 ^ 64 - 1) = None"
proof -
  obtain ops where ops: "diff_lines [] new = Ret ops" by (rule diff_tags)
  define ts where "ts = tag_ops (split_lines []) (split_lines new) ops 0"
  have "old_of ts = []" "new_of ts = [l]"
    using diff_tags [of "[]" new] ops assms by (auto simp: ts_def split_lines_def)
  then have "ts = [TIns l]"
  proof (induction ts)
    case (Cons t ts)
    then have "new_of ts = [] \<longrightarrow> ts = []" using length_sides [of ts] by (cases t) auto
    with Cons.prems show ?case by (cases t) auto
  qed simp
  with ops show ?thesis using unified_loop_stuck [of ts l 0 "2 ^ 64 - 1" "[]"] by (simp add: unified_diff_def ts_def)
qed

end
