(* ===== verification/Perm_Prompt.thy ===== *)
theory Perm_Prompt
  imports Cap_System Uaccess Rust_Str Bytes
begin

text \<open>
  Runtime permission prompts: the queue of requests (\<^verbatim>\<open>kernel/src/perm_prompt.rs\<close>), the dialog
  that shows them (\<^verbatim>\<open>kernel/src/perm_ui.rs\<close>) and the system calls of the trusted shell
  (\<^verbatim>\<open>kernel/src/perm_syscalls.rs\<close>), over the capability tables of \<open>Cap_System\<close>. The clock, the
  surface the compositor creates and the check of a user range are arguments; drawing the
  dialog is left out. The theory shows that a capability enters a table only with the
  consent given for it, that every request gets one verdict, and where requests are not
  timed out or shown as documented.
\<close>

section \<open>Requests\<close>

definition MAX_PENDING :: nat where "MAX_PENDING = 32"

definition PROMPT_TIMEOUT_MS :: u64 where "PROMPT_TIMEOUT_MS = 30000"

datatype PromptVerdict = Pending | Approved | Denied | TimedOut

datatype CapFlavor =
  FlFilesystem | FlNetwork | FlCamera | FlAudio | FlGpu | FlProcess | FlCryptoKey | FlDebug | FlMmio | FlIrq
| FlPort | FlSystem | FlScreenCapture | FlAccessibility

fun flavor_label :: "CapFlavor \<Rightarrow> string" where
  "flavor_label FlFilesystem = ''File System''"
| "flavor_label FlNetwork = ''Network''"
| "flavor_label FlCamera = ''Camera''"
| "flavor_label FlAudio = ''Audio''"
| "flavor_label FlGpu = ''GPU''"
| "flavor_label FlProcess = ''Process Management''"
| "flavor_label FlCryptoKey = ''Cryptographic Keys''"
| "flavor_label FlDebug = ''Debug / Profiling''"
| "flavor_label FlMmio = ''Hardware MMIO''"
| "flavor_label FlIrq = ''Interrupt Vector''"
| "flavor_label FlPort = ''I/O Port''"
| "flavor_label FlSystem = ''System Control''"
| "flavor_label FlScreenCapture = ''Screen Capture''"
| "flavor_label FlAccessibility = ''Accessibility''"

fun flavor_from_cap :: "Cap \<Rightarrow> CapFlavor" where
  "flavor_from_cap (Filesystem _ _) = FlFilesystem"
| "flavor_from_cap (Network _ _ _) = FlNetwork"
| "flavor_from_cap (Camera _ _) = FlCamera"
| "flavor_from_cap (Audio _ _) = FlAudio"
| "flavor_from_cap (Gpu _ _) = FlGpu"
| "flavor_from_cap (Process _ _) = FlProcess"
| "flavor_from_cap (CryptoKey _ _) = FlCryptoKey"
| "flavor_from_cap (Debug _ _) = FlDebug"
| "flavor_from_cap (Mmio _ _ _) = FlMmio"
| "flavor_from_cap (Irq _ _) = FlIrq"
| "flavor_from_cap (Port _ _ _) = FlPort"
| "flavor_from_cap (Channel _ _) = FlNetwork"
| "flavor_from_cap (Hypervisor _ _) = FlProcess"
| "flavor_from_cap (Attestation _ _) = FlDebug"
| "flavor_from_cap (System _) = FlSystem"
| "flavor_from_cap (ScreenCapture _) = FlScreenCapture"
| "flavor_from_cap (Accessibility _) = FlAccessibility"

record PermRequest =
  req_id :: u64
  requester :: TaskId
  app_name :: str
  flavor :: CapFlavor
  req_rights :: Rights
  req_description :: str
  verdict :: PromptVerdict
  created_tick :: u64
  req_cap :: Cap
  granted_handle :: u64

record PromptQueue =
  pending :: "PermRequest list"
  resolved :: "PermRequest list"

record DialogState =
  surface :: u64
  request :: PermRequest

text \<open>The statics of the two modules.\<close>

record PermState =
  REQUEST_SEQ :: u64
  QUEUE :: PromptQueue
  DIALOG :: "DialogState option"
  PROMPTS_SHOWN :: u64
  PROMPTS_APPROVED :: u64
  PROMPTS_DENIED :: u64

definition perm_boot :: PermState where
  "perm_boot = \<lparr>REQUEST_SEQ = 1, QUEUE = \<lparr>pending = [], resolved = []\<rparr>, DIALOG = None, PROMPTS_SHOWN = 0,
     PROMPTS_APPROVED = 0, PROMPTS_DENIED = 0\<rparr>"

definition dialog_open :: "PermState \<Rightarrow> bool" where
  "dialog_open s \<longleftrightarrow> DIALOG s \<noteq> None"

definition flavor_high_risk :: "CapFlavor \<Rightarrow> bool" where
  "flavor_high_risk f \<longleftrightarrow> f \<in> {FlMmio, FlIrq, FlPort, FlSystem, FlDebug, FlCryptoKey}"

definition drain_pending :: "nat \<Rightarrow> PermState \<Rightarrow> PermRequest list" where
  "drain_pending n s = take n (pending (QUEUE s))"

definition prompt_pending_count :: "PermState \<Rightarrow> nat" where
  "prompt_pending_count s = length (pending (QUEUE s))"

text \<open>Open a dialog; \<open>surf\<close> is what the compositor answers.\<close>

definition pump :: "u64 option \<Rightarrow> PermState \<Rightarrow> PermState" where
  "pump surf s =
     (if DIALOG s \<noteq> None then s
      else case drain_pending 1 s of
             [] \<Rightarrow> s
           | req # _ \<Rightarrow>
               (case surf of
                  None \<Rightarrow> s
                | Some i \<Rightarrow> s\<lparr>PROMPTS_SHOWN := PROMPTS_SHOWN s + 1, DIALOG := Some \<lparr>surface = i, request = req\<rparr>\<rparr>))"

definition new_request :: "u64 \<Rightarrow> u64 \<Rightarrow> TaskId \<Rightarrow> str \<Rightarrow> Cap \<Rightarrow> str \<Rightarrow> PermRequest" where
  "new_request i now task app cap desc =
     \<lparr>req_id = i, requester = task, app_name = app, flavor = flavor_from_cap cap, req_rights = cap_rights cap,
      req_description = desc, verdict = Pending, created_tick = now, req_cap = cap, granted_handle = 0\<rparr>"

definition prompt_request ::
  "u64 option \<Rightarrow> u64 \<Rightarrow> TaskId \<Rightarrow> str \<Rightarrow> Cap \<Rightarrow> str \<Rightarrow> PermState \<Rightarrow> u64 option \<times> PermState" where
  "prompt_request surf now task app cap desc s =
     (if length (pending (QUEUE s)) \<ge> MAX_PENDING then (None, s)
      else
        let i = REQUEST_SEQ s;
            s = s\<lparr>REQUEST_SEQ := REQUEST_SEQ s + 1,
                  QUEUE := (QUEUE s)\<lparr>pending := pending (QUEUE s) @ [new_request i now task app cap desc]\<rparr>\<rparr>
        in (Some i, pump surf s))"

text \<open>\<^verbatim>\<open>position\<close> followed by \<^verbatim>\<open>remove\<close>.\<close>

fun take_request :: "u64 \<Rightarrow> PermRequest list \<Rightarrow> (PermRequest \<times> PermRequest list) option" where
  "take_request i [] = None"
| "take_request i (r # rs) =
     (if req_id r = i then Some (r, rs) else map_option (apsnd (Cons r)) (take_request i rs))"

definition is_stale :: "u64 \<Rightarrow> PermRequest \<Rightarrow> bool" where
  "is_stale now r \<longleftrightarrow> saturating_sub now (created_tick r) > PROMPT_TIMEOUT_MS"

definition poll_verdict :: "u64 \<Rightarrow> u64 \<Rightarrow> PermState \<Rightarrow> (PromptVerdict \<times> u64) \<times> PermState" where
  "poll_verdict now i s =
     (case take_request i (resolved (QUEUE s)) of
        Some (r, rest) \<Rightarrow> ((verdict r, granted_handle r), s\<lparr>QUEUE := (QUEUE s)\<lparr>resolved := rest\<rparr>\<rparr>)
      | None \<Rightarrow>
          (case take_request i (pending (QUEUE s)) of
             Some (r, rest) \<Rightarrow>
               if is_stale now r then ((TimedOut, 0), s\<lparr>QUEUE := (QUEUE s)\<lparr>pending := rest\<rparr>\<rparr>)
               else ((Pending, 0), s)
           | None \<Rightarrow> ((Denied, 0), s)))"

text \<open>The grant an approval performs.\<close>

definition grant_root :: "TaskId \<Rightarrow> Cap \<Rightarrow> Scheduler \<Rightarrow> CapHandle option \<times> Scheduler" where
  "grant_root i cap sched =
     with_task_by_id i (\<lambda>t. let (h, ct) = insert_root cap (cap_table t) in (h, t\<lparr>cap_table := ct\<rparr>)) sched"

definition resolve :: "u64 \<Rightarrow> bool \<Rightarrow> PermState \<times> Scheduler \<Rightarrow> PermState \<times> Scheduler" where
  "resolve i approved st =
     (let (s, sched) = st in
      case take_request i (pending (QUEUE s)) of
        None \<Rightarrow> (s, sched)
      | Some (r, rest) \<Rightarrow>
          let (r, sched) =
                (if approved then
                   (case grant_root (requester r) (req_cap r) sched of
                      (Some h, sched) \<Rightarrow> (r\<lparr>verdict := Approved, granted_handle := handle_raw h\<rparr>, sched)
                    | (None, sched) \<Rightarrow> (r\<lparr>verdict := Denied\<rparr>, sched))
                 else (r\<lparr>verdict := Denied\<rparr>, sched))
          in (s\<lparr>QUEUE := \<lparr>pending = rest, resolved = resolved (QUEUE s) @ [r]\<rparr>\<rparr>, sched))"

fun expire_loop :: "u64 \<Rightarrow> PermRequest list \<Rightarrow> PermRequest list \<times> PermRequest list" where
  "expire_loop now [] = ([], [])"
| "expire_loop now (r # rs) =
     (let (keep, gone) = expire_loop now rs in
      if is_stale now r then (keep, r\<lparr>verdict := TimedOut\<rparr> # gone) else (r # keep, gone))"

definition expire_stale :: "u64 \<Rightarrow> PermState \<Rightarrow> PermState" where
  "expire_stale now s =
     (let (keep, gone) = expire_loop now (pending (QUEUE s)) in
      s\<lparr>QUEUE := \<lparr>pending = keep, resolved = resolved (QUEUE s) @ gone\<rparr>\<rparr>)"

section \<open>The dialog\<close>

definition SC_Y :: u8 where "SC_Y = 0x15"
definition SC_ENTER :: u8 where "SC_ENTER = 0x1C"
definition SC_N :: u8 where "SC_N = 0x31"
definition SC_ESC :: u8 where "SC_ESC = 0x01"

definition handle_key :: "u8 \<Rightarrow> PermState \<times> Scheduler \<Rightarrow> bool \<times> PermState \<times> Scheduler" where
  "handle_key scancode st =
     (let (s, sched) = st in
      case DIALOG s of
        None \<Rightarrow> (False, s, sched)
      | Some d \<Rightarrow>
          if scancode \<noteq> SC_Y \<and> scancode \<noteq> SC_ENTER \<and> scancode \<noteq> SC_N \<and> scancode \<noteq> SC_ESC then (True, s, sched)
          else
            let approve = (scancode = SC_Y \<or> scancode = SC_ENTER);
                (s, sched) = resolve (req_id (request d)) approve (s\<lparr>DIALOG := None\<rparr>, sched)
            in (True,
                (if approve then s\<lparr>PROMPTS_APPROVED := PROMPTS_APPROVED s + 1\<rparr>
                 else s\<lparr>PROMPTS_DENIED := PROMPTS_DENIED s + 1\<rparr>), sched))"

section \<open>System calls\<close>

definition caller_has_system :: "nat \<Rightarrow> Rights \<Rightarrow> Scheduler \<Rightarrow> bool" where
  "caller_has_system cpu needed sched =
     (case with_current_task cpu
        (\<lambda>t. list_ex (\<lambda>(h, c). case c of System r \<Rightarrow> contains r needed | _ \<Rightarrow> False) (cap_iter (cap_table t))) sched of
        None \<Rightarrow> False
      | Some b \<Rightarrow> b)"

definition PERM_ABI_SIZE :: nat where "PERM_ABI_SIZE = 88"

fun flavor_as_u32 :: "CapFlavor \<Rightarrow> u32" where
  "flavor_as_u32 FlFilesystem = 0"
| "flavor_as_u32 FlNetwork = 1"
| "flavor_as_u32 FlCamera = 2"
| "flavor_as_u32 FlAudio = 3"
| "flavor_as_u32 FlGpu = 4"
| "flavor_as_u32 FlProcess = 5"
| "flavor_as_u32 FlCryptoKey = 6"
| "flavor_as_u32 FlDebug = 7"
| "flavor_as_u32 FlMmio = 8"
| "flavor_as_u32 FlIrq = 9"
| "flavor_as_u32 FlPort = 10"
| "flavor_as_u32 FlSystem = 11"
| "flavor_as_u32 FlScreenCapture = 12"
| "flavor_as_u32 FlAccessibility = 13"

definition pad24 :: "u8 list \<Rightarrow> u8 list" where
  "pad24 bs = take 24 bs @ replicate (24 - length (take 24 bs)) 0"

definition perm_abi :: "PermRequest \<Rightarrow> u8 list" where
  "perm_abi r =
     to_le_bytes 4 (1 :: u32) @ replicate 4 0 @ to_le_bytes 8 (req_id r) @ to_le_bytes 8 (task_raw (requester r))
     @ to_le_bytes 4 (flavor_as_u32 (flavor r)) @ to_le_bytes 4 (rights_bits (req_rights r))
     @ to_le_bytes 8 (created_tick r) @ pad24 (as_bytes (app_name r)) @ pad24 (as_bytes (req_description r))"

definition sys_perm_list ::
  "nat \<Rightarrow> (u64 \<Rightarrow> u64 \<Rightarrow> bool \<Rightarrow> bool) \<Rightarrow> u64 \<Rightarrow> u64 \<Rightarrow> PermState \<times> Scheduler \<Rightarrow> Space \<Rightarrow> u64 \<times> Space" where
  "sys_perm_list cpu validate_w out_ptr out_cap st sp =
     (let (s, sched) = st in
      if \<not> caller_has_system cpu Rights_READ sched then (0, sp)
      else if out_cap > 0 \<and> \<not> validate_w out_ptr out_cap True then (0, sp)
      else
        let mx = unat out_cap div PERM_ABI_SIZE in
        if mx = 0 then (0, sp)
        else
          let reqs = drain_pending mx s in
          case copy_to_user sp out_ptr (concat (map perm_abi reqs)) of
            (Inl _, sp) \<Rightarrow> (0, sp)
          | (Inr _, sp) \<Rightarrow> (word_of_nat (length reqs), sp))"

definition sys_perm_respond :: "nat \<Rightarrow> u64 \<Rightarrow> u64 \<Rightarrow> PermState \<times> Scheduler \<Rightarrow> u64 \<times> PermState \<times> Scheduler" where
  "sys_perm_respond cpu i approved st =
     (if \<not> caller_has_system cpu Rights_WRITE (snd st) then (- 1, st) else (0, resolve i (approved \<noteq> 0) st))"

definition sys_perm_stats ::
  "(u64 \<Rightarrow> u64 \<Rightarrow> bool \<Rightarrow> bool) \<Rightarrow> u64 \<Rightarrow> u64 \<Rightarrow> PermState \<Rightarrow> Space \<Rightarrow> u64 \<times> Space" where
  "sys_perm_stats validate_w out_ptr out_cap s sp =
     (if out_cap < 16 then (0, sp)
      else if \<not> validate_w out_ptr 16 True then (0, sp)
      else case copy_to_user sp out_ptr (to_le_bytes 8 (word_of_nat (prompt_pending_count s) :: u64) @ replicate 8 0) of
             (Inl _, sp) \<Rightarrow> (0, sp)
           | (Inr _, sp) \<Rightarrow> (16, sp))"

section \<open>Events\<close>

text \<open>
  What can happen to the prompts and the tables: the calls of this component, and anything
  else the kernel does with the tasks. Identifiers are unique as long as the 64-bit counter
  has not wrapped.
\<close>

datatype Event =
  EvRequest "u64 option" u64 TaskId str Cap str
| EvPoll u64 u64
| EvKey u8
| EvRespond nat u64 u64
| EvExpire u64
| EvPump "u64 option"
| EvOther

inductive perm_step :: "Event \<Rightarrow> PermState \<times> Scheduler \<Rightarrow> PermState \<times> Scheduler \<Rightarrow> bool" where
  request: "REQUEST_SEQ s < - 1 \<Longrightarrow>
     perm_step (EvRequest surf now task app cap desc) (s, sched) (snd (prompt_request surf now task app cap desc s), sched)"
| poll: "perm_step (EvPoll now i) (s, sched) (snd (poll_verdict now i s), sched)"
| key: "perm_step (EvKey sc) st (snd (handle_key sc st))"
| respond: "perm_step (EvRespond cpu i approved) st (snd (sys_perm_respond cpu i approved st))"
| expire: "perm_step (EvExpire now) (s, sched) (expire_stale now s, sched)"
| pump: "perm_step (EvPump surf) (s, sched) (pump surf s, sched)"
| other: "perm_step EvOther (s, sched) (s, sched')"

inductive_cases perm_stepE: "perm_step e st st'"

definition perm_next :: "PermState \<times> Scheduler \<Rightarrow> PermState \<times> Scheduler \<Rightarrow> bool" where
  "perm_next st st' \<longleftrightarrow> (\<exists>e. perm_step e st st')"

section \<open>Lemmas on the queue\<close>

lemma take_request_Some:
  "take_request i rs = Some (r, rest) \<Longrightarrow> \<exists>xs ys. rs = xs @ r # ys \<and> rest = xs @ ys \<and> req_id r = i"
proof (induction rs arbitrary: rest)
  case (Cons x xs)
  then show ?case
  proof (cases "req_id x = i")
    case False
    with Cons.prems obtain rest' where "take_request i xs = Some (r, rest')" "rest = x # rest'" by auto
    with Cons.IH show ?thesis by (metis append_Cons)
  qed (use Cons.prems in auto)
qed simp

lemma take_request_None: "take_request i rs = None \<longleftrightarrow> i \<notin> req_id ` set rs"
  by (induction rs) auto

lemma expire_loop_eq:
  "expire_loop now rs = (filter (\<lambda>r. \<not> is_stale now r) rs, map (\<lambda>r. r\<lparr>verdict := TimedOut\<rparr>) (filter (is_stale now) rs))"
  by (induction rs) (simp_all add: Let_def)

definition waiting_ok :: "u64 \<Rightarrow> PermRequest \<Rightarrow> bool" where
  "waiting_ok n r \<longleftrightarrow> verdict r = Pending \<and> granted_handle r = 0 \<and> flavor r = flavor_from_cap (req_cap r) \<and> req_id r < n"

definition settled_ok :: "u64 \<Rightarrow> PermRequest \<Rightarrow> bool" where
  "settled_ok n r \<longleftrightarrow> verdict r \<noteq> Pending \<and> (granted_handle r \<noteq> 0 \<longrightarrow> verdict r = Approved) \<and> req_id r < n"

definition queue_ok :: "u64 \<Rightarrow> PromptQueue \<Rightarrow> bool" where
  "queue_ok n q \<longleftrightarrow> (\<forall>r\<in>set (pending q). waiting_ok n r) \<and> (\<forall>r\<in>set (resolved q). settled_ok n r)
     \<and> distinct (map req_id (pending q @ resolved q)) \<and> length (pending q) \<le> MAX_PENDING"

definition dialog_ok :: "PermState \<Rightarrow> bool" where
  "dialog_ok s \<longleftrightarrow> (\<forall>d. DIALOG s = Some d \<longrightarrow> req_id (request d) < REQUEST_SEQ s
     \<and> (\<forall>r\<in>set (pending (QUEUE s)). req_id r = req_id (request d) \<longrightarrow> r = request d))"

definition perm_inv :: "PermState \<times> Scheduler \<Rightarrow> bool" where
  "perm_inv st \<longleftrightarrow> queue_ok (REQUEST_SEQ (fst st)) (QUEUE (fst st)) \<and> dialog_ok (fst st)"

lemmas perm_inv_defs = perm_inv_def queue_ok_def dialog_ok_def

lemma pending_unique:
  assumes "queue_ok n q" and "r \<in> set (pending q)" and "x \<in> set (pending q)" and "req_id x = req_id r"
  shows "x = r"
proof -
  have "inj_on req_id (set (pending q))" using assms(1) by (simp add: queue_ok_def distinct_map)
  then show ?thesis using assms(2-) by (auto dest: inj_onD)
qed

lemma pump_inv: "perm_inv (s, sched) \<Longrightarrow> perm_inv (pump surf s, sched)"
proof -
  assume inv: "perm_inv (s, sched)"
  show ?thesis
  proof (cases "pending (QUEUE s)")
    case (Cons r rs)
    with inv have "req_id r < REQUEST_SEQ s" by (simp add: perm_inv_defs waiting_ok_def)
    moreover have "\<forall>x\<in>set (pending (QUEUE s)). req_id x = req_id r \<longrightarrow> x = r"
      using inv Cons pending_unique [of _ "QUEUE s" r] by (auto simp: perm_inv_def)
    ultimately show ?thesis using inv Cons
      by (auto simp: pump_def drain_pending_def perm_inv_def dialog_ok_def split: option.splits)
  qed (use inv in \<open>simp add: pump_def drain_pending_def\<close>)
qed

lemma request_inv:
  assumes "perm_inv (s, sched)" and "REQUEST_SEQ s < - 1"
  shows "perm_inv (snd (prompt_request surf now task app cap desc s), sched)"
proof (cases "length (pending (QUEUE s)) \<ge> MAX_PENDING")
  case False
  let ?n = "REQUEST_SEQ s"
  let ?q = "(QUEUE s)\<lparr>pending := pending (QUEUE s) @ [new_request ?n now task app cap desc]\<rparr>"
  have n: "?n < ?n + 1" using assms(2) by unat_arith
  then have lift: "x < ?n + 1" if "x < ?n" for x using that by (rule less_trans [rotated])
  have "queue_ok (?n + 1) ?q"
    using assms(1) False n lift
    by (fastforce simp: perm_inv_def queue_ok_def waiting_ok_def settled_ok_def new_request_def)
  moreover have "dialog_ok (s\<lparr>REQUEST_SEQ := ?n + 1, QUEUE := ?q\<rparr>)"
    using assms(1) lift by (fastforce simp: perm_inv_def dialog_ok_def new_request_def)
  ultimately have "perm_inv (s\<lparr>REQUEST_SEQ := ?n + 1, QUEUE := ?q\<rparr>, sched)" by (simp add: perm_inv_def)
  with False show ?thesis by (simp add: prompt_request_def Let_def pump_inv)
qed (use assms in \<open>simp add: prompt_request_def\<close>)

text \<open>Taking a request out of the pending ones, and settling it or dropping it.\<close>

lemma take_pending_inv:
  assumes "perm_inv (s, sched)" and "take_request i (pending (QUEUE s)) = Some (r, rest)"
  shows "perm_inv (s\<lparr>QUEUE := (QUEUE s)\<lparr>pending := rest\<rparr>\<rparr>, sched')"
    and "settled_ok (REQUEST_SEQ s) (r\<lparr>verdict := v, granted_handle := h\<rparr>) \<Longrightarrow>
      perm_inv (s\<lparr>QUEUE := \<lparr>pending = rest, resolved = resolved (QUEUE s) @ [r\<lparr>verdict := v, granted_handle := h\<rparr>]\<rparr>\<rparr>, sched')"
proof -
  obtain xs ys where r: "pending (QUEUE s) = xs @ r # ys" "rest = xs @ ys" "req_id r = i"
    using take_request_Some [OF assms(2)] by blast
  have q: "queue_ok (REQUEST_SEQ s) ((QUEUE s)\<lparr>pending := rest\<rparr>)" and
    d: "DIALOG s = Some d \<Longrightarrow> req_id (request d) < REQUEST_SEQ s \<and> (\<forall>x\<in>set rest. req_id x = req_id (request d) \<longrightarrow> x = request d)" for d
    using assms(1) r(1,2) by (auto simp: perm_inv_defs)
  then show "perm_inv (s\<lparr>QUEUE := (QUEUE s)\<lparr>pending := rest\<rparr>\<rparr>, sched')"
    by (simp add: perm_inv_def dialog_ok_def)
  assume settled: "settled_ok (REQUEST_SEQ s) (r\<lparr>verdict := v, granted_handle := h\<rparr>)"
  have "queue_ok (REQUEST_SEQ s) \<lparr>pending = rest, resolved = resolved (QUEUE s) @ [r\<lparr>verdict := v, granted_handle := h\<rparr>]\<rparr>"
    using q settled assms(1) r by (auto simp: perm_inv_def queue_ok_def)
  with d show "perm_inv (s\<lparr>QUEUE := \<lparr>pending = rest, resolved = resolved (QUEUE s) @ [r\<lparr>verdict := v, granted_handle := h\<rparr>]\<rparr>\<rparr>, sched')"
    by (simp add: perm_inv_def dialog_ok_def)
qed

lemma taken_waiting:
  assumes "perm_inv (s, sched)" and "take_request i (pending (QUEUE s)) = Some (r, rest)"
  shows "waiting_ok (REQUEST_SEQ s) r" and "r \<in> set (pending (QUEUE s))" and "req_id r = i"
  using assms take_request_Some [OF assms(2)] by (auto simp: perm_inv_defs)

lemma resolve_cases:
  obtains (none) "take_request i (pending (QUEUE s)) = None" "resolve i approved (s, sched) = (s, sched)"
  | (some) r rest v h sched' where "take_request i (pending (QUEUE s)) = Some (r, rest)"
      "resolve i approved (s, sched) =
         (s\<lparr>QUEUE := \<lparr>pending = rest, resolved = resolved (QUEUE s) @ [r\<lparr>verdict := v, granted_handle := h\<rparr>]\<rparr>\<rparr>, sched')"
      "v = Approved \<and> approved \<and> sched' = snd (grant_root (requester r) (req_cap r) sched)
        \<or> v = Denied \<and> h = granted_handle r \<and> (sched' = sched \<or> approved \<and> fst (grant_root (requester r) (req_cap r) sched) = None
            \<and> sched' = snd (grant_root (requester r) (req_cap r) sched))"
proof (cases "take_request i (pending (QUEUE s))")
  case None
  then show ?thesis using none by (simp add: resolve_def)
next
  case (Some p)
  obtain r rest where p: "p = (r, rest)" by (cases p)
  show ?thesis
  proof (cases approved)
    case True
    obtain o' sched' where g: "grant_root (requester r) (req_cap r) sched = (o', sched')" by fastforce
    show ?thesis
    proof (cases o')
      case None
      with Some p True g show ?thesis
        by (intro some [where r = r and rest = rest and v = Denied and h = "granted_handle r" and sched' = sched']) (simp_all add: resolve_def)
    next
      case (Some h)
      with \<open>take_request i (pending (QUEUE s)) = Some p\<close> p True g show ?thesis
        by (intro some [where r = r and rest = rest and v = Approved and h = "handle_raw h" and sched' = sched']) (simp_all add: resolve_def)
    qed
  next
    case False
    with Some p show ?thesis
      by (intro some [where r = r and rest = rest and v = Denied and h = "granted_handle r" and sched' = sched]) (simp_all add: resolve_def)
  qed
qed

lemma resolve_inv:
  assumes "perm_inv (s, sched)"
  shows "perm_inv (resolve i approved (s, sched))"
proof (cases rule: resolve_cases [of i s approved sched])
  case none
  with assms show ?thesis by simp
next
  case (some r rest v h sched')
  note r = taken_waiting [OF assms some(1)]
  have "settled_ok (REQUEST_SEQ s) (r\<lparr>verdict := v, granted_handle := h\<rparr>)"
    using r some(3) by (auto simp: settled_ok_def waiting_ok_def)
  from take_pending_inv(2) [OF assms some(1) this] show ?thesis unfolding some(2) .
qed

lemma drop_dialog_inv: "perm_inv (s, sched) \<Longrightarrow> perm_inv (s\<lparr>DIALOG := None\<rparr>, sched)"
  by (simp add: perm_inv_defs)

lemma counters_inv:
  "perm_inv (s\<lparr>PROMPTS_APPROVED := n\<rparr>, sched) = perm_inv (s, sched)" "perm_inv (s\<lparr>PROMPTS_DENIED := n\<rparr>, sched) = perm_inv (s, sched)"
  by (simp_all add: perm_inv_defs)

lemma handle_key_cases:
  obtains (same) "snd (handle_key sc (s, sched)) = (s, sched)"
  | (answer) d s' sched' n where "DIALOG s = Some d"
      "resolve (req_id (request d)) (sc = SC_Y \<or> sc = SC_ENTER) (s\<lparr>DIALOG := None\<rparr>, sched) = (s', sched')"
      "snd (handle_key sc (s, sched)) = (s'\<lparr>PROMPTS_APPROVED := n\<rparr>, sched') \<or> snd (handle_key sc (s, sched)) = (s'\<lparr>PROMPTS_DENIED := n\<rparr>, sched')"
proof (cases "DIALOG s")
  case None
  then show ?thesis using same by (simp add: handle_key_def)
next
  case (Some d)
  obtain s' sched' where r: "resolve (req_id (request d)) (sc = SC_Y \<or> sc = SC_ENTER) (s\<lparr>DIALOG := None\<rparr>, sched) = (s', sched')"
    by fastforce
  consider "sc \<noteq> SC_Y \<and> sc \<noteq> SC_ENTER \<and> sc \<noteq> SC_N \<and> sc \<noteq> SC_ESC" | "sc = SC_Y \<or> sc = SC_ENTER"
    | "\<not> (sc = SC_Y \<or> sc = SC_ENTER)" "sc = SC_N \<or> sc = SC_ESC" by blast
  then show ?thesis
  proof cases
    case 1
    then show ?thesis using same Some by (simp add: handle_key_def)
  next
    case 2
    then have "snd (handle_key sc (s, sched)) = (s'\<lparr>PROMPTS_APPROVED := PROMPTS_APPROVED s' + 1\<rparr>, sched')"
      using Some r unfolding handle_key_def by (auto simp: Let_def)
    with Some r show ?thesis by (blast intro: answer)
  next
    case 3
    then have "snd (handle_key sc (s, sched)) = (s'\<lparr>PROMPTS_DENIED := PROMPTS_DENIED s' + 1\<rparr>, sched')"
      using Some r unfolding handle_key_def by (auto simp: Let_def)
    with Some r show ?thesis by (blast intro: answer)
  qed
qed

lemma handle_key_inv:
  assumes "perm_inv (s, sched)"
  shows "perm_inv (snd (handle_key sc (s, sched)))"
proof (cases rule: handle_key_cases [of sc s sched])
  case (answer d s' sched' n)
  with resolve_inv [OF drop_dialog_inv [OF assms], of "req_id (request d)" "sc = SC_Y \<or> sc = SC_ENTER"]
  show ?thesis by (auto simp: counters_inv)
qed (use assms in simp)

lemma poll_inv:
  assumes "perm_inv (s, sched)"
  shows "perm_inv (snd (poll_verdict now i s), sched)"
proof (cases "take_request i (resolved (QUEUE s))")
  case None
  then show ?thesis
    using assms take_pending_inv(1) [OF assms] by (auto simp: poll_verdict_def split: option.splits)
next
  case (Some p)
  obtain r rest where p: "p = (r, rest)" by (cases p)
  with Some take_request_Some obtain xs ys where "resolved (QUEUE s) = xs @ r # ys" "rest = xs @ ys" by blast
  with assms Some p show ?thesis by (auto simp: poll_verdict_def perm_inv_defs)
qed

lemma expire_inv:
  assumes "perm_inv (s, sched)"
  shows "perm_inv (expire_stale now s, sched)"
proof -
  let ?p = "pending (QUEUE s)"
  let ?gone = "map (\<lambda>r. r\<lparr>verdict := TimedOut\<rparr>) (filter (is_stale now) ?p)"
  have ids: "map req_id ?gone = map req_id (filter (is_stale now) ?p)" by simp
  have "distinct (map req_id (filter (\<lambda>r. \<not> is_stale now r) ?p) @ map req_id (resolved (QUEUE s)) @ map req_id ?gone)"
    unfolding ids using assms by (auto simp: perm_inv_defs distinct_map intro: inj_on_subset dest: inj_onD)
  then have "queue_ok (REQUEST_SEQ s) \<lparr>pending = filter (\<lambda>r. \<not> is_stale now r) ?p, resolved = resolved (QUEUE s) @ ?gone\<rparr>"
    using assms by (auto simp: perm_inv_defs waiting_ok_def settled_ok_def intro: le_trans [OF length_filter_le])
  with assms show ?thesis by (simp add: expire_stale_def expire_loop_eq perm_inv_def dialog_ok_def)
qed

interpretation prompts: inductive_invariant "\<lambda>st. fst st = perm_boot" perm_next perm_inv
proof
  show "perm_inv st" if "fst st = perm_boot" for st :: "PermState \<times> Scheduler"
    using that by (simp add: perm_boot_def perm_inv_defs)
  show "perm_inv st'" if "perm_next st st'" "perm_inv st" for st st'
    using that(1) unfolding perm_next_def
  proof (elim exE perm_stepE)
    show ?thesis if "st = (s, sched)" "st' = (s, sched')" for s sched sched'
      using that \<open>perm_inv st\<close> by (simp add: perm_inv_def)
  qed (use that(2) in \<open>cases st, auto simp: request_inv poll_inv handle_key_inv resolve_inv expire_inv pump_inv
      sys_perm_respond_def\<close>)+
qed

section \<open>What a step does to the tables\<close>

definition give_root :: "TaskId \<Rightarrow> Cap \<Rightarrow> Task \<Rightarrow> Task" where
  "give_root i c t = (if task_id t = i then t\<lparr>cap_table := snd (insert_root c (cap_table t))\<rparr> else t)"

lemma grant_root_tasks:
  assumes "unique_ids sched"
  shows "tasks (snd (grant_root i c sched)) = map (give_root i c) (tasks sched)"
    and "fst (grant_root i c sched) = None \<Longrightarrow> tasks (snd (grant_root i c sched)) = tasks sched"
proof -
  let ?f = "\<lambda>t. let (h, ct) = insert_root c (cap_table t) in (h, t\<lparr>cap_table := ct\<rparr>)"
  have eq: "grant_root i c sched = (map_option (\<lambda>t. fst (?f t)) (find_id i (tasks sched)), map_sched (upd i ?f) sched)"
    unfolding grant_root_def by (rule with_task_by_id_eq [OF assms])
  have upd: "upd i ?f = give_root i c"
    by (auto simp: upd_def give_root_def fun_eq_iff insert_root_def Let_def)
  show "tasks (snd (grant_root i c sched)) = map (give_root i c) (tasks sched)"
    by (simp only: eq upd snd_conv tasks_map_sched)
  assume "fst (grant_root i c sched) = None"
  then have "i \<notin> task_id ` set (tasks sched)" by (simp add: eq find_id_None)
  then show "tasks (snd (grant_root i c sched)) = tasks sched"
    unfolding eq upd snd_conv tasks_map_sched by (intro map_idI) (auto simp: give_root_def)
qed

lemma resolve_tasks:
  assumes "perm_inv (s, sched)" and "unique_ids sched" and "tasks (snd (resolve i approved (s, sched))) \<noteq> tasks sched"
  obtains r where "r \<in> set (pending (QUEUE s))" "req_id r = i" "flavor r = flavor_from_cap (req_cap r)" "approved"
    "tasks (snd (resolve i approved (s, sched))) = map (give_root (requester r) (req_cap r)) (tasks sched)"
proof (cases rule: resolve_cases [of i s approved sched])
  case none
  with assms(3) show ?thesis by simp
next
  case (some r rest v h sched')
  then have "approved" "tasks sched' = map (give_root (requester r) (req_cap r)) (tasks sched)"
    using assms(3) grant_root_tasks [OF assms(2), of "requester r" "req_cap r"] by auto
  with that [of r] taken_waiting [OF assms(1) some(1)] some(2) show ?thesis by (simp add: waiting_ok_def)
qed

section \<open>Lifecycle of a request\<close>

datatype Phase = Unborn | Waiting | Settled PromptVerdict u64 | Delivered

definition phase :: "PermState \<Rightarrow> u64 \<Rightarrow> Phase" where
  "phase s i =
     (if \<not> i < REQUEST_SEQ s then Unborn
      else if i \<in> req_id ` set (pending (QUEUE s)) then Waiting
      else case List.find (\<lambda>r. req_id r = i) (resolved (QUEUE s)) of
             Some r \<Rightarrow> Settled (verdict r) (granted_handle r)
           | None \<Rightarrow> Delivered)"

inductive phase_step :: "Phase \<Rightarrow> Phase \<Rightarrow> bool" where
  "phase_step p p"
| "phase_step Unborn Waiting"
| "v \<noteq> Pending \<Longrightarrow> (h \<noteq> 0 \<longrightarrow> v = Approved) \<Longrightarrow> phase_step Waiting (Settled v h)"
| "phase_step Waiting Delivered"
| "phase_step (Settled v h) Delivered"

lemma find_append: "List.find P (xs @ ys) = (case List.find P xs of Some x \<Rightarrow> Some x | None \<Rightarrow> List.find P ys)"
  by (induction xs) auto

lemma find_SomeD: "List.find P xs = Some x \<Longrightarrow> x \<in> set xs \<and> P x"
  by (induction xs) (auto split: if_splits)

lemma find_id_fresh: "i \<notin> req_id ` set rs \<Longrightarrow> List.find (\<lambda>r. req_id r = i) rs = None"
  by (auto simp: find_None_iff)

lemma phase_pump [simp]: "phase (pump surf s) i = phase s i"
  by (simp add: pump_def phase_def split: option.splits list.splits)

lemma phase_request:
  assumes "perm_inv (s, sched)" and "REQUEST_SEQ s < - 1"
  shows "phase_step (phase s i) (phase (snd (prompt_request surf now task app cap desc s)) i)"
proof (cases "length (pending (QUEUE s)) \<ge> MAX_PENDING")
  case True
  then show ?thesis by (simp add: prompt_request_def phase_step.intros(1))
next
  case False
  let ?n = "REQUEST_SEQ s"
  let ?s = "s\<lparr>REQUEST_SEQ := ?n + 1, QUEUE := (QUEUE s)\<lparr>pending := pending (QUEUE s) @ [new_request ?n now task app cap desc]\<rparr>\<rparr>"
  have n: "x < ?n + 1 \<longleftrightarrow> x < ?n \<or> x = ?n" for x using assms(2) by unat_arith
  have "phase_step (phase s i) (phase ?s i)"
    by (cases "i = ?n") (auto simp: phase_def n new_request_def intro: phase_step.intros)
  with False show ?thesis by (simp add: prompt_request_def Let_def)
qed

lemma phase_take_pending:
  assumes "perm_inv (s, sched)" and "take_request i (pending (QUEUE s)) = Some (r, rest)"
  shows "phase_step (phase s j) (phase (s\<lparr>QUEUE := (QUEUE s)\<lparr>pending := rest\<rparr>\<rparr>) j)"
    and "v \<noteq> Pending \<Longrightarrow> (h \<noteq> 0 \<longrightarrow> v = Approved) \<Longrightarrow> phase_step (phase s j)
      (phase (s\<lparr>QUEUE := \<lparr>pending = rest, resolved = resolved (QUEUE s) @ [r\<lparr>verdict := v, granted_handle := h\<rparr>]\<rparr>\<rparr>) j)"
proof -
  obtain xs ys where r: "pending (QUEUE s) = xs @ r # ys" "rest = xs @ ys" "req_id r = i"
    using take_request_Some [OF assms(2)] by blast
  have i: "i \<notin> req_id ` set rest" "i \<notin> req_id ` set (resolved (QUEUE s))" "i < REQUEST_SEQ s"
    using assms(1) r by (auto simp: perm_inv_defs waiting_ok_def)
  have w: "phase s i = Waiting" using r i by (simp add: phase_def)
  show "phase_step (phase s j) (phase (s\<lparr>QUEUE := (QUEUE s)\<lparr>pending := rest\<rparr>\<rparr>) j)"
  proof (cases "j = i")
    case True
    then show ?thesis using i w find_id_fresh [OF i(2)] by (simp add: phase_def phase_step.intros(4))
  next
    case False
    then show ?thesis using r by (auto simp: phase_def intro: phase_step.intros)
  qed
  assume v: "v \<noteq> Pending" "h \<noteq> 0 \<longrightarrow> v = Approved"
  show "phase_step (phase s j)
      (phase (s\<lparr>QUEUE := \<lparr>pending = rest, resolved = resolved (QUEUE s) @ [r\<lparr>verdict := v, granted_handle := h\<rparr>]\<rparr>\<rparr>) j)"
  proof (cases "j = i")
    case True
    then show ?thesis using i w r(3) v find_id_fresh [OF i(2)] by (simp add: phase_def find_append phase_step.intros(3))
  next
    case False
    then show ?thesis using r by (auto simp: phase_def find_append intro: phase_step.intros split: option.splits)
  qed
qed

lemma phase_resolve:
  assumes "perm_inv (s, sched)"
  shows "phase_step (phase s j) (phase (fst (resolve i approved (s, sched))) j)"
proof (cases rule: resolve_cases [of i s approved sched])
  case none
  then show ?thesis by (simp add: phase_step.intros(1))
next
  case (some r rest v h sched')
  moreover have "v \<noteq> Pending" "h \<noteq> 0 \<longrightarrow> v = Approved"
    using some(3) taken_waiting(1) [OF assms some(1)] by (auto simp: waiting_ok_def)
  ultimately show ?thesis using phase_take_pending(2) [OF assms some(1), of v h j] by simp
qed

lemma phase_poll:
  assumes "perm_inv (s, sched)"
  shows "phase_step (phase s j) (phase (snd (poll_verdict now i s)) j)"
proof (cases "take_request i (resolved (QUEUE s))")
  case None
  then show ?thesis
    using phase_take_pending(1) [OF assms] by (auto simp: poll_verdict_def phase_step.intros(1) split: option.splits)
next
  case (Some p)
  obtain r rest where p: "p = (r, rest)" by (cases p)
  with Some take_request_Some obtain xs ys where r: "resolved (QUEUE s) = xs @ r # ys" "rest = xs @ ys" "req_id r = i" by blast
  have i: "i \<notin> req_id ` set (xs @ ys)" "i \<notin> req_id ` set (pending (QUEUE s))"
    using assms r by (auto simp: perm_inv_defs)
  from i(1) have "List.find (\<lambda>r. req_id r = i) (xs @ ys) = None" by (rule find_id_fresh)
  with i r have "phase_step (phase s j) (phase (s\<lparr>QUEUE := (QUEUE s)\<lparr>resolved := rest\<rparr>\<rparr>) j)"
    by (cases "j = i") (auto simp: phase_def find_append intro: phase_step.intros split: option.splits)
  with Some p show ?thesis by (simp add: poll_verdict_def)
qed

lemma phase_expire:
  assumes "perm_inv (s, sched)"
  shows "phase_step (phase s j) (phase (expire_stale now s) j)"
proof -
  let ?p = "pending (QUEUE s)"
  let ?keep = "filter (\<lambda>r. \<not> is_stale now r) ?p" and ?gone = "map (\<lambda>r. r\<lparr>verdict := TimedOut\<rparr>) (filter (is_stale now) ?p)"
  let ?s = "s\<lparr>QUEUE := \<lparr>pending = ?keep, resolved = resolved (QUEUE s) @ ?gone\<rparr>\<rparr>"
  have "phase_step (phase s j) (phase ?s j)"
  proof (cases "j \<in> req_id ` set ?p")
    case False
    then have "j \<notin> req_id ` set ?keep" "List.find (\<lambda>r. req_id r = j) ?gone = None" by (auto simp: find_None_iff)
    with False show ?thesis by (auto simp: phase_def find_append intro: phase_step.intros split: option.splits)
  next
    case True
    then obtain r where r: "r \<in> set ?p" "req_id r = j" by blast
    have only: "x = r" if "x \<in> set ?p" "req_id x = j" for x
      using pending_unique [of "REQUEST_SEQ s" "QUEUE s" r x] assms r that by (simp add: perm_inv_def)
    have ok: "j < REQUEST_SEQ s" "j \<notin> req_id ` set (resolved (QUEUE s))" "granted_handle r = 0"
      using assms r by (auto simp: perm_inv_defs waiting_ok_def)
    show ?thesis
    proof (cases "is_stale now r")
      case True
      then have "j \<notin> req_id ` set ?keep" using only by auto
      moreover have "List.find (\<lambda>r. req_id r = j) ?gone = Some (r\<lparr>verdict := TimedOut\<rparr>)"
      proof (cases "List.find (\<lambda>r. req_id r = j) ?gone")
        case None
        with True r show ?thesis by (auto simp: find_None_iff)
      next
        case (Some x)
        from find_SomeD [OF this] have "x \<in> set ?gone" "req_id x = j" by auto
        then show ?thesis using only Some by auto
      qed
      ultimately show ?thesis
        using ok r(1,2) True find_id_fresh [OF ok(2)]
        by (auto simp: phase_def find_append intro: phase_step.intros(3))
    next
      case False
      with r ok show ?thesis by (auto simp: phase_def intro: phase_step.intros)
    qed
  qed
  then show ?thesis by (simp add: expire_stale_def expire_loop_eq)
qed

lemma phase_key:
  assumes "perm_inv (s, sched)"
  shows "phase_step (phase s j) (phase (fst (snd (handle_key sc (s, sched)))) j)"
proof (cases rule: handle_key_cases [of sc s sched])
  case same
  then show ?thesis by (simp add: phase_step.intros(1))
next
  case (answer d s' sched' n)
  have "phase (s'\<lparr>PROMPTS_APPROVED := n\<rparr>) j = phase s' j" "phase (s'\<lparr>PROMPTS_DENIED := n\<rparr>) j = phase s' j"
    "phase (s\<lparr>DIALOG := None\<rparr>) j = phase s j" by (simp_all add: phase_def)
  with answer phase_resolve [OF drop_dialog_inv [OF assms], of j "req_id (request d)" "sc = SC_Y \<or> sc = SC_ENTER"]
  show ?thesis by auto
qed

section \<open>Properties\<close>

text \<open>
  C20. Capabilities enter a table only by consent. In every state the prompts reach, when a
  call of this component changes the tables, it adds to the table of one task exactly the
  capability of a pending request of that task; and either the user has just allowed, at the
  keyboard, the very request the dialog shows, or the caller of \<^verbatim>\<open>SYS_PERM_RESPOND\<close> approves it by
  its number and holds the system capability with the write right.
\<close>

theorem prompt_grant_consented:
  assumes "rtranclp perm_next (perm_boot, sched0) (s, sched)" and "perm_step e (s, sched) (s', sched')" and "e \<noteq> EvOther"
    and "unique_ids sched" and "tasks sched' \<noteq> tasks sched"
  shows "\<exists>r\<in>set (pending (QUEUE s)). tasks sched' = map (give_root (requester r) (req_cap r)) (tasks sched)
    \<and> ((\<exists>sc d. e = EvKey sc \<and> (sc = SC_Y \<or> sc = SC_ENTER) \<and> DIALOG s = Some d \<and> request d = r
           \<and> flavor r = flavor_from_cap (req_cap r))
       \<or> (\<exists>cpu a. e = EvRespond cpu (req_id r) a \<and> a \<noteq> 0 \<and> caller_has_system cpu Rights_WRITE sched))"
proof -
  have inv: "perm_inv (s, sched)" using prompts.reachable_inv [OF _ assms(1)] by simp
  from assms(2) show ?thesis
  proof (cases rule: perm_step.cases)
    case (key sc)
    show ?thesis
    proof (cases rule: handle_key_cases [of sc s sched])
      case (answer d s1 sched1 n)
      have eq: "snd (resolve (req_id (request d)) (sc = SC_Y \<or> sc = SC_ENTER) (s\<lparr>DIALOG := None\<rparr>, sched)) = sched'"
        using answer key by auto
      obtain r where r: "r \<in> set (pending (QUEUE s))" "req_id r = req_id (request d)" "flavor r = flavor_from_cap (req_cap r)"
        "sc = SC_Y \<or> sc = SC_ENTER" "tasks sched' = map (give_root (requester r) (req_cap r)) (tasks sched)"
        by (rule resolve_tasks [OF drop_dialog_inv [OF inv] assms(4), of "req_id (request d)" "sc = SC_Y \<or> sc = SC_ENTER"])
          (use assms(5) eq in auto)
      with inv answer(1) have "request d = r" by (auto simp: perm_inv_def dialog_ok_def)
      with r answer(1) key show ?thesis by blast
    qed (use key assms(5) in auto)
  next
    case (respond cpu i a)
    then have c: "caller_has_system cpu Rights_WRITE sched" "resolve i (a \<noteq> 0) (s, sched) = (s', sched')"
      using assms(5) by (auto simp: sys_perm_respond_def split: if_splits)
    obtain r where "r \<in> set (pending (QUEUE s))" "req_id r = i" "a \<noteq> 0"
      "tasks sched' = map (give_root (requester r) (req_cap r)) (tasks sched)"
      by (rule resolve_tasks [OF inv assms(4), of i "a \<noteq> 0"]) (use assms(5) c(2) in auto)
    with c respond show ?thesis by blast
  qed (use assms(3,5) in auto)
qed


text \<open>
  A prompt that has timed out can still be answered: there are states in which polling at a
  later time would report the request as timed out, and in which allowing the dialog, which
  never looks at the clock, adds the capability all the same.
\<close>

definition wit_tasks :: Scheduler where
  "wit_tasks = \<lparr>runqueues = [], switch_stash = [], blocked_tasks = [],
     current_task = [Some \<lparr>task_id = TaskId 1, cap_table = cap_table_new\<rparr>]\<rparr>"

definition wit_asked :: PermState where
  "wit_asked = snd (prompt_request (Some 7) 0 (TaskId 1) (lit ''app'') (Camera 0 Rights_READ) [] perm_boot)"

lemma wit_asked_reachable: "rtranclp perm_next (perm_boot, wit_tasks) (wit_asked, wit_tasks)"
proof -
  have "perm_step (EvRequest (Some 7) 0 (TaskId 1) (lit ''app'') (Camera 0 Rights_READ) []) (perm_boot, wit_tasks) (wit_asked, wit_tasks)"
    unfolding wit_asked_def by (rule perm_step.request) code_simp
  then show ?thesis unfolding perm_next_def by (intro r_into_rtranclp) blast
qed

theorem stale_prompt_granted:
  "\<exists>s sched d now. rtranclp perm_next (perm_boot, sched) (s, sched) \<and> DIALOG s = Some d
     \<and> fst (poll_verdict now (req_id (request d)) s) = (TimedOut, 0)
     \<and> tasks (snd (snd (handle_key SC_ENTER (s, sched)))) = map (give_root (requester (request d)) (req_cap (request d))) (tasks sched)
     \<and> tasks (snd (snd (handle_key SC_ENTER (s, sched)))) \<noteq> tasks sched"
proof -
  let ?d = "the (DIALOG wit_asked)"
  have "DIALOG wit_asked = Some ?d" "fst (poll_verdict 30001 (req_id (request ?d)) wit_asked) = (TimedOut, 0)"
    "tasks (snd (snd (handle_key SC_ENTER (wit_asked, wit_tasks))))
      = map (give_root (requester (request ?d)) (req_cap (request ?d))) (tasks wit_tasks)"
    "tasks (snd (snd (handle_key SC_ENTER (wit_asked, wit_tasks)))) \<noteq> tasks wit_tasks"
    by code_simp+
  with wit_asked_reachable show ?thesis by blast
qed

text \<open>
  After an answer nothing shows the next request: two requests, one dialog, one key, and the
  second request waits without a dialog, and keys go to the applications again.
\<close>

theorem next_prompt_not_shown:
  "\<exists>s sched s' sched'. rtranclp perm_next (perm_boot, sched) (s, sched) \<and> handle_key SC_N (s, sched) = (True, s', sched')
     \<and> prompt_pending_count s' = 1 \<and> \<not> dialog_open s' \<and> (\<forall>sc. fst (handle_key sc (s', sched')) = False)"
proof -
  let ?s = "snd (prompt_request (Some 8) 1 (TaskId 1) (lit ''app'') (Audio 0 Rights_READ) [] wit_asked)"
  have "perm_step (EvRequest (Some 8) 1 (TaskId 1) (lit ''app'') (Audio 0 Rights_READ) []) (wit_asked, wit_tasks) (?s, wit_tasks)"
    by (rule perm_step.request) code_simp
  with wit_asked_reachable have "rtranclp perm_next (perm_boot, wit_tasks) (?s, wit_tasks)"
    by (meson perm_next_def rtranclp.rtrancl_into_rtrancl)
  moreover obtain s' sched' where r: "snd (handle_key SC_N (?s, wit_tasks)) = (s', sched')" by fastforce
  moreover have "fst (handle_key SC_N (?s, wit_tasks)) = True" by code_simp
  moreover have "prompt_pending_count (fst (snd (handle_key SC_N (?s, wit_tasks)))) = 1"
    "DIALOG (fst (snd (handle_key SC_N (?s, wit_tasks)))) = None" by code_simp+
  ultimately show ?thesis
    by (intro exI [of _ ?s] exI [of _ wit_tasks] exI [of _ s'] exI [of _ sched'])
      (simp add: prod_eq_iff dialog_open_def handle_key_def [of _ "(s', sched')"])
qed

section \<open>Witnesses\<close>

theorem prompt_grant_consented_witness:
  "\<exists>r\<in>set (pending (QUEUE wit_asked)).
     tasks (snd (snd (handle_key SC_Y (wit_asked, wit_tasks)))) = map (give_root (requester r) (req_cap r)) (tasks wit_tasks)"
proof -
  obtain s' sched' where r: "snd (handle_key SC_Y (wit_asked, wit_tasks)) = (s', sched')" by fastforce
  have step: "perm_step (EvKey SC_Y) (wit_asked, wit_tasks) (s', sched')" unfolding r [symmetric] by (rule perm_step.key)
  have "unique_ids wit_tasks" by code_simp
  moreover have "tasks (snd (snd (handle_key SC_Y (wit_asked, wit_tasks)))) \<noteq> tasks wit_tasks" by code_simp
  ultimately show ?thesis
    using prompt_grant_consented [OF wit_asked_reachable step] r by auto
qed


end
