(* ===== verification/Extable.thy ===== *)
theory Extable
  imports Uaccess
begin

text \<open>
  The fault-fixup table (\<^verbatim>\<open>kernel/src/extable.rs\<close>) under the user copies of \<open>Uaccess\<close>: one slot per
  CPU, the copy stubs with and without the \<^verbatim>\<open>stac\<close>/\<^verbatim>\<open>clac\<close> bracket, and the part of the page
  fault handler (\<^verbatim>\<open>interrupts.rs\<close>) that consults the table, and the enabling of SMAP
  (\<^verbatim>\<open>cpu_features.rs\<close>). The addresses of the stubs' labels and the CPU number are arguments; a
  fault that finds no fixup is the outcome \<open>Fatal\<close>. The theory shows, over all interleavings of
  the CPUs, that the copies never take it, that the table and the access flag are left closed,
  and that the copies are those of \<open>Uaccess\<close>.
\<close>

section \<open>The table\<close>

record FaultFixup =
  start_rip :: u64
  end_rip :: u64
  fixup_rip :: u64

definition MAX_CPUS :: nat where "MAX_CPUS = 64"

record ExtState =
  FIXUP :: "FaultFixup list"
  FIXUP_HITS :: u64
  FIXUP_INSTALLS :: u64
  SMAP_STUBS :: bool

definition fixup_new :: FaultFixup where
  "fixup_new = \<lparr>start_rip = 0, end_rip = 0, fixup_rip = 0\<rparr>"

definition ext_boot :: ExtState where
  "ext_boot = \<lparr>FIXUP = replicate MAX_CPUS fixup_new, FIXUP_HITS = 0, FIXUP_INSTALLS = 0, SMAP_STUBS = False\<rparr>"

definition install :: "nat \<Rightarrow> u64 \<Rightarrow> u64 \<Rightarrow> u64 \<Rightarrow> ExtState \<Rightarrow> ExtState" where
  "install cpu start stop fixup e =
     (if cpu < MAX_CPUS then
        e\<lparr>FIXUP := (FIXUP e)[cpu := \<lparr>start_rip = start, end_rip = stop, fixup_rip = fixup\<rparr>],
          FIXUP_INSTALLS := FIXUP_INSTALLS e + 1\<rparr>
      else e)"

definition clear :: "nat \<Rightarrow> ExtState \<Rightarrow> ExtState" where
  "clear cpu e =
     (if cpu < MAX_CPUS then e\<lparr>FIXUP := (FIXUP e)[cpu := (FIXUP e ! cpu)\<lparr>start_rip := 0\<rparr>]\<rparr> else e)"

definition check_fixup :: "nat \<Rightarrow> u64 \<Rightarrow> ExtState \<Rightarrow> u64 option \<times> ExtState" where
  "check_fixup cpu rip e =
     (if cpu \<ge> MAX_CPUS then (None, e)
      else
        let start = start_rip (FIXUP e ! cpu) in
        if start = 0 then (None, e)
        else
          let stop = end_rip (FIXUP e ! cpu) in
          if rip < start \<or> rip \<ge> stop then (None, e)
          else (Some (fixup_rip (FIXUP e ! cpu)), e\<lparr>FIXUP_HITS := FIXUP_HITS e + 1\<rparr>))"

definition arm_smap_stubs :: "ExtState \<Rightarrow> ExtState" where
  "arm_smap_stubs e = e\<lparr>SMAP_STUBS := True\<rparr>"

section \<open>The copy stubs\<close>

record Labels =
  l_start :: u64
  l_end :: u64
  l_fixup :: u64

text \<open>
  The machine: the flag \<^verbatim>\<open>RFLAGS.AC\<close>, the bit \<^verbatim>\<open>CR4.SMAP\<close>, and what the copy works on. The
  copy itself, \<^verbatim>\<open>rep movsb\<close>, tells whether it ran to its end or faulted; with SMAP on and the
  flag off it faults at its first byte.
\<close>

record 'm Cpu =
  ac :: bool
  cr4_smap :: bool
  data :: 'm

datatype 'm outcome = Status u64 "'m Cpu" ExtState | Fatal

definition rep_movsb :: "('m \<Rightarrow> bool \<times> 'm) \<Rightarrow> 'm Cpu \<Rightarrow> bool \<times> 'm Cpu" where
  "rep_movsb copy c =
     (if cr4_smap c \<and> \<not> ac c then (False, c) else let (ok, d) = copy (data c) in (ok, c\<lparr>data := d\<rparr>))"

text \<open>A kernel page fault at \<open>rip\<close>: the address to resume at, if there is one.\<close>

definition page_fault :: "nat \<Rightarrow> u64 \<Rightarrow> ExtState \<Rightarrow> u64 option \<times> ExtState" where
  "page_fault cpu rip e = (if rip = 0 then (None, e) else check_fixup cpu rip e)"

definition copy_user_movsb :: "nat \<Rightarrow> Labels \<Rightarrow> ('m \<Rightarrow> bool \<times> 'm) \<Rightarrow> 'm Cpu \<Rightarrow> ExtState \<Rightarrow> 'm outcome" where
  "copy_user_movsb cpu l copy c e =
     (case rep_movsb copy c of
        (True, c) \<Rightarrow> Status 0 c e
      | (False, c) \<Rightarrow>
          (case page_fault cpu (l_start l) e of
             (Some rip, e) \<Rightarrow> if rip = l_fixup l then Status 1 c e else Fatal
           | (None, e) \<Rightarrow> Fatal))"

definition copy_user_movsb_smap :: "nat \<Rightarrow> Labels \<Rightarrow> ('m \<Rightarrow> bool \<times> 'm) \<Rightarrow> 'm Cpu \<Rightarrow> ExtState \<Rightarrow> 'm outcome" where
  "copy_user_movsb_smap cpu l copy c e =
     (case rep_movsb copy (c\<lparr>ac := True\<rparr>) of
        (True, c) \<Rightarrow> Status 0 (c\<lparr>ac := False\<rparr>) e
      | (False, c) \<Rightarrow>
          (case page_fault cpu (l_start l) e of
             (Some rip, e) \<Rightarrow> if rip = l_fixup l then Status 1 (c\<lparr>ac := False\<rparr>) e else Fatal
           | (None, e) \<Rightarrow> Fatal))"

text \<open>\<open>n\<close> is the length of the copy; the result is \<open>None\<close> for a fatal fault.\<close>

definition finish_copy :: "nat \<Rightarrow> 'm outcome \<Rightarrow> ((unit + unit) \<times> 'm Cpu \<times> ExtState) option" where
  "finish_copy cpu r =
     (case r of
        Fatal \<Rightarrow> None
      | Status st c e \<Rightarrow> Some (if st = 0 then Inr () else Inl (), c, clear cpu e))"

definition copy_user_with_fixup ::
  "nat \<Rightarrow> Labels \<Rightarrow> Labels \<Rightarrow> nat \<Rightarrow> ('m \<Rightarrow> bool \<times> 'm) \<Rightarrow> 'm Cpu \<Rightarrow> ExtState \<Rightarrow>
     ((unit + unit) \<times> 'm Cpu \<times> ExtState) option" where
  "copy_user_with_fixup cpu plain smap n copy c e =
     (if n = 0 then Some (Inr (), c, e)
      else if SMAP_STUBS e then
        finish_copy cpu (copy_user_movsb_smap cpu smap copy c (install cpu (l_start smap) (l_end smap) (l_fixup smap) e))
      else
        finish_copy cpu (copy_user_movsb cpu plain copy c (install cpu (l_start plain) (l_end plain) (l_fixup plain) e)))"

definition copy_user_no_stac_probe ::
  "nat \<Rightarrow> Labels \<Rightarrow> nat \<Rightarrow> ('m \<Rightarrow> bool \<times> 'm) \<Rightarrow> 'm Cpu \<Rightarrow> ExtState \<Rightarrow> ((unit + unit) \<times> 'm Cpu \<times> ExtState) option" where
  "copy_user_no_stac_probe cpu plain n copy c e =
     (if n = 0 then Some (Inr (), c, e)
      else finish_copy cpu (copy_user_movsb cpu plain copy c (install cpu (l_start plain) (l_end plain) (l_fixup plain) e)))"

section \<open>Lemmas\<close>

definition labels_ok :: "Labels \<Rightarrow> bool" where
  "labels_ok l \<longleftrightarrow> l_start l \<noteq> 0 \<and> l_start l < l_end l"

definition disarmed :: "nat \<Rightarrow> ExtState \<Rightarrow> bool" where
  "disarmed cpu e \<longleftrightarrow> (\<forall>rip. fst (check_fixup cpu rip e) = None)"

definition same_slots :: "nat \<Rightarrow> ExtState \<Rightarrow> ExtState \<Rightarrow> bool" where
  "same_slots cpu e e' \<longleftrightarrow> length (FIXUP e') = length (FIXUP e) \<and> SMAP_STUBS e' = SMAP_STUBS e
     \<and> (\<forall>i. i \<noteq> cpu \<longrightarrow> FIXUP e' ! i = FIXUP e ! i)"

lemma page_fault_installed:
  assumes "cpu < MAX_CPUS" and "length (FIXUP e) = MAX_CPUS" and "labels_ok l"
  shows "\<exists>e'. page_fault cpu (l_start l) (install cpu (l_start l) (l_end l) (l_fixup l) e) = (Some (l_fixup l), e')
    \<and> same_slots cpu e e'"
  using assms by (simp add: page_fault_def check_fixup_def install_def labels_ok_def same_slots_def Let_def not_le)

lemma same_slots_install: "same_slots cpu e (install cpu a b c e)"
  by (simp add: same_slots_def install_def)

lemma finish_clear:
  assumes "cpu < MAX_CPUS" and "length (FIXUP e) = MAX_CPUS" and "same_slots cpu e e'"
  shows "disarmed cpu (clear cpu e') \<and> same_slots cpu e (clear cpu e')"
  using assms by (auto simp: same_slots_def clear_def disarmed_def check_fixup_def Let_def)

lemma copy_user_run:
  assumes "cpu < MAX_CPUS" and "length (FIXUP e) = MAX_CPUS" and "labels_ok plain" and "labels_ok smap"
    and "cr4_smap c \<longrightarrow> SMAP_STUBS e" and "n \<noteq> 0"
  shows "\<exists>c' e'. copy_user_with_fixup cpu plain smap n copy c e
      = Some (if fst (copy (data c)) then Inr () else Inl (), c', e')
    \<and> data c' = snd (copy (data c)) \<and> cr4_smap c' = cr4_smap c \<and> ac c' = (if SMAP_STUBS e then False else ac c)
    \<and> disarmed cpu e' \<and> same_slots cpu e e'"
proof (cases "SMAP_STUBS e")
  case True
  obtain e1 where e1: "page_fault cpu (l_start smap) (install cpu (l_start smap) (l_end smap) (l_fixup smap) e) = (Some (l_fixup smap), e1)"
    "same_slots cpu e e1" using page_fault_installed [OF assms(1,2,4)] by blast
  note fin = finish_clear [OF assms(1,2) same_slots_install] finish_clear [OF assms(1,2) e1(2)]
  show ?thesis
    using True assms(6) e1(1) fin
    by (cases "copy (data c)"; cases "fst (copy (data c))")
      (simp_all add: copy_user_with_fixup_def copy_user_movsb_smap_def rep_movsb_def finish_copy_def)
next
  case False
  obtain e1 where e1: "page_fault cpu (l_start plain) (install cpu (l_start plain) (l_end plain) (l_fixup plain) e) = (Some (l_fixup plain), e1)"
    "same_slots cpu e e1" using page_fault_installed [OF assms(1,2,3)] by blast
  note fin = finish_clear [OF assms(1,2) same_slots_install] finish_clear [OF assms(1,2) e1(2)]
  show ?thesis
    using False assms(5,6) e1(1) fin
    by (cases "copy (data c)"; cases "fst (copy (data c))")
      (simp_all add: copy_user_with_fixup_def copy_user_movsb_def rep_movsb_def finish_copy_def)
qed

section \<open>The machine\<close>

text \<open>
  The copies of \<open>Uaccess\<close>, with the buffer or the address space as the data of a CPU. Every
  caller drops the buffer of a read that failed, so what such a read left there is not observed.
\<close>

definition read_stub :: "Space \<Rightarrow> u64 \<Rightarrow> nat \<Rightarrow> u8 list \<Rightarrow> bool \<times> u8 list" where
  "read_stub sp ptr n buf = (case movsb_read sp ptr n of Some out \<Rightarrow> (True, out) | None \<Rightarrow> (False, buf))"

definition write_stub :: "u64 \<Rightarrow> u8 list \<Rightarrow> Space \<Rightarrow> bool \<times> Space" where
  "write_stub ptr bytes sp = movsb_write sp ptr bytes"

text \<open>
  Turning SMAP on (\<^verbatim>\<open>cpu_features::enable_smap\<close>): the bit of the running CPU and the table.
\<close>

definition enable_smap :: "bool \<Rightarrow> bool \<times> ExtState \<Rightarrow> bool \<times> bool \<times> ExtState" where
  "enable_smap supported st =
     (let (cr4, e) = st in if \<not> supported then (False, cr4, e) else let e = arm_smap_stubs e; cr4 = True in (cr4, cr4, e))"

text \<open>
  All CPUs together. The stub selector is one flag for all of them while \<^verbatim>\<open>CR4\<close> is per CPU, so
  the two halves of \<open>enable_smap\<close> are steps of their own, between which other CPUs may run;
  \<open>m_begun\<close> remembers who is past the first half. A copy runs with interrupts off and touches
  no slot but its own, so it is one step.
\<close>

record Cpus =
  m_ext :: ExtState
  m_cr4 :: "nat \<Rightarrow> bool"
  m_begun :: "nat \<Rightarrow> bool"
  m_plain :: Labels
  m_smap :: Labels

definition machine_init :: "Cpus \<Rightarrow> bool" where
  "machine_init m \<longleftrightarrow> m_ext m = ext_boot \<and> (\<forall>i. \<not> m_cr4 m i \<and> \<not> m_begun m i) \<and> labels_ok (m_plain m) \<and> labels_ok (m_smap m)"

definition user_read :: "nat \<Rightarrow> bool \<Rightarrow> Space \<Rightarrow> u64 \<Rightarrow> nat \<Rightarrow> Cpus \<Rightarrow> ((unit + unit) \<times> u8 list Cpu \<times> ExtState) option" where
  "user_read cpu flag sp ptr n m =
     copy_user_with_fixup cpu (m_plain m) (m_smap m) n (read_stub sp ptr n) \<lparr>ac = flag, cr4_smap = m_cr4 m cpu, data = replicate n 0\<rparr> (m_ext m)"

definition user_write :: "nat \<Rightarrow> bool \<Rightarrow> Space \<Rightarrow> u64 \<Rightarrow> u8 list \<Rightarrow> Cpus \<Rightarrow> ((unit + unit) \<times> Space Cpu \<times> ExtState) option" where
  "user_write cpu flag sp ptr bytes m =
     copy_user_with_fixup cpu (m_plain m) (m_smap m) (length bytes) (write_stub ptr bytes) \<lparr>ac = flag, cr4_smap = m_cr4 m cpu, data = sp\<rparr> (m_ext m)"

inductive machine_step :: "Cpus \<Rightarrow> Cpus \<Rightarrow> bool" where
  arm: "machine_step m (m\<lparr>m_ext := arm_smap_stubs (m_ext m), m_begun := (m_begun m)(cpu := True)\<rparr>)"
| set_cr4: "m_begun m cpu \<Longrightarrow> machine_step m (m\<lparr>m_cr4 := (m_cr4 m)(cpu := True)\<rparr>)"
| copy_in: "cpu < MAX_CPUS \<Longrightarrow> user_read cpu flag sp ptr n m = Some (r, c, e) \<Longrightarrow> machine_step m (m\<lparr>m_ext := e\<rparr>)"
| copy_out: "cpu < MAX_CPUS \<Longrightarrow> user_write cpu flag sp ptr bytes m = Some (r, c, e) \<Longrightarrow> machine_step m (m\<lparr>m_ext := e\<rparr>)"

inductive_cases machine_stepE: "machine_step m m'"

definition machine_ok :: "Cpus \<Rightarrow> bool" where
  "machine_ok m \<longleftrightarrow> length (FIXUP (m_ext m)) = MAX_CPUS \<and> labels_ok (m_plain m) \<and> labels_ok (m_smap m)
     \<and> (\<forall>i. m_cr4 m i \<longrightarrow> m_begun m i) \<and> (\<forall>i. m_begun m i \<longrightarrow> SMAP_STUBS (m_ext m)) \<and> (\<forall>i. disarmed i (m_ext m))"

lemma disarmed_other: "disarmed j e \<Longrightarrow> same_slots cpu e e' \<Longrightarrow> j \<noteq> cpu \<Longrightarrow> disarmed j e'"
  by (simp add: disarmed_def check_fixup_def same_slots_def Let_def split: if_splits)

lemma copy_keeps:
  assumes "machine_ok m" and "cpu < MAX_CPUS"
    and "copy_user_with_fixup cpu (m_plain m) (m_smap m) n copy c (m_ext m) = Some (r, c', e')" and "cr4_smap c = m_cr4 m cpu"
  shows "same_slots cpu (m_ext m) e' \<and> (\<forall>i. disarmed i e')"
proof (cases "n = 0")
  case True
  with assms(1,3) show ?thesis by (simp add: copy_user_with_fixup_def machine_ok_def same_slots_def)
next
  case False
  with copy_user_run [of cpu "m_ext m" "m_plain m" "m_smap m" c n copy] assms
  have e': "disarmed cpu e'" "same_slots cpu (m_ext m) e'" by (auto simp: machine_ok_def)
  with assms(1) disarmed_other [of _ "m_ext m" cpu e'] show ?thesis by (metis machine_ok_def)
qed

lemma machine_ok_copy: "machine_ok m \<Longrightarrow> same_slots cpu (m_ext m) e' \<Longrightarrow> \<forall>i. disarmed i e' \<Longrightarrow> machine_ok (m\<lparr>m_ext := e'\<rparr>)"
  by (simp add: machine_ok_def same_slots_def)

lemma disarmed_arm: "disarmed i (arm_smap_stubs e) = disarmed i e"
  by (simp add: disarmed_def check_fixup_def arm_smap_stubs_def Let_def)

interpretation machine: inductive_invariant machine_init machine_step machine_ok
proof
  show "machine_ok m" if "machine_init m" for m
    using that by (auto simp: machine_init_def machine_ok_def ext_boot_def disarmed_def check_fixup_def fixup_new_def Let_def)
  show "machine_ok m'" if "machine_step m m'" "machine_ok m" for m m'
    using that(1)
  proof (rule machine_stepE)
    show ?thesis if "m' = m\<lparr>m_ext := arm_smap_stubs (m_ext m), m_begun := (m_begun m)(cpu := True)\<rparr>" for cpu
      using that \<open>machine_ok m\<close> by (simp add: machine_ok_def disarmed_arm) (simp add: arm_smap_stubs_def)
    show ?thesis if "m' = m\<lparr>m_cr4 := (m_cr4 m)(cpu := True)\<rparr>" "m_begun m cpu" for cpu
      using that \<open>machine_ok m\<close> by (simp add: machine_ok_def)
  qed (use that(2) copy_keeps machine_ok_copy in \<open>fastforce simp: user_read_def user_write_def\<close>)+
qed

text \<open>The two halves of \<open>enable_smap\<close> make up the whole.\<close>

lemma enable_smap_steps:
  assumes "enable_smap True (m_cr4 m cpu, m_ext m) = (r, cr4, e)"
  shows "r \<and> rtranclp machine_step m (m\<lparr>m_ext := e, m_begun := (m_begun m)(cpu := True), m_cr4 := (m_cr4 m)(cpu := cr4)\<rparr>)"
proof -
  let ?m = "m\<lparr>m_ext := arm_smap_stubs (m_ext m), m_begun := (m_begun m)(cpu := True)\<rparr>"
  have "machine_step m ?m" by (rule machine_step.arm)
  moreover have "machine_step ?m (?m\<lparr>m_cr4 := (m_cr4 ?m)(cpu := True)\<rparr>)" by (rule machine_step.set_cr4) simp
  ultimately have "rtranclp machine_step m (?m\<lparr>m_cr4 := (m_cr4 ?m)(cpu := True)\<rparr>)" by (meson r_into_rtranclp rtranclp_trans)
  with assms show ?thesis by (simp add: enable_smap_def Let_def)
qed

section \<open>Properties\<close>

text \<open>
  C22. A user copy never brings the kernel down and leaves no door open. In every state the CPUs
  reach by turning SMAP on, one half at a time and in any order, and by copying, a copy on any
  CPU the table has a slot for returns: a fault in the middle of it finds its fixup, and the
  result and the data are those \<^verbatim>\<open>copy_from_user\<close> and \<^verbatim>\<open>copy_to_user\<close> are built on. After it no
  slot of any CPU is armed, so no other kernel fault is ever taken for one in a copy, and the
  access flag of a CPU with SMAP on is off.
\<close>

theorem user_copy_recovers:
  assumes "machine_init m0" and "rtranclp machine_step m0 m" and "cpu < MAX_CPUS" and "\<not> flag"
  shows "(\<exists>c' e'. user_read cpu flag sp ptr n m = Some (case movsb_read sp ptr n of Some out \<Rightarrow> Inr () | None \<Rightarrow> Inl (), c', e')
        \<and> (\<forall>out. movsb_read sp ptr n = Some out \<longrightarrow> data c' = out) \<and> \<not> ac c' \<and> (\<forall>i. disarmed i e'))
    \<and> (\<exists>c' e'. user_write cpu flag sp ptr bytes m = Some (if fst (movsb_write sp ptr bytes) then Inr () else Inl (), c', e')
        \<and> data c' = snd (movsb_write sp ptr bytes) \<and> \<not> ac c' \<and> (\<forall>i. disarmed i e'))"
proof
  have ok: "machine_ok m" using machine.reachable_inv [OF assms(1,2)] .
  then have run: "length (FIXUP (m_ext m)) = MAX_CPUS" "labels_ok (m_plain m)" "labels_ok (m_smap m)" "\<forall>i. disarmed i (m_ext m)"
    "m_cr4 m cpu \<longrightarrow> SMAP_STUBS (m_ext m)" by (auto simp: machine_ok_def)
  let ?c = "\<lparr>ac = flag, cr4_smap = m_cr4 m cpu, data = replicate n 0\<rparr> :: u8 list Cpu"
  show "\<exists>c' e'. user_read cpu flag sp ptr n m = Some (case movsb_read sp ptr n of Some out \<Rightarrow> Inr () | None \<Rightarrow> Inl (), c', e')
        \<and> (\<forall>out. movsb_read sp ptr n = Some out \<longrightarrow> data c' = out) \<and> \<not> ac c' \<and> (\<forall>i. disarmed i e')"
  proof (cases "n = 0")
    case False
    obtain c' e' where *: "user_read cpu flag sp ptr n m = Some (if fst (read_stub sp ptr n (replicate n 0)) then Inr () else Inl (), c', e')"
      "data c' = snd (read_stub sp ptr n (replicate n 0))" "\<not> ac c'"
      using copy_user_run [OF assms(3) run(1-3), of ?c n "read_stub sp ptr n"] run(5) False assms(4) by (auto simp: user_read_def split: if_splits)
    with copy_keeps [OF ok assms(3), of n "read_stub sp ptr n" ?c] have "\<forall>i. disarmed i e'" by (simp add: user_read_def)
    with * show ?thesis by (auto simp: read_stub_def split: option.splits)
  qed (use run(4) assms(4) in \<open>simp add: user_read_def copy_user_with_fixup_def\<close>)
next
  have ok: "machine_ok m" using machine.reachable_inv [OF assms(1,2)] .
  then have run: "length (FIXUP (m_ext m)) = MAX_CPUS" "labels_ok (m_plain m)" "labels_ok (m_smap m)" "\<forall>i. disarmed i (m_ext m)"
    "m_cr4 m cpu \<longrightarrow> SMAP_STUBS (m_ext m)" by (auto simp: machine_ok_def)
  let ?c = "\<lparr>ac = flag, cr4_smap = m_cr4 m cpu, data = sp\<rparr> :: Space Cpu"
  show "\<exists>c' e'. user_write cpu flag sp ptr bytes m = Some (if fst (movsb_write sp ptr bytes) then Inr () else Inl (), c', e')
        \<and> data c' = snd (movsb_write sp ptr bytes) \<and> \<not> ac c' \<and> (\<forall>i. disarmed i e')"
  proof (cases "bytes = []")
    case False
    obtain c' e' where *: "user_write cpu flag sp ptr bytes m = Some (if fst (write_stub ptr bytes sp) then Inr () else Inl (), c', e')"
      "data c' = snd (write_stub ptr bytes sp)" "\<not> ac c'"
      using copy_user_run [OF assms(3) run(1-3), of ?c "length bytes" "write_stub ptr bytes"] run(5) False assms(4) by (auto simp: user_write_def split: if_splits)
    with copy_keeps [OF ok assms(3), of "length bytes" "write_stub ptr bytes" ?c] have "\<forall>i. disarmed i e'" by (simp add: user_write_def)
    with * show ?thesis by (auto simp: write_stub_def)
  qed (use run(4) assms(4) in \<open>simp add: user_write_def copy_user_with_fixup_def\<close>)
qed

text \<open>
  With SMAP on, the plain stub faults at its first byte and is recovered: the probe of the
  boot test fails as it should, and changes nothing.
\<close>

theorem no_stac_probe_faults:
  assumes "cpu < MAX_CPUS" and "length (FIXUP e) = MAX_CPUS" and "labels_ok plain" and "cr4_smap c" and "\<not> ac c" and "n \<noteq> 0"
  shows "\<exists>e'. copy_user_no_stac_probe cpu plain n copy c e = Some (Inl (), c, e') \<and> disarmed cpu e' \<and> same_slots cpu e e'"
proof -
  obtain e1 where e1: "page_fault cpu (l_start plain) (install cpu (l_start plain) (l_end plain) (l_fixup plain) e) = (Some (l_fixup plain), e1)"
    "same_slots cpu e e1" using page_fault_installed [OF assms(1-3)] by blast
  with finish_clear [OF assms(1,2) e1(2)] assms(4-) show ?thesis
    by (simp add: copy_user_no_stac_probe_def copy_user_movsb_def rep_movsb_def finish_copy_def)
qed

definition wit_machine :: Cpus where
  "wit_machine = \<lparr>m_ext = ext_boot, m_cr4 = (\<lambda>_. False), m_begun = (\<lambda>_. False),
     m_plain = \<lparr>l_start = 16, l_end = 18, l_fixup = 32\<rparr>, m_smap = \<lparr>l_start = 48, l_end = 50, l_fixup = 64\<rparr>\<rparr>"

theorem user_copy_recovers_witness:
  "\<exists>c' e'. user_read 3 False \<lparr>rd = \<lambda>_. None, wr = \<lambda>_. False\<rparr> 0x1000 1
      (wit_machine\<lparr>m_ext := arm_smap_stubs ext_boot, m_begun := (\<lambda>_. False)(3 := True)\<rparr>)
    = Some (Inl (), c', e') \<and> disarmed 3 e'"
proof -
  have "machine_init wit_machine" by (simp add: machine_init_def wit_machine_def labels_ok_def)
  moreover have "rtranclp machine_step wit_machine (wit_machine\<lparr>m_ext := arm_smap_stubs ext_boot, m_begun := (\<lambda>_. False)(3 := True)\<rparr>)"
    using machine_step.arm [of wit_machine 3] by (auto simp: wit_machine_def)
  moreover have "3 < MAX_CPUS" by (simp add: MAX_CPUS_def)
  ultimately show ?thesis
    using user_copy_recovers [of wit_machine _ 3 False "\<lparr>rd = \<lambda>_. None, wr = \<lambda>_. False\<rparr>" "0x1000" 1 "[]"]
    by (fastforce split: option.splits)
qed

end
