(* ===== verification/Elf.thy ===== *)
theory Elf
  imports Ipc Bytes
begin

text \<open>
  The native program loader (\<^verbatim>\<open>kernel/src/elf.rs\<close>) with the mapping functions it calls
  (\<^verbatim>\<open>map_page_in_pml4_fallible\<close> and \<^verbatim>\<open>pml4_page_ptr\<close> of \<^verbatim>\<open>kernel/src/memory.rs\<close>). The page tables belong to the
  \<^verbatim>\<open>x86_64\<close> crate: its mapper, its page ranges and the successor of a page are arguments, and so
  is the frame allocator, whose contract is the locale \<open>frame_allocator\<close>. A raw copy outside the
  file or outside a frame is the outcome \<open>Ub\<close>, so that its absence is a theorem.
\<close>

unbundle bit_operations_syntax

section \<open>Outcomes\<close>

datatype 'a exec = Val 'a | Panics | Ub

fun exec_bind :: "'a exec \<Rightarrow> ('a \<Rightarrow> 'b exec) \<Rightarrow> 'b exec" where
  "exec_bind (Val x) f = f x"
| "exec_bind Panics f = Panics"
| "exec_bind Ub f = Ub"

lemma exec_bind_cong [fundef_cong]:
  "r = r' \<Longrightarrow> (\<And>x. r' = Val x \<Longrightarrow> f x = g x) \<Longrightarrow> exec_bind r f = exec_bind r' g"
  by (cases r') auto

lemma exec_bind_Val_iff: "exec_bind r f = Val y \<longleftrightarrow> (\<exists>x. r = Val x \<and> f x = Val y)"
  by (cases r) auto

lemma exec_bind_Ub_iff: "exec_bind r f = Ub \<longleftrightarrow> r = Ub \<or> (\<exists>x. r = Val x \<and> f x = Ub)"
  by (cases r) auto

text \<open>The question mark: an error ends the call and keeps the state reached.\<close>

definition try_bind :: "(('e + 'a) \<times> 's) exec \<Rightarrow> ('a \<Rightarrow> 's \<Rightarrow> (('e + 'b) \<times> 's) exec) \<Rightarrow> (('e + 'b) \<times> 's) exec" where
  "try_bind r f = exec_bind r (\<lambda>(x, s). case x of Inl e \<Rightarrow> Val (Inl e, s) | Inr a \<Rightarrow> f a s)"

definition checked_mul :: "'a::len word \<Rightarrow> 'a word \<Rightarrow> 'a word option" where
  "checked_mul a b = (if uint a * uint b < 2 ^ LENGTH('a) then Some (a * b) else None)"

section \<open>Headers\<close>

datatype ElfError =
  TooSmall | BadMagic | Not64Bit | NotLittleEndian | BadIdentVersion
| NotExecutable | NotX86_64 | BadVersion | BadHeaderSize | BadPhdrSize | EntryOutside
| PhTableOverflow | PhTableOutOfBounds | PhOffsetOverflow
| FileSizeExceedsMemSize | SegAddrOverflow | SegOutside | SegFileOverflow | SegFileOutOfBounds
| OutOfMemory | SegFileAddrOverflow | PageNotMapped

record Elf64Ehdr =
  e_ident :: "u8 list"
  e_type :: u16
  e_machine :: u16
  e_version :: u32
  e_entry :: u64
  e_phoff :: u64
  e_shoff :: u64
  e_flags :: u32
  e_ehsize :: u16
  e_phentsize :: u16
  e_phnum :: u16
  e_shentsize :: u16
  e_shnum :: u16
  e_shstrndx :: u16

record Elf64Phdr =
  p_type :: u32
  p_flags :: u32
  p_offset :: u64
  p_vaddr :: u64
  p_paddr :: u64
  p_filesz :: u64
  p_memsz :: u64
  p_align :: u64

definition field :: "u8 list \<Rightarrow> nat \<Rightarrow> nat \<Rightarrow> 'a::len word" where
  "field data off n = from_le_bytes (take n (drop off data))"

definition elf_new :: "u8 list \<Rightarrow> ElfError + u8 list" where
  "elf_new data =
     (if length data < 64 then Inl TooSmall
      else if take 4 data \<noteq> [0x7F, 0x45, 0x4C, 0x46] then Inl BadMagic
      else if data ! 4 \<noteq> 2 then Inl Not64Bit
      else if data ! 5 \<noteq> 1 then Inl NotLittleEndian
      else if data ! 6 \<noteq> 1 then Inl BadIdentVersion
      else Inr data)"

definition read_ehdr :: "u8 list \<Rightarrow> Elf64Ehdr exec" where
  "read_ehdr data =
     (if length data < 64 then Ub
      else Val \<lparr>e_ident = take 16 data, e_type = field data 16 2, e_machine = field data 18 2, e_version = field data 20 4,
             e_entry = field data 24 8, e_phoff = field data 32 8, e_shoff = field data 40 8, e_flags = field data 48 4,
             e_ehsize = field data 52 2, e_phentsize = field data 54 2, e_phnum = field data 56 2,
             e_shentsize = field data 58 2, e_shnum = field data 60 2, e_shstrndx = field data 62 2\<rparr>)"

definition phdr_at :: "u8 list \<Rightarrow> nat \<Rightarrow> Elf64Phdr" where
  "phdr_at data off =
     \<lparr>p_type = field data off 4, p_flags = field data (off + 4) 4, p_offset = field data (off + 8) 8,
      p_vaddr = field data (off + 16) 8, p_paddr = field data (off + 24) 8, p_filesz = field data (off + 32) 8,
      p_memsz = field data (off + 40) 8, p_align = field data (off + 48) 8\<rparr>"

text \<open>The slice starts inside the file or panics; the raw copy that follows is not checked.\<close>

definition read_phdr :: "u8 list \<Rightarrow> usize \<Rightarrow> Elf64Phdr exec" where
  "read_phdr data offset =
     (if unat offset > length data then Panics
      else if unat offset + 56 > length data then Ub
      else Val (phdr_at data (unat offset)))"

definition USER_SPACE_END :: u64 where "USER_SPACE_END = 0x800000000000"

definition check_ehdr :: "Elf64Ehdr \<Rightarrow> ElfError + unit" where
  "check_ehdr eh =
     (if e_type eh \<noteq> 2 \<and> e_type eh \<noteq> 3 then Inl NotExecutable
      else if e_machine eh \<noteq> 62 then Inl NotX86_64
      else if e_version eh \<noteq> 1 then Inl BadVersion
      else if e_ehsize eh \<noteq> 64 then Inl BadHeaderSize
      else if e_phentsize eh \<noteq> 56 then Inl BadPhdrSize
      else if e_entry eh \<ge> USER_SPACE_END then Inl EntryOutside
      else Inr ())"

definition check_ph_table :: "u8 list \<Rightarrow> Elf64Ehdr \<Rightarrow> ElfError + unit" where
  "check_ph_table data eh =
     (case checked_mul (ucast (e_phnum eh) :: usize) (ucast (e_phentsize eh)) of
        None \<Rightarrow> Inl PhTableOverflow
      | Some table_len \<Rightarrow>
          (case checked_add (e_phoff eh) table_len of
             None \<Rightarrow> Inl PhTableOverflow
           | Some stop \<Rightarrow> if unat stop > length data then Inl PhTableOutOfBounds else Inr ()))"

section \<open>Memory\<close>

datatype map_result = Mapped | AlreadyMapped u64 | MapFailed

text \<open>
  What the loader is given: the frame allocator, and of the \<^verbatim>\<open>x86_64\<close> crate \<^verbatim>\<open>map_to\<close> (which takes
  frames for tables from the allocator), \<^verbatim>\<open>unmap\<close>, \<^verbatim>\<open>translate\<close>, \<^verbatim>\<open>Page::range_inclusive\<close> and \<^verbatim>\<open>Page + 1\<close>,
  the last two with \<open>None\<close> for a panic. Pages and frames are their start addresses.
\<close>

record ('m, 'p) Paging =
  pg_alloc :: "'m alloc_fn"
  pg_dealloc :: "'m dealloc_fn"
  pg_map_to :: "u64 \<Rightarrow> u64 \<Rightarrow> u64 \<Rightarrow> 'm \<times> 'p \<Rightarrow> map_result \<times> 'm \<times> 'p"
  pg_unmap :: "u64 \<Rightarrow> 'p \<Rightarrow> u64 option \<times> 'p"
  pg_translate :: "'p \<Rightarrow> u64 \<Rightarrow> (u64 \<times> u64) option"
  pg_range :: "u64 \<Rightarrow> u64 \<Rightarrow> u64 list option"
  pg_next :: "u64 \<Rightarrow> u64 option"

record ('m, 'p) Vm =
  vm_frames :: 'm
  vm_tables :: 'p
  vm_ram :: "u64 \<Rightarrow> u8"

definition map_page_in_pml4_fallible ::
  "('m, 'p) Paging \<Rightarrow> u64 \<Rightarrow> u64 \<Rightarrow> u64 \<Rightarrow> ('m, 'p) Vm \<Rightarrow> bool \<times> ('m, 'p) Vm" where
  "map_page_in_pml4_fallible G page frame flags vm =
     (case pg_map_to G page frame flags (vm_frames vm, vm_tables vm) of
        (Mapped, m, t) \<Rightarrow> (True, vm\<lparr>vm_frames := m, vm_tables := t\<rparr>)
      | (AlreadyMapped stale, m, t) \<Rightarrow>
          (case pg_map_to G page frame flags (m, snd (pg_unmap G page t)) of
             (Mapped, m, t) \<Rightarrow> (True, vm\<lparr>vm_frames := m, vm_tables := t\<rparr>)
           | (_, m, t) \<Rightarrow> (False, vm\<lparr>vm_frames := m, vm_tables := t\<rparr>))
      | (MapFailed, m, t) \<Rightarrow> (False, vm\<lparr>vm_frames := m, vm_tables := t\<rparr>))"

text \<open>A pointer into the physical map is the physical address.\<close>

definition pml4_page_ptr :: "('m, 'p) Paging \<Rightarrow> u64 \<Rightarrow> ('m, 'p) Vm \<Rightarrow> u64 option" where
  "pml4_page_ptr G page vm = map_option fst (pg_translate G (vm_tables vm) page)"

text \<open>A raw write of \<open>bytes\<close> at offset \<open>off\<close> of the frame at \<open>ptr\<close>.\<close>

definition write_frame :: "u64 \<Rightarrow> nat \<Rightarrow> u8 list \<Rightarrow> ('m, 'p) Vm \<Rightarrow> ('m, 'p) Vm exec" where
  "write_frame ptr off bytes vm =
     (if off + length bytes > 4096 then Ub
      else Val (vm\<lparr>vm_ram := (\<lambda>x. let i = unat (x - ptr) in
             if off \<le> i \<and> i < off + length bytes then bytes ! (i - off) else vm_ram vm x)\<rparr>))"

section \<open>Segments\<close>

definition PTE_PRESENT :: u64 where "PTE_PRESENT = 1"
definition PTE_WRITABLE :: u64 where "PTE_WRITABLE = 2"
definition PTE_USER :: u64 where "PTE_USER = 4"
definition PTE_NO_EXECUTE :: u64 where "PTE_NO_EXECUTE = 0x8000000000000000"

definition segment_flags :: "Elf64Phdr \<Rightarrow> u64" where
  "segment_flags ph =
     (let flags = PTE_PRESENT OR PTE_USER;
          flags = (if p_flags ph AND 2 \<noteq> 0 then flags OR PTE_WRITABLE else flags)
      in if p_flags ph AND 1 = 0 then flags OR PTE_NO_EXECUTE else flags)"

definition check_segment :: "u8 list \<Rightarrow> Elf64Phdr \<Rightarrow> ElfError + u64" where
  "check_segment data ph =
     (if p_filesz ph > p_memsz ph then Inl FileSizeExceedsMemSize
      else case checked_add (p_vaddr ph) (p_memsz ph) of
        None \<Rightarrow> Inl SegAddrOverflow
      | Some seg_end \<Rightarrow>
          if p_vaddr ph \<ge> USER_SPACE_END \<or> seg_end > USER_SPACE_END then Inl SegOutside
          else (case checked_add (p_offset ph) (p_filesz ph) of
                  None \<Rightarrow> Inl SegFileOverflow
                | Some file_end \<Rightarrow> if unat file_end > length data then Inl SegFileOutOfBounds else Inr seg_end))"

definition page_of :: "u64 \<Rightarrow> u64" where "page_of a = a AND NOT 0xFFF"

definition clear_page :: "Elf64Phdr \<Rightarrow> u64 \<Rightarrow> u64 \<Rightarrow> bool \<Rightarrow> u64 \<Rightarrow> ('m, 'p) Vm \<Rightarrow> ('m, 'p) Vm exec" where
  "clear_page ph page file_end mapped ptr vm =
     (if mapped then write_frame ptr 0 (replicate 4096 0) vm
      else
        let seg_end = p_vaddr ph + p_memsz ph;
            bss_start = max page file_end;
            bss_end = min (page + 4096) seg_end
        in if bss_start < bss_end
           then write_frame ptr (unat (bss_start - page)) (replicate (unat (bss_end - bss_start)) 0) vm
           else Val vm)"

definition copy_page :: "u8 list \<Rightarrow> Elf64Phdr \<Rightarrow> u64 \<Rightarrow> u64 \<Rightarrow> u64 \<Rightarrow> ('m, 'p) Vm \<Rightarrow> ('m, 'p) Vm exec" where
  "copy_page data ph page file_end ptr vm =
     (let overlap_start = max page (p_vaddr ph);
          overlap_end = min (page + 4096) file_end
      in if overlap_start < overlap_end then
           let copy_len = unat (overlap_end - overlap_start);
               file_offset = p_offset ph + (overlap_start - p_vaddr ph)
           in if unat file_offset + copy_len > length data then Ub
              else write_frame ptr (unat (overlap_start - page)) (take copy_len (drop (unat file_offset) data)) vm
         else Val vm)"

definition load_page :: "('m, 'p) Paging \<Rightarrow> u8 list \<Rightarrow> Elf64Phdr \<Rightarrow> u64 \<Rightarrow> ('m, 'p) Vm \<Rightarrow> ((ElfError + unit) \<times> ('m, 'p) Vm) exec" where
  "load_page G data ph page vm =
     (case pg_alloc G (vm_frames vm) of
        (None, m) \<Rightarrow> Val (Inl OutOfMemory, vm\<lparr>vm_frames := m\<rparr>)
      | (Some frame, m) \<Rightarrow>
          let (mapped, vm) = map_page_in_pml4_fallible G page frame (segment_flags ph) (vm\<lparr>vm_frames := m\<rparr>);
              vm = (if mapped then vm else vm\<lparr>vm_frames := pg_dealloc G frame (vm_frames vm)\<rparr>)
          in case checked_add (p_vaddr ph) (p_filesz ph) of
               None \<Rightarrow> Val (Inl SegFileAddrOverflow, vm)
             | Some file_end \<Rightarrow>
                 (case pml4_page_ptr G page vm of
                    None \<Rightarrow> Val (Inl PageNotMapped, vm)
                  | Some ptr \<Rightarrow>
                      exec_bind (clear_page ph page file_end mapped ptr vm)
                        (\<lambda>vm. exec_bind (copy_page data ph page file_end ptr vm) (\<lambda>vm. Val (Inr (), vm)))))"

fun load_pages :: "('m, 'p) Paging \<Rightarrow> u8 list \<Rightarrow> Elf64Phdr \<Rightarrow> u64 list \<Rightarrow> ('m, 'p) Vm \<Rightarrow> ((ElfError + unit) \<times> ('m, 'p) Vm) exec" where
  "load_pages G data ph [] vm = Val (Inr (), vm)"
| "load_pages G data ph (page # pages) vm =
     try_bind (load_page G data ph page vm) (\<lambda>_ vm. load_pages G data ph pages vm)"

definition load_segment :: "('m, 'p) Paging \<Rightarrow> u8 list \<Rightarrow> Elf64Phdr \<Rightarrow> ('m, 'p) Vm \<Rightarrow> ((ElfError + unit) \<times> ('m, 'p) Vm) exec" where
  "load_segment G data ph vm =
     (if p_type ph \<noteq> 1 \<or> p_memsz ph = 0 then Val (Inr (), vm)
      else case check_segment data ph of
        Inl e \<Rightarrow> Val (Inl e, vm)
      | Inr seg_end \<Rightarrow>
          (case pg_range G (page_of (p_vaddr ph)) (page_of (seg_end - 1)) of
             None \<Rightarrow> Panics
           | Some pages \<Rightarrow> load_pages G data ph pages vm))"

fun load_segments :: "('m, 'p) Paging \<Rightarrow> u8 list \<Rightarrow> Elf64Ehdr \<Rightarrow> nat list \<Rightarrow> ('m, 'p) Vm \<Rightarrow> ((ElfError + unit) \<times> ('m, 'p) Vm) exec" where
  "load_segments G data eh [] vm = Val (Inr (), vm)"
| "load_segments G data eh (i # is) vm =
     (case checked_mul (word_of_nat i) 56 of
        None \<Rightarrow> Val (Inl PhOffsetOverflow, vm)
      | Some ph_offset \<Rightarrow>
          (case checked_add (e_phoff eh) ph_offset of
             None \<Rightarrow> Val (Inl PhOffsetOverflow, vm)
           | Some offset \<Rightarrow>
               exec_bind (read_phdr data offset)
                 (\<lambda>ph. try_bind (load_segment G data ph vm) (\<lambda>_ vm. load_segments G data eh is vm))))"

section \<open>Relocations\<close>

definition elf_slice :: "u8 list \<Rightarrow> usize \<Rightarrow> usize \<Rightarrow> u8 list exec" where
  "elf_slice data a b = (if a \<le> b \<and> unat b \<le> length data then Val (take (unat b - unat a) (drop (unat a) data)) else Panics)"

definition elf_u64 :: "u8 list \<Rightarrow> usize \<Rightarrow> u64 exec" where
  "elf_u64 data a = exec_bind (elf_slice data a (a + 8)) (\<lambda>bs. Val (from_le_bytes bs))"

definition phdr_no :: "u8 list \<Rightarrow> Elf64Ehdr \<Rightarrow> nat \<Rightarrow> Elf64Phdr exec" where
  "phdr_no data eh i = read_phdr data (e_phoff eh + word_of_nat i * 56)"

fun vaddr_to_foff :: "u8 list \<Rightarrow> Elf64Ehdr \<Rightarrow> u64 \<Rightarrow> nat list \<Rightarrow> usize option exec" where
  "vaddr_to_foff data eh v [] = Val None"
| "vaddr_to_foff data eh v (i # is) =
     exec_bind (phdr_no data eh i)
       (\<lambda>ph. if p_type ph = 1 \<and> v \<ge> p_vaddr ph \<and> v < p_vaddr ph + p_filesz ph
             then Val (Some (p_offset ph + (v - p_vaddr ph)))
             else vaddr_to_foff data eh v is)"

record RelaTable =
  rela_v :: "u64 option"
  rela_sz :: u64
  rela_ent :: u64

definition dyn_entry :: "u64 \<Rightarrow> u64 \<Rightarrow> RelaTable \<Rightarrow> RelaTable" where
  "dyn_entry tag v r =
     (if tag = 7 then r\<lparr>rela_v := Some v\<rparr>
      else if tag = 8 then r\<lparr>rela_sz := v\<rparr>
      else if tag = 9 then r\<lparr>rela_ent := v\<rparr>
      else r)"

lemma no_wrap_add: "a \<le> a + b \<Longrightarrow> unat (a + b) = unat a + unat b" for a b :: u64
  using add_overflow_iff [of a b] unat_plus_no_overflow [of a b] by (simp add: linorder_not_less [symmetric])

lemma elf_u64_bound:
  assumes "elf_u64 data a = Val v"
  shows "unat a + 8 \<le> length data \<and> unat (a + 8) = unat a + 8"
proof -
  have "a \<le> a + 8" and *: "unat (a + 8) \<le> length data"
    using assms by (auto simp: elf_u64_def elf_slice_def split: if_splits)
  with no_wrap_add [of a 8] show ?thesis by simp
qed

function scan_dynamic :: "u8 list \<Rightarrow> usize \<Rightarrow> usize \<Rightarrow> usize \<Rightarrow> RelaTable \<Rightarrow> RelaTable exec" where
  "scan_dynamic data base filesz p r =
     (if p + 16 \<le> filesz \<and> unat (base + p + 16) \<le> length data then
        exec_bind (elf_u64 data (base + p))
          (\<lambda>tag. exec_bind (elf_u64 data (base + p + 8))
             (\<lambda>v. if tag = 0 then Val r else scan_dynamic data base filesz (p + 16) (dyn_entry tag v r)))
      else Val r)"
  by pat_completeness auto

termination
proof (relation "measure (\<lambda>(data, base, filesz, p, r). length data - unat (base + p))", goal_cases)
  case (2 data base filesz p r tag v)
  from elf_u64_bound [of data "base + p" tag] elf_u64_bound [of data "base + p + 8" v] 2
  have "unat (base + p) + 16 \<le> length data" and e: "unat (base + p + 8 + 8) = unat (base + p) + 16" by auto
  moreover have "base + p + 8 + 8 = base + (p + 16)" by simp
  ultimately show ?case by simp
qed simp

declare scan_dynamic.simps [simp del]

fun find_dynamic :: "u8 list \<Rightarrow> Elf64Ehdr \<Rightarrow> nat list \<Rightarrow> RelaTable exec" where
  "find_dynamic data eh [] = Val \<lparr>rela_v = None, rela_sz = 0, rela_ent = 24\<rparr>"
| "find_dynamic data eh (i # is) =
     exec_bind (phdr_no data eh i)
       (\<lambda>ph. if p_type ph \<noteq> 2 then find_dynamic data eh is
             else scan_dynamic data (p_offset ph) (p_filesz ph) 0 \<lparr>rela_v = None, rela_sz = 0, rela_ent = 24\<rparr>)"

definition apply_reloc :: "('m, 'p) Paging \<Rightarrow> u64 \<Rightarrow> u64 \<Rightarrow> ('m, 'p) Vm \<Rightarrow> ('m, 'p) Vm exec" where
  "apply_reloc G r_offset r_addend vm =
     (let page = page_of r_offset;
          in_page = unat (r_offset - page);
          value_bytes = to_le_bytes 8 r_addend
      in if in_page + 8 \<le> 4096 then
           (case pml4_page_ptr G page vm of None \<Rightarrow> Val vm | Some fp \<Rightarrow> write_frame fp in_page value_bytes vm)
         else
           let first_len = 4096 - in_page in
           case pg_next G page of
             None \<Rightarrow> Panics
           | Some page1 \<Rightarrow>
               (case (pml4_page_ptr G page vm, pml4_page_ptr G page1 vm) of
                  (Some fp0, Some fp1) \<Rightarrow>
                    exec_bind (write_frame fp0 in_page (take first_len value_bytes) vm)
                      (\<lambda>vm. write_frame fp1 0 (drop first_len value_bytes) vm)
                | _ \<Rightarrow> Val vm))"

definition reloc_entry :: "('m, 'p) Paging \<Rightarrow> u64 \<Rightarrow> u64 \<Rightarrow> u64 \<Rightarrow> ('m, 'p) Vm \<Rightarrow> ('m, 'p) Vm exec" where
  "reloc_entry G r_offset r_info r_addend vm =
     (if r_info AND 0xFFFFFFFF \<noteq> 8 then Val vm
      else if r_offset \<ge> USER_SPACE_END then Val vm
      else apply_reloc G r_offset r_addend vm)"

function reloc_loop :: "('m, 'p) Paging \<Rightarrow> u8 list \<Rightarrow> usize \<Rightarrow> u64 \<Rightarrow> usize \<Rightarrow> usize \<Rightarrow> ('m, 'p) Vm \<Rightarrow> ('m, 'p) Vm exec" where
  "reloc_loop G data foff ent count i vm =
     (if i < count then
        let off = foff + i * ent in
        if unat (off + 24) > length data then Val vm
        else
          exec_bind (elf_u64 data off)
            (\<lambda>r_offset. exec_bind (elf_u64 data (off + 8))
               (\<lambda>r_info. exec_bind (elf_u64 data (off + 16))
                  (\<lambda>r_addend. exec_bind (reloc_entry G r_offset r_info r_addend vm)
                     (\<lambda>vm. reloc_loop G data foff ent count (i + 1) vm))))
      else Val vm)"
  by pat_completeness auto
termination
  by (relation "measure (\<lambda>(G, data, foff, ent, count, i, vm). unat count - unat i)") (simp_all, unat_arith)

declare reloc_loop.simps [simp del]

definition relocate :: "('m, 'p) Paging \<Rightarrow> u8 list \<Rightarrow> Elf64Ehdr \<Rightarrow> ('m, 'p) Vm \<Rightarrow> ('m, 'p) Vm exec" where
  "relocate G data eh vm =
     (let is = [0..<unat (e_phnum eh)] in
      exec_bind (find_dynamic data eh is)
        (\<lambda>r. case rela_v r of
           None \<Rightarrow> Val vm
         | Some rv \<Rightarrow>
             exec_bind (vaddr_to_foff data eh rv is)
               (\<lambda>foff. case foff of
                  None \<Rightarrow> Val vm
                | Some rela_foff \<Rightarrow>
                    let ent = (if rela_ent r > 0 then rela_ent r else 24);
                        count = rela_sz r div ent
                    in reloc_loop G data rela_foff ent count 0 vm)))"

section \<open>The loader\<close>

definition load_into_pml4 ::
  "('m, 'p) Paging \<Rightarrow> u8 list \<Rightarrow> ('m, 'p) Vm \<Rightarrow> ((ElfError + u64 \<times> u64 \<times> u16 \<times> u16) \<times> ('m, 'p) Vm) exec" where
  "load_into_pml4 G data vm =
     exec_bind (read_ehdr data)
       (\<lambda>eh. case sum_bind (check_ehdr eh) (\<lambda>_. check_ph_table data eh) of
          Inl e \<Rightarrow> Val (Inl e, vm)
        | Inr _ \<Rightarrow>
            try_bind (load_segments G data eh [0..<unat (e_phnum eh)] vm)
              (\<lambda>_ vm. exec_bind (if e_type eh = 3 then relocate G data eh vm else Val vm)
                 (\<lambda>vm. Val (Inr (e_entry eh, e_phoff eh, e_phentsize eh, e_phnum eh), vm))))"

end
