(* ===== verification/Elf_Load.thy ===== *)
theory Elf_Load
  imports Elf
begin

text \<open>
  What loading does to memory. The contract of the paging layer is the locale \<open>paging\<close>; inside
  it, an invariant relates every state of a load to the state it started from, and the view a
  program has of its memory is computed page by page, segment by segment and relocation by
  relocation.
\<close>

unbundle bit_operations_syntax

section \<open>Pages\<close>

lemma unat_page_of: "unat (page_of a) = 4096 * (unat a div 4096)"
proof -
  have m: "(0xFFF :: u64) = mask 12" by (simp add: mask_eq_exp_minus_1)
  have "page_of a = push_bit 12 (drop_bit 12 a)"
    unfolding page_of_def m by (rule bit_word_eqI) (auto simp: bit_simps)
  moreover have "unat (drop_bit 12 a) = unat a div 4096" by (simp add: drop_bit_eq_div unat_div)
  moreover have "4096 * (unat a div 4096) < 2 ^ 64" using unat_bound [of a] by simp
  ultimately show ?thesis by (simp add: push_bit_eq_mult unat_word_ariths mult.commute)
qed

lemma unat_in_page: "unat (a AND 0xFFF) = unat a mod 4096" for a :: u64
proof -
  have "a AND 0xFFF = take_bit 12 a" using take_bit_eq_mask [of 12 a] by (simp add: mask_eq_exp_minus_1)
  then show ?thesis by (simp add: take_bit_eq_mod unat_mod)
qed

lemma page_of_idem [simp]: "page_of (page_of a) = page_of a"
  by (simp add: word_unat_eq_iff unat_page_of)

lemma page_aligned: "page_of p = p \<longleftrightarrow> p AND 0xFFF = 0"
proof -
  have "page_of p = p \<longleftrightarrow> unat p = 4096 * (unat p div 4096)" unfolding word_unat_eq_iff [of "page_of p"] unat_page_of by metis
  also have "\<dots> \<longleftrightarrow> unat (p AND 0xFFF) = 0" unfolding unat_in_page using mult_div_mod_eq [of 4096 "unat p"] by (metis add.right_neutral add_left_cancel)
  finally show ?thesis by (simp add: unat_eq_zero)
qed

lemma page_offset:
  assumes "page_of p = p" and "unat k < 4096"
  shows "unat (p + k) = unat p + unat k \<and> page_of (p + k) = p \<and> (p + k) AND 0xFFF = k"
proof -
  obtain q where q: "unat p = 4096 * q" using unat_page_of [of p] assms(1) by metis
  have "4096 * q + unat k < 2 ^ 64" using unat_bound [of p] q assms(2) by simp
  then have u: "unat (p + k) = 4096 * q + unat k" using q unat_plus_no_overflow [of p k] by simp
  then have "unat (page_of (p + k)) = unat p" "unat ((p + k) AND 0xFFF) = unat k"
    using assms(2) q by (simp_all add: unat_page_of unat_in_page)
  with u q show ?thesis by (metis word_unat_eq_iff)
qed

lemma page_split: "v = page_of v + (v AND 0xFFF)"
proof -
  have "unat v = unat (page_of v) + unat (v AND 0xFFF)" by (simp add: unat_page_of unat_in_page)
  moreover have "unat v < 2 ^ 64" using unat_bound [of v] by simp
  ultimately show ?thesis by (metis unat_plus_no_overflow len_num0 len_num1 word_unat_eq_iff page_offset page_of_idem unat_in_page mod_less_divisor zero_less_numeral)
qed

lemma frame_aligned: "frame_ok f \<Longrightarrow> page_of f = f"
  by (simp add: frame_ok_def page_aligned)

lemma unat_max: "unat (max a b) = max (unat a) (unat b)" for a b :: u64
  by (simp add: max_def word_le_nat_alt)

lemma unat_min: "unat (min a b) = min (unat a) (unat b)" for a b :: u64
  by (simp add: min_def word_le_nat_alt)

section \<open>Writing frames\<close>

lemma write_frame_spec:
  assumes "frame_ok ptr" and "off + length bytes \<le> 4096"
  obtains vm' where "write_frame ptr off bytes vm = Val vm'" and "vm_frames vm' = vm_frames vm" and "vm_tables vm' = vm_tables vm"
    and "\<And>x. page_of x \<noteq> ptr \<Longrightarrow> vm_ram vm' x = vm_ram vm x"
    and "\<And>k. vm_ram vm' (ptr + k) = (if off \<le> unat k \<and> unat k < off + length bytes then bytes ! (unat k - off) else vm_ram vm (ptr + k))"
proof (rule that [of "vm\<lparr>vm_ram := (\<lambda>x. let i = unat (x - ptr) in
             if off \<le> i \<and> i < off + length bytes then bytes ! (i - off) else vm_ram vm x)\<rparr>"])
  show "write_frame ptr off bytes vm = Val (vm\<lparr>vm_ram := (\<lambda>x. let i = unat (x - ptr) in
             if off \<le> i \<and> i < off + length bytes then bytes ! (i - off) else vm_ram vm x)\<rparr>)"
    using assms(2) by (simp add: write_frame_def)
next
  fix x
  assume x: "page_of x \<noteq> ptr"
  have "\<not> unat (x - ptr) < 4096"
    using page_offset [OF frame_aligned [OF assms(1)], of "x - ptr"] x by auto
  with assms(2) show "vm_ram (vm\<lparr>vm_ram := (\<lambda>x. let i = unat (x - ptr) in
             if off \<le> i \<and> i < off + length bytes then bytes ! (i - off) else vm_ram vm x)\<rparr>) x = vm_ram vm x"
    by (simp add: Let_def)
qed (simp_all add: Let_def)

section \<open>Segments\<close>

definition seg_ok :: "u8 list \<Rightarrow> Elf64Phdr \<Rightarrow> bool" where
  "seg_ok data ph \<longleftrightarrow> p_memsz ph \<noteq> 0 \<and> unat (p_filesz ph) \<le> unat (p_memsz ph)
     \<and> unat (p_vaddr ph) + unat (p_memsz ph) \<le> unat USER_SPACE_END
     \<and> unat (p_offset ph) + unat (p_filesz ph) < 2 ^ 64 \<and> unat (p_offset ph) + unat (p_filesz ph) \<le> length data"

lemma check_segment_ok:
  assumes "check_segment data ph = Inr e" and "p_memsz ph \<noteq> 0"
  shows "seg_ok data ph \<and> e = p_vaddr ph + p_memsz ph \<and> unat e = unat (p_vaddr ph) + unat (p_memsz ph)"
proof -
  have c: "p_filesz ph \<le> p_memsz ph" "checked_add (p_vaddr ph) (p_memsz ph) = Some e" "e \<le> USER_SPACE_END"
    and "\<exists>fe. checked_add (p_offset ph) (p_filesz ph) = Some fe \<and> unat fe \<le> length data"
    using assms(1) by (auto simp: check_segment_def split: if_splits option.splits)
  then obtain fe where fe: "checked_add (p_offset ph) (p_filesz ph) = Some fe" "unat fe \<le> length data" by blast
  note no = unat_plus_no_overflow [of "p_offset ph" "p_filesz ph"] unat_plus_no_overflow [of "p_vaddr ph" "p_memsz ph"]
  from c(2) fe(1) no have "unat e = unat (p_vaddr ph) + unat (p_memsz ph)" "unat fe = unat (p_offset ph) + unat (p_filesz ph)"
    "unat (p_offset ph) + unat (p_filesz ph) < 2 ^ 64" "e = p_vaddr ph + p_memsz ph"
    by (auto simp: checked_add_Some_iff)
  with c fe(2) assms(2) show ?thesis by (simp add: seg_ok_def word_le_nat_alt)
qed

lemma seg_file_end:
  assumes "seg_ok data ph"
  shows "checked_add (p_vaddr ph) (p_filesz ph) = Some (p_vaddr ph + p_filesz ph)
    \<and> unat (p_vaddr ph + p_filesz ph) = unat (p_vaddr ph) + unat (p_filesz ph)"
proof -
  have "unat (p_vaddr ph) + unat (p_filesz ph) < 2 ^ 64" using assms by (simp add: seg_ok_def USER_SPACE_END_def)
  then show ?thesis using unat_plus_no_overflow [of "p_vaddr ph" "p_filesz ph"] by (simp add: checked_add_Some_iff)
qed

lemma seg_last:
  assumes "seg_ok data ph"
  shows "unat (p_vaddr ph + p_memsz ph - 1) = unat (p_vaddr ph) + unat (p_memsz ph) - 1 \<and> p_vaddr ph + p_memsz ph - 1 < USER_SPACE_END"
proof -
  have m: "unat (p_memsz ph) \<noteq> 0" "unat (p_vaddr ph) + unat (p_memsz ph) \<le> 0x800000000000"
    using assms by (auto simp: seg_ok_def unat_eq_zero USER_SPACE_END_def)
  then have s: "unat (p_vaddr ph + p_memsz ph) = unat (p_vaddr ph) + unat (p_memsz ph)"
    using unat_plus_no_overflow [of "p_vaddr ph" "p_memsz ph"] by simp
  then have "unat (p_vaddr ph + p_memsz ph - 1) = unat (p_vaddr ph) + unat (p_memsz ph) - 1"
    using m unat_sub [of 1 "p_vaddr ph + p_memsz ph"] by (simp add: word_le_nat_alt)
  with m show ?thesis by (simp add: word_less_nat_alt USER_SPACE_END_def)
qed

text \<open>The byte a segment puts at an address of one of its pages.\<close>

definition seg_byte :: "u8 list \<Rightarrow> Elf64Phdr \<Rightarrow> u64 \<Rightarrow> u8" where
  "seg_byte data ph v =
     (if p_vaddr ph \<le> v \<and> v < p_vaddr ph + p_filesz ph then data ! (unat (p_offset ph) + unat (v - p_vaddr ph)) else 0)"

lemma copy_page_spec:
  assumes seg: "seg_ok data ph" and pg: "page_of page = page" "page < USER_SPACE_END" and ptr: "frame_ok ptr"
    and zero: "\<And>k. unat k < 4096 \<Longrightarrow> vm_ram vm (ptr + k) = 0"
  obtains vm' where "copy_page data ph page (p_vaddr ph + p_filesz ph) ptr vm = Val vm'"
    and "vm_frames vm' = vm_frames vm" and "vm_tables vm' = vm_tables vm"
    and "\<And>x. page_of x \<noteq> ptr \<Longrightarrow> vm_ram vm' x = vm_ram vm x"
    and "\<And>v. page_of v = page \<Longrightarrow> vm_ram vm' (ptr + (v AND 0xFFF)) = seg_byte data ph v"
proof -
  let ?P = "unat page" and ?V = "unat (p_vaddr ph)" and ?F = "unat (p_filesz ph)"
  let ?s = "max page (p_vaddr ph)" and ?e = "min (page + 4096) (p_vaddr ph + p_filesz ph)"
  have P: "?P < 0x800000000000" "unat (page + 4096) = ?P + 4096"
    using pg(2) unat_plus_no_overflow [of page 4096] by (simp_all add: word_less_nat_alt USER_SPACE_END_def)
  note fe = seg_file_end [OF seg]
  have se: "unat ?s = max ?P ?V" "unat ?e = min (?P + 4096) (?V + ?F)" using P fe by (simp_all add: unat_max unat_min)
  have val: "page_of v = page \<Longrightarrow> unat v = ?P + unat (v AND 0xFFF) \<and> unat (v AND 0xFFF) < 4096" for v
    using page_split [of v] page_offset [OF pg(1), of "v AND 0xFFF"] by (auto simp: unat_in_page)
  have inside: "page_of v = page \<Longrightarrow> (p_vaddr ph \<le> v \<and> v < p_vaddr ph + p_filesz ph) = (unat ?s \<le> unat v \<and> unat v < unat ?e)" for v
    using val [of v] se fe by (auto simp: word_le_nat_alt word_less_nat_alt)
  show thesis
  proof (cases "?s < ?e")
    case True
    then have lt: "unat ?s < unat ?e" by (simp add: word_less_nat_alt)
    have d: "unat (?e - ?s) = unat ?e - unat ?s" "unat (?s - page) = unat ?s - ?P" "unat (?s - p_vaddr ph) = unat ?s - ?V"
      using True by (auto simp: unat_sub_if_size word_le_nat_alt word_less_nat_alt se)
    have fo: "unat (p_offset ph + (?s - p_vaddr ph)) = unat (p_offset ph) + (unat ?s - ?V)"
      using unat_plus_no_overflow [of "p_offset ph" "?s - p_vaddr ph"] d(3) seg lt se by (auto simp: seg_ok_def)
    have fileb: "unat (p_offset ph) + (unat ?s - ?V) + (unat ?e - unat ?s) \<le> length data"
      using seg lt se by (auto simp: seg_ok_def)
    let ?bytes = "take (unat (?e - ?s)) (drop (unat (p_offset ph + (?s - p_vaddr ph))) data)"
    have len: "length ?bytes = unat ?e - unat ?s" unfolding length_take length_drop fo d(1) using fileb by linarith
    have room: "unat (?s - page) + length ?bytes \<le> 4096" unfolding len d(2) using se lt by linarith
    obtain vm' where w: "write_frame ptr (unat (?s - page)) ?bytes vm = Val vm'" "vm_frames vm' = vm_frames vm" "vm_tables vm' = vm_tables vm"
      "\<And>x. page_of x \<noteq> ptr \<Longrightarrow> vm_ram vm' x = vm_ram vm x"
      "\<And>k. vm_ram vm' (ptr + k) = (if unat (?s - page) \<le> unat k \<and> unat k < unat (?s - page) + length ?bytes
          then ?bytes ! (unat k - unat (?s - page)) else vm_ram vm (ptr + k))"
      by (rule write_frame_spec [OF ptr room, of vm]) blast
    have "copy_page data ph page (p_vaddr ph + p_filesz ph) ptr vm = Val vm'"
      using True w(1) fileb fo d(1) by (simp add: copy_page_def Let_def)
    moreover have "vm_ram vm' (ptr + (v AND 0xFFF)) = seg_byte data ph v" if v: "page_of v = page" for v
    proof -
      let ?k = "unat (v AND 0xFFF)"
      have k: "unat v = ?P + ?k" "?k < 4096" using val [OF v] by auto
      show ?thesis
      proof (cases "unat ?s \<le> unat v \<and> unat v < unat ?e")
        case inn: True
        have j: "?k - (unat ?s - ?P) < unat (?e - ?s)" unfolding d(1) using inn k se(1) by linarith
        then have "?bytes ! (?k - (unat ?s - ?P)) = data ! (unat (p_offset ph) + (unat ?s - ?V) + (?k - (unat ?s - ?P)))"
          unfolding fo using fileb j d(1) by simp
        also have "unat (p_offset ph) + (unat ?s - ?V) + (?k - (unat ?s - ?P)) = unat (p_offset ph) + (unat v - ?V)"
          using inn k se(1) by linarith
        finally have "?bytes ! (?k - (unat ?s - ?P)) = data ! (unat (p_offset ph) + (unat v - ?V))" .
        moreover have "unat (v - p_vaddr ph) = unat v - ?V" using inn se by (simp add: unat_sub word_le_nat_alt)
        moreover have c: "unat (?s - page) \<le> ?k \<and> ?k < unat (?s - page) + length ?bytes"
          unfolding d(2) len using inn k se(1) by linarith
        moreover have "p_vaddr ph \<le> v \<and> v < p_vaddr ph + p_filesz ph" using inside [OF v] inn by blast
        ultimately show ?thesis unfolding w(5) seg_byte_def d(2) by presburger
      next
        case False
        then have "\<not> (unat (?s - page) \<le> ?k \<and> ?k < unat (?s - page) + length ?bytes)" unfolding d(2) len using k(1) se(1) lt by linarith
        moreover have "\<not> (p_vaddr ph \<le> v \<and> v < p_vaddr ph + p_filesz ph)" using inside [OF v] False by blast
        ultimately show ?thesis unfolding w(5) seg_byte_def using zero [OF k(2)] by presburger
      qed
    qed
    ultimately show thesis using that w by blast
  next
    case False
    then have "seg_byte data ph v = 0" if "page_of v = page" for v
      using inside [OF that] by (auto simp: seg_byte_def word_less_nat_alt)
    with False zero val show thesis by (intro that [of vm]) (auto simp: copy_page_def Let_def)
  qed
qed

section \<open>The contract of the paging layer\<close>

text \<open>
  What the loader relies on: the contract of the frame allocator, and the documented behaviour
  of the mapper on the pages of the user half, where there are no huge pages: \<^verbatim>\<open>map_to\<close> adds one
  entry, or fails and adds none, or reports the frame a page has already; \<^verbatim>\<open>unmap\<close> removes one;
  a range enumerates its pages; the successor of the last user page is no address.
\<close>

locale paging = frame_allocator "pg_alloc G" "pg_dealloc G" out invar
  for G :: "('m, 'p) Paging" and out :: "'m \<Rightarrow> u64 set" and invar :: "'m \<Rightarrow> bool" +
  assumes map_to_new: "page_of page = page \<Longrightarrow> page < USER_SPACE_END \<Longrightarrow> invar m \<Longrightarrow> pg_translate G t page = None \<Longrightarrow>
      pg_map_to G page frame flags (m, t) = (r, m', t') \<Longrightarrow>
      invar m' \<and> out m \<subseteq> out m' \<and> (r = Mapped \<and> pg_translate G t' = (pg_translate G t)(page \<mapsto> (frame, flags))
        \<or> r = MapFailed \<and> pg_translate G t' = pg_translate G t)"
    and map_to_old: "page_of page = page \<Longrightarrow> page < USER_SPACE_END \<Longrightarrow> invar m \<Longrightarrow> pg_translate G t page = Some (f, fl) \<Longrightarrow>
      pg_map_to G page frame flags (m, t) = (r, m', t') \<Longrightarrow> r = AlreadyMapped f \<and> m' = m \<and> pg_translate G t' = pg_translate G t"
    and unmap_old: "page_of page = page \<Longrightarrow> page < USER_SPACE_END \<Longrightarrow> pg_translate G t page = Some e \<Longrightarrow>
      pg_unmap G page t = (r', t') \<Longrightarrow> pg_translate G t' = (pg_translate G t)(page := None)"
    and page_range: "page_of a = a \<Longrightarrow> page_of b = b \<Longrightarrow> b < USER_SPACE_END \<Longrightarrow> pg_range G a b = Some ps \<Longrightarrow>
      set ps = {p. page_of p = p \<and> a \<le> p \<and> p \<le> b}"
    and page_range_total: "page_of a = a \<Longrightarrow> page_of b = b \<Longrightarrow> b + 4096 < USER_SPACE_END \<Longrightarrow> pg_range G a b \<noteq> None"
    and next_page: "page_of p = p \<Longrightarrow> p < USER_SPACE_END \<Longrightarrow>
      pg_next G p = (if p + 4096 < USER_SPACE_END then Some (p + 4096) else None)"

text \<open>
  The state during a load, compared with the state \<open>vm0\<close> before it: what was in use still is and
  has kept its contents, the kernel half is as it was, and the user half maps pages, one frame
  each, that were taken during the load.
\<close>

definition vm_ok :: "('m, 'p) Paging \<Rightarrow> ('m \<Rightarrow> u64 set) \<Rightarrow> ('m \<Rightarrow> bool) \<Rightarrow> ('m, 'p) Vm \<Rightarrow> ('m, 'p) Vm \<Rightarrow> bool" where
  "vm_ok G out invar vm0 vm \<longleftrightarrow> invar (vm_frames vm) \<and> out (vm_frames vm0) \<subseteq> out (vm_frames vm)
     \<and> (\<forall>p. USER_SPACE_END \<le> p \<longrightarrow> pg_translate G (vm_tables vm) p = pg_translate G (vm_tables vm0) p)
     \<and> (\<forall>p f fl. p < USER_SPACE_END \<longrightarrow> pg_translate G (vm_tables vm) p = Some (f, fl) \<longrightarrow>
          page_of p = p \<and> frame_ok f \<and> f \<in> out (vm_frames vm) - out (vm_frames vm0))
     \<and> (\<forall>p q f fl fl'. p < USER_SPACE_END \<longrightarrow> q < USER_SPACE_END \<longrightarrow> pg_translate G (vm_tables vm) p = Some (f, fl) \<longrightarrow>
          pg_translate G (vm_tables vm) q = Some (f, fl') \<longrightarrow> p = q)
     \<and> (\<forall>x. page_of x \<in> out (vm_frames vm0) \<longrightarrow> vm_ram vm x = vm_ram vm0 x)"

text \<open>What a program sees at an address: the byte and the flags of the page.\<close>

definition user_view :: "('m, 'p) Paging \<Rightarrow> ('m, 'p) Vm \<Rightarrow> u64 \<Rightarrow> (u8 \<times> u64) option" where
  "user_view G vm v = map_option (\<lambda>(f, fl). (vm_ram vm (f + (v AND 0xFFF)), fl)) (pg_translate G (vm_tables vm) (page_of v))"

text \<open>The pages a program header loads, and what it makes of a view.\<close>

definition covers :: "Elf64Phdr \<Rightarrow> u64 \<Rightarrow> bool" where
  "covers ph v \<longleftrightarrow> p_type ph = 1 \<and> p_memsz ph \<noteq> 0 \<and> page_of (p_vaddr ph) \<le> page_of v \<and> page_of v \<le> page_of (p_vaddr ph + p_memsz ph - 1)"

definition seg_view :: "u8 list \<Rightarrow> Elf64Phdr \<Rightarrow> (u64 \<Rightarrow> (u8 \<times> u64) option) \<Rightarrow> u64 \<Rightarrow> (u8 \<times> u64) option" where
  "seg_view data ph V v = (if covers ph v then Some (seg_byte data ph v, segment_flags ph) else V v)"

lemma fold_seg_view_cong: "V v = W v \<Longrightarrow> fold (seg_view data) phs V v = fold (seg_view data) phs W v"
proof (induction phs arbitrary: V W)
  case (Cons ph phs)
  have "seg_view data ph V v = seg_view data ph W v" using Cons.prems by (simp add: seg_view_def)
  then show ?case using Cons.IH [of "seg_view data ph V" "seg_view data ph W"] by simp
qed simp

text \<open>A segment that reaches the last user page may panic in the range; nothing else does.\<close>

definition top_segment :: "Elf64Phdr \<Rightarrow> bool" where
  "top_segment ph \<longleftrightarrow> p_type ph = 1 \<and> p_memsz ph \<noteq> 0 \<and> USER_SPACE_END \<le> page_of (p_vaddr ph + p_memsz ph - 1) + 4096"

text \<open>The program headers of a file.\<close>

definition phdrs :: "u8 list \<Rightarrow> Elf64Ehdr \<Rightarrow> nat list \<Rightarrow> Elf64Phdr list" where
  "phdrs data eh is = map (\<lambda>i. phdr_at data (unat (e_phoff eh) + 56 * i)) is"

lemma page_of_less_end: "page_of v < USER_SPACE_END \<longleftrightarrow> v < USER_SPACE_END"
  by (auto simp: word_less_nat_alt unat_page_of USER_SPACE_END_def)

context paging
begin

lemma map_page_spec:
  assumes "page_of page = page" and "page < USER_SPACE_END" and "invar (vm_frames vm)"
    and "map_page_in_pml4_fallible G page frame flags vm = (mapped, vm')"
  shows "invar (vm_frames vm') \<and> out (vm_frames vm) \<subseteq> out (vm_frames vm') \<and> vm_ram vm' = vm_ram vm
    \<and> pg_translate G (vm_tables vm') = (pg_translate G (vm_tables vm))(page := if mapped then Some (frame, flags) else None)"
proof -
  obtain r m t where r: "pg_map_to G page frame flags (vm_frames vm, vm_tables vm) = (r, m, t)" by (metis prod_cases3)
  show ?thesis
  proof (cases "pg_translate G (vm_tables vm) page")
    case None
    from map_to_new [OF assms(1-3) None r] assms(4) r None show ?thesis
      by (auto simp: map_page_in_pml4_fallible_def fun_upd_idem) blast+
  next
    case (Some e)
    then have old: "r = AlreadyMapped (fst e) \<and> m = vm_frames vm \<and> pg_translate G t = pg_translate G (vm_tables vm)"
      using map_to_old [OF assms(1-3) _ r] by (cases e) auto
    obtain u t' where u: "pg_unmap G page t = (u, t')" by fastforce
    have t': "pg_translate G t' = (pg_translate G (vm_tables vm))(page := None)"
      using unmap_old [OF assms(1,2) _ u] old Some by auto
    obtain r2 m2 t2 where r2: "pg_map_to G page frame flags (m, t') = (r2, m2, t2)" by (metis prod_cases3)
    from map_to_new [OF assms(1,2) _ _ r2] old assms(3) t' have "invar m2 \<and> out m \<subseteq> out m2
        \<and> (r2 = Mapped \<and> pg_translate G t2 = (pg_translate G t')(page \<mapsto> (frame, flags)) \<or> r2 = MapFailed \<and> pg_translate G t2 = pg_translate G t')"
      by simp
    with assms(4) r u r2 old t' show ?thesis by (auto simp: map_page_in_pml4_fallible_def) blast+
  qed
qed

lemma user_view_other:
  assumes "vm_ok G out invar vm0 vm" and "v < USER_SPACE_END" and "frame \<notin> out (vm_frames vm)"
    and "pg_translate G (vm_tables vm') (page_of v) = pg_translate G (vm_tables vm) (page_of v)"
    and "\<And>x. page_of x \<noteq> frame \<Longrightarrow> vm_ram vm' x = vm_ram vm x"
  shows "user_view G vm' v = user_view G vm v"
proof (cases "pg_translate G (vm_tables vm) (page_of v)")
  case (Some e)
  obtain f fl where e: "e = (f, fl)" by (cases e)
  have "page_of v < USER_SPACE_END" using assms(2) by (simp add: page_of_less_end)
  with assms(1) Some e have f: "frame_ok f" "f \<in> out (vm_frames vm)" by (auto simp: vm_ok_def)
  have "page_of (f + (v AND 0xFFF)) = f" using page_offset [OF frame_aligned [OF f(1)], of "v AND 0xFFF"] by (simp add: unat_in_page)
  then have "vm_ram vm' (f + (v AND 0xFFF)) = vm_ram vm (f + (v AND 0xFFF))" using assms(3,5) f(2) by metis
  with assms(4) Some e show ?thesis by (simp add: user_view_def)
qed (use assms(4) in \<open>simp add: user_view_def\<close>)

lemma vm_ok_mapped:
  assumes ok: "vm_ok G out invar vm0 vm" and new: "frame \<notin> out (vm_frames vm)" "frame_ok frame"
    and pg: "page_of page = page" "page < USER_SPACE_END"
    and fr: "invar (vm_frames vm')" "insert frame (out (vm_frames vm)) \<subseteq> out (vm_frames vm')"
    and tr: "pg_translate G (vm_tables vm') = (pg_translate G (vm_tables vm))(page \<mapsto> (frame, flags))"
    and ram: "\<And>x. page_of x \<noteq> frame \<Longrightarrow> vm_ram vm' x = vm_ram vm x"
  shows "vm_ok G out invar vm0 vm'"
proof -
  have ok': "out (vm_frames vm0) \<subseteq> out (vm_frames vm)"
    "\<And>p. USER_SPACE_END \<le> p \<Longrightarrow> pg_translate G (vm_tables vm) p = pg_translate G (vm_tables vm0) p"
    "\<And>p f fl. p < USER_SPACE_END \<Longrightarrow> pg_translate G (vm_tables vm) p = Some (f, fl) \<Longrightarrow>
       page_of p = p \<and> frame_ok f \<and> f \<in> out (vm_frames vm) - out (vm_frames vm0)"
    "\<And>p q f fl fl'. p < USER_SPACE_END \<Longrightarrow> q < USER_SPACE_END \<Longrightarrow> pg_translate G (vm_tables vm) p = Some (f, fl) \<Longrightarrow>
       pg_translate G (vm_tables vm) q = Some (f, fl') \<Longrightarrow> p = q"
    "\<And>x. page_of x \<in> out (vm_frames vm0) \<Longrightarrow> vm_ram vm x = vm_ram vm0 x"
    using ok unfolding vm_ok_def by blast+
  show ?thesis
    unfolding vm_ok_def
  proof (intro conjI allI impI)
    show "pg_translate G (vm_tables vm') p = pg_translate G (vm_tables vm0) p" if "USER_SPACE_END \<le> p" for p
      using that pg(2) ok'(2) tr by auto
    fix p f fl
    assume p: "p < USER_SPACE_END" "pg_translate G (vm_tables vm') p = Some (f, fl)"
    show "page_of p = p" "frame_ok f" "f \<in> out (vm_frames vm') - out (vm_frames vm0)"
      using p tr pg(1) new fr(2) ok'(1) ok'(3) [of p f fl] by (auto split: if_splits)
    fix q fl'
    assume q: "q < USER_SPACE_END" "pg_translate G (vm_tables vm') q = Some (f, fl')"
    show "p = q"
      using p q tr new(1) ok'(3) [of p f fl] ok'(3) [of q f fl'] ok'(4) [of p q f fl fl'] by (auto split: if_splits)
  next
    show "vm_ram vm' x = vm_ram vm0 x" if "page_of x \<in> out (vm_frames vm0)" for x
      using that ram [of x] ok'(1) ok'(5) [of x] new(1) by auto
  qed (use fr ok'(1) in auto)
qed

lemma load_page_spec:
  assumes ok: "vm_ok G out invar vm0 vm" and seg: "seg_ok data ph" and pg: "page_of page = page" "page < USER_SPACE_END"
  shows "\<exists>r vm'. load_page G data ph page vm = Val (r, vm') \<and> vm_ok G out invar vm0 vm' \<and> (r = Inr () \<longrightarrow>
    (\<forall>v. v < USER_SPACE_END \<longrightarrow> user_view G vm' v = (if page_of v = page then Some (seg_byte data ph v, segment_flags ph) else user_view G vm v)))"
proof -
  have inv: "invar (vm_frames vm)" using ok by (simp add: vm_ok_def)
  obtain a m where a: "pg_alloc G (vm_frames vm) = (a, m)" by fastforce
  show ?thesis
  proof (cases a)
    case None
    with alloc_none [OF inv] a ok show ?thesis by (simp add: load_page_def vm_ok_def)
  next
    case (Some frame)
    with alloc_some [OF inv] a have al: "invar m" "frame \<notin> out (vm_frames vm)" "out m = insert frame (out (vm_frames vm))" "frame_ok frame" by auto
    obtain mapped vm1 where mp: "map_page_in_pml4_fallible G page frame (segment_flags ph) (vm\<lparr>vm_frames := m\<rparr>) = (mapped, vm1)" by fastforce
    from map_page_spec [OF pg _ mp] al(1) have vm1: "invar (vm_frames vm1)" "out m \<subseteq> out (vm_frames vm1)" "vm_ram vm1 = vm_ram vm"
      "pg_translate G (vm_tables vm1) = (pg_translate G (vm_tables vm))(page := if mapped then Some (frame, segment_flags ph) else None)" by auto
    have fe: "checked_add (p_vaddr ph) (p_filesz ph) = Some (p_vaddr ph + p_filesz ph)" using seg_file_end [OF seg] by simp
    show ?thesis
    proof (cases mapped)
      case False
      let ?vm = "vm1\<lparr>vm_frames := pg_dealloc G frame (vm_frames vm1)\<rparr>"
      have "invar (vm_frames ?vm) \<and> out (vm_frames ?vm) = out (vm_frames vm1) - {frame}"
        using dealloc_out [OF vm1(1) _ al(4)] vm1(2) al(3) by auto
      then have "vm_ok G out invar vm0 ?vm" using ok vm1 al(2,3) pg(2) False by (fastforce simp: vm_ok_def)
      moreover have "load_page G data ph page vm = Val (Inl PageNotMapped, ?vm)"
        using a Some mp False fe vm1(4) by (simp add: load_page_def pml4_page_ptr_def)
      ultimately show ?thesis by simp
    next
      case True
      obtain vm2 where vm2: "write_frame frame 0 (replicate 4096 0) vm1 = Val vm2" "vm_frames vm2 = vm_frames vm1" "vm_tables vm2 = vm_tables vm1"
        "\<And>x. page_of x \<noteq> frame \<Longrightarrow> vm_ram vm2 x = vm_ram vm1 x"
        "\<And>k. vm_ram vm2 (frame + k) = (if 0 \<le> unat k \<and> unat k < 0 + length (replicate 4096 (0::u8)) then replicate 4096 0 ! (unat k - 0) else vm_ram vm1 (frame + k))"
        by (rule write_frame_spec [OF al(4), of 0 "replicate 4096 0" vm1]) simp_all
      have "\<And>k. unat k < 4096 \<Longrightarrow> vm_ram vm2 (frame + k) = 0" using vm2(5) by simp
      then obtain vm3 where vm3: "copy_page data ph page (p_vaddr ph + p_filesz ph) frame vm2 = Val vm3"
        "vm_frames vm3 = vm_frames vm2" "vm_tables vm3 = vm_tables vm2" "\<And>x. page_of x \<noteq> frame \<Longrightarrow> vm_ram vm3 x = vm_ram vm2 x"
        "\<And>v. page_of v = page \<Longrightarrow> vm_ram vm3 (frame + (v AND 0xFFF)) = seg_byte data ph v"
        using copy_page_spec [OF seg pg al(4), of vm2] by metis
      have run: "load_page G data ph page vm = Val (Inr (), vm3)"
        using a Some mp True fe vm1(4) vm2(1) vm3(1) by (simp add: load_page_def pml4_page_ptr_def clear_page_def)
      have tr: "pg_translate G (vm_tables vm3) = (pg_translate G (vm_tables vm))(page \<mapsto> (frame, segment_flags ph))"
        using vm1(4) vm2(3) vm3(3) True by simp
      have ram: "vm_ram vm3 x = vm_ram vm x" if "page_of x \<noteq> frame" for x using vm3(4) vm2(4) vm1(3) that by simp
      have fr: "invar (vm_frames vm3)" "insert frame (out (vm_frames vm)) \<subseteq> out (vm_frames vm3)"
        using vm1(1,2) vm2(2) vm3(2) al(3) by auto
      have "vm_ok G out invar vm0 vm3"
        by (rule vm_ok_mapped [OF ok al(2,4) pg fr tr ram])
      moreover have "user_view G vm3 v = (if page_of v = page then Some (seg_byte data ph v, segment_flags ph) else user_view G vm v)"
        if v: "v < USER_SPACE_END" for v
      proof (cases "page_of v = page")
        case True
        with tr vm3(5) show ?thesis by (simp add: user_view_def)
      next
        case False
        with tr have "pg_translate G (vm_tables vm3) (page_of v) = pg_translate G (vm_tables vm) (page_of v)" by simp
        from user_view_other [OF ok v al(2) this ram] False show ?thesis by simp
      qed
      ultimately show ?thesis using run by blast
    qed
  qed
qed

lemma load_pages_spec:
  assumes "vm_ok G out invar vm0 vm" and "seg_ok data ph" and "\<forall>p\<in>set pages. page_of p = p \<and> p < USER_SPACE_END"
  shows "\<exists>r vm'. load_pages G data ph pages vm = Val (r, vm') \<and> vm_ok G out invar vm0 vm' \<and> (r = Inr () \<longrightarrow>
    (\<forall>v. v < USER_SPACE_END \<longrightarrow> user_view G vm' v = (if page_of v \<in> set pages then Some (seg_byte data ph v, segment_flags ph) else user_view G vm v)))"
  using assms(1,3)
proof (induction pages arbitrary: vm)
  case (Cons page pages)
  obtain r vm1 where 1: "load_page G data ph page vm = Val (r, vm1)" "vm_ok G out invar vm0 vm1"
    "r = Inr () \<longrightarrow> (\<forall>v. v < USER_SPACE_END \<longrightarrow> user_view G vm1 v = (if page_of v = page then Some (seg_byte data ph v, segment_flags ph) else user_view G vm v))"
    using load_page_spec [OF Cons.prems(1) assms(2), of page] Cons.prems(2) by auto
  show ?case
  proof (cases r)
    case (Inl e)
    with 1 show ?thesis by (simp add: try_bind_def)
  next
    case (Inr u)
    obtain r2 vm2 where 2: "load_pages G data ph pages vm1 = Val (r2, vm2)" "vm_ok G out invar vm0 vm2"
      "r2 = Inr () \<longrightarrow> (\<forall>v. v < USER_SPACE_END \<longrightarrow> user_view G vm2 v = (if page_of v \<in> set pages then Some (seg_byte data ph v, segment_flags ph) else user_view G vm1 v))"
      using Cons.IH [OF 1(2)] Cons.prems(2) by auto
    with 1 Inr show ?thesis by (auto simp: try_bind_def)
  qed
qed simp

lemma load_segment_spec:
  assumes "vm_ok G out invar vm0 vm"
  shows "load_segment G data ph vm = Panics \<and> top_segment ph \<or> (\<exists>r vm'. load_segment G data ph vm = Val (r, vm')
    \<and> vm_ok G out invar vm0 vm' \<and> (r = Inr () \<longrightarrow> (p_type ph = 1 \<and> p_memsz ph \<noteq> 0 \<longrightarrow> seg_ok data ph)
      \<and> (\<forall>v. v < USER_SPACE_END \<longrightarrow> user_view G vm' v = seg_view data ph (user_view G vm) v)))"
proof (cases "p_type ph \<noteq> 1 \<or> p_memsz ph = 0")
  case True
  with assms show ?thesis by (auto simp: load_segment_def seg_view_def covers_def)
next
  case load: False
  show ?thesis
  proof (cases "check_segment data ph")
    case (Inl e)
    with load assms show ?thesis by (simp add: load_segment_def)
  next
    case (Inr e)
    with check_segment_ok load have seg: "seg_ok data ph" and e: "e = p_vaddr ph + p_memsz ph" by auto
    let ?a = "page_of (p_vaddr ph)" and ?b = "page_of (e - 1)"
    have b: "?b < USER_SPACE_END" using seg_last [OF seg] e by (simp add: page_of_less_end)
    show ?thesis
    proof (cases "pg_range G ?a ?b")
      case None
      with page_range_total [of ?a ?b] have "USER_SPACE_END \<le> ?b + 4096" by (meson linorder_not_less page_of_idem)
      with None Inr load e show ?thesis by (simp add: load_segment_def top_segment_def)
    next
      case (Some pages)
      have ps: "set pages = {p. page_of p = p \<and> ?a \<le> p \<and> p \<le> ?b}" using page_range [OF _ _ b Some] by simp
      then have user: "\<forall>p\<in>set pages. page_of p = p \<and> p < USER_SPACE_END" using b by auto
      have "covers ph v \<longleftrightarrow> page_of v \<in> set pages" for v using load e ps by (auto simp: covers_def)
      with load_pages_spec [OF assms seg user] Inr load Some seg show ?thesis by (auto simp: load_segment_def seg_view_def)
    qed
  qed
qed

lemma load_segments_spec:
  assumes "vm_ok G out invar vm0 vm" and "\<forall>i\<in>set is. unat (e_phoff eh) + 56 * i + 56 \<le> length data" and "length data < 2 ^ 63"
  shows "load_segments G data eh is vm = Panics \<and> (\<exists>ph\<in>set (phdrs data eh is). top_segment ph)
    \<or> (\<exists>r vm'. load_segments G data eh is vm = Val (r, vm') \<and> vm_ok G out invar vm0 vm' \<and> (r = Inr () \<longrightarrow>
      (\<forall>ph\<in>set (phdrs data eh is). p_type ph = 1 \<and> p_memsz ph \<noteq> 0 \<longrightarrow> seg_ok data ph)
      \<and> (\<forall>v. v < USER_SPACE_END \<longrightarrow> user_view G vm' v = fold (seg_view data) (phdrs data eh is) (user_view G vm) v)))"
  using assms(1,2)
proof (induction "is" arbitrary: vm)
  case (Cons i "is")
  let ?ph = "phdr_at data (unat (e_phoff eh) + 56 * i)"
  have b: "unat (e_phoff eh) + 56 * i + 56 \<le> length data" using Cons.prems(2) by simp
  have i: "unat (word_of_nat i :: u64) = i" using b assms(3) by (intro unat_word_of_nat_small) simp
  have "uint (word_of_nat i :: u64) * uint (56 :: u64) < 2 ^ 64" using i b assms(3) by (simp add: uint_nat)
  then have mul: "checked_mul (word_of_nat i :: u64) 56 = Some (word_of_nat i * 56)" by (simp add: checked_mul_def)
  have u: "unat (word_of_nat i * 56 :: u64) = 56 * i" using i b assms(3) by (simp add: unat_word_ariths)
  then have add: "checked_add (e_phoff eh) (word_of_nat i * 56) = Some (e_phoff eh + word_of_nat i * 56)"
    "unat (e_phoff eh + word_of_nat i * 56) = unat (e_phoff eh) + 56 * i"
    using b assms(3) unat_plus_no_overflow [of "e_phoff eh" "word_of_nat i * 56"] by (simp_all add: checked_add_Some_iff)
  have rd: "read_phdr data (e_phoff eh + word_of_nat i * 56) = Val ?ph" using b add(2) by (simp add: read_phdr_def)
  have unfold: "load_segments G data eh (i # is) vm = try_bind (load_segment G data ?ph vm) (\<lambda>_ vm. load_segments G data eh is vm)"
    using mul add(1) rd by simp
  from load_segment_spec [OF Cons.prems(1), of data ?ph] show ?case
  proof (elim disjE exE conjE)
    assume "load_segment G data ?ph vm = Panics" "top_segment ?ph"
    then show ?thesis unfolding unfold by (simp add: try_bind_def phdrs_def)
  next
    fix r vm1
    assume 1: "load_segment G data ?ph vm = Val (r, vm1)" "vm_ok G out invar vm0 vm1"
      "r = Inr () \<longrightarrow> (p_type ?ph = 1 \<and> p_memsz ?ph \<noteq> 0 \<longrightarrow> seg_ok data ?ph) \<and> (\<forall>v. v < USER_SPACE_END \<longrightarrow> user_view G vm1 v = seg_view data ?ph (user_view G vm) v)"
    show ?thesis
    proof (cases r)
      case (Inl e)
      with 1 show ?thesis unfolding unfold by (simp add: try_bind_def)
    next
      case (Inr x)
      with 1 have run: "load_segments G data eh (i # is) vm = load_segments G data eh is vm1" unfolding unfold by (simp add: try_bind_def)
      have cong: "v < USER_SPACE_END \<Longrightarrow> fold (seg_view data) phs (user_view G vm1) v = fold (seg_view data) phs (seg_view data ?ph (user_view G vm)) v" for phs v
        using 1(3) Inr by (intro fold_seg_view_cong) auto
      from Cons.IH [OF 1(2)] Cons.prems(2) 1(3) Inr show ?thesis unfolding run by (auto simp: phdrs_def cong)
    qed
  qed
qed (simp_all add: phdrs_def)

end

end
