(* ===== verification/Elf_Reloc.thy ===== *)
theory Elf_Reloc
  imports Elf_Load
begin

text \<open>
  Relocations and the whole load: what one relocation writes, what the table of a file says, and
  what a program sees of its memory when the loader returns.
\<close>

unbundle bit_operations_syntax

section \<open>Writing through a view\<close>

definition poke :: "nat \<Rightarrow> u8 list \<Rightarrow> (u64 \<Rightarrow> (u8 \<times> u64) option) \<Rightarrow> u64 \<Rightarrow> (u8 \<times> u64) option" where
  "poke a bytes V v = (if a \<le> unat v \<and> unat v < a + length bytes then map_option (\<lambda>(_, fl). (bytes ! (unat v - a), fl)) (V v) else V v)"

lemma poke_append: "poke (a + length xs) ys (poke a xs V) v = poke a (xs @ ys) V v"
  by (auto simp: poke_def nth_append diff_diff_left)

lemma poke_None [simp]: "poke a bytes V v = None \<longleftrightarrow> V v = None"
  by (auto simp: poke_def)

lemma poke_cong: "V v = W v \<Longrightarrow> poke a bytes V v = poke a bytes W v"
  by (simp add: poke_def)

lemma in_page_iff:
  assumes "page_of p = p"
  shows "page_of v = p \<longleftrightarrow> unat p \<le> unat v \<and> unat v < unat p + 4096"
proof -
  obtain q where q: "unat p = 4096 * q" using unat_page_of [of p] assms by metis
  have "page_of v = p \<longleftrightarrow> 4096 * (unat v div 4096) = 4096 * q" unfolding word_unat_eq_iff unat_page_of q ..
  also have "\<dots> \<longleftrightarrow> unat v div 4096 = q" by simp
  also have "\<dots> \<longleftrightarrow> 4096 * q \<le> unat v \<and> unat v < 4096 * q + 4096" by (auto simp: div_nat_eqI)
  finally show ?thesis by (simp add: q)
qed

lemma in_page_offset: "page_of v = p \<Longrightarrow> unat (v AND 0xFFF) = unat v - unat p"
  by (auto simp: unat_in_page unat_page_of minus_mult_div_eq_mod)

text \<open>One relocation.\<close>

definition reloc_view :: "u64 \<times> u64 \<Rightarrow> (u64 \<Rightarrow> (u8 \<times> u64) option) \<Rightarrow> u64 \<Rightarrow> (u8 \<times> u64) option" where
  "reloc_view r V = (if V (fst r) = None \<or> V (fst r + 7) = None then V else poke (unat (fst r)) (to_le_bytes 8 (snd r)) V)"

text \<open>The relocations of a file, read off its tables.\<close>

function rela_entries :: "u8 list \<Rightarrow> usize \<Rightarrow> u64 \<Rightarrow> usize \<Rightarrow> usize \<Rightarrow> (u64 \<times> u64) list exec" where
  "rela_entries data foff ent count i =
     (if i < count \<and> unat (foff + i * ent + 24) \<le> length data then
        exec_bind (elf_u64 data (foff + i * ent))
          (\<lambda>r_offset. exec_bind (elf_u64 data (foff + i * ent + 8))
             (\<lambda>r_info. exec_bind (elf_u64 data (foff + i * ent + 16))
                (\<lambda>r_addend. exec_bind (rela_entries data foff ent count (i + 1))
                   (\<lambda>es. Val (if r_info AND 0xFFFFFFFF = 8 \<and> r_offset < USER_SPACE_END then (r_offset, r_addend) # es else es)))))
      else Val [])"
  by pat_completeness auto
termination
  by (relation "measure (\<lambda>(data, foff, ent, count, i). unat count - unat i)") (simp_all, unat_arith)

declare rela_entries.simps [simp del]

definition relocations :: "u8 list \<Rightarrow> Elf64Ehdr \<Rightarrow> (u64 \<times> u64) list exec" where
  "relocations data eh =
     (let is = [0..<unat (e_phnum eh)] in
      exec_bind (find_dynamic data eh is)
        (\<lambda>r. case rela_v r of
           None \<Rightarrow> Val []
         | Some rv \<Rightarrow>
             exec_bind (vaddr_to_foff data eh rv is)
               (\<lambda>foff. case foff of
                  None \<Rightarrow> Val []
                | Some rela_foff \<Rightarrow>
                    let ent = (if rela_ent r > 0 then rela_ent r else 24)
                    in rela_entries data rela_foff ent (rela_sz r div ent) 0)))"

definition low_reloc :: "u64 \<times> u64 \<Rightarrow> bool" where
  "low_reloc r \<longleftrightarrow> unat (fst r) + 7 < unat USER_SPACE_END"

lemma reloc_view_cong:
  assumes "\<And>v. v < USER_SPACE_END \<Longrightarrow> V v = W v" and "low_reloc r" and "v < USER_SPACE_END"
  shows "reloc_view r V v = reloc_view r W v"
proof -
  have "unat (fst r) + 7 < 2 ^ 64" using assms(2) by (simp add: low_reloc_def USER_SPACE_END_def)
  then have "unat (fst r + 7) = unat (fst r) + 7" using unat_plus_no_overflow [of "fst r" 7] by simp
  then have "fst r < USER_SPACE_END" "fst r + 7 < USER_SPACE_END" using assms(2) by (simp_all add: low_reloc_def word_less_nat_alt)
  with assms(1,3) show ?thesis by (simp add: reloc_view_def poke_def)
qed

lemma fold_reloc_cong:
  "(\<And>v. v < USER_SPACE_END \<Longrightarrow> V v = W v) \<Longrightarrow> \<forall>r\<in>set rs. low_reloc r \<Longrightarrow> v < USER_SPACE_END \<Longrightarrow> fold reloc_view rs V v = fold reloc_view rs W v"
proof (induction rs arbitrary: V W)
  case (Cons r rs)
  show ?case using Cons.IH [of "reloc_view r V" "reloc_view r W"] reloc_view_cong [of V W r] Cons.prems by auto
qed simp

lemma ph_table_bounds:
  assumes "check_ehdr eh = Inr ()" and "check_ph_table data eh = Inr ()"
  shows "\<forall>i < unat (e_phnum eh). unat (e_phoff eh) + 56 * i + 56 \<le> length data"
proof -
  let ?n = "ucast (e_phnum eh) :: u64" and ?k = "ucast (e_phentsize eh) :: u64"
  have k: "e_phentsize eh = 56" using assms(1) by (auto simp: check_ehdr_def split: if_splits)
  have small: "unat (e_phnum eh) < 2 ^ 16" using unat_bound [of "e_phnum eh"] by simp
  then have n: "unat ?n = unat (e_phnum eh)" by (simp add: unsigned_ucast_eq take_bit_nat_eq_self)
  with small have mul: "unat (?n * ?k) = 56 * unat (e_phnum eh)" using n k by (simp add: unat_word_ariths)
  from assms(2) obtain l stop where "checked_mul ?n ?k = Some l" "checked_add (e_phoff eh) l = Some stop" "unat stop \<le> length data"
    by (auto simp: check_ph_table_def split: option.splits if_splits)
  then have "unat (e_phoff eh) + 56 * unat (e_phnum eh) \<le> length data"
    using mul unat_plus_no_overflow [of "e_phoff eh" l] by (auto simp: checked_mul_def checked_add_Some_iff split: if_splits)
  then show ?thesis by auto
qed

lemma elf_u64_not_Ub: "elf_u64 data a \<noteq> Ub"
  by (simp add: elf_u64_def elf_slice_def)

context paging
begin

lemma write_user:
  assumes ok: "vm_ok G out invar vm0 vm" and p: "page_of p = p" "p < USER_SPACE_END"
    and tr: "pg_translate G (vm_tables vm) p = Some (f, fl)" and room: "off + length bytes \<le> 4096"
  obtains vm' where "write_frame f off bytes vm = Val vm'" and "vm_ok G out invar vm0 vm'" and "vm_tables vm' = vm_tables vm"
    and "\<And>v. v < USER_SPACE_END \<Longrightarrow> user_view G vm' v = poke (unat p + off) bytes (user_view G vm) v"
proof -
  have f: "frame_ok f" "f \<notin> out (vm_frames vm0)" using ok p tr by (auto simp: vm_ok_def)
  obtain vm' where w: "write_frame f off bytes vm = Val vm'" "vm_frames vm' = vm_frames vm" "vm_tables vm' = vm_tables vm"
    "\<And>x. page_of x \<noteq> f \<Longrightarrow> vm_ram vm' x = vm_ram vm x"
    "\<And>k. vm_ram vm' (f + k) = (if off \<le> unat k \<and> unat k < off + length bytes then bytes ! (unat k - off) else vm_ram vm (f + k))"
    by (rule write_frame_spec [OF f(1) room, of vm]) blast
  have "vm_ok G out invar vm0 vm'" using ok w(2,3,4) f(2) unfolding vm_ok_def by metis
  moreover have "user_view G vm' v = poke (unat p + off) bytes (user_view G vm) v" if v: "v < USER_SPACE_END" for v
  proof (cases "page_of v = p")
    case True
    then have b: "unat p \<le> unat v" "unat v < unat p + 4096" using in_page_iff [OF p(1), of v] by auto
    from in_page_offset [OF True] w(5) [of "v AND 0xFFF"] have
      "vm_ram vm' (f + (v AND 0xFFF)) = (if unat p + off \<le> unat v \<and> unat v < unat p + off + length bytes
         then bytes ! (unat v - (unat p + off)) else vm_ram vm (f + (v AND 0xFFF)))" using b by auto
    with True tr w(3) show ?thesis by (simp add: user_view_def poke_def)
  next
    case False
    then have "\<not> (unat p + off \<le> unat v \<and> unat v < unat p + off + length bytes)" using in_page_iff [OF p(1), of v] room by auto
    moreover have "user_view G vm' v = user_view G vm v"
    proof (cases "pg_translate G (vm_tables vm) (page_of v)")
      case (Some e)
      obtain f' fl' where e: "e = (f', fl')" by (cases e)
      have u: "page_of v < USER_SPACE_END" using v by (simp add: page_of_less_end)
      with ok Some e p tr False have f': "frame_ok f'" "f' \<noteq> f" unfolding vm_ok_def by blast+
      have "page_of (f' + (v AND 0xFFF)) = f'" using page_offset [OF frame_aligned [OF f'(1)], of "v AND 0xFFF"] by (simp add: unat_in_page)
      with w(3,4) f'(2) Some e show ?thesis by (simp add: user_view_def)
    qed (use w(3) in \<open>simp add: user_view_def\<close>)
    ultimately show ?thesis unfolding poke_def by presburger
  qed
  ultimately show thesis using that w(1,3) by blast
qed

lemma view_None: "user_view G vm v = None \<longleftrightarrow> pml4_page_ptr G (page_of v) vm = None"
  by (simp add: user_view_def pml4_page_ptr_def)

lemma apply_reloc_spec:
  assumes ok: "vm_ok G out invar vm0 vm" and o: "r_offset < USER_SPACE_END"
  shows "apply_reloc G r_offset r_addend vm = Panics \<or> (\<exists>vm'. apply_reloc G r_offset r_addend vm = Val vm' \<and> vm_ok G out invar vm0 vm'
    \<and> unat r_offset + 7 < unat USER_SPACE_END
    \<and> (\<forall>v. v < USER_SPACE_END \<longrightarrow> user_view G vm' v = reloc_view (r_offset, r_addend) (user_view G vm) v))"
proof -
  let ?p = "page_of r_offset" and ?bs = "to_le_bytes 8 r_addend" and ?V = "user_view G vm"
  define k where "k = unat (r_offset - ?p)"
  have pu: "?p < USER_SPACE_END" "unat ?p < 0x800000000000" using page_of_less_end [of r_offset] o by (simp_all add: word_less_nat_alt USER_SPACE_END_def)
  have k: "unat r_offset = unat ?p + k" "k < 4096"
  proof -
    have "r_offset - ?p = r_offset AND 0xFFF" using page_split [of r_offset] by (metis add_diff_cancel_left')
    then have "k = unat r_offset mod 4096" by (simp add: k_def unat_in_page)
    then show "unat r_offset = unat ?p + k" "k < 4096" by (simp_all add: unat_page_of)
  qed
  have o7: "unat (r_offset + 7) = unat r_offset + 7"
    using unat_plus_no_overflow [of r_offset 7] k pu(2) by simp
  obtain q where q: "unat ?p = 4096 * q" by (rule that [OF unat_page_of])
  have qe: "4096 * q + 4096 \<le> 0x800000000000" 
  proof -
    have "q < 34359738368" using pu(2) q by simp
    then show ?thesis by simp
  qed
  show ?thesis
  proof (cases "k + 8 \<le> 4096")
    case inside: True
    have same: "page_of (r_offset + 7) = ?p" using in_page_iff [of ?p "r_offset + 7"] o7 k inside by simp
    have lim: "unat r_offset + 7 < unat USER_SPACE_END" using k inside qe q by (simp add: USER_SPACE_END_def)
    show ?thesis
    proof (cases "pg_translate G (vm_tables vm) ?p")
      case None
      then have "apply_reloc G r_offset r_addend vm = Val vm" using inside by (simp add: apply_reloc_def k_def pml4_page_ptr_def Let_def)
      moreover have "reloc_view (r_offset, r_addend) ?V = ?V" using None by (simp add: reloc_view_def user_view_def)
      ultimately show ?thesis using ok lim by simp
    next
      case (Some e)
      obtain f fl where e: "e = (f, fl)" by (cases e)
      obtain vm' where w: "write_frame f k ?bs vm = Val vm'" "vm_ok G out invar vm0 vm'"
        "\<And>v. v < USER_SPACE_END \<Longrightarrow> user_view G vm' v = poke (unat ?p + k) ?bs ?V v"
        by (rule write_user [OF ok page_of_idem pu(1) Some [unfolded e], of k ?bs]) (use inside in auto)
      have "apply_reloc G r_offset r_addend vm = Val vm'" using inside w(1) Some e by (simp add: apply_reloc_def k_def pml4_page_ptr_def Let_def)
      moreover have "reloc_view (r_offset, r_addend) ?V = poke (unat ?p + k) ?bs ?V"
        using Some k same by (simp add: reloc_view_def view_None pml4_page_ptr_def)
      ultimately show ?thesis using w(2,3) lim by simp
    qed
  next
    case cross: False
    let ?p1 = "?p + 4096"
    have p1: "unat ?p1 = unat ?p + 4096" using unat_plus_no_overflow [of ?p 4096] pu(2) by simp
    show ?thesis
    proof (cases "?p1 < USER_SPACE_END")
      case False
      with next_page [OF page_of_idem pu(1)] cross show ?thesis by (simp add: apply_reloc_def k_def Let_def)
    next
      case True
      have nx: "pg_next G ?p = Some ?p1" using next_page [OF page_of_idem pu(1)] True by simp
      have al: "page_of ?p1 = ?p1" unfolding word_unat_eq_iff unat_page_of using p1 q by simp
      have next7: "page_of (r_offset + 7) = ?p1" using in_page_iff [OF al, of "r_offset + 7"] o7 k p1 cross by simp
      have "Suc q < 34359738368" using True p1 q by (simp add: word_less_nat_alt USER_SPACE_END_def)
      then have "unat ?p1 + 4096 \<le> 0x800000000000" using p1 q by simp
      then have lim: "unat r_offset + 7 < unat USER_SPACE_END" using k p1 by (simp add: USER_SPACE_END_def)
      let ?n = "4096 - k"
      have n: "?n < 8" "0 < ?n" using cross k(2) by auto
      show ?thesis
      proof (cases "pg_translate G (vm_tables vm) ?p = None \<or> pg_translate G (vm_tables vm) ?p1 = None")
        case True
        then have "apply_reloc G r_offset r_addend vm = Val vm"
          using cross nx by (auto simp: apply_reloc_def k_def pml4_page_ptr_def Let_def split: option.splits)
        moreover have "reloc_view (r_offset, r_addend) ?V = ?V" using True next7 by (auto simp: reloc_view_def user_view_def)
        ultimately show ?thesis using ok lim by simp
      next
        case False
        then obtain f fl f1 fl1 where e: "pg_translate G (vm_tables vm) ?p = Some (f, fl)" "pg_translate G (vm_tables vm) ?p1 = Some (f1, fl1)" by auto
        obtain vm1 where w: "write_frame f k (take ?n ?bs) vm = Val vm1" "vm_ok G out invar vm0 vm1" "vm_tables vm1 = vm_tables vm"
          "\<And>v. v < USER_SPACE_END \<Longrightarrow> user_view G vm1 v = poke (unat ?p + k) (take ?n ?bs) ?V v"
          by (rule write_user [OF ok page_of_idem pu(1) e(1), of k "take ?n ?bs"]) (use n in auto)
        obtain vm2 where w2: "write_frame f1 0 (drop ?n ?bs) vm1 = Val vm2" "vm_ok G out invar vm0 vm2"
          "\<And>v. v < USER_SPACE_END \<Longrightarrow> user_view G vm2 v = poke (unat ?p1 + 0) (drop ?n ?bs) (user_view G vm1) v"
          by (rule write_user [OF w(2) al True, of f1 fl1 0 "drop ?n ?bs"]) (use e(2) w(3) in auto)
        have "apply_reloc G r_offset r_addend vm = Val vm2"
          using cross nx w(1) w2(1) e by (simp add: apply_reloc_def k_def pml4_page_ptr_def Let_def)
        moreover have "user_view G vm2 v = reloc_view (r_offset, r_addend) ?V v" if v: "v < USER_SPACE_END" for v
        proof -
          have "unat ?p1 + 0 = unat ?p + k + length (take ?n ?bs)" using p1 n k(2) by simp
          then have "user_view G vm2 v = poke (unat ?p + k + length (take ?n ?bs)) (drop ?n ?bs) (poke (unat ?p + k) (take ?n ?bs) ?V) v"
            using w2(3) [OF v] poke_cong [of "user_view G vm1" v "poke (unat ?p + k) (take ?n ?bs) ?V"] w(4) [OF v] by simp
          also have "\<dots> = poke (unat ?p + k) ?bs ?V v" by (simp only: poke_append append_take_drop_id)
          also have "\<dots> = reloc_view (r_offset, r_addend) ?V v"
            using e k(1) next7 by (simp add: reloc_view_def view_None pml4_page_ptr_def)
          finally show ?thesis .
        qed
        ultimately show ?thesis using w2(2) lim by simp
      qed
    qed
  qed
qed

lemma reloc_entry_spec:
  assumes "vm_ok G out invar vm0 vm"
  shows "reloc_entry G o1 info a vm = Panics \<or> (\<exists>vm'. reloc_entry G o1 info a vm = Val vm' \<and> vm_ok G out invar vm0 vm'
    \<and> (if info AND 0xFFFFFFFF = 8 \<and> o1 < USER_SPACE_END
       then low_reloc (o1, a) \<and> (\<forall>v. v < USER_SPACE_END \<longrightarrow> user_view G vm' v = reloc_view (o1, a) (user_view G vm) v) else vm' = vm))"
  using apply_reloc_spec [OF assms, of o1 a] assms by (auto simp: reloc_entry_def low_reloc_def not_le)

lemma reloc_loop_spec:
  assumes "vm_ok G out invar vm0 vm"
  shows "reloc_loop G data foff ent count i vm = Panics \<or> (\<exists>vm' es. reloc_loop G data foff ent count i vm = Val vm'
    \<and> vm_ok G out invar vm0 vm' \<and> rela_entries data foff ent count i = Val es \<and> (\<forall>r\<in>set es. low_reloc r)
    \<and> (\<forall>v. v < USER_SPACE_END \<longrightarrow> user_view G vm' v = fold reloc_view es (user_view G vm) v))"
  using assms
proof (induction "unat count - unat i" arbitrary: i vm rule: less_induct)
  case less
  let ?off = "foff + i * ent"
  show ?case
  proof (cases "i < count \<and> unat (?off + 24) \<le> length data")
    case False
    then have "reloc_loop G data foff ent count i vm = Val vm" "rela_entries data foff ent count i = Val []"
      by (auto simp: reloc_loop.simps [of G data foff ent count i vm] rela_entries.simps [of data foff ent count i] Let_def)
    with less.prems show ?thesis by simp
  next
    case True
    show ?thesis
    proof (cases "\<exists>o1 info a. elf_u64 data ?off = Val o1 \<and> elf_u64 data (?off + 8) = Val info \<and> elf_u64 data (?off + 16) = Val a")
      case False
      then have "reloc_loop G data foff ent count i vm = Panics"
        using True elf_u64_not_Ub
        by (cases "elf_u64 data ?off"; cases "elf_u64 data (?off + 8)"; cases "elf_u64 data (?off + 16)")
          (auto simp: reloc_loop.simps [of G data foff ent count i vm] Let_def)
      then show ?thesis by simp
    next
      case rd: True
      then obtain o1 info a where rd: "elf_u64 data ?off = Val o1" "elf_u64 data (?off + 8) = Val info" "elf_u64 data (?off + 16) = Val a" by blast
      have run: "reloc_loop G data foff ent count i vm = exec_bind (reloc_entry G o1 info a vm) (\<lambda>vm. reloc_loop G data foff ent count (i + 1) vm)"
        using True rd by (simp add: reloc_loop.simps [of G data foff ent count i vm] Let_def)
      have spec: "rela_entries data foff ent count i = exec_bind (rela_entries data foff ent count (i + 1))
          (\<lambda>es. Val (if info AND 0xFFFFFFFF = 8 \<and> o1 < USER_SPACE_END then (o1, a) # es else es))"
        using True rd by (simp add: rela_entries.simps [of data foff ent count i])
      have dec: "unat count - unat (i + 1) < unat count - unat i" using True by (auto intro: conjI) unat_arith
      from reloc_entry_spec [OF less.prems, of o1 info a] show ?thesis
      proof (elim disjE exE conjE)
        fix vm1
        assume e: "reloc_entry G o1 info a vm = Val vm1" "vm_ok G out invar vm0 vm1"
          "if info AND 0xFFFFFFFF = 8 \<and> o1 < USER_SPACE_END
           then low_reloc (o1, a) \<and> (\<forall>v. v < USER_SPACE_END \<longrightarrow> user_view G vm1 v = reloc_view (o1, a) (user_view G vm) v) else vm1 = vm"
        from less.hyps [OF dec e(2)] show ?thesis
        proof (elim disjE exE conjE)
          fix vm2 es
          assume l: "reloc_loop G data foff ent count (i + 1) vm1 = Val vm2" "vm_ok G out invar vm0 vm2"
            "rela_entries data foff ent count (i + 1) = Val es" "\<forall>r\<in>set es. low_reloc r"
            "\<forall>v. v < USER_SPACE_END \<longrightarrow> user_view G vm2 v = fold reloc_view es (user_view G vm1) v"
          show ?thesis
          proof (cases "info AND 0xFFFFFFFF = 8 \<and> o1 < USER_SPACE_END")
            case True
            with e(3) have e3: "low_reloc (o1, a)" "\<And>v. v < USER_SPACE_END \<Longrightarrow> user_view G vm1 v = reloc_view (o1, a) (user_view G vm) v" by auto
            have "user_view G vm2 v = fold reloc_view ((o1, a) # es) (user_view G vm) v" if v: "v < USER_SPACE_END" for v
              using l(5) v fold_reloc_cong [OF e3(2) l(4) v] by simp
            with True l e3(1) e(1) run spec show ?thesis by (auto intro!: exI [of _ vm2] exI [of _ "(o1, a) # es"])
          next
            case False
            with e(3) l e(1) run spec show ?thesis by auto
          qed
        qed (use e(1) run in simp)
      qed (use run in simp)
    qed
  qed
qed

lemma phdr_no_Val:
  assumes "unat (e_phoff eh) + 56 * i + 56 \<le> length data" and "length data < 2 ^ 63"
  shows "phdr_no data eh i = Val (phdr_at data (unat (e_phoff eh) + 56 * i))"
proof -
  have i: "unat (word_of_nat i :: u64) = i" using assms by (intro unat_word_of_nat_small) simp
  then have "unat (word_of_nat i * 56 :: u64) = 56 * i" using assms by (simp add: unat_word_ariths)
  then have "unat (e_phoff eh + word_of_nat i * 56) = unat (e_phoff eh) + 56 * i"
    using assms unat_plus_no_overflow [of "e_phoff eh" "word_of_nat i * 56"] by simp
  with assms(1) show ?thesis by (simp add: phdr_no_def read_phdr_def)
qed

lemma scan_not_Ub: "scan_dynamic data base filesz p r \<noteq> Ub"
proof (induction data base filesz p r rule: scan_dynamic.induct)
  case (1 data base filesz p r)
  then show ?case
    using elf_u64_not_Ub by (auto simp: scan_dynamic.simps [of data base filesz p r] exec_bind_Ub_iff)
qed

lemma tables_not_Ub:
  assumes "\<forall>i\<in>set is. unat (e_phoff eh) + 56 * i + 56 \<le> length data" and "length data < 2 ^ 63"
  shows "find_dynamic data eh is \<noteq> Ub" and "vaddr_to_foff data eh v is \<noteq> Ub"
  using assms(1) by (induction "is") (auto simp: phdr_no_Val [OF _ assms(2)] scan_not_Ub)

lemma relocate_spec:
  assumes "vm_ok G out invar vm0 vm" and "\<forall>i < unat (e_phnum eh). unat (e_phoff eh) + 56 * i + 56 \<le> length data" and "length data < 2 ^ 63"
  shows "relocate G data eh vm = Panics \<or> (\<exists>vm' es. relocate G data eh vm = Val vm' \<and> vm_ok G out invar vm0 vm'
    \<and> relocations data eh = Val es \<and> (\<forall>r\<in>set es. low_reloc r)
    \<and> (\<forall>v. v < USER_SPACE_END \<longrightarrow> user_view G vm' v = fold reloc_view es (user_view G vm) v))"
proof -
  let ?is = "[0..<unat (e_phnum eh)]"
  have nub: "find_dynamic data eh ?is \<noteq> Ub" "\<And>v. vaddr_to_foff data eh v ?is \<noteq> Ub"
    using tables_not_Ub [of ?is eh data] assms(2,3) by auto
  show ?thesis
  proof (cases "find_dynamic data eh ?is")
    case (Val r)
    show ?thesis
    proof (cases "rela_v r")
      case None
      with Val assms(1) show ?thesis by (simp add: relocate_def relocations_def)
    next
      case (Some rv)
      show ?thesis
      proof (cases "vaddr_to_foff data eh rv ?is")
        case foff: (Val foff)
        show ?thesis
        proof (cases foff)
          case None
          with Val Some foff assms(1) show ?thesis by (simp add: relocate_def relocations_def)
        next
          case (Some f)
          let ?ent = "if rela_ent r > 0 then rela_ent r else 24"
          from Some Val foff \<open>rela_v r = Some rv\<close> show ?thesis
            using reloc_loop_spec [OF assms(1), of data f ?ent "rela_sz r div ?ent" 0]
            by (simp add: relocate_def relocations_def Let_def)
        qed
      next
        case Ub
        with nub(2) show ?thesis by blast
      qed (use Val Some in \<open>simp add: relocate_def\<close>)
    qed
  next
    case Ub
    with nub(1) show ?thesis by blast
  qed (simp add: relocate_def)
qed

text \<open>A state with nothing mapped in the user half, from which every load starts.\<close>

lemma fresh_ok:
  "invar (vm_frames vm) \<Longrightarrow> \<forall>p. p < USER_SPACE_END \<longrightarrow> pg_translate G (vm_tables vm) p = None \<Longrightarrow> vm_ok G out invar vm vm"
  by (simp add: vm_ok_def)

lemma fresh_view:
  "\<forall>p. p < USER_SPACE_END \<longrightarrow> pg_translate G (vm_tables vm) p = None \<Longrightarrow> v < USER_SPACE_END \<Longrightarrow> user_view G vm v = None"
  using page_of_less_end [of v] by (simp add: user_view_def)

lemma load_spec:
  assumes "invar (vm_frames vm0)" and fresh: "\<forall>p. p < USER_SPACE_END \<longrightarrow> pg_translate G (vm_tables vm0) p = None"
    and len: "64 \<le> length data" "length data < 2 ^ 63" and eh: "read_ehdr data = Val eh"
  shows "load_into_pml4 G data vm0 = Panics \<and> (e_type eh = 3 \<or> (\<exists>ph\<in>set (phdrs data eh [0..<unat (e_phnum eh)]). top_segment ph))
    \<or> (\<exists>r vm'. load_into_pml4 G data vm0 = Val (r, vm') \<and> vm_ok G out invar vm0 vm' \<and> (\<forall>x. r = Inr x \<longrightarrow>
        x = (e_entry eh, e_phoff eh, e_phentsize eh, e_phnum eh)
        \<and> (\<forall>ph\<in>set (phdrs data eh [0..<unat (e_phnum eh)]). p_type ph = 1 \<and> p_memsz ph \<noteq> 0 \<longrightarrow> seg_ok data ph)
        \<and> (\<exists>es. (if e_type eh = 3 then relocations data eh = Val es else es = [])
           \<and> (\<forall>v. v < USER_SPACE_END \<longrightarrow> user_view G vm' v = fold reloc_view es (fold (seg_view data) (phdrs data eh [0..<unat (e_phnum eh)]) (\<lambda>_. None)) v))))"
proof (cases "sum_bind (check_ehdr eh) (\<lambda>_. check_ph_table data eh)")
  case (Inl e)
  with fresh_ok [OF assms(1) fresh] eh show ?thesis by (simp add: load_into_pml4_def)
next
  case (Inr u)
  let ?is = "[0..<unat (e_phnum eh)]" and ?ps = "phdrs data eh [0..<unat (e_phnum eh)]"
  have bounds: "\<forall>i < unat (e_phnum eh). unat (e_phoff eh) + 56 * i + 56 \<le> length data"
    using ph_table_bounds Inr by (auto simp: sum_bind_def split: sum.splits)
  have run: "load_into_pml4 G data vm0 = try_bind (load_segments G data eh ?is vm0)
      (\<lambda>_ vm. exec_bind (if e_type eh = 3 then relocate G data eh vm else Val vm)
         (\<lambda>vm. Val (Inr (e_entry eh, e_phoff eh, e_phentsize eh, e_phnum eh), vm)))"
    using eh Inr by (simp add: load_into_pml4_def)
  have "\<forall>i\<in>set ?is. unat (e_phoff eh) + 56 * i + 56 \<le> length data" using bounds by simp
  from load_segments_spec [OF fresh_ok [OF assms(1) fresh] this len(2)] show ?thesis
  proof (elim disjE exE conjE)
    fix r vm1
    assume 1: "load_segments G data eh ?is vm0 = Val (r, vm1)" "vm_ok G out invar vm0 vm1"
      "r = Inr () \<longrightarrow> (\<forall>ph\<in>set ?ps. p_type ph = 1 \<and> p_memsz ph \<noteq> 0 \<longrightarrow> seg_ok data ph)
        \<and> (\<forall>v. v < USER_SPACE_END \<longrightarrow> user_view G vm1 v = fold (seg_view data) ?ps (user_view G vm0) v)"
    show ?thesis
    proof (cases r)
      case (Inl e)
      with 1 run show ?thesis by (simp add: try_bind_def)
    next
      case (Inr y)
      then have segs: "\<forall>ph\<in>set ?ps. p_type ph = 1 \<and> p_memsz ph \<noteq> 0 \<longrightarrow> seg_ok data ph"
        and view: "\<And>v. v < USER_SPACE_END \<Longrightarrow> user_view G vm1 v = fold (seg_view data) ?ps (\<lambda>_. None) v"
        using 1(3) fold_seg_view_cong [of "user_view G vm0" _ "\<lambda>_. None"] fresh_view [OF fresh] by auto
      have run: "load_into_pml4 G data vm0 = exec_bind (if e_type eh = 3 then relocate G data eh vm1 else Val vm1)
         (\<lambda>vm. Val (Inr (e_entry eh, e_phoff eh, e_phentsize eh, e_phnum eh), vm))"
        using run 1(1) Inr by (simp add: try_bind_def)
      show ?thesis
      proof (cases "e_type eh = 3")
        case False
        then have "load_into_pml4 G data vm0 = Val (Inr (e_entry eh, e_phoff eh, e_phentsize eh, e_phnum eh), vm1)" using run by simp
        with 1(2) segs view False show ?thesis by auto
      next
        case True
        from relocate_spec [OF 1(2) bounds len(2)] show ?thesis
        proof (elim disjE exE conjE)
          fix vm2 es
          assume r: "relocate G data eh vm1 = Val vm2" "vm_ok G out invar vm0 vm2" "relocations data eh = Val es" "\<forall>r\<in>set es. low_reloc r"
            "\<forall>v. v < USER_SPACE_END \<longrightarrow> user_view G vm2 v = fold reloc_view es (user_view G vm1) v"
          have "user_view G vm2 v = fold reloc_view es (fold (seg_view data) ?ps (\<lambda>_. None)) v" if v: "v < USER_SPACE_END" for v
            using r(5) v fold_reloc_cong [OF view r(4) v] by simp
          with run True r(1-3) segs show ?thesis by auto
        qed (use run True in simp)
      qed
    qed
  qed (use run in \<open>simp add: try_bind_def\<close>)
qed

end

end
