(* ===== verification/Elf_Props.thy ===== *)
theory Elf_Props
  imports Elf_Reloc Frames_Props
begin

text \<open>
  The properties of the program loader. They hold for every paging layer that keeps the contract
  \<open>paging\<close>; the contract is shown to hold over the kernel's own frame allocator with page tables
  that are a map from pages to frames.
\<close>

unbundle bit_operations_syntax

section \<open>Page tables as a map\<close>

definition page_list :: "u64 \<Rightarrow> u64 \<Rightarrow> u64 list" where
  "page_list a b = (if a \<le> b then map (\<lambda>k. a + 4096 * word_of_nat k) [0..<Suc (unat (b - a) div 4096)] else [])"

definition flat_paging :: "'m alloc_fn \<Rightarrow> 'm dealloc_fn \<Rightarrow> ('m, u64 \<Rightarrow> (u64 \<times> u64) option) Paging" where
  "flat_paging alloc dealloc =
     \<lparr>pg_alloc = alloc, pg_dealloc = dealloc,
      pg_map_to = (\<lambda>page frame flags (m, t). case t page of
         Some e \<Rightarrow> (AlreadyMapped (fst e), m, t) | None \<Rightarrow> (Mapped, m, t(page \<mapsto> (frame, flags)))),
      pg_unmap = (\<lambda>page t. (map_option fst (t page), t(page := None))),
      pg_translate = (\<lambda>t. t),
      pg_range = (\<lambda>a b. if USER_SPACE_END \<le> b + 4096 then None else Some (page_list a b)),
      pg_next = (\<lambda>p. if p + 4096 < USER_SPACE_END then Some (p + 4096) else None)\<rparr>"

lemma set_page_list:
  assumes "page_of a = a" and "page_of b = b"
  shows "set (page_list a b) = {p. page_of p = p \<and> a \<le> p \<and> p \<le> b}"
proof (cases "a \<le> b")
  case True
  obtain i j where ij: "unat a = 4096 * i" "unat b = 4096 * j" using unat_page_of [of a] unat_page_of [of b] assms by metis
  have le: "i \<le> j" using True ij by (simp add: word_le_nat_alt)
  have lim: "4096 * j < 2 ^ 64" using unat_bound [of b] ij by simp
  have n: "unat (b - a) div 4096 = j - i" using unat_sub [OF True] ij le by (simp add: diff_mult_distrib2 [symmetric])
  have elem: "unat (a + 4096 * word_of_nat k) = 4096 * (i + k)" if "k \<le> j - i" for k
  proof -
    have l: "4096 * (i + k) < 2 ^ 64" using that le lim by simp
    then have "unat (word_of_nat k :: u64) = k" by (intro unat_word_of_nat_small) simp
    then have "unat (4096 * word_of_nat k :: u64) = 4096 * k" using l by (simp add: unat_word_ariths)
    then show ?thesis using l ij(1) unat_plus_no_overflow [of a "4096 * word_of_nat k"] by (simp add: distrib_left)
  qed
  have ex: "page_of p = p \<and> a \<le> p \<and> p \<le> b \<longleftrightarrow> (\<exists>k \<le> j - i. unat p = 4096 * (i + k))" for p
  proof
    assume p: "page_of p = p \<and> a \<le> p \<and> p \<le> b"
    then obtain q where q: "unat p = 4096 * q" using unat_page_of [of p] by metis
    then have "i \<le> q" "q \<le> j" using p ij by (simp_all add: word_le_nat_alt)
    with q show "\<exists>k \<le> j - i. unat p = 4096 * (i + k)" by (intro exI [of _ "q - i"]) simp
  next
    assume "\<exists>k \<le> j - i. unat p = 4096 * (i + k)"
    then obtain k where "k \<le> j - i" "unat p = 4096 * (i + k)" by blast
    then show "page_of p = p \<and> a \<le> p \<and> p \<le> b" using le by (simp add: word_unat_eq_iff unat_page_of word_le_nat_alt ij)
  qed
  show ?thesis
  proof (intro set_eqI)
    fix p
    have "p \<in> set (page_list a b) \<longleftrightarrow> (\<exists>k \<le> j - i. p = a + 4096 * word_of_nat k)"
      unfolding page_list_def if_P [OF True] n set_map set_upt by (auto simp: less_Suc_eq_le simp del: upt_Suc)
    also have "\<dots> \<longleftrightarrow> (\<exists>k \<le> j - i. unat p = 4096 * (i + k))" unfolding word_unat_eq_iff using elem by auto
    also have "\<dots> \<longleftrightarrow> p \<in> {p. page_of p = p \<and> a \<le> p \<and> p \<le> b}" using ex by simp
    finally show "p \<in> set (page_list a b) \<longleftrightarrow> p \<in> {p. page_of p = p \<and> a \<le> p \<and> p \<le> b}" .
  qed
qed (auto simp: page_list_def)

lemma flat_paging_ok:
  assumes "frame_allocator alloc dealloc out invar"
  shows "paging (flat_paging alloc dealloc) out invar"
proof (rule paging.intro)
  show "frame_allocator (pg_alloc (flat_paging alloc dealloc)) (pg_dealloc (flat_paging alloc dealloc)) out invar"
    using assms by (simp add: flat_paging_def)
  show "paging_axioms (flat_paging alloc dealloc) out invar"
  proof (rule paging_axioms.intro, goal_cases)
    case (4 a b ps)
    then show ?case using set_page_list [of a b] by (auto simp: flat_paging_def split: if_splits)
  qed (auto simp: flat_paging_def)
qed

section \<open>Lemmas\<close>

lemma elf_new_ok: "elf_new file_bytes = Inr data \<Longrightarrow> data = file_bytes \<and> 64 \<le> length file_bytes"
  by (auto simp: elf_new_def split: if_splits)

lemma seg_address:
  assumes "seg_ok data ph" and "p_type ph = 1" and "k < p_memsz ph"
  shows "p_vaddr ph + k < USER_SPACE_END \<and> covers ph (p_vaddr ph + k)
    \<and> seg_byte data ph (p_vaddr ph + k) = (if k < p_filesz ph then data ! (unat (p_offset ph) + unat k) else 0)"
proof -
  let ?V = "unat (p_vaddr ph)" and ?v = "p_vaddr ph + k"
  have k: "unat k < unat (p_memsz ph)" using assms(3) by (simp add: word_less_nat_alt)
  have m: "?V + unat (p_memsz ph) \<le> 0x800000000000" using assms(1) by (simp add: seg_ok_def USER_SPACE_END_def)
  have u: "unat ?v = ?V + unat k" using unat_plus_no_overflow [of "p_vaddr ph" k] k m by simp
  note last = seg_last [OF assms(1)] and fe = seg_file_end [OF assms(1)]
  have mono: "page_of a \<le> page_of b" if "unat a \<le> unat b" for a b
    using that by (simp add: word_le_nat_alt unat_page_of div_le_mono)
  have "page_of (p_vaddr ph) \<le> page_of ?v" "page_of ?v \<le> page_of (p_vaddr ph + p_memsz ph - 1)"
    using mono [of "p_vaddr ph" ?v] mono [of ?v "p_vaddr ph + p_memsz ph - 1"] u k last by auto
  moreover have "p_vaddr ph \<le> ?v" "?v < p_vaddr ph + p_filesz ph \<longleftrightarrow> k < p_filesz ph"
    using u fe by (auto simp: word_le_nat_alt word_less_nat_alt)
  moreover have "?v < USER_SPACE_END" using u k m by (simp add: word_less_nat_alt USER_SPACE_END_def)
  moreover have "p_memsz ph \<noteq> 0" using assms(3) by auto
  ultimately show ?thesis using assms(2) by (simp add: covers_def seg_byte_def)
qed

lemma fold_seg_none: "\<forall>ph\<in>set ps. \<not> covers ph v \<Longrightarrow> fold (seg_view data) ps V v = V v"
  by (induction ps arbitrary: V) (simp_all add: seg_view_def)

lemma fold_seg_disjoint:
  assumes "\<forall>i j v. i < j \<longrightarrow> j < length ps \<longrightarrow> \<not> (covers (ps ! i) v \<and> covers (ps ! j) v)" and "ph \<in> set ps" and "covers ph v"
  shows "fold (seg_view data) ps V v = Some (seg_byte data ph v, segment_flags ph)"
proof -
  from assms(2) obtain xs ys where ps: "ps = xs @ ph # ys" by (meson split_list)
  have "\<not> covers y v" if "y \<in> set ys" for y
  proof -
    from that obtain n where n: "n < length ys" "ys ! n = y" by (metis in_set_conv_nth)
    have "ps ! length xs = ph" "ps ! (length xs + Suc n) = y" using ps n by (simp_all add: nth_append)
    with assms(1,3) n(1) ps show ?thesis by (metis add_Suc_right add_less_cancel_left length_Cons length_append less_add_Suc1 not_less_eq)
  qed
  then show ?thesis using assms(3) fold_seg_none [of ys v] ps by (simp add: seg_view_def)
qed

lemma elf_loaded:
  assumes "paging G out invar" and "invar (vm_frames vm)" and "\<forall>p. p < USER_SPACE_END \<longrightarrow> pg_translate G (vm_tables vm) p = None"
    and "64 \<le> length data" and "length data < 2 ^ 63" and "read_ehdr data = Val eh"
    and "load_into_pml4 G data vm = Val (Inr x, vm')"
  shows "x = (e_entry eh, e_phoff eh, e_phentsize eh, e_phnum eh)
    \<and> (\<forall>ph\<in>set (phdrs data eh [0..<unat (e_phnum eh)]). p_type ph = 1 \<and> p_memsz ph \<noteq> 0 \<longrightarrow> seg_ok data ph)
    \<and> (\<exists>es. (if e_type eh = 3 then relocations data eh = Val es else es = [])
       \<and> (\<forall>v. v < USER_SPACE_END \<longrightarrow>
            user_view G vm' v = fold reloc_view es (fold (seg_view data) (phdrs data eh [0..<unat (e_phnum eh)]) (\<lambda>_. None)) v))"
proof -
  from paging.load_spec [OF assms(1-6)] assms(7) obtain r vm1 where "load_into_pml4 G data vm = Val (r, vm1)"
    and p: "\<forall>x. r = Inr x \<longrightarrow> x = (e_entry eh, e_phoff eh, e_phentsize eh, e_phnum eh)
    \<and> (\<forall>ph\<in>set (phdrs data eh [0..<unat (e_phnum eh)]). p_type ph = 1 \<and> p_memsz ph \<noteq> 0 \<longrightarrow> seg_ok data ph)
    \<and> (\<exists>es. (if e_type eh = 3 then relocations data eh = Val es else es = [])
       \<and> (\<forall>v. v < USER_SPACE_END \<longrightarrow>
            user_view G vm1 v = fold reloc_view es (fold (seg_view data) (phdrs data eh [0..<unat (e_phnum eh)]) (\<lambda>_. None)) v))"
    by (elim disjE exE conjE) (simp, simp, blast)
  with assms(7) have "r = Inr x" "vm1 = vm'" by simp_all
  with p show ?thesis by blast
qed

section \<open>Properties\<close>




section \<open>Two files\<close>

text \<open>Images of headers, and an allocator over two lists of frames.\<close>

definition ehdr_bytes :: "u16 \<Rightarrow> u64 \<Rightarrow> u16 \<Rightarrow> u8 list" where
  "ehdr_bytes ty entry phnum =
     [0x7F, 0x45, 0x4C, 0x46, 2, 1, 1] @ replicate 9 0 @ to_le_bytes 2 ty @ to_le_bytes 2 (62 :: u16) @ to_le_bytes 4 (1 :: u32)
     @ to_le_bytes 8 entry @ to_le_bytes 8 (64 :: u64) @ replicate 12 0 @ to_le_bytes 2 (64 :: u16) @ to_le_bytes 2 (56 :: u16)
     @ to_le_bytes 2 phnum @ replicate 6 0"

definition phdr_bytes :: "u32 \<Rightarrow> u32 \<Rightarrow> u64 \<Rightarrow> u64 \<Rightarrow> u64 \<Rightarrow> u64 \<Rightarrow> u8 list" where
  "phdr_bytes ty flags off vaddr filesz memsz =
     to_le_bytes 4 ty @ to_le_bytes 4 flags @ to_le_bytes 8 off @ to_le_bytes 8 vaddr @ replicate 8 0
     @ to_le_bytes 8 filesz @ to_le_bytes 8 memsz @ replicate 8 0"

definition small_exe :: "u8 list" where
  "small_exe = ehdr_bytes 2 0x400000 1 @ phdr_bytes 1 5 120 0x400000 2 3 @ [0x90, 0xC3]"

definition list_alloc :: "(u64 list \<times> u64 list) alloc_fn" where
  "list_alloc m = (case fst m of [] \<Rightarrow> (None, m) | f # fs \<Rightarrow> (Some f, fs, f # snd m))"

definition list_dealloc :: "(u64 list \<times> u64 list) dealloc_fn" where
  "list_dealloc f m = (f # fst m, remove1 f (snd m))"

lemma list_allocator:
  "frame_allocator list_alloc list_dealloc (\<lambda>m. set (snd m)) (\<lambda>m. distinct (fst m @ snd m) \<and> (\<forall>f\<in>set (fst m @ snd m). frame_ok f))"
  by unfold_locales (auto simp: list_alloc_def list_dealloc_def split: list.splits)

lemmas list_paging = flat_paging_ok [OF list_allocator]

definition list_vm :: "(u64 list \<times> u64 list, u64 \<Rightarrow> (u64 \<times> u64) option) Vm" where
  "list_vm = \<lparr>vm_frames = ([0x1000], []), vm_tables = (\<lambda>_. None), vm_ram = (\<lambda>_. 0xFF)\<rparr>"

lemma small_exe_headers:
  "elf_new small_exe = Inr small_exe"
  "read_ehdr small_exe = Val \<lparr>e_ident = [0x7F, 0x45, 0x4C, 0x46, 2, 1, 1, 0, 0, 0, 0, 0, 0, 0, 0, 0], e_type = 2, e_machine = 62,
     e_version = 1, e_entry = 0x400000, e_phoff = 64, e_shoff = 0, e_flags = 0, e_ehsize = 64, e_phentsize = 56, e_phnum = 1,
     e_shentsize = 0, e_shnum = 0, e_shstrndx = 0\<rparr>"
  "read_phdr small_exe 64 = Val \<lparr>p_type = 1, p_flags = 5, p_offset = 120, p_vaddr = 0x400000, p_paddr = 0, p_filesz = 2, p_memsz = 3, p_align = 0\<rparr>"
  "length small_exe = 122"
  by code_simp+

lemma page_0x400: "page_of 0x400000 = 0x400000" "page_of 0x400001 = 0x400000" "page_of 0x400002 = 0x400000" "page_of 0x400010 = 0x400000"
  "page_list 0x400000 0x400000 = [0x400000]"
  by code_simp+

lemmas load_defs = load_into_pml4_def sum_bind_def check_ehdr_def check_ph_table_def checked_mul_def checked_add_def try_bind_def
  load_segment_def check_segment_def USER_SPACE_END_def load_page_def map_page_in_pml4_fallible_def pml4_page_ptr_def
  clear_page_def copy_page_def write_frame_def flat_paging_def list_alloc_def list_vm_def

lemma small_exe_loads:
  "\<exists>vm'. load_into_pml4 (flat_paging list_alloc list_dealloc) small_exe list_vm = Val (Inr (0x400000, 64, 56, 1), vm')"
  by (simp add: load_defs small_exe_headers page_0x400 Let_def)

lemma list_vm_fresh: "\<forall>p. p < USER_SPACE_END \<longrightarrow> pg_translate (flat_paging list_alloc list_dealloc) (vm_tables list_vm) p = None"
  "(\<lambda>m. distinct (fst m @ snd m) \<and> (\<forall>f\<in>set (fst m @ snd m). frame_ok f)) (vm_frames list_vm)"
  by (simp_all add: flat_paging_def list_vm_def frame_ok_def)


definition small_ehdr :: Elf64Ehdr where
  "small_ehdr = \<lparr>e_ident = [0x7F, 0x45, 0x4C, 0x46, 2, 1, 1, 0, 0, 0, 0, 0, 0, 0, 0, 0], e_type = 2, e_machine = 62,
     e_version = 1, e_entry = 0x400000, e_phoff = 64, e_shoff = 0, e_flags = 0, e_ehsize = 64, e_phentsize = 56, e_phnum = 1,
     e_shentsize = 0, e_shnum = 0, e_shstrndx = 0\<rparr>"

definition small_phdr :: Elf64Phdr where
  "small_phdr = \<lparr>p_type = 1, p_flags = 5, p_offset = 120, p_vaddr = 0x400000, p_paddr = 0, p_filesz = 2, p_memsz = 3, p_align = 0\<rparr>"

lemma small_exe_phdrs: "phdrs small_exe small_ehdr [0..<unat (e_phnum small_ehdr)] = [small_phdr]"
  by code_simp



section \<open>Where the loader goes wrong\<close>

text \<open>
  Two segments that share a page: mapping the page again replaces its frame, the new frame is
  cleared, and the bytes of the first segment are gone. The branch of the loader that was
  written for this case, for a page that could not be mapped because it is mapped already, is
  not reached, because \<^verbatim>\<open>map_page_in_pml4_fallible\<close> reports success.
\<close>

definition shared_exe :: "u8 list" where
  "shared_exe = ehdr_bytes 2 0x400000 2 @ phdr_bytes 1 5 176 0x400000 1 1 @ phdr_bytes 1 6 177 0x400010 1 1 @ [0xAA, 0xBB]"

definition shared_ehdr :: Elf64Ehdr where
  "shared_ehdr = small_ehdr\<lparr>e_phnum := 2\<rparr>"

definition shared_vm :: "(u64 list \<times> u64 list, u64 \<Rightarrow> (u64 \<times> u64) option) Vm" where
  "shared_vm = list_vm\<lparr>vm_frames := ([0x1000, 0x2000], [])\<rparr>"

lemma shared_exe_headers:
  "read_ehdr shared_exe = Val shared_ehdr"
  "read_phdr shared_exe 64 = Val \<lparr>p_type = 1, p_flags = 5, p_offset = 176, p_vaddr = 0x400000, p_paddr = 0, p_filesz = 1, p_memsz = 1, p_align = 0\<rparr>"
  "read_phdr shared_exe 120 = Val \<lparr>p_type = 1, p_flags = 6, p_offset = 177, p_vaddr = 0x400010, p_paddr = 0, p_filesz = 1, p_memsz = 1, p_align = 0\<rparr>"
  "length shared_exe = 178"
  by code_simp+

lemma shared_exe_loads:
  "\<exists>vm'. load_into_pml4 (flat_paging list_alloc list_dealloc) shared_exe shared_vm = Val (Inr (0x400000, 64, 56, 2), vm')"
proof -
  have "[0..<2] = [0, Suc 0]" by code_simp
  then show ?thesis
    by (simp add: load_defs shared_exe_headers shared_ehdr_def small_ehdr_def shared_vm_def page_0x400 Let_def)
qed

theorem shared_page_erased:
  "\<exists>vm'. load_into_pml4 (flat_paging list_alloc list_dealloc) shared_exe shared_vm = Val (Inr (0x400000, 64, 56, 2), vm')
     \<and> user_view (flat_paging list_alloc list_dealloc) vm' 0x400010 = Some (0xBB, 0x8000000000000007)
     \<and> user_view (flat_paging list_alloc list_dealloc) vm' 0x400000 = Some (0, 0x8000000000000007) \<and> shared_exe ! 176 = 0xAA"
proof -
  obtain vm' where vm': "load_into_pml4 (flat_paging list_alloc list_dealloc) shared_exe shared_vm = Val (Inr (0x400000, 64, 56, 2), vm')"
    using shared_exe_loads by blast
  have fresh: "\<forall>p. p < USER_SPACE_END \<longrightarrow> pg_translate (flat_paging list_alloc list_dealloc) (vm_tables shared_vm) p = None"
    "(\<lambda>m. distinct (fst m @ snd m) \<and> (\<forall>f\<in>set (fst m @ snd m). frame_ok f)) (vm_frames shared_vm)"
    by (simp_all add: flat_paging_def list_vm_def shared_vm_def frame_ok_def)
  have "64 \<le> length shared_exe" "length shared_exe < 2 ^ 63" by (simp_all add: shared_exe_headers)
  from elf_loaded [OF list_paging fresh(2,1) this shared_exe_headers(1) vm']
  have view: "\<And>v. v < USER_SPACE_END \<Longrightarrow> user_view (flat_paging list_alloc list_dealloc) vm' v
      = fold (seg_view shared_exe) (phdrs shared_exe shared_ehdr [0..<unat (e_phnum shared_ehdr)]) (\<lambda>_. None) v"
    by (auto simp: shared_ehdr_def small_ehdr_def)
  have "(0x400000 :: u64) < USER_SPACE_END" "(0x400010 :: u64) < USER_SPACE_END" by (simp_all add: USER_SPACE_END_def)
  note v = view [OF this(1)] view [OF this(2)]
  have "fold (seg_view shared_exe) (phdrs shared_exe shared_ehdr [0..<unat (e_phnum shared_ehdr)]) (\<lambda>_. None) 0x400000 = Some (0, 0x8000000000000007)"
    "fold (seg_view shared_exe) (phdrs shared_exe shared_ehdr [0..<unat (e_phnum shared_ehdr)]) (\<lambda>_. None) 0x400010 = Some (0xBB, 0x8000000000000007)"
    "shared_exe ! 176 = 0xAA" by code_simp+
  with v vm' show ?thesis by metis
qed

text \<open>
  A position-independent file whose dynamic segment claims to start sixteen bytes before the end
  of the address space panics the kernel, whatever the memory looks like: the bound of the scan
  is computed with a sum that wraps.
\<close>

definition crafted_pie :: "u8 list" where
  "crafted_pie = ehdr_bytes 3 0x400000 1 @ phdr_bytes 2 4 0xFFFFFFFFFFFFFFF0 0 16 16"

lemma crafted_headers:
  "elf_new crafted_pie = Inr crafted_pie"
  "read_ehdr crafted_pie = Val (small_ehdr\<lparr>e_type := 3\<rparr>)"
  "read_phdr crafted_pie 64 = Val \<lparr>p_type = 2, p_flags = 4, p_offset = 0xFFFFFFFFFFFFFFF0, p_vaddr = 0, p_paddr = 0, p_filesz = 16, p_memsz = 16, p_align = 0\<rparr>"
  "length crafted_pie = 120"
  by code_simp+

lemma crafted_scan: "scan_dynamic crafted_pie 0xFFFFFFFFFFFFFFF0 16 0 r = Panics"
  by (simp add: scan_dynamic.simps [of crafted_pie _ 16 0] elf_u64_def elf_slice_def crafted_headers(4))

theorem crafted_dynamic_panics: "elf_new crafted_pie = Inr crafted_pie \<and> load_into_pml4 G crafted_pie vm = Panics"
  by (simp add: load_into_pml4_def crafted_headers crafted_scan sum_bind_def check_ehdr_def check_ph_table_def checked_mul_def checked_add_def
      try_bind_def load_segment_def USER_SPACE_END_def small_ehdr_def relocate_def phdr_no_def)

section \<open>The kernel's frame allocator\<close>

text \<open>The contract holds over the frame layer of the kernel, with page tables that are a map.\<close>

interpretation kernel_paging: paging "flat_paging allocate_frame deallocate_frame" frames_out "\<lambda>sys. one_node sys \<and> drained sys"
  by (rule flat_paging_ok) (rule fa.frame_allocator_axioms)

end
