(* ===== verification/Spec2Isabelle.thy ===== *)
theory Spec2Isabelle
  imports Cap_Authority Uaccess Update_Slots Tmpfs_Props Firewall_Props Frames_Props Manifest Shield_Context
    Update_Props Diff_Unified Perm_Prompt Extable Elf_Props
begin

text \<open>
  A verification of core parts of the AthenaOS kernel, of AthGuard, its security component, and
  of its update system.

  \<^bold>\<open>The program.\<close> AthenaOS is a Rust operating system: a kernel (\<^verbatim>\<open>src/kernel\<close>), a set of
  libraries and services (\<^verbatim>\<open>src/components\<close>) and applications (\<^verbatim>\<open>src/apps\<close>). The kernel's
  authority model is capabilities held in per-task tables; tasks talk over IPC channels
  whose pages come from the frame allocator; system calls reach user memory only through
  checked copies; packets pass a filter managed by capability holders; volatile files
  live in tmpfs; kernels are updated through two boot slots; applications come from an
  archive in the boot media and run under AthGuard's sandbox policies.

  \<^bold>\<open>Correspondence.\<close> Every definition that models code carries the source's name, with a
  suffix or prefix where HOL or another component has that name already. Records are the
  source's structs, datatypes its enums, machine integers are words of the source's width,
  \<^verbatim>\<open>Result\<close> is a sum with the error on the left, a possible panic is the type \<open>rust\<close>, a
  \<^verbatim>\<open>BTreeMap\<close> is a sorted association list, and code behind a lock is a function on the
  state the lock guards.

  \<^item> \<open>Prelude\<close>: machine arithmetic, panics, ordered maps with their interface (locale
    \<open>ordered_map\<close>), invariants of transition systems (locale \<open>inductive_invariant\<close>).
  \<^item> \<open>Rust_Str\<close>: strings as lists of scalar values and the standard library functions the
    kernel's text formats are read with, UTF-8 decoding among them.
  \<^item> \<open>Capability\<close>, \<open>Cap_System\<close>, \<open>Cap_Revocation\<close>, \<open>Cap_Authority\<close>
    (\<^verbatim>\<open>kernel/src/capability.rs\<close>, the capability calls of \<^verbatim>\<open>syscall.rs\<close>, the task search of
    \<^verbatim>\<open>scheduler.rs\<close>): rights, tables, derivation, grant, recursive revocation and the three
    system calls. Authority is never amplified, revocation ends and is exact, every error
    is characterised, and the one place where revocation misses a task is exhibited.
  \<^item> \<open>Ipc\<close> (\<^verbatim>\<open>kernel/src/ipc.rs\<close>): channels refine bounded FIFO queues; no operation panics.
  \<^item> \<open>Uaccess\<close> (\<^verbatim>\<open>kernel/src/uaccess.rs\<close>): copies are confined to user space; the chunked
    string reader equals a byte-wise scan.
  \<^item> \<open>Extable\<close> (\<^verbatim>\<open>kernel/src/extable.rs\<close>, the head of \<^verbatim>\<open>page_fault_inner\<close> in \<^verbatim>\<open>interrupts.rs\<close>,
    \<^verbatim>\<open>enable_smap\<close> in \<^verbatim>\<open>cpu_features.rs\<close>): the
    per-CPU fixup slots and the two copy stubs under \<open>Uaccess\<close>. A fault in a copy is recovered,
    and no slot stays armed and no access window open after it.
  \<^item> \<open>Perm_Prompt\<close> (\<^verbatim>\<open>kernel/src/perm_prompt.rs\<close>, \<^verbatim>\<open>perm_ui.rs\<close>, \<^verbatim>\<open>perm_syscalls.rs\<close>): requests for
    capabilities, the dialog and the calls of the trusted shell, as a step relation over the
    prompts and the tasks. Tables change only by consent, every request has one life, and
    what the timeout does not cover is exhibited.
  \<^item> \<open>Elf\<close>, \<open>Elf_Load\<close>, \<open>Elf_Reloc\<close>, \<open>Elf_Props\<close> (\<^verbatim>\<open>kernel/src/elf.rs\<close>, \<^verbatim>\<open>map_page_in_pml4_fallible\<close> and
    \<^verbatim>\<open>pml4_page_ptr\<close> of \<^verbatim>\<open>memory.rs\<close>): the program loader over a paging layer with a contract (locale
    \<open>paging\<close>, which extends \<open>frame_allocator\<close>). No file makes it read or write outside its own
    memory, what a loaded program sees is given exactly, and what becomes of segments that
    share a page and of a crafted dynamic segment is exhibited.
  \<^item> \<open>Update_Slots\<close> (\<^verbatim>\<open>kernel/src/update_slots.rs\<close>): the slot state machine, its file format
    and parser, signature-gated staging, fallback at boot.
  \<^item> \<open>Tmpfs\<close>, \<open>Tmpfs_Tree\<close>, \<open>Tmpfs_Props\<close> (\<^verbatim>\<open>kernel/src/tmpfs.rs\<close>): the inode table stays a tree
    with correct link counts and a correct usage counter; failures change nothing.
  \<^item> \<open>Firewall\<close>, \<open>Firewall_Props\<close> (\<^verbatim>\<open>kernel/src/firewall.rs\<close>): verdicts in closed form, bounds
    of the tables, rate limiting, the order in which tracking and rules are consulted.
  \<^item> \<open>Buddy\<close>, \<open>Buddy_Lists\<close>, \<open>Buddy_Blocks\<close>, \<open>Buddy_Inv\<close>, \<open>Buddy_Props\<close>
    (\<^verbatim>\<open>kernel/src/memory/buddy.rs\<close>): the allocator over lists threaded through physical
    memory; what allocation and freeing do in every reachable state.
  \<^item> \<open>Frames\<close>, \<open>Frames_Props\<close> (\<^verbatim>\<open>kernel/src/memory.rs\<close>): the boot allocator, the hand-over to
    the buddy allocator, the entry points (locale \<open>frame_allocator\<close>), and IPC on top of them.
  \<^item> \<open>Tar\<close> (\<^verbatim>\<open>kernel/src/tar.rs\<close>): reading the boot archive; what was written is read back.
  \<^item> \<open>Shield_Policy\<close> (\<^verbatim>\<open>components/athshield/src/lib.rs\<close>, policies): sandbox policies, the builder,
    the five profiles, and the enforcer's verdict for every kind of request.
  \<^item> \<open>Sandbox\<close> (\<^verbatim>\<open>kernel/src/sandbox.rs\<close>, the head of \<^verbatim>\<open>syscall_handler_inner\<close> in \<^verbatim>\<open>syscall.rs\<close>):
    per-task levels and grants, the classes of system calls, the gate. In every reachable
    state a call goes through exactly when the caller's level or grants allow its class.
  \<^item> \<open>Manifest\<close> (\<^verbatim>\<open>kernel/src/rae_manifest.rs\<close>): the manifest parser, the lookup of a bundle in the
    boot archive with its hash and signature checks, and the assignment of a level at spawn,
    which composes \<open>Tar\<close>, \<open>Sandbox\<close> and the enforcer of \<open>Shield_Policy\<close>.
  \<^item> \<open>Shield_Sign\<close> (\<^verbatim>\<open>components/athshield/src/lib.rs\<close>, code signing): the component's SHA-256,
    certificates, chains, revocation lists and signature verification in closed form.
  \<^item> \<open>Shield_Audit\<close> (the audit log of the same file): the ring refines the last events of an
    unbounded history (locale \<open>bounded_history\<close>); queries and alert rules on top of it.
  \<^item> \<open>Shield_Context\<close> (contexts, labels, attestation and the manager of the same file): every
    access is mediated by the label policy and the enforcer, every denial is logged.
  \<^item> \<open>Bytes\<close>: little and big endian encodings of machine integers and their round trips.
  \<^item> \<open>Delta\<close> (binary deltas of \<^verbatim>\<open>components/ath_diff/src/lib.rs\<close>, the wire format in
    \<^verbatim>\<open>components/athupdate/src/transactional.rs\<close>): a delta applied to its base gives the new
    bytes; the decoder accepts exactly what the encoder writes.
  \<^item> \<open>Diff_Lines\<close> (line diffs of \<^verbatim>\<open>ath_diff\<close>): the Myers search over a vector indexed by
    diagonals, backtracking through its snapshots, the edit script. No index is out of range,
    and the script turns the old text into the new one.
  \<^item> \<open>Diff_Unified\<close> (unified diffs of \<^verbatim>\<open>ath_diff\<close>): grouping into hunks, printing, parsing and
    applying patches; what is printed parses and applies.
  \<^item> \<open>Update_Version\<close>, \<open>Update_Txn\<close> (\<^verbatim>\<open>components/athupdate/src\<close>, versions and
    \<^verbatim>\<open>transactional.rs\<close>): the order of versions, signed payloads, the session state machine. The
    running slot is never written, the boot loader is pointed only at authentic images, and
    what the signature leaves open is exhibited.
  \<^item> \<open>Update_Resolve\<close>, \<open>Update_Manager\<close>, \<open>Update_Props\<close> (\<^verbatim>\<open>components/athupdate/src/lib.rs\<close>):
    dependency resolution by two nested depth-first searches, repositories, delta chains,
    transactions, downloads, hooks, snapshots, partitions, kernels, upgrades and the manager.
    Installation orders are topological, downloads are verified and bounded, the transaction
    log is a bounded history, delta chains connect when the search ends.

  \<^bold>\<open>Loops and bounds.\<close> Revocation runs its worklist with \<open>while_option\<close> and the theorems prove
  that it ends. Adding a range to the buddy allocator is a \<open>partial_function\<close> into options,
  proved to return on the ranges the kernel adds; merging and splitting recurse on the order.
  Memory is bounded by two to the power 40 frames, which the bitmap of the source exceeds on
  no machine it supports. The archive reader and the hash recurse on the bytes left. The
  audit log is bounded by the counter of its events (64 bits) and by a capacity below two to
  the power 63, which no allocation of the source reaches. The two searches of the
  dependency resolver are functions whose termination follows from lemmas on their domain:
  every nested call leaves fewer names to visit. The search for a delta chain is a
  \<open>partial_function\<close> into options; when it returns is a theorem, and so is that it may not.
  The loop that prints hunks is a \<open>partial_function\<close> too, proved to return for every number of
  context lines below two to the power 62 and not to return for the largest one.
  The loops of the line diff are functions on integers as wide as they get; indices are
  converted and checked as in the source.

  \<^bold>\<open>Parameters.\<close> Ed25519 signing and verification, the SHA-256 of the kernel and of the update system, the boot volume, the
  clock, the number of the running CPU, the addresses of assembler labels, the surfaces of the
  compositor, the page tables of the \<^verbatim>\<open>x86_64\<close> crate, the devices found on the PCI bus and the memory map the boot loader passes are
  arguments; the theorems hold for every value of them, or under a
  hypothesis that the statement names. The direct map of physical memory is total.

  \<^bold>\<open>Not modelled.\<close> Device drivers, the compositor and all user interface code, the network
  stack, AthFS, page tables, scheduling policy, the remaining system calls, the applications
  and the media and compatibility libraries; they are hardware access, presentation, or
  components whose state does not meet the ones modelled here. Boot-time self tests and the
  text of the \<^verbatim>\<open>/proc\<close> files are left out everywhere. Atomic counters used only for reports
  are modelled where a check reads them.
\<close>

end
